(* ===== verification/Prelude.thy ===== *)
theory Prelude
  imports Main "HOL-Library.Word"
begin

text \<open>
  The vocabulary every component theory shares: what a Go function can do besides
  returning a value, and the string and number functions of Go's standard library
  that the repository calls.

  A Go string is a sequence of bytes, here a \<^typ>\<open>string\<close>. A call that can panic returns
  a value of type \<open>'a go\<close>; a call with an error result returns a sum whose left side
  is the error.
\<close>

named_theorems go_simps \<open>unfolding the standard library functions of the model\<close>

section \<open>Calls that may panic\<close>

datatype 'a go = Ret 'a | Panic string

definition go_bind :: "'a go \<Rightarrow> ('a \<Rightarrow> 'b go) \<Rightarrow> 'b go" where
  "go_bind m f = (case m of Ret a \<Rightarrow> f a | Panic p \<Rightarrow> Panic p)"

lemma go_bind_simps [simp]:
  "go_bind (Ret a) f = f a"
  "go_bind (Panic p) f = Panic p"
  by (simp_all add: go_bind_def)

lemma go_bind_eq_Ret: "go_bind m f = Ret b \<longleftrightarrow> (\<exists>a. m = Ret a \<and> f a = Ret b)"
  by (cases m) simp_all

text \<open>Reading an element of a slice by its index.\<close>

definition go_index :: "'a list \<Rightarrow> nat \<Rightarrow> 'a go" where
  "go_index xs i = (if i < length xs then Ret (xs ! i) else Panic ''runtime error: index out of range'')"

lemma go_index_drop: "go_index xs i = (case drop i xs of [] \<Rightarrow> Panic ''runtime error: index out of range'' | x # _ \<Rightarrow> Ret x)"
  by (cases "i < length xs") (simp_all add: go_index_def Cons_nth_drop_Suc [symmetric])

section \<open>Results with an error\<close>

definition res_bind :: "'e + 'a \<Rightarrow> ('a \<Rightarrow> 'e + 'b) \<Rightarrow> 'e + 'b" where
  "res_bind m f = (case m of Inl e \<Rightarrow> Inl e | Inr a \<Rightarrow> f a)"

lemma res_bind_simps [simp]:
  "res_bind (Inl e) f = Inl e"
  "res_bind (Inr a) f = f a"
  by (simp_all add: res_bind_def)

lemma res_bind_eq_Inr: "res_bind m f = Inr b \<longleftrightarrow> (\<exists>a. m = Inr a \<and> f a = Inr b)"
  by (cases m) simp_all

lemma res_bind_eq_Inl:
  "res_bind m f = Inl e \<longleftrightarrow> m = Inl e \<or> (\<exists>a. m = Inr a \<and> f a = Inl e)"
  by (cases m) simp_all

text \<open>
  A loop that collects one result per element and returns at the first error.
\<close>

fun collect :: "('a \<Rightarrow> 'e + 'b) \<Rightarrow> 'a list \<Rightarrow> 'e + 'b list" where
  "collect f [] = Inr []"
| "collect f (x # xs) =
     (case f x of Inl e \<Rightarrow> Inl e
      | Inr y \<Rightarrow> (case collect f xs of Inl e \<Rightarrow> Inl e | Inr ys \<Rightarrow> Inr (y # ys)))"

lemma collect_eq_Inr: "collect f xs = Inr ys \<longleftrightarrow> list_all2 (\<lambda>x y. f x = Inr y) xs ys"
proof (induction xs arbitrary: ys)
  case Nil
  then show ?case by (cases ys) auto
next
  case (Cons x xs)
  show ?case
  proof (cases "f x")
    case (Inl e)
    then show ?thesis by (simp add: list_all2_Cons1)
  next
    case (Inr y)
    then show ?thesis
      using Cons.IH by (cases "collect f xs") (auto simp: list_all2_Cons1)
  qed
qed

lemma collect_length: "collect f xs = Inr ys \<Longrightarrow> length ys = length xs"
  by (auto simp: collect_eq_Inr dest: list_all2_lengthD)

lemma collect_append:
  "collect f (xs @ ys) =
     (case collect f xs of Inl e \<Rightarrow> Inl e
      | Inr us \<Rightarrow> (case collect f ys of Inl e \<Rightarrow> Inl e | Inr vs \<Rightarrow> Inr (us @ vs)))"
  by (induction xs) (auto split: sum.splits)

lemma collect_Inl_mem: "collect f xs = Inl e \<Longrightarrow> \<exists>x \<in> set xs. f x = Inl e"
  by (induction xs) (auto split: sum.splits)

lemma collect_cong [fundef_cong]:
  "xs = ys \<Longrightarrow> (\<And>x. x \<in> set ys \<Longrightarrow> f x = g x) \<Longrightarrow> collect f xs = collect g ys"
proof (induction xs arbitrary: ys)
  case Nil
  then show ?case by simp
next
  case (Cons x xs)
  then obtain ys' where ys: "ys = x # ys'" "xs = ys'" by auto
  with Cons.prems have "f x = g x" by simp
  moreover from Cons.IH [OF ys(2)] Cons.prems ys have "collect f xs = collect g ys'" by simp
  ultimately show ?case using ys by (simp split: sum.split)
qed

section \<open>Strings\<close>

definition strings_HasPrefix :: "string \<Rightarrow> string \<Rightarrow> bool" where
  [go_simps]: "strings_HasPrefix s p \<longleftrightarrow> take (length p) s = p"

definition strings_TrimPrefix :: "string \<Rightarrow> string \<Rightarrow> string" where
  [go_simps]: "strings_TrimPrefix s p = (if strings_HasPrefix s p then drop (length p) s else s)"

definition strings_CutPrefix :: "string \<Rightarrow> string \<Rightarrow> string \<times> bool" where
  [go_simps]: "strings_CutPrefix s p =
     (if strings_HasPrefix s p then (drop (length p) s, True) else (s, False))"

definition strings_CutSuffix :: "string \<Rightarrow> string \<Rightarrow> string \<times> bool" where
  [go_simps]: "strings_CutSuffix s p =
     (if length p \<le> length s \<and> drop (length s - length p) s = p
      then (take (length s - length p) s, True) else (s, False))"

text \<open>\<open>strings.ContainsAny\<close>, for a set of ASCII characters.\<close>

definition strings_ContainsAny :: "string \<Rightarrow> string \<Rightarrow> bool" where
  [go_simps]: "strings_ContainsAny s cs \<longleftrightarrow> list_ex (\<lambda>c. List.member cs c) s"

text \<open>\<open>strings.TrimLeft\<close>, for a set of ASCII characters.\<close>

definition strings_TrimLeft :: "string \<Rightarrow> string \<Rightarrow> string" where
  [go_simps]: "strings_TrimLeft s cs = dropWhile (\<lambda>c. List.member cs c) s"

text \<open>\<open>strings.Cut\<close> and \<open>strings.Split\<close>, for a separator of one character.\<close>

definition strings_Cut :: "string \<Rightarrow> char \<Rightarrow> string \<times> string \<times> bool" where
  [go_simps]: "strings_Cut s c =
     (if List.member s c
      then (takeWhile (\<lambda>x. x \<noteq> c) s, tl (dropWhile (\<lambda>x. x \<noteq> c) s), True)
      else (s, [], False))"

fun strings_Split :: "string \<Rightarrow> char \<Rightarrow> string list" where
  "strings_Split [] c = [[]]"
| "strings_Split (x # xs) c =
     (if x = c then [] # strings_Split xs c
      else (case strings_Split xs c of [] \<Rightarrow> [[x]] | y # ys \<Rightarrow> (x # y) # ys))"

fun strings_Join :: "string list \<Rightarrow> string \<Rightarrow> string" where
  "strings_Join [] sep = []"
| "strings_Join [x] sep = x"
| "strings_Join (x # y # ys) sep = x @ sep @ strings_Join (y # ys) sep"

lemma HasPrefix_append [simp]: "strings_HasPrefix (p @ s) p"
  by (simp add: go_simps)

lemma HasPrefix_iff: "strings_HasPrefix s p \<longleftrightarrow> (\<exists>r. s = p @ r)"
proof
  assume "strings_HasPrefix s p"
  then have "s = p @ drop (length p) s"
    by (metis append_take_drop_id strings_HasPrefix_def)
  then show "\<exists>r. s = p @ r" ..
qed auto

lemma HasPrefix_Cons_singleton [simp]: "strings_HasPrefix (x # s) [c] \<longleftrightarrow> x = c"
  by (simp add: go_simps)

lemma HasPrefix_Nil_singleton [simp]: "\<not> strings_HasPrefix [] [c]"
  by (simp add: go_simps)

lemma TrimPrefix_append [simp]: "strings_TrimPrefix (p @ s) p = s"
  by (simp add: strings_TrimPrefix_def)

lemma TrimPrefix_Cons [simp]: "strings_TrimPrefix (c # s) [c] = s"
  by (simp add: go_simps)

lemma CutSuffix_append [simp]: "strings_CutSuffix (s @ p) p = (s, True)"
  by (simp add: go_simps)

lemma CutSuffix_True: "strings_CutSuffix s p = (r, True) \<longleftrightarrow> s = r @ p"
proof
  assume "strings_CutSuffix s p = (r, True)"
  then have "r = take (length s - length p) s" "drop (length s - length p) s = p"
    by (auto simp: go_simps split: if_splits)
  then show "s = r @ p" by (metis append_take_drop_id)
qed simp

lemma ContainsAny_iff: "strings_ContainsAny s cs \<longleftrightarrow> (\<exists>c \<in> set s. c \<in> set cs)"
  by (simp add: strings_ContainsAny_def list_ex_iff)

lemma Split_not_Nil [simp]: "strings_Split s c \<noteq> []"
  by (induction s) (auto split: list.splits)

lemma Split_no_sep: "c \<notin> set s \<Longrightarrow> strings_Split s c = [s]"
  by (induction s) auto

lemma Split_append_sep:
  "c \<notin> set x \<Longrightarrow> strings_Split (x @ c # s) c = x # strings_Split s c"
  by (induction x) auto

lemma Split_parts_no_sep: "p \<in> set (strings_Split s c) \<Longrightarrow> c \<notin> set p"
  by (induction s arbitrary: p) (auto split: if_splits list.splits)

lemma Join_Split: "strings_Join (strings_Split s c) [c] = s"
proof (induction s)
  case Nil
  then show ?case by simp
next
  case (Cons x s)
  obtain y ys where y: "strings_Split s c = y # ys"
    by (cases "strings_Split s c") auto
  show ?case
  proof (cases "x = c")
    case True
    then show ?thesis using Cons y by simp
  next
    case False
    then show ?thesis using Cons y by (cases ys) auto
  qed
qed

lemma Split_Join:
  "xs \<noteq> [] \<Longrightarrow> \<forall>x \<in> set xs. c \<notin> set x \<Longrightarrow> strings_Split (strings_Join xs [c]) c = xs"
  by (induction xs "[c]" rule: strings_Join.induct)
     (auto simp: Split_no_sep Split_append_sep)

section \<open>Numbers as text\<close>

text \<open>\<open>strconv.ParseUint(s, 10, bits)\<close>: digits only, at least one, and a value below \<open>2 ^ bits\<close>.\<close>

definition digit_value :: "char \<Rightarrow> nat option" where
  "digit_value c =
     (if 48 \<le> (of_char c :: nat) \<and> (of_char c :: nat) \<le> 57 then Some (of_char c - 48) else None)"

fun parse_digits :: "nat \<Rightarrow> string \<Rightarrow> nat option" where
  "parse_digits n [] = Some n"
| "parse_digits n (c # cs) =
     (case digit_value c of None \<Rightarrow> None | Some d \<Rightarrow> parse_digits (10 * n + d) cs)"

definition strconv_ParseUint :: "string \<Rightarrow> nat \<Rightarrow> 64 word option" where
  "strconv_ParseUint s bits =
     (if s = [] then None
      else case parse_digits 0 s of None \<Rightarrow> None
           | Some n \<Rightarrow> if n < 2 ^ bits then Some (of_nat n) else None)"

text \<open>The decimal text of a number, as \<open>strconv.Itoa\<close> and the database write it.\<close>

definition digit_char :: "nat \<Rightarrow> char" where
  "digit_char d = char_of (48 + d)"

fun strconv_Itoa :: "nat \<Rightarrow> string" where
  "strconv_Itoa n =
     (if n < 10 then [digit_char n] else strconv_Itoa (n div 10) @ [digit_char (n mod 10)])"

declare strconv_Itoa.simps [simp del]

lemma digit_value_digit_char [simp]: "d < 10 \<Longrightarrow> digit_value (digit_char d) = Some d"
  by (simp add: digit_value_def digit_char_def)

lemma parse_digits_append:
  "parse_digits n (xs @ ys) =
     (case parse_digits n xs of None \<Rightarrow> None | Some m \<Rightarrow> parse_digits m ys)"
  by (induction xs arbitrary: n) (auto split: option.splits)

lemma parse_digits_Itoa: "parse_digits 0 (strconv_Itoa n) = Some n"
proof (induction n rule: strconv_Itoa.induct)
  case (1 n)
  show ?case
  proof (cases "n < 10")
    case True
    then show ?thesis by (simp add: strconv_Itoa.simps [of n])
  next
    case False
    with 1 show ?thesis
      by (simp add: strconv_Itoa.simps [of n] parse_digits_append)
  qed
qed

lemma Itoa_not_Nil [simp]: "strconv_Itoa n \<noteq> []"
  by (subst strconv_Itoa.simps) simp

lemma ParseUint_Itoa: "n < 2 ^ bits \<Longrightarrow> strconv_ParseUint (strconv_Itoa n) bits = Some (of_nat n)"
  by (simp add: strconv_ParseUint_def parse_digits_Itoa)

lemma ParseUint_bound:
  assumes "strconv_ParseUint s bits = Some w" and "bits \<le> 64"
  shows "unat w < 2 ^ bits"
proof -
  from assms(1) obtain n where n: "n < 2 ^ bits" "w = of_nat n"
    by (auto simp: strconv_ParseUint_def split: if_splits option.splits)
  have "(2::nat) ^ bits \<le> 2 ^ 64" using assms(2) by (intro power_increasing) auto
  with n have "n < 2 ^ LENGTH(64)" by simp
  with n show ?thesis by (simp add: unat_of_nat)
qed

text \<open>\<open>cmp.Compare\<close> on unsigned 64-bit integers.\<close>

definition cmp_Compare :: "64 word \<Rightarrow> 64 word \<Rightarrow> int" where
  "cmp_Compare a b = (if a < b then -1 else if a = b then 0 else 1)"

text \<open>
  \<open>strconv.Quote\<close>, which the verb \<open>%q\<close> writes, for ASCII text: a quote and a backslash
  are escaped, control characters by their short names or as \<open>\xNN\<close>.
\<close>

definition hex_digit :: "nat \<Rightarrow> char" where
  "hex_digit d = (if d < 10 then char_of (48 + d) else char_of (87 + d))"

definition quote_char :: "char \<Rightarrow> string" where
  "quote_char c =
     (let n = (of_char c :: nat); bs = char_of (92::nat) in
      if n = 34 then [bs, c] else if n = 92 then [bs, c]
      else if 32 \<le> n \<and> n < 127 then [c]
      else if n = 7 then [bs, CHR ''a''] else if n = 8 then [bs, CHR ''b'']
      else if n = 12 then [bs, CHR ''f''] else if n = 10 then [bs, CHR ''n'']
      else if n = 13 then [bs, CHR ''r''] else if n = 9 then [bs, CHR ''t'']
      else if n = 11 then [bs, CHR ''v'']
      else [bs, CHR ''x'', hex_digit (n div 16), hex_digit (n mod 16)])"

definition strconv_Quote :: "string \<Rightarrow> string" where
  "strconv_Quote s = CHR 0x22 # concat (map quote_char s) @ [CHR 0x22]"

end
