(* ===== verification/Subject.thy ===== *)
theory Subject
  imports Prelude
begin

text \<open>
  Subject schemes (\<open>subject.go\<close>): parsing a pattern, building a subject from values and
  taking one apart again. A segment is a string as in the code; what \<open>NewSubjectScheme\<close>
  guarantees of the segments is the invariant \<open>scheme_ok\<close>.
\<close>

section \<open>The scheme and its parser\<close>

record SubjectScheme =
  pattern :: string
  segments :: "string list"
  placeholders :: "string list"

definition subjectCharacters :: string where
  "subjectCharacters = ''A-Z, a-z, 0-9, underscores, and hyphens''"

definition subject_char :: "char \<Rightarrow> bool" where
  "subject_char c \<longleftrightarrow>
     (let n = (of_char c :: nat) in 65 \<le> n \<and> n \<le> 90 \<or> 97 \<le> n \<and> n \<le> 122 \<or> 48 \<le> n \<and> n \<le> 57)
     \<or> c = CHR ''_'' \<or> c = CHR ''-''"

definition hasOnlySubjectCharacters :: "string \<Rightarrow> bool" where
  "hasOnlySubjectCharacters segment \<longleftrightarrow> list_all subject_char segment"

fun newScheme_loop :: "SubjectScheme \<Rightarrow> string set \<Rightarrow> string list \<Rightarrow> SubjectScheme go" where
  "newScheme_loop scheme seen [] = Ret scheme"
| "newScheme_loop scheme seen (segment # rest) =
     (let quoted = strconv_Quote (pattern scheme); sq = strconv_Quote segment;
          scheme1 = scheme\<lparr>segments := segments scheme @ [segment]\<rparr> in
      if segment = [] then Panic (''architecturekit: subject pattern '' @ quoted @ '' has an empty segment'')
      else if \<not> strings_HasPrefix segment ''{'' then
        if strings_ContainsAny segment ''{}'' then
          Panic (''architecturekit: segment '' @ sq @ '' in '' @ quoted @ '' is malformed'')
        else if \<not> hasOnlySubjectCharacters segment then
          Panic (''architecturekit: segment '' @ sq @ '' in '' @ quoted @ '' may only contain '' @ subjectCharacters)
        else newScheme_loop scheme1 seen rest
      else
        (let (name, isClosed) = strings_CutSuffix (drop 1 segment) ''}'' in
         if \<not> isClosed \<or> strings_ContainsAny name ''{}'' then
           Panic (''architecturekit: segment '' @ sq @ '' in '' @ quoted @ '' is malformed'')
         else if name = [] then Panic (''architecturekit: pattern '' @ quoted @ '' has an unnamed placeholder'')
         else if \<not> hasOnlySubjectCharacters name then
           Panic (''architecturekit: placeholder '' @ strconv_Quote name @ '' in '' @ quoted @ '' may only contain '' @ subjectCharacters)
         else if name \<in> seen then
           Panic (''architecturekit: pattern '' @ quoted @ '' uses the placeholder '' @ strconv_Quote name @ '' twice'')
         else newScheme_loop (scheme1\<lparr>placeholders := placeholders scheme1 @ [name]\<rparr>) (insert name seen) rest))"

definition NewSubjectScheme :: "string \<Rightarrow> SubjectScheme go" where
  "NewSubjectScheme p =
     (if \<not> strings_HasPrefix p ''/'' then
        Panic (''architecturekit: subject pattern '' @ strconv_Quote p @ '' must start with a slash'')
      else newScheme_loop \<lparr>pattern = p, segments = [], placeholders = []\<rparr> {}
             (strings_Split (strings_TrimPrefix p ''/'') (CHR ''/'')))"

section \<open>Operations\<close>

definition Pattern :: "SubjectScheme \<Rightarrow> string" where
  "Pattern s = pattern s"

definition Root :: "SubjectScheme \<Rightarrow> string" where
  "Root s = ''/'' @ strings_Join (takeWhile (\<lambda>segment. \<not> strings_HasPrefix segment ''{'') (segments s)) ''/''"

definition Placeholders :: "SubjectScheme \<Rightarrow> string list" where
  "Placeholders s = placeholders s"

text \<open>The loop of \<open>check\<close> over the values from index \<open>i\<close> on; a \<open>Panic\<close> is an index out of range.\<close>

fun check_loop :: "SubjectScheme \<Rightarrow> string \<Rightarrow> string \<Rightarrow> nat \<Rightarrow> string list \<Rightarrow> string option go" where
  "check_loop s prefix inPattern i [] = Ret None"
| "check_loop s prefix inPattern i (v # vs) =
     (if v = [] then
        go_bind (go_index (placeholders s) i) (\<lambda>name.
          Ret (Some (prefix @ ''value for '' @ strconv_Quote name @ inPattern @ '' must not be empty'')))
      else if \<not> hasOnlySubjectCharacters v then
        go_bind (go_index (placeholders s) i) (\<lambda>name.
          Ret (Some (prefix @ ''value '' @ strconv_Quote v @ '' for '' @ strconv_Quote name @ inPattern @
            '' may only contain '' @ subjectCharacters)))
      else check_loop s prefix inPattern (i + 1) vs)"

definition check :: "SubjectScheme \<Rightarrow> string list \<Rightarrow> bool \<Rightarrow> string option go" where
  "check s values isForDeveloper =
     (if length values \<noteq> length (placeholders s) then
        if isForDeveloper then
          Ret (Some (''architecturekit: pattern '' @ strconv_Quote (pattern s) @ '' needs '' @
            strconv_Itoa (length (placeholders s)) @ '' value(s), got '' @ strconv_Itoa (length values)))
        else Ret (Some (''the subject needs '' @ strconv_Itoa (length (placeholders s)) @ '' value(s), got '' @
            strconv_Itoa (length values)))
      else
        (let (prefix, inPattern) =
           (if isForDeveloper then (''architecturekit: '', '' in '' @ strconv_Quote (pattern s)) else ([], [])) in
         check_loop s prefix inPattern 0 values))"

definition Check :: "SubjectScheme \<Rightarrow> string list \<Rightarrow> string option go" where
  "Check s values = check s values False"

fun build_loop :: "string \<Rightarrow> string list \<Rightarrow> nat \<Rightarrow> string list \<Rightarrow> string go" where
  "build_loop builder values next [] = Ret builder"
| "build_loop builder values next (segment # rest) =
     (if \<not> strings_HasPrefix segment ''{'' then build_loop (builder @ ''/'' @ segment) values next rest
      else go_bind (go_index values next) (\<lambda>v. build_loop (builder @ ''/'' @ v) values (next + 1) rest))"

definition Build :: "SubjectScheme \<Rightarrow> string list \<Rightarrow> string go" where
  "Build s values =
     go_bind (check s values True) (\<lambda>err.
       case err of Some msg \<Rightarrow> Panic msg | None \<Rightarrow> build_loop [] values 0 (segments s))"

text \<open>The loop of \<open>Match\<close> over the segments, each with the part of the subject at its index.\<close>

fun match_loop ::
  "SubjectScheme \<Rightarrow> (string \<rightharpoonup> string) \<Rightarrow> nat \<Rightarrow> (string \<times> string) list \<Rightarrow> (string \<rightharpoonup> string) option go" where
  "match_loop s values next [] = Ret (Some values)"
| "match_loop s values next ((segment, part) # rest) =
     (if \<not> strings_HasPrefix segment ''{'' then
        if part \<noteq> segment then Ret None else match_loop s values next rest
      else if part = [] \<or> \<not> hasOnlySubjectCharacters part then Ret None
      else go_bind (go_index (placeholders s) next) (\<lambda>name. match_loop s (values(name \<mapsto> part)) (next + 1) rest))"

definition Match :: "SubjectScheme \<Rightarrow> string \<Rightarrow> (string \<rightharpoonup> string) option go" where
  "Match s subject =
     (if \<not> strings_HasPrefix subject ''/'' then Ret None
      else
        (let parts = strings_Split (strings_TrimPrefix subject ''/'') (CHR ''/'') in
         if length parts \<noteq> length (segments s) then Ret None
         else match_loop s Map.empty 0 (zip (segments s) parts)))"

text \<open>Looking up a name that the map does not hold yields the empty string in Go.\<close>

definition Value :: "SubjectScheme \<Rightarrow> string \<Rightarrow> string \<Rightarrow> (string \<times> bool) go" where
  "Value s subject placeholder =
     (if placeholder \<notin> set (placeholders s) then
        Panic (''architecturekit: pattern '' @ strconv_Quote (pattern s) @ '' has no placeholder '' @ strconv_Quote placeholder)
      else go_bind (Match s subject) (\<lambda>m.
        case m of None \<Rightarrow> Ret ([], False)
        | Some values \<Rightarrow> Ret ((case values placeholder of Some v \<Rightarrow> v | None \<Rightarrow> []), True)))"

section \<open>The invariant\<close>

definition is_placeholder :: "string \<Rightarrow> bool" where
  "is_placeholder segment \<longleftrightarrow> strings_HasPrefix segment ''{''"

definition value_ok :: "string \<Rightarrow> bool" where
  "value_ok v \<longleftrightarrow> v \<noteq> [] \<and> hasOnlySubjectCharacters v"

definition segment_ok :: "string \<Rightarrow> bool" where
  "segment_ok g \<longleftrightarrow> (if is_placeholder g then \<exists>n. g = ''{'' @ n @ ''}'' \<and> value_ok n else value_ok g)"

definition names :: "string list \<Rightarrow> string list" where
  "names gs = map (\<lambda>g. butlast (tl g)) (filter is_placeholder gs)"

definition scheme_ok :: "SubjectScheme \<Rightarrow> bool" where
  "scheme_ok s \<longleftrightarrow> segments s \<noteq> [] \<and> list_all segment_ok (segments s)
     \<and> placeholders s = names (segments s) \<and> distinct (placeholders s)
     \<and> pattern s = ''/'' @ strings_Join (segments s) ''/''"

lemma names_simps [simp]:
  "names [] = []"
  "names (g # gs) = (if is_placeholder g then butlast (tl g) # names gs else names gs)"
  "names (xs @ ys) = names xs @ names ys"
  by (simp_all add: names_def)

lemma subject_char_plain: "subject_char c \<Longrightarrow> c \<noteq> CHR ''/'' \<and> c \<noteq> CHR ''{'' \<and> c \<noteq> CHR ''}''"
  by (auto simp: subject_char_def)

lemma value_ok_plain: "value_ok v \<Longrightarrow> CHR ''/'' \<notin> set v \<and> CHR ''{'' \<notin> set v \<and> CHR ''}'' \<notin> set v"
  using subject_char_plain by (auto simp: value_ok_def hasOnlySubjectCharacters_def list_all_iff)

lemma value_not_placeholder: "value_ok v \<Longrightarrow> \<not> is_placeholder v"
  using value_ok_plain [of v] by (cases v) (auto simp: is_placeholder_def)

lemma segment_ok_plain: "segment_ok g \<Longrightarrow> CHR ''/'' \<notin> set g"
  using value_ok_plain by (auto simp: segment_ok_def split: if_splits)

lemma ContainsAny_value: "value_ok v \<Longrightarrow> \<not> strings_ContainsAny v ''{}''"
  using value_ok_plain by (auto simp: ContainsAny_iff)

text \<open>One step of the parser, on a literal and on a placeholder that are in order.\<close>

lemma newScheme_loop_literal:
  "value_ok g \<Longrightarrow> newScheme_loop s seen (g # gs) = newScheme_loop (s\<lparr>segments := segments s @ [g]\<rparr>) seen gs"
  using value_not_placeholder ContainsAny_value
  by (simp add: Let_def is_placeholder_def) (simp add: value_ok_def)

lemma newScheme_loop_placeholder:
  "value_ok n \<Longrightarrow> n \<notin> seen \<Longrightarrow> newScheme_loop s seen ((''{'' @ n @ ''}'') # gs) =
     newScheme_loop (s\<lparr>segments := segments s @ [''{'' @ n @ ''}''], placeholders := placeholders s @ [n]\<rparr>) (insert n seen) gs"
  using ContainsAny_value by (simp add: Let_def) (simp add: value_ok_def)

lemma newScheme_loop_step:
  assumes "newScheme_loop s seen (g # gs) = Ret s'"
  obtains "value_ok g" "newScheme_loop (s\<lparr>segments := segments s @ [g]\<rparr>) seen gs = Ret s'"
  | n where "g = ''{'' @ n @ ''}''" "value_ok n" "n \<notin> seen"
      "newScheme_loop (s\<lparr>segments := segments s @ [g], placeholders := placeholders s @ [n]\<rparr>) (insert n seen) gs = Ret s'"
proof (cases "is_placeholder g")
  case False
  then show ?thesis using assms that(1)
    by (simp add: Let_def is_placeholder_def value_ok_def split: if_splits)
next
  case True
  obtain n c where nc: "strings_CutSuffix (drop 1 g) ''}'' = (n, c)" by fastforce
  with assms True have ok: "c" "value_ok n" "n \<notin> seen"
      "newScheme_loop (s\<lparr>segments := segments s @ [g], placeholders := placeholders s @ [n]\<rparr>) (insert n seen) gs = Ret s'"
    by (simp_all add: Let_def is_placeholder_def value_ok_def split: if_splits)
  from nc ok(1) have "drop 1 g = n @ ''}''" by (simp add: CutSuffix_True)
  moreover from True obtain r where "g = CHR ''{'' # r" by (auto simp: is_placeholder_def HasPrefix_iff)
  ultimately have "g = ''{'' @ n @ ''}''" by simp
  then show ?thesis using ok that(2) by blast
qed

lemma newScheme_loop_Ret:
  "newScheme_loop s seen gs = Ret s' \<Longrightarrow> distinct (placeholders s) \<Longrightarrow> seen = set (placeholders s) \<Longrightarrow>
     list_all segment_ok gs \<and> s' = s\<lparr>segments := segments s @ gs, placeholders := placeholders s @ names gs\<rparr>
     \<and> distinct (placeholders s')"
proof (induction gs arbitrary: s seen)
  case Nil
  then show ?case by simp
next
  case (Cons g gs)
  from Cons.prems(1) show ?case
  proof (cases rule: newScheme_loop_step)
    case 1
    from Cons.IH [OF 1(2)] Cons.prems(2,3) have
      "list_all segment_ok gs" "s' = s\<lparr>segments := segments s @ g # gs, placeholders := placeholders s @ names gs\<rparr>"
      "distinct (placeholders s')" by auto
    moreover have "segment_ok g" using 1(1) value_not_placeholder [OF 1(1)] by (simp add: segment_ok_def)
    ultimately show ?thesis using value_not_placeholder [OF 1(1)] by simp
  next
    case (2 n)
    from Cons.IH [OF 2(4)] Cons.prems(2,3) 2(3) have
      "list_all segment_ok gs"
      "s' = s\<lparr>segments := segments s @ g # gs, placeholders := placeholders s @ n # names gs\<rparr>"
      "distinct (placeholders s')" by auto
    moreover have "is_placeholder g" "butlast (tl g) = n" using 2(1) by (simp_all add: is_placeholder_def)
    moreover from this have "segment_ok g" using 2(1,2) by (auto simp: segment_ok_def)
    ultimately show ?thesis by simp
  qed
qed

lemma newScheme_loop_complete:
  "list_all segment_ok gs \<Longrightarrow> distinct (names gs) \<Longrightarrow> set (names gs) \<inter> seen = {} \<Longrightarrow>
     \<exists>s'. newScheme_loop s seen gs = Ret s'"
proof (induction gs arbitrary: s seen)
  case Nil
  then show ?case by simp
next
  case (Cons g gs)
  show ?case
  proof (cases "is_placeholder g")
    case False
    with Cons.prems have "value_ok g" by (simp add: segment_ok_def)
    with Cons False show ?thesis by (simp add: newScheme_loop_literal del: newScheme_loop.simps)
  next
    case True
    with Cons.prems obtain n where n: "g = ''{'' @ n @ ''}''" "value_ok n" by (auto simp: segment_ok_def)
    with Cons.prems True have "n \<notin> seen" "n \<notin> set (names gs)" by auto
    then show ?thesis
      unfolding n(1) newScheme_loop_placeholder [OF n(2) \<open>n \<notin> seen\<close>]
      using Cons.IH [of "insert n seen"] Cons.prems True by (simp del: newScheme_loop.simps)
  qed
qed

lemma NewSubjectScheme_ok: "NewSubjectScheme p = Ret s \<Longrightarrow> scheme_ok s \<and> pattern s = p"
proof -
  assume new: "NewSubjectScheme p = Ret s"
  then obtain r where p: "p = CHR ''/'' # r"
    by (auto simp: NewSubjectScheme_def HasPrefix_iff split: if_splits)
  with new have "newScheme_loop \<lparr>pattern = p, segments = [], placeholders = []\<rparr> {} (strings_Split r (CHR ''/'')) = Ret s"
    by (simp add: NewSubjectScheme_def)
  from newScheme_loop_Ret [OF this] p show ?thesis
    by (auto simp: scheme_ok_def Join_Split)
qed

section \<open>Filling the placeholders\<close>

text \<open>The parts of the subject that some values make of the segments.\<close>

fun fill :: "string list \<Rightarrow> string list \<Rightarrow> string list" where
  "fill [] vs = []"
| "fill (g # gs) vs = (if is_placeholder g then hd vs # fill gs (tl vs) else g # fill gs vs)"

definition compose :: "string list \<Rightarrow> string" where
  "compose parts = concat (map (\<lambda>p. CHR ''/'' # p) parts)"

lemma compose_simps [simp]:
  "compose [] = []" "compose (p # ps) = CHR ''/'' # p @ compose ps" "compose (xs @ ys) = compose xs @ compose ys"
  by (simp_all add: compose_def)

lemma compose_Join: "ps \<noteq> [] \<Longrightarrow> compose ps = CHR ''/'' # strings_Join ps ''/''"
  by (induction ps "''/''" rule: strings_Join.induct) simp_all

lemma length_fill [simp]: "length (fill gs vs) = length gs"
  by (induction gs arbitrary: vs) auto

lemma fill_parts:
  "list_all segment_ok gs \<Longrightarrow> list_all value_ok vs \<Longrightarrow> length vs = length (names gs) \<Longrightarrow> list_all value_ok (fill gs vs)"
proof (induction gs arbitrary: vs)
  case (Cons g gs)
  then show ?case by (cases vs) (auto simp: segment_ok_def)
qed simp

lemma build_loop_fill:
  "length vs = next + length (names gs) \<Longrightarrow> build_loop b vs next gs = Ret (b @ compose (fill gs (drop next vs)))"
proof (induction gs arbitrary: b "next")
  case Nil
  then show ?case by simp
next
  case (Cons g gs)
  show ?case
  proof (cases "is_placeholder g")
    case False
    with Cons show ?thesis by (simp add: is_placeholder_def)
  next
    case True
    with Cons.prems have "next < length vs" by simp
    then have "go_index vs next = Ret (vs ! next)" "drop next vs = vs ! next # drop (Suc next) vs"
      by (simp_all add: go_index_def Cons_nth_drop_Suc)
    with True Cons show ?thesis by (simp add: is_placeholder_def)
  qed
qed

lemma check_loop_None:
  "i + length vs = length (placeholders s) \<Longrightarrow>
     if list_all value_ok vs then check_loop s pre inP i vs = Ret None else \<exists>m. check_loop s pre inP i vs = Ret (Some m)"
  by (induction vs arbitrary: i) (auto simp: value_ok_def go_index_def)

lemma check_cases:
  "if length vs = length (placeholders s) \<and> list_all value_ok vs then check s vs dev = Ret None
   else \<exists>m. check s vs dev = Ret (Some m)"
  using check_loop_None [of 0 vs s] by (auto simp: check_def)

lemma Build_Ret:
  assumes "scheme_ok s"
  shows "Build s vs = Ret subject \<longleftrightarrow>
     length vs = length (placeholders s) \<and> list_all value_ok vs \<and> subject = compose (fill (segments s) vs)"
  using check_cases [of vs s True] assms build_loop_fill [of vs 0 "segments s" "[]"]
  by (auto simp: Build_def scheme_ok_def split: if_splits)

lemma Split_compose:
  assumes "ps \<noteq> []" and "\<forall>p \<in> set ps. CHR ''/'' \<notin> set p"
  shows "strings_HasPrefix (compose ps) ''/''"
    and "strings_Split (strings_TrimPrefix (compose ps) ''/'') (CHR ''/'') = ps"
  using assms by (simp_all add: compose_Join Split_Join)

section \<open>Taking a subject apart\<close>

lemma match_loop_fill:
  "list_all segment_ok gs \<Longrightarrow> placeholders s = pre @ names gs \<Longrightarrow> length parts = length gs \<Longrightarrow>
     match_loop s m (length pre) (zip gs parts) = Ret (Some m') \<longleftrightarrow>
     (\<exists>vs. length vs = length (names gs) \<and> list_all value_ok vs \<and> parts = fill gs vs \<and> m' = m(names gs [\<mapsto>] vs))"
proof (induction gs arbitrary: pre parts m)
  case Nil
  then show ?case by auto
next
  case (Cons g gs)
  then obtain p ps where p: "parts = p # ps" "length ps = length gs" by (cases parts) auto
  show ?case
  proof (cases "is_placeholder g")
    case False
    with Cons.IH [of pre ps m] Cons.prems p show ?thesis by (auto simp: is_placeholder_def)
  next
    case True
    then have ph: "placeholders s = (pre @ [butlast (tl g)]) @ names gs"
      using Cons.prems by simp
    then have idx: "go_index (placeholders s) (length pre) = Ret (butlast (tl g))"
      by (simp add: go_index_def nth_append)
    have step: "match_loop s m (length pre) (zip (g # gs) parts) = Ret (Some m') \<longleftrightarrow>
        value_ok p \<and> match_loop s (m(butlast (tl g) \<mapsto> p)) (length (pre @ [butlast (tl g)])) (zip gs ps) = Ret (Some m')"
      using True idx p by (auto simp: is_placeholder_def value_ok_def)
    have ex: "(\<exists>vs. length vs = length (names (g # gs)) \<and> list_all value_ok vs \<and> parts = fill (g # gs) vs
          \<and> m' = m(names (g # gs) [\<mapsto>] vs)) \<longleftrightarrow>
        value_ok p \<and> (\<exists>vs. length vs = length (names gs) \<and> list_all value_ok vs \<and> ps = fill gs vs
          \<and> m' = (m(butlast (tl g) \<mapsto> p))(names gs [\<mapsto>] vs))"
      (is "?L \<longleftrightarrow> ?R")
    proof
      assume ?L
      then obtain v vs where "length vs = length (names gs)" "list_all value_ok (v # vs)" "parts = v # fill gs vs"
          "m' = m(names (g # gs) [\<mapsto>] (v # vs))"
        using True by (auto simp: length_Suc_conv)
      then show ?R using True p by auto
    next
      assume ?R
      then obtain vs where "length vs = length (names gs)" "list_all value_ok (p # vs)" "ps = fill gs vs"
          "m' = (m(butlast (tl g) \<mapsto> p))(names gs [\<mapsto>] vs)" by auto
      then show ?L using True p by (intro exI [of _ "p # vs"]) simp
    qed
    have gs: "list_all segment_ok gs" using Cons.prems(1) by simp
    show ?thesis unfolding step ex Cons.IH [OF gs ph p(2)] by (rule refl)
  qed
qed

lemma Match_Some:
  assumes "scheme_ok s"
  shows "Match s subject = Ret (Some m) \<longleftrightarrow>
     (\<exists>vs. Build s vs = Ret subject \<and> m = [placeholders s [\<mapsto>] vs])"
proof -
  note ok = assms [unfolded scheme_ok_def]
  have one: "strings_HasPrefix subject ''/'' \<and> strings_Split (strings_TrimPrefix subject ''/'') (CHR ''/'') = fill (segments s) vs
      \<longleftrightarrow> subject = compose (fill (segments s) vs)"
    if vs: "length vs = length (placeholders s)" "list_all value_ok vs" for vs
  proof -
    have ne: "fill (segments s) vs \<noteq> []" using ok length_fill [of "segments s" vs] by (metis length_0_conv)
    have "list_all value_ok (fill (segments s) vs)" using fill_parts ok vs by auto
    then have "\<forall>p \<in> set (fill (segments s) vs). CHR ''/'' \<notin> set p"
      using value_ok_plain by (auto simp: list_all_iff)
    note split = Split_compose [OF ne this]
    show ?thesis
    proof
      assume h: "strings_HasPrefix subject ''/'' \<and> strings_Split (strings_TrimPrefix subject ''/'') (CHR ''/'') = fill (segments s) vs"
      then obtain r where "subject = CHR ''/'' # r" by (auto simp: HasPrefix_iff)
      with h have "subject = CHR ''/'' # strings_Join (fill (segments s) vs) ''/''"
        using Join_Split [of r "CHR ''/''"] by simp
      with ne show "subject = compose (fill (segments s) vs)" by (simp add: compose_Join)
    qed (simp add: split)
  qed
  let ?parts = "strings_Split (strings_TrimPrefix subject ''/'') (CHR ''/'')"
  have "Match s subject = Ret (Some m) \<longleftrightarrow> strings_HasPrefix subject ''/'' \<and> length ?parts = length (segments s)
      \<and> match_loop s Map.empty 0 (zip (segments s) ?parts) = Ret (Some m)"
    by (auto simp: Match_def Let_def)
  also have "\<dots> \<longleftrightarrow> strings_HasPrefix subject ''/'' \<and> (\<exists>vs. length vs = length (placeholders s) \<and> list_all value_ok vs
      \<and> ?parts = fill (segments s) vs \<and> m = [placeholders s [\<mapsto>] vs])"
    using match_loop_fill [of "segments s" s "[]" ?parts Map.empty m] ok by (auto simp del: match_loop.simps)
  also have "\<dots> \<longleftrightarrow> (\<exists>vs. Build s vs = Ret subject \<and> m = [placeholders s [\<mapsto>] vs])"
    unfolding Build_Ret [OF assms] using one by blast
  finally show ?thesis .
qed

text \<open>\<open>Match\<close> never runs out of placeholders.\<close>

lemma match_loop_total:
  "placeholders s = pre @ names gs \<Longrightarrow> \<exists>r. match_loop s m (length pre) (zip gs parts) = Ret r"
proof (induction gs arbitrary: pre parts m)
  case Nil
  then show ?case by simp
next
  case (Cons g gs)
  show ?case
  proof (cases parts)
    case Nil
    then show ?thesis by simp
  next
    case (Cons p ps)
    show ?thesis
    proof (cases "is_placeholder g")
      case False
      with Cons Cons.IH [of pre m ps] Cons.prems show ?thesis by (simp add: is_placeholder_def)
    next
      case True
      then have ph: "placeholders s = (pre @ [butlast (tl g)]) @ names gs" using Cons.prems by simp
      then have "go_index (placeholders s) (length pre) = Ret (butlast (tl g))"
        by (simp add: go_index_def nth_append)
      moreover obtain r where "match_loop s (m(butlast (tl g) \<mapsto> p)) (Suc (length pre)) (zip gs ps) = Ret r"
        using Cons.IH [OF ph] by fastforce
      ultimately show ?thesis using True Cons by (simp add: is_placeholder_def)
    qed
  qed
qed

lemma Match_total: "scheme_ok s \<Longrightarrow> \<exists>r. Match s subject = Ret r"
  using match_loop_total [of s "[]" "segments s" Map.empty]
  by (auto simp: Match_def Let_def scheme_ok_def)

lemma upds_inject:
  assumes "[xs [\<mapsto>] vs] = [xs [\<mapsto>] ws]" and "distinct xs" and "length vs = length xs" and "length ws = length xs"
  shows "vs = ws"
proof -
  have "map_of (zip (rev xs) (rev vs)) = map_of (zip (rev xs) (rev ws))"
    using assms by (simp add: map_upds_def zip_rev)
  then have "rev vs = rev ws"
    using assms by (intro map_of_zip_inject [of "rev vs" "rev xs" "rev ws"]) simp_all
  then show ?thesis by simp
qed

lemma fill_takeWhile:
  "\<exists>ps. fill gs vs = takeWhile (\<lambda>g. \<not> is_placeholder g) gs @ ps"
  by (induction gs arbitrary: vs) auto

definition lies_under :: "string \<Rightarrow> string \<Rightarrow> bool" where
  "lies_under subject root \<longleftrightarrow> subject = root \<or> (\<exists>r. subject = (if root = ''/'' then ''/'' else root @ ''/'') @ r)"

lemma compose_lies_under: "lies_under (compose (xs @ ys)) (''/'' @ strings_Join xs ''/'')" if "xs @ ys \<noteq> []"
proof (cases "xs = []")
  case True
  then show ?thesis using that by (cases ys) (auto simp: lies_under_def)
next
  case False
  then have "compose xs = ''/'' @ strings_Join xs ''/''" by (simp add: compose_Join)
  moreover have "compose ys = [] \<or> (\<exists>r. compose ys = ''/'' @ r)" by (cases ys) auto
  ultimately show ?thesis by (auto simp: lies_under_def)
qed

section \<open>Properties\<close>

text \<open>
  C29. \<open>NewSubjectScheme\<close> accepts exactly the patterns that are a slash and then segments
  joined by slashes, each a literal of allowed characters or a placeholder in a single pair of
  braces whose name has only allowed characters, with no name used twice; the scheme it
  returns has exactly these segments and names. For any other pattern it panics.
\<close>

theorem NewSubjectScheme_exact:
  "NewSubjectScheme p = Ret s \<longleftrightarrow> scheme_ok s \<and> pattern s = p"
proof
  assume "scheme_ok s \<and> pattern s = p"
  note ok = this [unfolded scheme_ok_def]
  have plain: "\<forall>g \<in> set (segments s). CHR ''/'' \<notin> set g"
    using ok segment_ok_plain by (auto simp: list_all_iff)
  let ?s0 = "\<lparr>pattern = p, segments = [], placeholders = []\<rparr>"
  have new: "NewSubjectScheme p = newScheme_loop ?s0 {} (segments s)"
    using ok Split_Join [OF _ plain] by (auto simp: NewSubjectScheme_def)
  obtain s' where s': "newScheme_loop ?s0 {} (segments s) = Ret s'"
    using newScheme_loop_complete [of "segments s" "{}" ?s0] ok by auto
  then have "segments s' = segments s" "placeholders s' = placeholders s" "pattern s' = pattern s"
    using newScheme_loop_Ret [OF s'] ok by auto
  then have "s' = s" by simp
  with new s' show "NewSubjectScheme p = Ret s" by simp
qed (rule NewSubjectScheme_ok)

text \<open>
  C28. \<open>Build\<close> and \<open>Match\<close> are inverse to each other, for every scheme that
  \<open>NewSubjectScheme\<close> returns: a subject matches if and only if \<open>Build\<close> composes it from some
  values, and then \<open>Match\<close> returns exactly those values under the names of the placeholders;
  and \<open>Match\<close> never panics.
\<close>

theorem Match_iff_Build:
  assumes "NewSubjectScheme p = Ret s"
  shows "(Match s subject = Ret (Some m) \<longleftrightarrow> (\<exists>vs. Build s vs = Ret subject \<and> m = [placeholders s [\<mapsto>] vs]))
    \<and> (Match s subject = Ret None \<longleftrightarrow> (\<nexists>vs. Build s vs = Ret subject))"
proof -
  have ok: "scheme_ok s" using assms by (simp add: NewSubjectScheme_ok)
  obtain r where "Match s subject = Ret r" using Match_total [OF ok] by blast
  then show ?thesis using Match_Some [OF ok, of subject] by (metis go.inject(1) not_None_eq)
qed

theorem Match_iff_Build_witness:
  "\<exists>s. NewSubjectScheme ''/shop/{id}'' = Ret s \<and> (\<exists>m. Match s ''/shop/a1'' = Ret (Some m) \<and> m ''id'' = Some ''a1'')"
proof -
  obtain s where s: "NewSubjectScheme ''/shop/{id}'' = Ret s" and ph: "placeholders s = [''id'']"
    by (simp add: NewSubjectScheme_def Let_def go_simps hasOnlySubjectCharacters_def subject_char_def)
  have "Build s [''a1''] = Ret ''/shop/a1''"
    using s by (auto simp: NewSubjectScheme_def Let_def go_simps hasOnlySubjectCharacters_def subject_char_def
        Build_def check_def go_index_def)
  then have "Match s ''/shop/a1'' = Ret (Some [placeholders s [\<mapsto>] [''a1'']])"
    using Match_iff_Build [OF s] by blast
  with s ph show ?thesis by auto
qed

text \<open>
  \<open>Check\<close> is what \<open>Build\<close> insists on: for a scheme that \<open>NewSubjectScheme\<close> returns,
  \<open>Build\<close> returns a subject if \<open>Check\<close> finds nothing wrong and panics if it does, and \<open>Check\<close>
  itself never panics; a subject that is built lies under the \<open>Root\<close> of the scheme, and
  different values build different subjects.
\<close>

theorem Build_iff_Check:
  assumes "NewSubjectScheme p = Ret s"
  shows "(case Check s vs of
            Panic _ \<Rightarrow> False
          | Ret (Some _) \<Rightarrow> (\<exists>msg. Build s vs = Panic msg)
          | Ret None \<Rightarrow> (\<exists>subject. Build s vs = Ret subject \<and> lies_under subject (Root s)
              \<and> (\<forall>ws. Build s ws = Ret subject \<longrightarrow> ws = vs)))"
proof -
  have ok: "scheme_ok s" using assms by (simp add: NewSubjectScheme_ok)
  show ?thesis
  proof (cases "length vs = length (placeholders s) \<and> list_all value_ok vs")
    case True
    then have build: "Build s vs = Ret (compose (fill (segments s) vs))" using Build_Ret [OF ok] by blast
    have "lies_under (compose (fill (segments s) vs)) (Root s)"
    proof -
      obtain ps where ps: "fill (segments s) vs = takeWhile (\<lambda>g. \<not> is_placeholder g) (segments s) @ ps"
        using fill_takeWhile by blast
      have "takeWhile (\<lambda>g. \<not> is_placeholder g) (segments s) @ ps \<noteq> []"
        using ok length_fill [of "segments s" vs] ps by (metis length_0_conv scheme_ok_def)
      from compose_lies_under [OF this] show ?thesis
        unfolding ps Root_def is_placeholder_def .
    qed
    moreover have "ws = vs" if "Build s ws = Ret (compose (fill (segments s) vs))" for ws
    proof -
      have "Match s (compose (fill (segments s) vs)) = Ret (Some [placeholders s [\<mapsto>] vs])"
        "Match s (compose (fill (segments s) vs)) = Ret (Some [placeholders s [\<mapsto>] ws])"
        using Match_Some [OF ok] build that by blast+
      then have "[placeholders s [\<mapsto>] vs] = [placeholders s [\<mapsto>] ws]" by simp
      moreover have "length ws = length (placeholders s)" using that Build_Ret [OF ok] by blast
      ultimately show ?thesis using True ok upds_inject [of "placeholders s" vs ws] by (auto simp: scheme_ok_def)
    qed
    ultimately show ?thesis using build True check_cases [of vs s False] by (auto simp: Check_def)
  next
    case False
    then have "\<exists>m. Build s vs = Panic m" using check_cases [of vs s True] by (auto simp: Build_def split: if_splits)
    then show ?thesis using False check_cases [of vs s False] by (auto simp: Check_def split: if_splits)
  qed
qed

theorem Build_iff_Check_witness:
  "\<exists>s. NewSubjectScheme ''/shop/{id}'' = Ret s \<and> Check s [''a.1''] \<noteq> Ret None \<and> (\<exists>msg. Build s [''a.1''] = Panic msg)"
proof -
  obtain s where s: "NewSubjectScheme ''/shop/{id}'' = Ret s"
    by (simp add: NewSubjectScheme_def Let_def go_simps hasOnlySubjectCharacters_def subject_char_def)
  have "\<exists>m. Check s [''a.1''] = Ret (Some m)"
    using s by (auto simp: NewSubjectScheme_def Let_def go_simps hasOnlySubjectCharacters_def subject_char_def
        Check_def check_def go_index_def)
  then show ?thesis using Build_iff_Check [OF s, of "[''a.1'']"] s by auto
qed

end
