(* ===== verification/Errors.thy ===== *)
theory Errors
  imports Prelude
begin

text \<open>
  Errors of the kit: the sentinel errors and categories of \<open>error.go\<close>, the way Go wraps
  errors and asks for them with \<open>errors.Is\<close> and \<open>errors.As\<close>, and how
  \<open>database_failure.go\<close> sorts a failure of the database client into a category.

  An error is a tree. \<open>Errorf\<close> is what \<open>fmt.Errorf\<close> returns: pieces of text and the
  operands of its \<open>%w\<close> verbs, which it wraps. The other constructors are the error
  types the repository declares, the error type of the client, and \<open>Custom\<close>, an error
  of the application or of a library that has some text and wraps some errors.
\<close>

section \<open>Sentinel errors\<close>

datatype sentinel =
    ErrDomain | ErrTransient | ErrPermanent | ErrConflict | ErrUnverified | ErrOutcomeUnknown
  | ErrNotARevision | ErrNotCaughtUp | ErrEmptyRange
  | ErrUnauthorized | ErrUnsupportedMediaType | ErrTooLarge | ErrForbidden | ErrMalformed
  | ErrNotFound | ErrNoStore
  | ErrNoItems | ErrTooManyItems
  | ContextCanceled | ContextDeadlineExceeded
  | ClientErrOutcomeUnknown | ClientErrInvalidServerHeader | ClientErrConnectionStalled
  | ClientErrIncompatibleServer
  | AppError string

text \<open>
  The texts of the sentinels. Those of the client are not part of the repository: a
  failure of the client is a \<open>Custom\<close> error that carries its own text and wraps the
  client's sentinel, so the sentinel itself contributes none.
\<close>

fun sentinel_text :: "sentinel \<Rightarrow> string" where
  "sentinel_text ErrDomain = ''domain rule violated''"
| "sentinel_text ErrTransient = ''transient failure''"
| "sentinel_text ErrPermanent = ''permanent failure''"
| "sentinel_text ErrConflict = ''transient failure: a precondition did not hold''"
| "sentinel_text ErrUnverified = ''permanent failure: an event could not be verified''"
| "sentinel_text ErrOutcomeUnknown = ''outcome unknown''"
| "sentinel_text ErrNotARevision = ''not a revision''"
| "sentinel_text ErrNotCaughtUp = ''not caught up''"
| "sentinel_text ErrEmptyRange = ''empty range''"
| "sentinel_text ErrUnauthorized = ''unauthorized''"
| "sentinel_text ErrUnsupportedMediaType = ''unsupported media type''"
| "sentinel_text ErrTooLarge = ''request body too large''"
| "sentinel_text ErrForbidden = ''forbidden''"
| "sentinel_text ErrMalformed = ''malformed request''"
| "sentinel_text ErrNotFound = ''not found''"
| "sentinel_text ErrNoStore = ''httpapi: the API has no store, so it can not execute commands''"
| "sentinel_text ErrNoItems = ''no items''"
| "sentinel_text ErrTooManyItems = ''more than one item''"
| "sentinel_text ContextCanceled = ''context canceled''"
| "sentinel_text ContextDeadlineExceeded = ''context deadline exceeded''"
| "sentinel_text ClientErrOutcomeUnknown = []"
| "sentinel_text ClientErrInvalidServerHeader = []"
| "sentinel_text ClientErrConnectionStalled = []"
| "sentinel_text ClientErrIncompatibleServer = []"
| "sentinel_text (AppError t) = t"

text \<open>A conflict is transient and an unverified event permanent, since they wrap these categories.\<close>

definition sentinel_Is :: "sentinel \<Rightarrow> sentinel \<Rightarrow> bool" where
  "sentinel_Is s t \<longleftrightarrow>
     s = t \<or> s = ErrConflict \<and> t = ErrTransient \<or> s = ErrUnverified \<and> t = ErrPermanent"

section \<open>Errors as trees\<close>

text \<open>
  The codes of the database's answers that the kit tells apart. \<open>NoCode\<close> is the empty
  code, \<open>OtherCode\<close> any code that is not named here.
\<close>

datatype db_code =
    NoCode | CodePreconditionViolated
  | CodeServerShuttingDown | CodeStoreReadOnly | CodeIndexesRebuilding | CodeRestoreInProgress
  | CodeDiskFull | CodeStoreFailed | CodeLicenseInvalid | CodeCapacityExceeded
  | CodeEventSchemaAlreadyRegistered | CodeEventSchemaViolated
  | OtherCode string

text \<open>
  The client's \<open>DBAPIError\<close>. Its details are JSON text, of which the kit decodes the
  member \<open>precondition\<close> alone: \<open>None\<close> is text that can not be decoded, \<open>Some None\<close> an
  object without an index, and \<open>Some (Some i)\<close> one with the index \<open>i\<close>. \<open>ErrorText\<close> is
  what its \<open>Error\<close> function returns.
\<close>

record db_answer =
  Status :: int
  Code :: db_code
  Description :: string
  Details :: "int option option"
  ErrorText :: string

datatype 'e seg = Lit string | W 'e

datatype goerr =
    Sentinel sentinel
  | Errorf "goerr seg list"
  | Joined "goerr list"
  | DomainError string
  | DBAPIError db_answer
  | PanicError string string
  | ApplyFailure string goerr
  | WithoutContextEnd goerr
  | NotRun goerr
  | HttpPanicError string
  | DecodeFailure string "goerr list"
  | Custom string "goerr list"

fun wrapped :: "'e seg list \<Rightarrow> 'e list" where
  "wrapped [] = []"
| "wrapped (Lit s # r) = wrapped r"
| "wrapped (W e # r) = e # wrapped r"

lemma wrapped_size [termination_simp]:
  "e \<in> set (wrapped segs) \<Longrightarrow> size e < Suc (size_list (size_seg size) segs)"
  by (induction segs rule: wrapped.induct) auto

lemma wrapped_append [simp]: "wrapped (xs @ ys) = wrapped xs @ wrapped ys"
  by (induction xs rule: wrapped.induct) auto

text \<open>\<open>fmt.Errorf\<close> with the shapes the kit uses, and \<open>errors.Join\<close>, which leaves out nil.\<close>

definition errors_Join :: "goerr option list \<Rightarrow> goerr option" where
  "errors_Join es = (let real = List.map_filter id es in if real = [] then None else Some (Joined real))"

section \<open>Asking for errors\<close>

text \<open>
  \<open>errors.Is\<close> with a sentinel as its target. It compares, asks the error's own \<open>Is\<close> if it
  has one, and goes on with what the error wraps. A \<open>DomainError\<close> unwraps to \<open>ErrDomain\<close>,
  a panic of a projection to \<open>ErrPermanent\<close>, a panic of a request to nothing, and
  \<open>withoutContextEnd\<close> hides the two errors of an ended context.
\<close>

fun errors_Is :: "goerr \<Rightarrow> sentinel \<Rightarrow> bool" where
  "errors_Is (Sentinel s) t = sentinel_Is s t"
| "errors_Is (Errorf segs) t = list_ex (\<lambda>e. errors_Is e t) (wrapped segs)"
| "errors_Is (Joined es) t = list_ex (\<lambda>e. errors_Is e t) es"
| "errors_Is (DomainError m) t = (t = ErrDomain)"
| "errors_Is (DBAPIError a) t = False"
| "errors_Is (PanicError v st) t = (t = ErrPermanent)"
| "errors_Is (ApplyFailure i e) t = errors_Is e t"
| "errors_Is (WithoutContextEnd e) t =
     (if t = ContextCanceled \<or> t = ContextDeadlineExceeded then False else errors_Is e t)"
| "errors_Is (NotRun e) t = errors_Is e t"
| "errors_Is (HttpPanicError v) t = False"
| "errors_Is (DecodeFailure m es) t = list_ex (\<lambda>e. errors_Is e t) es"
| "errors_Is (Custom m es) t = list_ex (\<lambda>e. errors_Is e t) es"

fun first_some :: "('a \<Rightarrow> 'b option) \<Rightarrow> 'a list \<Rightarrow> 'b option" where
  "first_some f [] = None"
| "first_some f (x # xs) = (case f x of None \<Rightarrow> first_some f xs | Some y \<Rightarrow> Some y)"

lemma first_some_cong [fundef_cong]:
  "xs = ys \<Longrightarrow> (\<And>x. x \<in> set ys \<Longrightarrow> f x = g x) \<Longrightarrow> first_some f xs = first_some g ys"
  by (induction xs arbitrary: ys) (auto split: option.split)

lemma first_some_eq_None: "first_some f xs = None \<longleftrightarrow> (\<forall>x \<in> set xs. f x = None)"
  by (induction xs) (auto split: option.splits)

text \<open>
  \<open>errors.As\<close> for an error type of the repository or the client, which \<open>p\<close> recognises:
  the first error of the tree, the outer ones first. \<open>withoutContextEnd\<close> passes the
  question on.
\<close>

fun errors_As :: "(goerr \<Rightarrow> 'a option) \<Rightarrow> goerr \<Rightarrow> 'a option" where
  "errors_As p (Errorf segs) =
     (case p (Errorf segs) of Some a \<Rightarrow> Some a | None \<Rightarrow> first_some (errors_As p) (wrapped segs))"
| "errors_As p (Joined es) =
     (case p (Joined es) of Some a \<Rightarrow> Some a | None \<Rightarrow> first_some (errors_As p) es)"
| "errors_As p (ApplyFailure i e) =
     (case p (ApplyFailure i e) of Some a \<Rightarrow> Some a | None \<Rightarrow> errors_As p e)"
| "errors_As p (WithoutContextEnd e) =
     (case p (WithoutContextEnd e) of Some a \<Rightarrow> Some a | None \<Rightarrow> errors_As p e)"
| "errors_As p (NotRun e) =
     (case p (NotRun e) of Some a \<Rightarrow> Some a | None \<Rightarrow> errors_As p e)"
| "errors_As p (DecodeFailure m es) =
     (case p (DecodeFailure m es) of Some a \<Rightarrow> Some a | None \<Rightarrow> first_some (errors_As p) es)"
| "errors_As p (Custom m es) =
     (case p (Custom m es) of Some a \<Rightarrow> Some a | None \<Rightarrow> first_some (errors_As p) es)"
| "errors_As p e = p e"

section \<open>The text of an error\<close>

text \<open>The categories whose text a failure may start with, and \<open>leadOf\<close> of \<open>projection.go\<close>.\<close>

definition categories :: "sentinel list" where
  "categories = [ErrConflict, ErrUnverified, ErrTransient, ErrPermanent, ErrDomain]"

definition leadOf :: "goerr \<Rightarrow> string \<Rightarrow> string" where
  "leadOf failure message =
     (case find (\<lambda>category. errors_Is failure category \<and>
                   (message = sentinel_text category \<or>
                    strings_HasPrefix message (sentinel_text category @ '': ''))) categories of
        Some category \<Rightarrow> sentinel_text category
      | None \<Rightarrow>
          if strings_HasPrefix message ''architecturekit: '' then ''architecturekit'' else [])"

definition applyFailure_Error :: "string \<Rightarrow> goerr \<Rightarrow> string \<Rightarrow> string" where
  "applyFailure_Error eventID err message =
     (let applying = ''applying event '' @ eventID;
          lead = leadOf err message
      in if lead = [] then applying @ '': '' @ message
         else lead @ '': '' @ applying @ strings_TrimPrefix message lead)"

fun seg_texts :: "('e \<Rightarrow> string) \<Rightarrow> 'e seg list \<Rightarrow> string" where
  "seg_texts f [] = []"
| "seg_texts f (Lit s # r) = s @ seg_texts f r"
| "seg_texts f (W e # r) = f e @ seg_texts f r"

lemma seg_texts_cong [fundef_cong]:
  "xs = ys \<Longrightarrow> (\<And>e. e \<in> set (wrapped ys) \<Longrightarrow> f e = g e) \<Longrightarrow> seg_texts f xs = seg_texts g ys"
  by (induction f xs arbitrary: ys rule: seg_texts.induct) auto

fun error_text :: "goerr \<Rightarrow> string" where
  "error_text (Sentinel s) = sentinel_text s"
| "error_text (Errorf segs) = seg_texts error_text segs"
| "error_text (Joined es) = strings_Join (map error_text es) [CHR 0x0A]"
| "error_text (DomainError m) = m"
| "error_text (DBAPIError a) = ErrorText a"
| "error_text (PanicError v st) =
     ''architecturekit: panic while running the projection: '' @ v @ [CHR 0x0A, CHR 0x0A] @ st"
| "error_text (ApplyFailure i e) = applyFailure_Error i e (error_text e)"
| "error_text (WithoutContextEnd e) = error_text e"
| "error_text (NotRun e) = error_text e"
| "error_text (HttpPanicError v) = ''httpapi: panic while handling the request: '' @ v"
| "error_text (DecodeFailure m es) = m"
| "error_text (Custom m es) = m"

section \<open>Failures of the database (database\_failure.go)\<close>

definition answerOf :: "goerr \<Rightarrow> db_answer option" where
  "answerOf = errors_As (\<lambda>e. case e of DBAPIError a \<Rightarrow> Some a | _ \<Rightarrow> None)"

definition statusOf :: "goerr \<Rightarrow> int" where
  "statusOf err = (case answerOf err of None \<Rightarrow> 0 | Some answer \<Rightarrow> Status answer)"

definition codeOf :: "goerr \<Rightarrow> db_code" where
  "codeOf err = (case answerOf err of None \<Rightarrow> NoCode | Some answer \<Rightarrow> Code answer)"

text \<open>The end of a context, given what \<open>ctx.Err()\<close> returns.\<close>

definition contextEnded :: "goerr \<Rightarrow> string \<Rightarrow> goerr" where
  "contextEnded ctxErr doing = Errorf [Lit (''architecturekit: '' @ doing @ '': ''), W ctxErr]"

definition causeOf :: "goerr \<Rightarrow> goerr" where
  "causeOf err =
     (if errors_Is err ContextCanceled \<or> errors_Is err ContextDeadlineExceeded
      then WithoutContextEnd err else err)"

definition transientCodes :: "db_code list" where
  "transientCodes =
     [CodeServerShuttingDown, CodeStoreReadOnly, CodeIndexesRebuilding, CodeRestoreInProgress,
      CodeDiskFull, CodeStoreFailed, CodeLicenseInvalid, CodeCapacityExceeded]"

text \<open>The kit's \<open>fmt.Errorf("%w: %s...%w", category, doing, cause)\<close>.\<close>

definition failure_as :: "sentinel \<Rightarrow> string \<Rightarrow> goerr \<Rightarrow> goerr" where
  "failure_as category doing err =
     Errorf [W (Sentinel category), Lit ('': '' @ doing @ '': ''), W (causeOf err)]"

definition databaseFailure :: "goerr \<Rightarrow> string \<Rightarrow> goerr" where
  "databaseFailure err doing =
     (if errors_Is err ClientErrIncompatibleServer then
        failure_as ErrPermanent
          (doing @ '': the database does not support what the request needs, and has to be upgraded'') err
      else if codeOf err \<noteq> NoCode then
        (if codeOf err = CodePreconditionViolated then failure_as ErrConflict doing err
         else if List.member transientCodes (codeOf err) then failure_as ErrTransient doing err
         else failure_as ErrPermanent doing err)
      else
        (let status = statusOf err in
         if status = 0 then
           (if errors_Is err ClientErrInvalidServerHeader then
              failure_as ErrTransient (doing @ '': the answer does not come from an EventSourcingDB'') err
            else failure_as ErrTransient doing err)
         else if status = 200 \<or> status = 408 \<or> status = 429 \<or> status \<ge> 500 then
           failure_as ErrTransient doing err
         else if status = 409 then
           (case answerOf err of
              Some answer \<Rightarrow>
                if strings_HasPrefix (Description answer) ''schema conflict''
                then failure_as ErrPermanent doing err
                else failure_as ErrConflict doing err
            | None \<Rightarrow> failure_as ErrConflict doing err)
         else if status = 401 then
           failure_as ErrPermanent (doing @ '': the database rejected the API token'') err
         else failure_as ErrPermanent doing err))"

text \<open>\<open>readFailure\<close> and \<open>writeFailure\<close>; the first gets what \<open>ctx.Err()\<close> returns.\<close>

definition readFailure :: "goerr option \<Rightarrow> goerr \<Rightarrow> string \<Rightarrow> goerr" where
  "readFailure ctxErr err doing =
     (case ctxErr of
        Some ended \<Rightarrow> contextEnded ended doing
      | None \<Rightarrow>
          if codeOf err = NoCode \<and> statusOf err = 409 then failure_as ErrPermanent doing err
          else databaseFailure err doing)"

definition writeFailure :: "goerr \<Rightarrow> string \<Rightarrow> goerr" where
  "writeFailure err doing =
     (if \<not> errors_Is err ClientErrOutcomeUnknown then databaseFailure err doing
      else if errors_Is err ClientErrInvalidServerHeader then
        failure_as ErrOutcomeUnknown (doing @ '': the answer does not come from an EventSourcingDB'') err
      else failure_as ErrOutcomeUnknown doing err)"

definition isSchemaConflict :: "goerr \<Rightarrow> bool" where
  "isSchemaConflict refusal =
     (case codeOf refusal of
        CodeEventSchemaAlreadyRegistered \<Rightarrow> True
      | CodeEventSchemaViolated \<Rightarrow> True
      | NoCode \<Rightarrow> statusOf refusal = 409
      | _ \<Rightarrow> False)"

definition schemaRefusal :: "string \<Rightarrow> goerr \<Rightarrow> goerr" where
  "schemaRefusal eventType refusal =
     Errorf [W (Sentinel ErrPermanent),
             Lit ('': the database refused the schema of '' @ strconv_Quote eventType @ '': ''),
             W (causeOf refusal)]"

section \<open>Lemmas\<close>

text \<open>An error of the client, which knows none of the kit's sentinels.\<close>

definition client_error :: "goerr \<Rightarrow> bool" where
  "client_error err \<longleftrightarrow>
     list_all (\<lambda>t. \<not> errors_Is err t)
       [ErrDomain, ErrTransient, ErrPermanent, ErrConflict, ErrUnverified, ErrOutcomeUnknown,
        ErrNotARevision, ErrNotCaughtUp, ErrEmptyRange]"

named_theorems err_simps \<open>what errors.Is and errors.As find in the errors of the kit\<close>

lemma sentinel_Is_simps [simp]:
  "sentinel_Is s s"
  "sentinel_Is s ErrDomain \<longleftrightarrow> s = ErrDomain"
  "sentinel_Is s ErrConflict \<longleftrightarrow> s = ErrConflict"
  "sentinel_Is s ErrUnverified \<longleftrightarrow> s = ErrUnverified"
  "sentinel_Is s ErrOutcomeUnknown \<longleftrightarrow> s = ErrOutcomeUnknown"
  "sentinel_Is s ErrNotARevision \<longleftrightarrow> s = ErrNotARevision"
  "sentinel_Is s ErrNotCaughtUp \<longleftrightarrow> s = ErrNotCaughtUp"
  "sentinel_Is s ErrEmptyRange \<longleftrightarrow> s = ErrEmptyRange"
  "sentinel_Is s ErrUnauthorized \<longleftrightarrow> s = ErrUnauthorized"
  "sentinel_Is s ErrForbidden \<longleftrightarrow> s = ErrForbidden"
  "sentinel_Is s ErrMalformed \<longleftrightarrow> s = ErrMalformed"
  "sentinel_Is s ErrTooLarge \<longleftrightarrow> s = ErrTooLarge"
  "sentinel_Is s ErrUnsupportedMediaType \<longleftrightarrow> s = ErrUnsupportedMediaType"
  "sentinel_Is s ErrNotFound \<longleftrightarrow> s = ErrNotFound"
  "sentinel_Is s ErrNoItems \<longleftrightarrow> s = ErrNoItems"
  "sentinel_Is s ContextCanceled \<longleftrightarrow> s = ContextCanceled"
  "sentinel_Is s ContextDeadlineExceeded \<longleftrightarrow> s = ContextDeadlineExceeded"
  "sentinel_Is s ErrTransient \<longleftrightarrow> s = ErrTransient \<or> s = ErrConflict"
  "sentinel_Is s ErrPermanent \<longleftrightarrow> s = ErrPermanent \<or> s = ErrUnverified"
  by (auto simp: sentinel_Is_def)

lemma errors_Is_Errorf [simp]:
  "errors_Is (Errorf (W (Sentinel s) # r)) t \<longleftrightarrow> sentinel_Is s t \<or> errors_Is (Errorf r) t"
  "errors_Is (Errorf (Lit x # r)) t \<longleftrightarrow> errors_Is (Errorf r) t"
  "errors_Is (Errorf []) t \<longleftrightarrow> False"
  by simp_all

lemma errors_Is_causeOf [err_simps]:
  "errors_Is (causeOf err) t \<longleftrightarrow>
     t \<noteq> ContextCanceled \<and> t \<noteq> ContextDeadlineExceeded \<and> errors_Is err t"
  by (auto simp: causeOf_def)

lemma errors_Is_failure_as [err_simps]:
  "errors_Is (failure_as c d err) t \<longleftrightarrow> sentinel_Is c t \<or> errors_Is (causeOf err) t"
  by (simp add: failure_as_def)

lemma answerOf_causeOf [err_simps]: "answerOf (causeOf err) = answerOf err"
  by (simp add: causeOf_def answerOf_def)

lemma answerOf_failure_as [err_simps]: "answerOf (failure_as c d err) = answerOf err"
  using answerOf_causeOf [of err] by (simp add: failure_as_def answerOf_def split: option.split)

lemma client_errorD:
  assumes "client_error err"
  shows "\<not> errors_Is err ErrTransient" "\<not> errors_Is err ErrPermanent" "\<not> errors_Is err ErrConflict"
    "\<not> errors_Is err ErrOutcomeUnknown" "\<not> errors_Is err ErrDomain" "\<not> errors_Is err ErrUnverified"
    "\<not> errors_Is err ErrNotCaughtUp" "\<not> errors_Is err ErrNotARevision"
  using assms by (auto simp: client_error_def)

text \<open>
  Every failure of the database is one application of \<open>failure_as\<close> to the client's
  error: the category alone varies.
\<close>

definition sorted_failure :: "goerr \<Rightarrow> goerr \<Rightarrow> bool" where
  "sorted_failure err f \<longleftrightarrow>
     (\<exists>c d. c \<in> {ErrPermanent, ErrTransient, ErrConflict} \<and> f = failure_as c d err)"

lemma sorted_failure_simps:
  "sorted_failure err (failure_as ErrPermanent d err)"
  "sorted_failure err (failure_as ErrTransient d err)"
  "sorted_failure err (failure_as ErrConflict d err)"
  by (auto simp: sorted_failure_def)

lemma databaseFailureE:
  obtains c d where "c \<in> {ErrPermanent, ErrTransient, ErrConflict}"
    and "databaseFailure err doing = failure_as c d err"
proof -
  have "sorted_failure err (databaseFailure err doing)"
    by (simp add: databaseFailure_def Let_def sorted_failure_simps split: option.split)
  then show ?thesis using that by (auto simp: sorted_failure_def)
qed

lemma answerOf_databaseFailure [err_simps]: "answerOf (databaseFailure err doing) = answerOf err"
  by (rule databaseFailureE [of err doing]) (simp add: err_simps)

lemma databaseFailure_category:
  fixes err doing
  assumes "client_error err"
  defines "f \<equiv> databaseFailure err doing"
  shows "\<not> errors_Is f ErrOutcomeUnknown" "errors_Is f ErrTransient \<or> errors_Is f ErrPermanent"
    "\<not> (errors_Is f ErrTransient \<and> errors_Is f ErrPermanent)"
    "\<not> errors_Is f ContextCanceled" "\<not> errors_Is f ContextDeadlineExceeded"
proof -
  note none = client_errorD [OF assms(1)]
  obtain c d where c: "c \<in> {ErrPermanent, ErrTransient, ErrConflict}" and f: "f = failure_as c d err"
    unfolding f_def by (rule databaseFailureE)
  show "\<not> errors_Is f ErrOutcomeUnknown" using c none by (auto simp: f err_simps)
  show "errors_Is f ErrTransient \<or> errors_Is f ErrPermanent" using c by (auto simp: f err_simps)
  show "\<not> (errors_Is f ErrTransient \<and> errors_Is f ErrPermanent)" using c none by (auto simp: f err_simps)
  show "\<not> errors_Is f ContextCanceled" using c by (auto simp: f err_simps)
  show "\<not> errors_Is f ContextDeadlineExceeded" using c by (auto simp: f err_simps)
qed

text \<open>
  When a client's failure is a conflict: the answer names a precondition that did not
  hold, or it is a 409 without a code whose description is not about a schema.
\<close>

definition conflict_answer :: "db_answer \<Rightarrow> bool" where
  "conflict_answer a \<longleftrightarrow>
     Code a = CodePreconditionViolated \<or>
     Code a = NoCode \<and> Status a = 409 \<and> \<not> strings_HasPrefix (Description a) ''schema conflict''"

section \<open>Properties\<close>

text \<open>
  C36. A failed write is sorted completely and without overlap. It is
  reported as \<open>ErrOutcomeUnknown\<close> exactly if the client says that its outcome is
  unknown, and then belongs to no category, so a caller that retries on \<open>ErrTransient\<close>
  never writes such events twice; otherwise it belongs to exactly one of the two
  categories. It never looks like the end of the caller's context, and \<open>errors.As\<close>
  still reaches the answer of the database.
\<close>

theorem writeFailure_classified:
  assumes "client_error err"
  shows "(errors_Is (writeFailure err doing) ErrOutcomeUnknown \<longleftrightarrow> errors_Is err ClientErrOutcomeUnknown)
    \<and> (errors_Is (writeFailure err doing) ErrTransient \<or> errors_Is (writeFailure err doing) ErrPermanent
        \<longleftrightarrow> \<not> errors_Is err ClientErrOutcomeUnknown)
    \<and> \<not> (errors_Is (writeFailure err doing) ErrTransient \<and> errors_Is (writeFailure err doing) ErrPermanent)
    \<and> \<not> errors_Is (writeFailure err doing) ContextCanceled
    \<and> \<not> errors_Is (writeFailure err doing) ContextDeadlineExceeded
    \<and> answerOf (writeFailure err doing) = answerOf err"
proof (cases "errors_Is err ClientErrOutcomeUnknown")
  case True
  then obtain d where d: "writeFailure err doing = failure_as ErrOutcomeUnknown d err"
    by (cases "errors_Is err ClientErrInvalidServerHeader") (auto simp: writeFailure_def)
  show ?thesis using True client_errorD [OF assms] by (simp add: d err_simps)
next
  case False
  then have d: "writeFailure err doing = databaseFailure err doing" by (simp add: writeFailure_def)
  show ?thesis
    using False databaseFailure_category [OF assms, of doing]
    by (simp add: d answerOf_databaseFailure)
qed

theorem writeFailure_classified_witness:
  "client_error (Custom ''connection reset'' [Sentinel ClientErrOutcomeUnknown, Sentinel ContextDeadlineExceeded])
   \<and> errors_Is (writeFailure (Custom ''connection reset''
        [Sentinel ClientErrOutcomeUnknown, Sentinel ContextDeadlineExceeded]) ''writing'') ErrOutcomeUnknown
   \<and> \<not> errors_Is (writeFailure (Custom ''connection reset''
        [Sentinel ClientErrOutcomeUnknown, Sentinel ContextDeadlineExceeded]) ''writing'') ContextDeadlineExceeded"
proof -
  let ?e = "Custom ''connection reset'' [Sentinel ClientErrOutcomeUnknown, Sentinel ContextDeadlineExceeded]"
  have h: "client_error ?e" by (simp add: client_error_def sentinel_Is_def)
  have "errors_Is ?e ClientErrOutcomeUnknown" by (simp add: sentinel_Is_def)
  then show ?thesis using h writeFailure_classified [OF h, of "''writing''"] by simp
qed

text \<open>
  A database failure is a conflict exactly if the request was sent and the
  answer says that a precondition did not hold: by the code \<open>precondition-violated\<close>,
  or, without a code, by a 409 whose description does not start with ``schema
  conflict''. So an event that violates its schema is never taken for a conflict, which
  \<open>Execute\<close> would decide again.
\<close>

theorem databaseFailure_conflict_iff:
  assumes "client_error err"
  shows "errors_Is (databaseFailure err doing) ErrConflict \<longleftrightarrow>
    \<not> errors_Is err ClientErrIncompatibleServer \<and> (\<exists>a. answerOf err = Some a \<and> conflict_answer a)"
proof (cases "errors_Is err ClientErrIncompatibleServer")
  case True
  then show ?thesis
    using client_errorD(3) [OF assms] by (simp add: databaseFailure_def err_simps)
next
  case False
  note none = client_errorD(3) [OF assms]
  show ?thesis
  proof (cases "answerOf err")
    case None
    with False none show ?thesis
      by (simp add: databaseFailure_def codeOf_def statusOf_def err_simps)
  next
    case (Some a)
    show ?thesis
    proof (cases "Code a = NoCode")
      case True
      with False none Some show ?thesis
        by (cases "Status a = 409")
           (simp_all add: databaseFailure_def codeOf_def statusOf_def err_simps conflict_answer_def Let_def)
    next
      case coded: False
      with False none Some show ?thesis
        by (cases "Code a = CodePreconditionViolated")
           (simp_all add: databaseFailure_def codeOf_def err_simps conflict_answer_def)
    qed
  qed
qed

theorem databaseFailure_conflict_iff_witness:
  "errors_Is (databaseFailure (DBAPIError \<lparr>Status = 200, Code = CodePreconditionViolated,
      Description = [], Details = Some (Some 1), ErrorText = ''refused''\<rparr>) ''writing'') ErrConflict"
proof -
  let ?e = "DBAPIError \<lparr>Status = 200, Code = CodePreconditionViolated,
      Description = [], Details = Some (Some 1), ErrorText = ''refused''\<rparr>"
  have h: "client_error ?e" by (simp add: client_error_def)
  show ?thesis
    using databaseFailure_conflict_iff [OF h, of "''writing''"] by (simp add: conflict_answer_def answerOf_def)
qed

text \<open>
  A failed read reports the end of the context exactly if the context
  has ended, whatever the client reports then; otherwise it belongs to exactly one
  category, is never \<open>ErrOutcomeUnknown\<close>, and is a conflict only if the database
  answers with the code of a violated precondition, never for a plain 409.
\<close>

theorem readFailure_classified:
  assumes "client_error err" and "ended = ContextCanceled \<or> ended = ContextDeadlineExceeded"
  shows "(\<forall>t. errors_Is (readFailure (Some (Sentinel ended)) err doing) t \<longleftrightarrow> t = ended)
    \<and> \<not> errors_Is (readFailure None err doing) ContextCanceled
    \<and> \<not> errors_Is (readFailure None err doing) ContextDeadlineExceeded
    \<and> \<not> errors_Is (readFailure None err doing) ErrOutcomeUnknown
    \<and> (errors_Is (readFailure None err doing) ErrTransient \<longleftrightarrow>
        \<not> errors_Is (readFailure None err doing) ErrPermanent)
    \<and> (errors_Is (readFailure None err doing) ErrConflict \<longrightarrow> codeOf err = CodePreconditionViolated)"
proof -
  note none = client_errorD [OF assms(1)]
  have ended: "errors_Is (readFailure (Some (Sentinel ended)) err doing) t \<longleftrightarrow> t = ended" for t
    using assms(2) by (auto simp: readFailure_def contextEnded_def sentinel_Is_def)
  show ?thesis
  proof (cases "codeOf err = NoCode \<and> statusOf err = 409")
    case True
    then have "readFailure None err doing = failure_as ErrPermanent doing err"
      by (simp add: readFailure_def)
    then show ?thesis using ended none by (simp add: err_simps)
  next
    case False
    then have d: "readFailure None err doing = databaseFailure err doing"
      by (auto simp: readFailure_def)
    have "errors_Is (databaseFailure err doing) ErrConflict \<Longrightarrow> codeOf err = CodePreconditionViolated"
      using False none
      by (auto simp: databaseFailure_def Let_def err_simps codeOf_def statusOf_def split: if_splits option.splits)
    then show ?thesis using ended databaseFailure_category [OF assms(1), of doing] by (auto simp: d)
  qed
qed

theorem readFailure_classified_witness:
  "errors_Is (readFailure (Some (Sentinel ContextCanceled)) (Custom ''EOF'' []) ''reading'') ContextCanceled
   \<and> errors_Is (readFailure None (Custom ''EOF'' []) ''reading'') ErrTransient"
proof -
  have h: "client_error (Custom ''EOF'' [])" by (simp add: client_error_def)
  have "\<not> errors_Is (readFailure None (Custom ''EOF'' []) ''reading'') ErrPermanent"
    by (simp add: readFailure_def databaseFailure_def codeOf_def statusOf_def answerOf_def err_simps)
  then show ?thesis using readFailure_classified [OF h, of ContextCanceled "''reading''"] by simp
qed

end
