(* ===== verification/Revision.thy ===== *)
theory Revision
  imports Errors
begin

text \<open>
  Revisions (\<open>revision.go\<close>): reading one as a number, comparing two, the revision of
  written events, and waiting for a view to reach it. The interface other components rely
  on is the locale \<open>revision_order\<close>: a comparison that refuses what is not a revision and
  orders the rest by a rank, the revision that is not set first.
\<close>

section \<open>Events of the database\<close>

text \<open>
  The client's \<open>Event\<close>, without the fields that only its verification reads, which is a
  parameter of the store. \<open>Data\<close> is the JSON text.
\<close>

record event =
  Source :: string
  Subject :: string
  Type :: string
  ID :: string
  Time :: int
  TraceParent :: "string option"
  TraceState :: "string option"
  Data :: string

section \<open>Reading and comparing revisions\<close>

definition ParseRevision :: "string \<Rightarrow> goerr + 64 word" where
  "ParseRevision revision =
     (case strconv_ParseUint revision 63 of
        None \<Rightarrow> Inl (Errorf [W (Sentinel ErrNotARevision), Lit ('': '' @ strconv_Quote revision)])
      | Some number \<Rightarrow> Inr number)"

text \<open>The number, and whether the revision is set at all.\<close>

definition revisionNumber :: "string \<Rightarrow> goerr + 64 word \<times> bool" where
  "revisionNumber revision =
     (if revision = [] then Inr (0, False)
      else case ParseRevision revision of Inl err \<Rightarrow> Inl err | Inr number \<Rightarrow> Inr (number, True))"

definition CompareRevisions :: "string \<Rightarrow> string \<Rightarrow> goerr + int" where
  "CompareRevisions left right =
     (case revisionNumber left of Inl err \<Rightarrow> Inl err
      | Inr (leftNumber, leftSet) \<Rightarrow>
        (case revisionNumber right of Inl err \<Rightarrow> Inl err
         | Inr (rightNumber, rightSet) \<Rightarrow>
             if \<not> leftSet \<and> \<not> rightSet then Inr 0
             else if \<not> leftSet then Inr (-1)
             else if \<not> rightSet then Inr 1
             else Inr (cmp_Compare leftNumber rightNumber)))"

fun revisionOf_loop :: "string \<Rightarrow> event list \<Rightarrow> string" where
  "revisionOf_loop highest [] = highest"
| "revisionOf_loop highest (event # events) =
     (case CompareRevisions (ID event) highest of
        Inr newer \<Rightarrow> if newer > 0 then revisionOf_loop (ID event) events else revisionOf_loop highest events
      | Inl _ \<Rightarrow> revisionOf_loop highest events)"

definition RevisionOf :: "event list \<Rightarrow> string" where
  "RevisionOf events = revisionOf_loop [] events"

section \<open>Waiting for written events\<close>

text \<open>
  A view that is asked to wait is its \<open>WaitFor\<close> function, and \<open>None\<close> is a nil view.
  \<open>ctxErr\<close> and \<open>waitingErr\<close> are what \<open>ctx.Err()\<close> and \<open>waiting.Err()\<close> return in the
  world after the view has returned, the second for the context with the timeout.
\<close>

type_synonym 'w wait_for = "'w \<Rightarrow> string \<Rightarrow> goerr option \<times> 'w"

definition WaitForWritten ::
  "(int \<Rightarrow> string) \<Rightarrow> ('w \<Rightarrow> goerr option) \<Rightarrow> ('w \<Rightarrow> goerr option) \<Rightarrow>
   'w wait_for option \<Rightarrow> event list \<Rightarrow> int \<Rightarrow> 'w \<Rightarrow> (goerr option \<times> 'w) go" where
  "WaitForWritten durationString ctxErr waitingErr view written timeout w =
     (case view of
        None \<Rightarrow> Panic ''architecturekit: WaitForWritten needs a view, not nil''
      | Some waitFor \<Rightarrow>
          if timeout \<le> 0 then
            Panic (''architecturekit: WaitForWritten needs a timeout that is positive, not '' @ durationString timeout)
          else if written = [] then Ret (None, w)
          else (case waitFor w (RevisionOf written) of
              (None, w') \<Rightarrow> Ret (None, w')
            | (Some err, w') \<Rightarrow>
                (case ctxErr w' of
                   Some ended \<Rightarrow>
                     Ret (Some (Errorf [W (Sentinel ErrNotCaughtUp),
                       Lit '': the events were written, but waiting for the view ended: '', W ended]), w')
                 | None \<Rightarrow>
                     if waitingErr w' \<noteq> None \<and> errors_Is err ContextDeadlineExceeded then
                       Ret (Some (Errorf [W (Sentinel ErrNotCaughtUp),
                         Lit ('': the events were written, but the view did not catch up within '' @ durationString timeout)]), w')
                     else
                       Ret (Some (Errorf [W (Sentinel ErrNotCaughtUp),
                         Lit '': the events were written, but the view could not be asked: '', W err]), w'))))"

section \<open>The interface: an order of revisions\<close>

text \<open>
  \<open>advance\<close> is the step every consumer of revisions makes: take the new revision if it
  compares as newer, and keep the current one if it does not, or can not be compared.
\<close>

definition advance :: "('r \<Rightarrow> 'r \<Rightarrow> 'e + int) \<Rightarrow> 'r \<Rightarrow> 'r \<Rightarrow> 'r" where
  "advance cmp current new = (case cmp new current of Inr c \<Rightarrow> if c > 0 then new else current | Inl _ \<Rightarrow> current)"

locale revision_order =
  fixes cmp :: "'r \<Rightarrow> 'r \<Rightarrow> 'e + int"
    and valid :: "'r \<Rightarrow> bool"
    and rank :: "'r \<Rightarrow> int"
  assumes cmp_valid: "valid a \<Longrightarrow> valid b \<Longrightarrow> cmp a b = Inr (sgn (rank a - rank b))"
    and cmp_invalid: "\<not> valid a \<or> \<not> valid b \<Longrightarrow> \<exists>e. cmp a b = Inl e"
begin

lemma cmp_Inr_iff: "cmp a b = Inr c \<longleftrightarrow> valid a \<and> valid b \<and> c = sgn (rank a - rank b)"
  using cmp_valid cmp_invalid by (metis Inl_Inr_False old.sum.inject(2))

lemma cmp_pos: "cmp a b = Inr c \<Longrightarrow> 0 < c \<longleftrightarrow> rank b < rank a"
  by (auto simp: cmp_Inr_iff sgn_if split: if_splits)

lemma cmp_nonneg: "cmp a b = Inr c \<Longrightarrow> 0 \<le> c \<longleftrightarrow> rank b \<le> rank a"
  by (auto simp: cmp_Inr_iff sgn_if split: if_splits)

lemma cmp_antisym: "cmp a b = Inr c \<Longrightarrow> cmp b a = Inr (- c)"
  by (auto simp: cmp_Inr_iff sgn_if)

lemma cmp_trans:
  "cmp a b = Inr c \<Longrightarrow> cmp b d = Inr c' \<Longrightarrow> 0 \<le> c \<Longrightarrow> 0 \<le> c' \<Longrightarrow> \<exists>c''. cmp a d = Inr c'' \<and> 0 \<le> c''"
  by (auto simp: cmp_Inr_iff sgn_if split: if_splits)

lemma advance_eq:
  "valid current \<Longrightarrow> advance cmp current new = (if valid new \<and> rank current < rank new then new else current)"
  using cmp_invalid [of new current] cmp_valid [of new current]
  by (cases "valid new") (auto simp: advance_def sgn_if)

lemma advance_valid: "valid current \<Longrightarrow> valid (advance cmp current new)"
  by (simp add: advance_eq)

lemma advance_mono: "valid current \<Longrightarrow> rank current \<le> rank (advance cmp current new)"
  by (simp add: advance_eq)

lemma foldl_advance_valid: "valid current \<Longrightarrow> valid (foldl (advance cmp) current rs)"
  by (induction rs arbitrary: current) (auto simp: advance_valid)

lemma foldl_advance_ge: "valid current \<Longrightarrow> rank current \<le> rank (foldl (advance cmp) current rs)"
  by (induction rs arbitrary: current) (auto intro: order_trans [OF advance_mono] advance_valid)

lemma foldl_advance_upper:
  "valid current \<Longrightarrow> r \<in> set rs \<Longrightarrow> valid r \<Longrightarrow> rank r \<le> rank (foldl (advance cmp) current rs)"
proof (induction rs arbitrary: current)
  case Nil
  then show ?case by simp
next
  case (Cons x rs)
  show ?case
  proof (cases "r = x")
    case True
    with Cons.prems have "rank r \<le> rank (advance cmp current x)" by (simp add: advance_eq)
    also have "\<dots> \<le> rank (foldl (advance cmp) current (x # rs))"
      using foldl_advance_ge advance_valid Cons.prems(1) by simp
    finally show ?thesis .
  next
    case False
    then show ?thesis using Cons advance_valid by simp
  qed
qed

lemma foldl_advance_mem: "foldl (advance cmp) current rs \<in> insert current (set rs)"
proof (induction rs arbitrary: current)
  case Nil
  then show ?case by simp
next
  case (Cons x rs)
  have "advance cmp current x \<in> {current, x}" by (auto simp: advance_def split: sum.splits)
  then show ?case using Cons.IH [of "advance cmp current x"] by auto
qed

end

section \<open>The revisions of the kit are such an order\<close>

definition is_revision :: "string \<Rightarrow> bool" where
  "is_revision r \<longleftrightarrow> (case ParseRevision r of Inl _ \<Rightarrow> False | Inr _ \<Rightarrow> True)"

definition rev_valid :: "string \<Rightarrow> bool" where
  "rev_valid r \<longleftrightarrow> r = [] \<or> is_revision r"

definition rev_rank :: "string \<Rightarrow> int" where
  "rev_rank r = (if r = [] then -1 else case ParseRevision r of Inl _ \<Rightarrow> -1 | Inr n \<Rightarrow> uint n)"

lemma not_is_revision_Nil [simp]: "\<not> is_revision []"
  by (simp add: is_revision_def ParseRevision_def strconv_ParseUint_def)

lemma rev_valid_Nil [simp]: "rev_valid []"
  by (simp add: rev_valid_def)

lemma rev_rank_Nil [simp]: "rev_rank [] = -1"
  by (simp add: rev_rank_def)

lemma ParseRevision_not: "ParseRevision r = Inl e \<Longrightarrow> errors_Is e ErrNotARevision"
  by (auto simp: ParseRevision_def split: option.splits)

lemma ParseRevision_bound: "ParseRevision r = Inr n \<Longrightarrow> unat n < 2 ^ 63"
  by (auto simp: ParseRevision_def split: option.splits dest: ParseUint_bound)

lemma ParseRevision_uint:
  assumes "ParseRevision r = Inr n"
  shows "uint n < 2 ^ 63"
proof -
  have "int (unat n) < int (2 ^ 63)"
    using ParseRevision_bound [OF assms] by (simp only: of_nat_less_iff)
  then show ?thesis by (simp only: uint_nat of_nat_power of_nat_numeral)
qed

lemma is_revisionE:
  assumes "is_revision r"
  obtains n where "ParseRevision r = Inr n" and "rev_rank r = uint n" and "r \<noteq> []"
proof -
  from assms have "r \<noteq> []" by auto
  moreover from assms obtain n where "ParseRevision r = Inr n"
    by (auto simp: is_revision_def split: sum.splits)
  ultimately show ?thesis using that by (simp add: rev_rank_def)
qed

lemma cmp_Compare_sgn: "cmp_Compare a b = sgn (uint a - uint b)"
  by (auto simp: cmp_Compare_def sgn_if word_less_def word_uint_eq_iff)

lemma CompareRevisions_valid:
  assumes "rev_valid a" and "rev_valid b"
  shows "CompareRevisions a b = Inr (sgn (rev_rank a - rev_rank b))"
proof -
  have nonneg: "0 \<le> rev_rank r" if "is_revision r" for r
    using that by (auto elim: is_revisionE)
  consider "a = []" "b = []" | "a = []" "is_revision b" | "is_revision a" "b = []" | "is_revision a" "is_revision b"
    using assms by (auto simp: rev_valid_def)
  then show ?thesis
  proof cases
    case 1
    then show ?thesis by (simp add: CompareRevisions_def revisionNumber_def)
  next
    case 2
    then show ?thesis using nonneg [of b]
      by (auto simp: CompareRevisions_def revisionNumber_def sgn_if elim!: is_revisionE)
  next
    case 3
    then show ?thesis using nonneg [of a]
      by (auto simp: CompareRevisions_def revisionNumber_def sgn_if elim!: is_revisionE)
  next
    case 4
    then show ?thesis
      by (auto simp: CompareRevisions_def revisionNumber_def cmp_Compare_sgn elim!: is_revisionE)
  qed
qed

lemma revisionNumber_not: "revisionNumber r = Inl e \<Longrightarrow> errors_Is e ErrNotARevision"
  by (auto simp: revisionNumber_def split: if_splits sum.splits intro: ParseRevision_not)

lemma revisionNumber_Inr_valid: "revisionNumber r = Inr n \<Longrightarrow> rev_valid r"
  by (auto simp: revisionNumber_def rev_valid_def is_revision_def split: if_splits sum.splits)

lemma CompareRevisions_invalid:
  assumes "\<not> rev_valid a \<or> \<not> rev_valid b"
  obtains e where "CompareRevisions a b = Inl e" and "errors_Is e ErrNotARevision"
proof -
  consider e where "revisionNumber a = Inl e"
    | n where "revisionNumber a = Inr n" and "\<not> rev_valid b"
    using assms revisionNumber_Inr_valid [of a] by (cases "revisionNumber a") auto
  then show ?thesis
  proof cases
    case (1 e)
    then show ?thesis using that revisionNumber_not by (simp add: CompareRevisions_def)
  next
    case (2 n)
    then obtain e where "revisionNumber b = Inl e"
      using revisionNumber_Inr_valid [of b] by (cases "revisionNumber b") auto
    then show ?thesis using 2 that revisionNumber_not by (cases n) (simp add: CompareRevisions_def)
  qed
qed

interpretation rev_order: revision_order CompareRevisions rev_valid rev_rank
proof unfold_locales
  show "rev_valid a \<Longrightarrow> rev_valid b \<Longrightarrow> CompareRevisions a b = Inr (sgn (rev_rank a - rev_rank b))" for a b
    by (rule CompareRevisions_valid)
  show "\<not> rev_valid a \<or> \<not> rev_valid b \<Longrightarrow> \<exists>e. CompareRevisions a b = Inl e" for a b
    by (metis CompareRevisions_invalid)
qed

lemma revisionOf_loop_advance:
  "revisionOf_loop h events = foldl (advance CompareRevisions) h (map ID events)"
  by (induction events arbitrary: h) (auto simp: advance_def split: sum.splits)

lemma RevisionOf_eq: "RevisionOf events = foldl (advance CompareRevisions) [] (map ID events)"
  by (simp add: RevisionOf_def revisionOf_loop_advance)

lemma is_revision_Itoa: "is_revision (strconv_Itoa n) \<longleftrightarrow> n < 2 ^ 63"
  by (simp add: is_revision_def ParseRevision_def strconv_ParseUint_def parse_digits_Itoa)

lemma rev_rank_Itoa: "n < 2 ^ 63 \<Longrightarrow> rev_rank (strconv_Itoa n) = int n"
  by (simp add: rev_rank_def ParseRevision_def ParseUint_Itoa uint_nat unat_of_nat)

text \<open>The equations that evaluate revisions on concrete text.\<close>

lemmas rev_eval = CompareRevisions_def revisionNumber_def ParseRevision_def strconv_ParseUint_def
  digit_value_def cmp_Compare_def rev_valid_def is_revision_def rev_rank_def RevisionOf_def

section \<open>Properties\<close>

text \<open>
  \<open>ParseRevision\<close> reads back exactly the decimal text of the numbers from 0 to
  \<open>2^63-1\<close>, the range of the database's event IDs, and refuses every larger number.
\<close>

theorem ParseRevision_decimal:
  "ParseRevision (strconv_Itoa n) = Inr number \<longleftrightarrow> n < 2 ^ 63 \<and> number = of_nat n"
  by (auto simp: ParseRevision_def strconv_ParseUint_def parse_digits_Itoa)

text \<open>
  \<open>CompareRevisions\<close> orders revisions by their numbers, never as text, with the
  revision that is not set before all others; it answers exactly if both sides are
  revisions or not set, whatever the other side is, and otherwise refuses with
  \<open>ErrNotARevision\<close>.
\<close>

theorem CompareRevisions_by_number:
  "(CompareRevisions left right = Inr c \<longleftrightarrow>
      rev_valid left \<and> rev_valid right \<and> c = sgn (rev_rank left - rev_rank right))
   \<and> (CompareRevisions left right = Inl err \<longrightarrow> errors_Is err ErrNotARevision)"
proof
  show "CompareRevisions left right = Inr c \<longleftrightarrow>
      rev_valid left \<and> rev_valid right \<and> c = sgn (rev_rank left - rev_rank right)"
    by (rule rev_order.cmp_Inr_iff)
  show "CompareRevisions left right = Inl err \<longrightarrow> errors_Is err ErrNotARevision"
    using CompareRevisions_invalid [of left right] rev_order.cmp_valid [of left right]
    by (metis Inl_Inr_False old.sum.inject(1))
qed

theorem CompareRevisions_by_number_witness:
  "CompareRevisions ''10'' ''9'' = Inr 1 \<and> errors_Is (Errorf [W (Sentinel ErrNotARevision), Lit '': \"x\"'']) ErrNotARevision"
proof -
  have "CompareRevisions ''x'' [] = Inl (Errorf [W (Sentinel ErrNotARevision), Lit '': \"x\"''])"
    by (simp add: rev_eval strconv_Quote_def quote_char_def)
  moreover have "rev_valid ''10'' \<and> rev_valid ''9'' \<and> (1::int) = sgn (rev_rank ''10'' - rev_rank ''9'')" by (simp add: rev_eval)
  ultimately show ?thesis
    using CompareRevisions_by_number [of "''10''" "''9''" 1]
      CompareRevisions_by_number [of "''x''" "[]" 0 "Errorf [W (Sentinel ErrNotARevision), Lit '': \"x\"'']"]
    by blast
qed

text \<open>
  \<open>RevisionOf\<close> is the highest event ID among the written events: it is the ID of one
  of them, or not set, and no revision among their IDs is higher. A reader that has seen
  it has seen all of them.
\<close>

theorem RevisionOf_highest:
  "RevisionOf events \<in> insert [] (ID ` set events) \<and> rev_valid (RevisionOf events)
   \<and> (\<forall>e \<in> set events. is_revision (ID e) \<longrightarrow> rev_rank (ID e) \<le> rev_rank (RevisionOf events))"
proof -
  have "rev_rank (ID e) \<le> rev_rank (RevisionOf events)" if "e \<in> set events" "is_revision (ID e)" for e
    unfolding RevisionOf_eq
    using that by (intro rev_order.foldl_advance_upper) (auto simp: rev_valid_def)
  moreover have "RevisionOf events \<in> insert [] (ID ` set events)"
    using rev_order.foldl_advance_mem [of "[]" "map ID events"] by (simp add: RevisionOf_eq)
  moreover have "rev_valid (RevisionOf events)"
    by (simp add: RevisionOf_eq rev_order.foldl_advance_valid)
  ultimately show ?thesis by blast
qed

definition sample_event :: "string \<Rightarrow> event" where
  "sample_event i = \<lparr>Source = ''s'', Subject = ''/books/42'', Type = ''t'', ID = i, Time = 0,
     TraceParent = None, TraceState = None, Data = ''{}''\<rparr>"

theorem RevisionOf_highest_witness:
  "RevisionOf [sample_event ''9'', sample_event ''10'', sample_event ''x''] = ''10''
   \<and> rev_rank ''9'' \<le> rev_rank ''10''"
proof -
  have r: "RevisionOf [sample_event ''9'', sample_event ''10'', sample_event ''x''] = ''10''"
    by (simp add: rev_eval sample_event_def)
  have "is_revision (ID (sample_event ''9''))" by (simp add: rev_eval sample_event_def)
  then show ?thesis
    using RevisionOf_highest [of "[sample_event ''9'', sample_event ''10'', sample_event ''x'']"]
    unfolding r by (simp add: sample_event_def)
qed

text \<open>
  \<open>WaitForWritten\<close> panics exactly for a nil view or a timeout that is not positive,
  before it looks at the events. Every error it returns wraps \<open>ErrNotCaughtUp\<close>, comes
  only after events were written and the view has failed to reach their revision, and
  keeps the cause: the error of the context if that has ended, and the view's own error
  unless the timeout ran out.
\<close>

theorem WaitForWritten_outcome:
  "((\<exists>p. WaitForWritten ds ctxErr waitingErr view written timeout w = Panic p) \<longleftrightarrow> view = None \<or> timeout \<le> 0)
   \<and> (\<forall>err w'. WaitForWritten ds ctxErr waitingErr view written timeout w = Ret (Some err, w') \<longrightarrow>
        errors_Is err ErrNotCaughtUp \<and> written \<noteq> [] \<and>
        (\<exists>waitFor cause. view = Some waitFor \<and> waitFor w (RevisionOf written) = (Some cause, w') \<and>
           (case ctxErr w' of
              Some ended \<Rightarrow> \<forall>t. errors_Is ended t \<longrightarrow> errors_Is err t
            | None \<Rightarrow> waitingErr w' \<noteq> None \<and> errors_Is cause ContextDeadlineExceeded
                \<or> (\<forall>t. errors_Is cause t \<longrightarrow> errors_Is err t))))"
  unfolding WaitForWritten_def
  by (cases view; cases "written = []") (auto split: prod.splits option.splits if_splits)

theorem WaitForWritten_outcome_witness:
  "\<exists>err. WaitForWritten (\<lambda>_. ''5s'') (\<lambda>_. None) (\<lambda>_. None)
      (Some (\<lambda>w r. (Some (Custom ''view down'' [Sentinel ErrTransient]), w))) [sample_event ''7''] 5 () = Ret (Some err, ())
    \<and> errors_Is err ErrNotCaughtUp \<and> errors_Is err ErrTransient"
proof -
  let ?cause = "Custom ''view down'' [Sentinel ErrTransient]"
  let ?r = "WaitForWritten (\<lambda>_. ''5s'') (\<lambda>_. None) (\<lambda>_. None)
      (Some (\<lambda>w r. (Some ?cause, w))) [sample_event ''7''] 5 ()"
  obtain err where err: "?r = Ret (Some err, ())" by (simp add: WaitForWritten_def)
  show ?thesis
    using WaitForWritten_outcome [of "\<lambda>_. ''5s''" "\<lambda>_. None" "\<lambda>_. None"
        "Some (\<lambda>w r. (Some ?cause, w))" "[sample_event ''7'']" 5 "()"] err
    by auto
qed

end
