(* ===== verification/Upcast.thy ===== *)
theory Upcast
  imports Revision
begin

text \<open>
  Upcasters (\<open>upcast.go\<close>): the set, registering one, and running the chain for a stored
  event within a budget of steps. The specification of a chain that ends is the relation
  \<open>expands\<close>.
\<close>

section \<open>The set of upcasters\<close>

definition maxUpcastSteps :: nat where
  "maxUpcastSteps = 16"

text \<open>An upcaster returns the events of the newer shape, or an error.\<close>

type_synonym Upcaster = "event \<Rightarrow> goerr + event list"

record Upcasters =
  byType :: "string \<rightharpoonup> Upcaster"

definition NewUpcasters :: Upcasters where
  "NewUpcasters = \<lparr>byType = Map.empty\<rparr>"

definition Upcast :: "Upcasters \<Rightarrow> string \<Rightarrow> Upcaster option \<Rightarrow> Upcasters go" where
  "Upcast u from upcast =
     (case upcast of
        None \<Rightarrow> Panic (''architecturekit: Upcast needs an upcaster for event type '' @ strconv_Quote from @ '', not nil'')
      | Some f \<Rightarrow>
          if byType u from \<noteq> None then
            Panic (''architecturekit: event type '' @ strconv_Quote from @ '' already has an upcaster'')
          else Ret (u\<lparr>byType := (byType u)(from \<mapsto> f)\<rparr>))"

section \<open>Running a chain\<close>

definition budget_error :: "string \<Rightarrow> goerr" where
  "budget_error eventType =
     Errorf [W (Sentinel ErrPermanent), Lit ('': upcasting '' @ strconv_Quote eventType @ '' exceeded '' @
       strconv_Itoa maxUpcastSteps @ '' steps, check for an upcaster that keeps its event type'')]"

definition upcaster_error :: "string \<Rightarrow> goerr \<Rightarrow> goerr" where
  "upcaster_error eventType err =
     Errorf [W (Sentinel ErrPermanent), Lit ('': upcasting '' @ strconv_Quote eventType @ '': '' @ error_text err)]"

fun applyWithBudget :: "Upcasters \<Rightarrow> event \<Rightarrow> nat \<Rightarrow> goerr + event list" where
  "applyWithBudget u event budget =
     (case byType u (Type event) of
        None \<Rightarrow> Inr [event]
      | Some upcast \<Rightarrow>
          if budget = 0 then Inl (budget_error (Type event))
          else (case upcast event of
              Inl err \<Rightarrow> Inl (upcaster_error (Type event) err)
            | Inr produced \<Rightarrow>
                (case collect (\<lambda>next. applyWithBudget u next (budget - 1)) produced of
                   Inl err \<Rightarrow> Inl err
                 | Inr results \<Rightarrow> Inr (concat results))))"

declare applyWithBudget.simps [simp del]

definition upcast_apply :: "Upcasters option \<Rightarrow> event \<Rightarrow> goerr + event list" where
  "upcast_apply u event =
     (case u of None \<Rightarrow> Inr [event] | Some u \<Rightarrow> applyWithBudget u event maxUpcastSteps)"

section \<open>What a chain means\<close>

text \<open>\<open>expands u event n events\<close>: the chain for \<open>event\<close> ends after at most \<open>n\<close> steps, with \<open>events\<close>.\<close>

inductive expands :: "Upcasters \<Rightarrow> event \<Rightarrow> nat \<Rightarrow> event list \<Rightarrow> bool" for u where
  stop: "byType u (Type event) = None \<Longrightarrow> expands u event n [event]"
| step: "byType u (Type event) = Some upcast \<Longrightarrow> upcast event = Inr produced \<Longrightarrow>
     list_all2 (\<lambda>next result. expands u next n result) produced results \<Longrightarrow>
     expands u event (Suc n) (concat results)"
  monos list.rel_mono_strong

inductive_cases expandsE: "expands u event n events"
inductive_simps expands_Suc: "expands u event (Suc n) events"

lemma applyWithBudget_expands:
  "applyWithBudget u event n = Inr events \<longleftrightarrow> expands u event n events"
proof (induction n arbitrary: event events)
  case 0
  then show ?case
    by (subst applyWithBudget.simps) (auto elim: expandsE intro: expands.stop split: option.splits)
next
  case (Suc n)
  show ?case
  proof (cases "byType u (Type event)")
    case None
    then show ?thesis
      by (subst applyWithBudget.simps) (auto elim: expandsE intro: expands.stop)
  next
    case (Some upcast)
    show ?thesis
    proof (cases "upcast event")
      case (Inl e)
      then show ?thesis using Some by (subst applyWithBudget.simps) (auto elim: expandsE)
    next
      case (Inr produced)
      let ?collected = "collect (\<lambda>next. applyWithBudget u next n) produced"
      have "applyWithBudget u event (Suc n) = Inr events \<longleftrightarrow>
          (\<exists>results. ?collected = Inr results \<and> events = concat results)"
        using Some Inr by (subst applyWithBudget.simps) (auto split: sum.split)
      also have "\<dots> \<longleftrightarrow>
          (\<exists>results. list_all2 (\<lambda>next result. expands u next n result) produced results \<and> events = concat results)"
        by (simp add: collect_eq_Inr Suc.IH)
      also have "\<dots> \<longleftrightarrow> expands u event (Suc n) events"
        using Some Inr by (auto simp: expands_Suc)
      finally show ?thesis .
    qed
  qed
qed

lemma applyWithBudget_error: "applyWithBudget u event n = Inl err \<Longrightarrow> errors_Is err ErrPermanent"
proof (induction n arbitrary: event err)
  case 0
  then show ?case
    by (auto simp: applyWithBudget.simps [of u event] budget_error_def sentinel_Is_def split: option.splits)
next
  case (Suc n)
  then show ?case
    by (auto simp: applyWithBudget.simps [of u event] upcaster_error_def sentinel_Is_def
        split: option.splits sum.splits dest: collect_Inl_mem)
qed

lemma expands_current: "expands u event n events \<Longrightarrow> \<forall>e \<in> set events. byType u (Type e) = None"
proof (induction rule: expands.induct)
  case (step event upcast produced n results)
  then have "\<forall>r \<in> set results. \<forall>e \<in> set r. byType u (Type e) = None"
    by (auto simp: list_all2_conv_all_nth in_set_conv_nth [of _ results])
  then show ?case by auto
qed simp

lemma expands_mono: "expands u event n events \<Longrightarrow> n \<le> m \<Longrightarrow> expands u event m events"
proof (induction arbitrary: m rule: expands.induct)
  case (stop event n)
  then show ?case by (simp add: expands.stop)
next
  case (step event upcast produced n results)
  then obtain k where m: "m = Suc k" "n \<le> k" by (cases m) auto
  have "list_all2 (\<lambda>next result. expands u next k result) produced results"
    using step(3) by (rule list.rel_mono_strong) (use m in auto)
  then show ?case unfolding m(1) using step(1,2) by (rule expands.step [rotated 2])
qed

lemma expands_unique: "expands u event n events \<Longrightarrow> expands u event m events' \<Longrightarrow> events = events'"
  using expands_mono [of u event n events "max n m"] expands_mono [of u event m events' "max n m"]
  by (simp add: applyWithBudget_expands [symmetric])

section \<open>Properties\<close>

text \<open>
  C31. Upcasting an event returns the end of its chain of upcasters if the chain ends within
  16 steps, and fails with \<open>ErrPermanent\<close> exactly if it does not, which covers a chain that
  runs for longer or forever and one in which an upcaster fails. No event that is returned has
  an upcaster, and without a set every event passes through.
\<close>

theorem upcast_apply_exact:
  "upcast_apply None event = Inr [event]
   \<and> (case upcast_apply (Some u) event of
        Inr events \<Rightarrow> expands u event 16 events \<and> list_all (\<lambda>e. byType u (Type e) = None) events
      | Inl err \<Rightarrow> (\<nexists>events. expands u event 16 events) \<and> errors_Is err ErrPermanent)"
proof (cases "applyWithBudget u event 16")
  case (Inl err)
  then show ?thesis
    using applyWithBudget_error applyWithBudget_expands [of u event 16]
    by (auto simp: upcast_apply_def maxUpcastSteps_def)
next
  case (Inr events)
  then have "expands u event 16 events" by (simp add: applyWithBudget_expands)
  with Inr expands_current [OF this] show ?thesis
    by (simp add: upcast_apply_def maxUpcastSteps_def list_all_iff)
qed

text \<open>
  An upcaster that keeps the type of its event, by returning at least one event of
  the type it is registered for, makes reading any such event fail with \<open>ErrPermanent\<close>
  rather than run forever.
\<close>

theorem upcast_loop_refused:
  assumes "byType u t = Some upcast" and "Type event = t"
    and "\<And>e produced. Type e = t \<Longrightarrow> upcast e = Inr produced \<Longrightarrow> \<exists>p \<in> set produced. Type p = t"
  shows "\<exists>err. upcast_apply (Some u) event = Inl err \<and> errors_Is err ErrPermanent"
proof -
  have "\<not> expands u e n events" if "Type e = t" for e n events
    using that
  proof (induction n arbitrary: e events)
    case 0
    then show ?case using assms(1) by (auto elim: expandsE)
  next
    case (Suc n)
    show ?case
    proof
      assume "expands u e (Suc n) events"
      then obtain produced results where p: "upcast e = Inr produced"
          "list_all2 (\<lambda>next result. expands u next n result) produced results"
        using assms(1) Suc.prems by (auto elim: expandsE)
      then obtain q where "q \<in> set produced" "Type q = t" using assms(3) Suc.prems by blast
      with p(2) obtain r where "expands u q n r" by (auto simp: list_all2_conv_all_nth in_set_conv_nth)
      with Suc.IH \<open>Type q = t\<close> show False by blast
    qed
  qed
  then have "applyWithBudget u event maxUpcastSteps \<noteq> Inr events" for events
    using assms(2) applyWithBudget_expands by metis
  then obtain err where "applyWithBudget u event maxUpcastSteps = Inl err"
    by (cases "applyWithBudget u event maxUpcastSteps") auto
  then show ?thesis using applyWithBudget_error by (auto simp: upcast_apply_def)
qed

theorem upcast_loop_refused_witness:
  "\<exists>err. upcast_apply (Some \<lparr>byType = [''placed'' \<mapsto> (\<lambda>e. Inr [e])]\<rparr>) ((sample_event ''1'')\<lparr>Type := ''placed''\<rparr>) = Inl err
     \<and> errors_Is err ErrPermanent"
  by (rule upcast_loop_refused [of _ "''placed''" "\<lambda>e. Inr [e]"]) auto

end
