(* ===== verification/Value_Type.thy ===== *)
theory Value_Type
  imports Prelude Complex_Main
begin

text \<open>
  What reflection tells about the types and values of states (\<open>value_type.go\<close>): whether
  copying a value copies all of its data. A type is modelled to the depth the code looks at
  it: \<open>isValueType\<close> never looks behind a map, slice, pointer, channel or function, so those
  have no components here.
\<close>

section \<open>Types\<close>

datatype basic_kind =
    KBool | KInt | KInt8 | KInt16 | KInt32 | KInt64
  | KUint | KUint8 | KUint16 | KUint32 | KUint64 | KUintptr
  | KFloat32 | KFloat64 | KComplex64 | KComplex128 | KString

datatype rtype =
    BasicType basic_kind
  | TimeType
  | ArrayType nat rtype
  | StructType "rtype list"
  | MapType | SliceType | PointerType | UnsafePointerType | ChanType | FuncType | InterfaceType

fun isValueType :: "rtype \<Rightarrow> bool" where
  "isValueType TimeType = True"
| "isValueType (BasicType _) = True"
| "isValueType (ArrayType _ elem) = isValueType elem"
| "isValueType (StructType fields) = list_all isValueType fields"
| "isValueType _ = False"

section \<open>Values\<close>

text \<open>
  A float is not a number, infinite, the negative zero, or finite. A
  reference is an address, or \<open>None\<close> for nil. Every value carries the name of its type. A
  slice has a length and a capacity, and an interface holds a value or is nil.
\<close>

datatype gofloat = NaN | PosInf | NegInf | NegZero | Finite rat

datatype rvalue =
    BasicV string string
  | FloatV string gofloat
  | ComplexV string gofloat gofloat
  | FuncV string bool
  | MapV string "nat option"
  | PointerV string "nat option"
  | UnsafePointerV string "nat option"
  | ChanV string "nat option"
  | SliceV string "nat option" nat nat
  | InterfaceV string "rvalue option"
  | ArrayV string "rvalue list"
  | StructV string "rvalue list"

definition timeType :: string where
  "timeType = ''time.Time''"

fun sharesData :: "rvalue \<Rightarrow> bool" where
  "sharesData (MapV _ a) = (a \<noteq> None)"
| "sharesData (PointerV _ a) = (a \<noteq> None)"
| "sharesData (UnsafePointerV _ a) = (a \<noteq> None)"
| "sharesData (ChanV _ a) = (a \<noteq> None)"
| "sharesData (SliceV _ a len cap) = (cap > 0)"
| "sharesData (InterfaceV _ None) = False"
| "sharesData (InterfaceV _ (Some v)) = sharesData v"
| "sharesData (ArrayV _ vs) = list_ex sharesData vs"
| "sharesData (StructV t fields) = (if t = timeType then False else list_ex sharesData fields)"
| "sharesData (BasicV _ _) = False"
| "sharesData (FloatV _ _) = False"
| "sharesData (ComplexV _ _ _) = False"
| "sharesData (FuncV _ _) = False"

text \<open>Which values a type has. The names of types do not matter here, except that of \<open>time.Time\<close>.\<close>

inductive has_type :: "rvalue \<Rightarrow> rtype \<Rightarrow> bool" where
  "has_type (BasicV n p) (BasicType k)"
| "has_type (FloatV n f) (BasicType k)"
| "has_type (ComplexV n f g) (BasicType k)"
| "has_type (StructV timeType vs) TimeType"
| "(\<forall>v \<in> set vs. has_type v t) \<Longrightarrow> length vs = m \<Longrightarrow> has_type (ArrayV n vs) (ArrayType m t)"
| "list_all2 has_type vs ts \<Longrightarrow> has_type (StructV n vs) (StructType ts)"
| "has_type (MapV n a) MapType"
| "has_type (PointerV n a) PointerType"
| "has_type (UnsafePointerV n a) UnsafePointerType"
| "has_type (ChanV n a) ChanType"
| "has_type (SliceV n a l c) SliceType"
| "has_type (FuncV n b) FuncType"
| "has_type (InterfaceV n None) InterfaceType"
| "has_type v t \<Longrightarrow> has_type (InterfaceV n (Some v)) InterfaceType"
  monos list.rel_mono_strong

section \<open>Properties\<close>

text \<open>
  A value of a type that counts as a value type shares no data with its copies,
  whatever it holds, so a state of such a type never needs a \<open>Clone\<close> function.
\<close>

theorem value_types_share_nothing:
  "has_type v t \<Longrightarrow> isValueType t \<Longrightarrow> \<not> sharesData v"
proof (induction rule: has_type.induct)
  case (5 vs t m n)
  then show ?case by (auto simp: list_ex_iff list_all_iff)
next
  case (6 vs ts n)
  then have "list_all2 (\<lambda>v t. \<not> sharesData v) vs ts"
    by (auto simp: list_all2_conv_all_nth list_all_length)
  then show ?case by (auto simp: list_ex_iff list_all2_conv_all_nth in_set_conv_nth)
qed simp_all

theorem value_types_share_nothing_witness:
  "\<not> sharesData (StructV ''Shelf'' [StructV timeType [PointerV ''*time.Location'' (Some 1)], ArrayV ''[1]int'' [BasicV ''int'' ''7'']])"
proof -
  have "has_type (StructV ''Shelf'' [StructV timeType [PointerV ''*time.Location'' (Some 1)], ArrayV ''[1]int'' [BasicV ''int'' ''7'']])
      (StructType [TimeType, ArrayType 1 (BasicType KInt)])"
    by (auto intro!: has_type.intros)
  then show ?thesis by (rule value_types_share_nothing) simp
qed

end
