(* ===== verification/Same_Value.thy ===== *)
theory Same_Value
  imports Value_Type
begin

text \<open>
  Comparing two initial values (\<open>isSame\<close> and its helpers of \<open>state_cache.go\<close>). Values may
  refer to each other in cycles, so they live in a heap: what a pointer points to, the
  elements an array holds from an address on, and the entries of a map, in the order in which
  it is ranged over. \<open>isSame\<close> records the references it has compared and ends at one it meets
  again.
\<close>

section \<open>The heap\<close>

record heap =
  heapCells :: "(nat \<times> rvalue) list"
  heapArrays :: "(nat \<times> rvalue list) list"
  heapMaps :: "(nat \<times> (rvalue \<times> rvalue) list) list"

text \<open>A type, by its kind and its name: two values of the same type have the same kind.\<close>

datatype rkind =
    BasicKind | FloatKind | ComplexKind | FuncKind | MapKind | PtrKind | UnsafePointerKind | ChanKind | SliceKind
  | IfaceKind | ArrayKind | StructKind

fun valueTypeOf :: "rvalue \<Rightarrow> rkind \<times> string" where
  "valueTypeOf (BasicV t _) = (BasicKind, t)"
| "valueTypeOf (FloatV t _) = (FloatKind, t)"
| "valueTypeOf (ComplexV t _ _) = (ComplexKind, t)"
| "valueTypeOf (FuncV t _) = (FuncKind, t)"
| "valueTypeOf (MapV t _) = (MapKind, t)"
| "valueTypeOf (PointerV t _) = (PtrKind, t)"
| "valueTypeOf (UnsafePointerV t _) = (UnsafePointerKind, t)"
| "valueTypeOf (ChanV t _) = (ChanKind, t)"
| "valueTypeOf (SliceV t _ _ _) = (SliceKind, t)"
| "valueTypeOf (InterfaceV t _) = (IfaceKind, t)"
| "valueTypeOf (ArrayV t _) = (ArrayKind, t)"
| "valueTypeOf (StructV t _) = (StructKind, t)"

text \<open>
  What a pointer points to, nothing for nil; the elements of a slice; the entries of a map.
  An address that the heap does not hold does not occur in a running program.
\<close>

definition pointee :: "heap \<Rightarrow> nat option \<Rightarrow> rvalue option" where
  "pointee h a = Option.bind a (map_of (heapCells h))"

definition elements :: "heap \<Rightarrow> nat option \<Rightarrow> nat \<Rightarrow> rvalue list" where
  "elements h a len = (case Option.bind a (map_of (heapArrays h)) of None \<Rightarrow> [] | Some vs \<Rightarrow> take len vs)"

definition map_entries :: "heap \<Rightarrow> nat option \<Rightarrow> (rvalue \<times> rvalue) list" where
  "map_entries h a = (case Option.bind a (map_of (heapMaps h)) of None \<Rightarrow> [] | Some es \<Rightarrow> es)"

section \<open>Comparing keys and floats\<close>

text \<open>Go's \<open>==\<close> on two floats, and on two keys of a map: NaN equals nothing, and the two zeros are equal.\<close>

fun without_zero_sign :: "gofloat \<Rightarrow> gofloat" where
  "without_zero_sign NegZero = Finite 0"
| "without_zero_sign f = f"

definition float_eq :: "gofloat \<Rightarrow> gofloat \<Rightarrow> bool" where
  "float_eq a b \<longleftrightarrow> without_zero_sign a = without_zero_sign b \<and> a \<noteq> NaN"

definition isSameFloat :: "gofloat \<Rightarrow> gofloat \<Rightarrow> bool" where
  "isSameFloat left right \<longleftrightarrow> float_eq left right \<or> left = NaN \<and> right = NaN"

fun key_eq :: "rvalue \<Rightarrow> rvalue \<Rightarrow> bool" where
  "key_eq (BasicV t a) r = (r = BasicV t a)"
| "key_eq (FloatV t a) r = (case r of FloatV u b \<Rightarrow> t = u \<and> float_eq a b | _ \<Rightarrow> False)"
| "key_eq (ComplexV t a b) r =
     (case r of ComplexV u c d \<Rightarrow> t = u \<and> float_eq a c \<and> float_eq b d | _ \<Rightarrow> False)"
| "key_eq (InterfaceV t None) r = (r = InterfaceV t None)"
| "key_eq (InterfaceV t (Some v)) r = (case r of InterfaceV u (Some w) \<Rightarrow> t = u \<and> key_eq v w | _ \<Rightarrow> False)"
| "key_eq (ArrayV t vs) r = (case r of ArrayV u ws \<Rightarrow> t = u \<and> list_all2 key_eq vs ws | _ \<Rightarrow> False)"
| "key_eq (StructV t vs) r = (case r of StructV u ws \<Rightarrow> t = u \<and> list_all2 key_eq vs ws | _ \<Rightarrow> False)"
| "key_eq l r = (l = r)"

definition MapIndex :: "heap \<Rightarrow> nat option \<Rightarrow> rvalue \<Rightarrow> rvalue option" where
  "MapIndex h a key = map_option snd (find (\<lambda>e. key_eq (fst e) key) (map_entries h a))"

section \<open>isSame\<close>

record sameVisit =
  visitLeft :: "nat option"
  visitRight :: "nat option"
  visitLength :: nat
  valueType :: "rkind \<times> string"

type_synonym visits = "sameVisit list"

text \<open>A comparison returns its verdict and the visits recorded, or \<open>None\<close> if the fuel is used up.\<close>

type_synonym verdict = "(bool \<times> visits) option"

definition visit_or :: "sameVisit \<Rightarrow> visits \<Rightarrow> (visits \<Rightarrow> verdict) \<Rightarrow> verdict" where
  "visit_or v visited compare = (if v \<in> set visited then Some (True, visited) else compare (v # visited))"

fun same_all :: "(rvalue option \<Rightarrow> rvalue option \<Rightarrow> visits \<Rightarrow> verdict) \<Rightarrow> (rvalue option \<times> rvalue option) list \<Rightarrow> visits \<Rightarrow> verdict" where
  "same_all same [] visited = Some (True, visited)"
| "same_all same ((l, r) # rest) visited =
     (case same l r visited of
        None \<Rightarrow> None
      | Some (False, visited') \<Rightarrow> Some (False, visited')
      | Some (True, visited') \<Rightarrow> same_all same rest visited')"

definition elem_pairs :: "rvalue list \<Rightarrow> rvalue list \<Rightarrow> (rvalue option \<times> rvalue option) list" where
  "elem_pairs ls rs = zip (map Some ls) (map Some rs)"

text \<open>
  Two values of the same type have the same kind, so a pair of different kinds does not
  occur; the last clause of each case stands for it.
\<close>

fun isSame :: "nat \<Rightarrow> heap \<Rightarrow> rvalue option \<Rightarrow> rvalue option \<Rightarrow> visits \<Rightarrow> verdict" where
  "isSame 0 h l r visited = None"
| "isSame (Suc n) h None r visited = Some (r = None, visited)"
| "isSame (Suc n) h (Some l) None visited = Some (False, visited)"
| "isSame (Suc n) h (Some l) (Some r) visited =
     (if valueTypeOf l \<noteq> valueTypeOf r then Some (False, visited)
      else case l of
        FuncV _ nil \<Rightarrow> (case r of FuncV _ nil' \<Rightarrow> Some (nil = nil', visited) | _ \<Rightarrow> Some (False, visited))
      | FloatV _ a \<Rightarrow> (case r of FloatV _ b \<Rightarrow> Some (isSameFloat a b, visited) | _ \<Rightarrow> Some (False, visited))
      | ComplexV _ a b \<Rightarrow>
          (case r of ComplexV _ c d \<Rightarrow> Some (isSameFloat a c \<and> isSameFloat b d, visited) | _ \<Rightarrow> Some (False, visited))
      | InterfaceV _ v \<Rightarrow> (case r of InterfaceV _ w \<Rightarrow> isSame n h v w visited | _ \<Rightarrow> Some (False, visited))
      | PointerV _ a \<Rightarrow>
          (case r of PointerV _ b \<Rightarrow>
             visit_or \<lparr>visitLeft = a, visitRight = b, visitLength = 0, valueType = valueTypeOf l\<rparr> visited
               (isSame n h (pointee h a) (pointee h b))
           | _ \<Rightarrow> Some (False, visited))
      | MapV _ a \<Rightarrow>
          (case r of MapV _ b \<Rightarrow>
             if (a = None) \<noteq> (b = None) \<or> length (map_entries h a) \<noteq> length (map_entries h b) then Some (False, visited)
             else visit_or \<lparr>visitLeft = a, visitRight = b, visitLength = 0, valueType = valueTypeOf l\<rparr> visited
               (same_all (isSame n h) (map (\<lambda>(k, v). (Some v, MapIndex h b k)) (map_entries h a)))
           | _ \<Rightarrow> Some (False, visited))
      | SliceV _ a len _ \<Rightarrow>
          (case r of SliceV _ b len' _ \<Rightarrow>
             if (a = None) \<noteq> (b = None) \<or> len \<noteq> len' then Some (False, visited)
             else visit_or \<lparr>visitLeft = a, visitRight = b, visitLength = len, valueType = valueTypeOf l\<rparr> visited
               (same_all (isSame n h) (elem_pairs (elements h a len) (elements h b len)))
           | _ \<Rightarrow> Some (False, visited))
      | ArrayV _ vs \<Rightarrow>
          (case r of ArrayV _ ws \<Rightarrow> same_all (isSame n h) (elem_pairs vs ws) visited | _ \<Rightarrow> Some (False, visited))
      | StructV _ vs \<Rightarrow>
          (case r of StructV _ ws \<Rightarrow> same_all (isSame n h) (elem_pairs vs ws) visited | _ \<Rightarrow> Some (False, visited))
      | BasicV _ _ \<Rightarrow> Some (l = r, visited)
      | UnsafePointerV _ _ \<Rightarrow> Some (l = r, visited)
      | ChanV _ _ \<Rightarrow> Some (l = r, visited))"

declare isSame.simps [simp del]

section \<open>What a comparison comes down to\<close>

text \<open>
  The pairs of values that two values of the same shape are made of, or \<open>None\<close> if the two are
  different already; and the visit that is recorded for two references.
\<close>

definition children_of :: "heap \<Rightarrow> rvalue \<Rightarrow> rvalue \<Rightarrow> (rvalue option \<times> rvalue option) list option" where
  "children_of h l r =
     (case l of
        FuncV _ nil \<Rightarrow> (case r of FuncV _ nil' \<Rightarrow> if nil = nil' then Some [] else None | _ \<Rightarrow> None)
      | FloatV _ a \<Rightarrow> (case r of FloatV _ b \<Rightarrow> if isSameFloat a b then Some [] else None | _ \<Rightarrow> None)
      | ComplexV _ a b \<Rightarrow>
          (case r of ComplexV _ c d \<Rightarrow> if isSameFloat a c \<and> isSameFloat b d then Some [] else None | _ \<Rightarrow> None)
      | InterfaceV _ v \<Rightarrow> (case r of InterfaceV _ w \<Rightarrow> Some [(v, w)] | _ \<Rightarrow> None)
      | PointerV _ a \<Rightarrow> (case r of PointerV _ b \<Rightarrow> Some [(pointee h a, pointee h b)] | _ \<Rightarrow> None)
      | MapV _ a \<Rightarrow>
          (case r of MapV _ b \<Rightarrow>
             if (a = None) = (b = None) \<and> length (map_entries h a) = length (map_entries h b)
             then Some (map (\<lambda>(k, v). (Some v, MapIndex h b k)) (map_entries h a)) else None
           | _ \<Rightarrow> None)
      | SliceV _ a len _ \<Rightarrow>
          (case r of SliceV _ b len' _ \<Rightarrow>
             if (a = None) = (b = None) \<and> len = len' then Some (elem_pairs (elements h a len) (elements h b len)) else None
           | _ \<Rightarrow> None)
      | ArrayV _ vs \<Rightarrow> (case r of ArrayV _ ws \<Rightarrow> Some (elem_pairs vs ws) | _ \<Rightarrow> None)
      | StructV _ vs \<Rightarrow> (case r of StructV _ ws \<Rightarrow> Some (elem_pairs vs ws) | _ \<Rightarrow> None)
      | BasicV _ _ \<Rightarrow> if l = r then Some [] else None
      | UnsafePointerV _ _ \<Rightarrow> if l = r then Some [] else None
      | ChanV _ _ \<Rightarrow> if l = r then Some [] else None)"

definition children :: "heap \<Rightarrow> rvalue option \<Rightarrow> rvalue option \<Rightarrow> (rvalue option \<times> rvalue option) list option" where
  "children h l r =
     (case l of
        None \<Rightarrow> if r = None then Some [] else None
      | Some x \<Rightarrow> (case r of None \<Rightarrow> None | Some y \<Rightarrow> if valueTypeOf x = valueTypeOf y then children_of h x y else None))"

definition reference_of :: "rvalue option \<Rightarrow> (nat option \<times> nat) option" where
  "reference_of v =
     (case v of
        Some (PointerV _ a) \<Rightarrow> Some (a, 0) | Some (MapV _ a) \<Rightarrow> Some (a, 0) | Some (SliceV _ a len _) \<Rightarrow> Some (a, len)
      | _ \<Rightarrow> None)"

definition visit_of :: "rvalue option \<Rightarrow> rvalue option \<Rightarrow> sameVisit option" where
  "visit_of l r =
     (case (reference_of l, reference_of r) of
        (Some (a, len), Some (b, _)) \<Rightarrow> Some \<lparr>visitLeft = a, visitRight = b, visitLength = len, valueType = valueTypeOf (the l)\<rparr>
      | _ \<Rightarrow> None)"

lemma same_all_single [simp]: "same_all f [(l, r)] = f l r"
  by (rule ext) (auto split: option.split prod.split bool.split)

lemma isSame_step:
  "isSame (Suc n) h l r visited =
     (case children h l r of
        None \<Rightarrow> Some (False, visited)
      | Some ps \<Rightarrow>
          (case visit_of l r of
             None \<Rightarrow> same_all (isSame n h) ps visited
           | Some v \<Rightarrow> visit_or v visited (same_all (isSame n h) ps)))"
proof (cases l)
  case None
  then show ?thesis by (cases r) (simp_all add: isSame.simps children_def visit_of_def reference_of_def)
next
  case l: (Some x)
  show ?thesis
  proof (cases r)
    case None
    with l show ?thesis by (simp add: isSame.simps children_def)
  next
    case r: (Some y)
    show ?thesis
    proof (cases "valueTypeOf x = valueTypeOf y")
      case True
      then show ?thesis unfolding l r
        by (cases x; cases y; simp add: isSame.simps children_def children_of_def visit_of_def reference_of_def; fastforce)
    qed (simp add: l r isSame.simps children_def)
  qed
qed

text \<open>Deep equality: the largest relation in which equal values have equal parts.\<close>

coinductive same_value :: "heap \<Rightarrow> rvalue option \<Rightarrow> rvalue option \<Rightarrow> bool" for h where
  same: "children h l r = Some ps \<Longrightarrow> (\<forall>p \<in> set ps. same_value h (fst p) (snd p)) \<Longrightarrow> same_value h l r"

section \<open>The comparison ends\<close>

text \<open>
  All references that occur in the heap or in the two values, each with the type and the
  length it is recorded with, and all values.
\<close>

fun refs_of :: "rvalue \<Rightarrow> ((rkind \<times> string) \<times> nat option \<times> nat) list" where
  "refs_of (PointerV t a) = [((PtrKind, t), a, 0)]"
| "refs_of (MapV t a) = [((MapKind, t), a, 0)]"
| "refs_of (SliceV t a len _) = [((SliceKind, t), a, len)]"
| "refs_of (InterfaceV _ None) = []"
| "refs_of (InterfaceV _ (Some v)) = refs_of v"
| "refs_of (ArrayV _ vs) = concat (map refs_of vs)"
| "refs_of (StructV _ vs) = concat (map refs_of vs)"
| "refs_of _ = []"

definition heap_values :: "heap \<Rightarrow> rvalue list" where
  "heap_values h = map snd (heapCells h) @ concat (map snd (heapArrays h)) @ map snd (concat (map snd (heapMaps h)))"

definition scope :: "heap \<Rightarrow> rvalue option \<Rightarrow> rvalue option \<Rightarrow> rvalue list" where
  "scope h l r = heap_values h @ (case l of None \<Rightarrow> [] | Some x \<Rightarrow> [x]) @ (case r of None \<Rightarrow> [] | Some x \<Rightarrow> [x])"

definition sizes :: "rvalue list \<Rightarrow> nat" where
  "sizes vs = sum_list (map size vs)"

definition sameFuel :: "heap \<Rightarrow> rvalue option \<Rightarrow> rvalue option \<Rightarrow> nat" where
  "sameFuel h l r =
     (let vs = scope h l r; k = length (concat (map refs_of vs)) in (k * k) * (sizes vs + 2) + sizes vs + 2)"

definition opt_size :: "rvalue option \<Rightarrow> nat" where
  "opt_size v = (case v of None \<Rightarrow> 0 | Some x \<Rightarrow> size x)"

definition in_scope :: "((rkind \<times> string) \<times> nat option \<times> nat) set \<Rightarrow> nat \<Rightarrow> rvalue option \<Rightarrow> bool" where
  "in_scope R S v \<longleftrightarrow> (case v of None \<Rightarrow> True | Some x \<Rightarrow> set (refs_of x) \<subseteq> R \<and> size x \<le> S)"

definition possible :: "((rkind \<times> string) \<times> nat option \<times> nat) set \<Rightarrow> sameVisit set" where
  "possible R = {v. (valueType v, visitLeft v, visitLength v) \<in> R \<and> (valueType v, visitRight v, visitLength v) \<in> R}"

definition heap_in_scope :: "((rkind \<times> string) \<times> nat option \<times> nat) set \<Rightarrow> nat \<Rightarrow> heap \<Rightarrow> bool" where
  "heap_in_scope R S h \<longleftrightarrow> (\<forall>v \<in> set (heap_values h). in_scope R S (Some v))"

lemma in_scope_None [simp]: "in_scope R S None"
  by (simp add: in_scope_def)

lemma pointee_value: "pointee h a = Some v \<Longrightarrow> v \<in> set (heap_values h)"
proof -
  assume "pointee h a = Some v"
  then obtain i where "(i, v) \<in> set (heapCells h)" by (auto simp: pointee_def bind_eq_Some_conv dest: map_of_SomeD)
  then have "v \<in> snd ` set (heapCells h)" by force
  then show ?thesis by (simp add: heap_values_def)
qed

lemma elements_value: "v \<in> set (elements h a len) \<Longrightarrow> v \<in> set (heap_values h)"
proof -
  assume "v \<in> set (elements h a len)"
  then obtain i vs where vs: "(i, vs) \<in> set (heapArrays h)" "v \<in> set (take len vs)"
    by (cases a) (auto simp: elements_def dest: map_of_SomeD [OF sym] split: option.splits)
  from vs(2) have "v \<in> set vs" by (rule in_set_takeD)
  with vs(1) have "v \<in> set (concat (map snd (heapArrays h)))" by force
  then show ?thesis by (simp add: heap_values_def)
qed

lemma entries_value: "e \<in> set (map_entries h a) \<Longrightarrow> snd e \<in> set (heap_values h)"
proof -
  assume "e \<in> set (map_entries h a)"
  then obtain i es where "(i, es) \<in> set (heapMaps h)" "e \<in> set es"
    by (cases a) (auto simp: map_entries_def dest: map_of_SomeD [OF sym] split: option.splits)
  then have "e \<in> set (concat (map snd (heapMaps h)))" by force
  then have "snd e \<in> set (map snd (concat (map snd (heapMaps h))))" by simp
  then show ?thesis unfolding heap_values_def set_append by blast
qed

lemma MapIndex_value: "MapIndex h a k = Some v \<Longrightarrow> v \<in> set (heap_values h)"
  using entries_value by (auto simp: MapIndex_def find_Some_iff) (metis nth_mem snd_conv)

lemma finite_possible: "finite R \<Longrightarrow> finite (possible R) \<and> card (possible R) \<le> card R * card R"
proof -
  assume R: "finite R"
  let ?f = "\<lambda>v. ((valueType v, visitLeft v, visitLength v), (valueType v, visitRight v, visitLength v))"
  have inj: "inj_on ?f (possible R)" by (auto intro!: inj_onI)
  have sub: "?f ` possible R \<subseteq> R \<times> R" by (auto simp: possible_def)
  show ?thesis
    using R inj sub card_inj_on_le [OF inj sub] finite_imageD [OF finite_subset [OF sub] inj]
    by (simp add: card_cartesian_product)
qed

text \<open>
  The parts of two values: those of a value that is no reference are smaller than it, and
  those behind a reference are values of the heap. Either way they are in scope.
\<close>

lemma size_elem: "v \<in> set vs \<Longrightarrow> size v < Suc (size_list size vs)"
  using size_list_estimation' [of v vs "size v" size] by simp

lemma elem_pairs_mem: "(a, b) \<in> set (elem_pairs vs ws) \<Longrightarrow> \<exists>v w. a = Some v \<and> b = Some w \<and> v \<in> set vs \<and> w \<in> set ws"
  by (auto simp: elem_pairs_def zip_map_map dest: set_zip_leftD set_zip_rightD)

lemma in_scope_heap: "heap_in_scope R S h \<Longrightarrow> v \<in> set (heap_values h) \<Longrightarrow> in_scope R S (Some v)"
  by (simp add: heap_in_scope_def)

lemma in_scope_lookup:
  assumes "heap_in_scope R S h"
  shows "in_scope R S (pointee h a)" and "in_scope R S (MapIndex h a k)"
  using assms pointee_value [of h a] MapIndex_value [of h a k] in_scope_heap
  by (metis in_scope_None option.exhaust)+

lemma children_scope:
  assumes "children h l r = Some ps" and "(a, b) \<in> set ps"
    and "in_scope R S l" and "in_scope R S r" and "heap_in_scope R S h"
  shows "in_scope R S a \<and> in_scope R S b \<and> (visit_of l r = None \<longrightarrow> opt_size a < opt_size l)"
proof -
  from assms(1,2) obtain x y where lr: "l = Some x" "r = Some y" "valueTypeOf x = valueTypeOf y" "children_of h x y = Some ps"
    by (auto simp: children_def split: option.splits if_splits)
  note scope = in_scope_lookup [OF assms(5)] in_scope_heap [OF assms(5)]
  show ?thesis
  proof (cases x)
    case (PointerV t c)
    with lr assms(2) obtain d where "y = PointerV t d" "(a, b) = (pointee h c, pointee h d)"
      by (cases y) (auto simp: children_of_def)
    then show ?thesis using scope PointerV lr by (simp add: visit_of_def reference_of_def)
  next
    case (MapV t c)
    with lr assms(2) obtain d where d: "y = MapV t d" "(a, b) \<in> set (map (\<lambda>(k, v). (Some v, MapIndex h d k)) (map_entries h c))"
      by (cases y) (auto simp: children_of_def split: if_splits)
    then obtain e where "e \<in> set (map_entries h c)" "a = Some (snd e)" "b = MapIndex h d (fst e)" by auto
    then show ?thesis using scope entries_value d(1) MapV lr by (simp add: visit_of_def reference_of_def)
  next
    case (SliceV t c len cap)
    with lr assms(2) obtain d cap' where d: "y = SliceV t d len cap'" "(a, b) \<in> set (elem_pairs (elements h c len) (elements h d len))"
      by (cases y) (auto simp: children_of_def split: if_splits)
    then obtain v w where "a = Some v" "b = Some w" "v \<in> set (elements h c len)" "w \<in> set (elements h d len)"
      using elem_pairs_mem by blast
    then show ?thesis using scope elements_value d(1) SliceV lr by (simp add: visit_of_def reference_of_def)
  next
    case (InterfaceV t v)
    with lr assms(2) obtain w where "y = InterfaceV t w" "a = v" "b = w"
      by (cases y) (auto simp: children_of_def)
    then show ?thesis using assms(3,4) InterfaceV lr
      by (cases v; cases w) (auto simp: in_scope_def opt_size_def)
  next
    case (ArrayV t vs)
    with lr assms(2) obtain ws where ws: "y = ArrayV t ws" "(a, b) \<in> set (elem_pairs vs ws)"
      by (cases y) (auto simp: children_of_def)
    then obtain v w where "a = Some v" "b = Some w" "v \<in> set vs" "w \<in> set ws" using elem_pairs_mem by blast
    then show ?thesis using assms(3,4) ArrayV ws(1) lr size_elem [of v vs] size_elem [of w ws]
      by (auto simp: in_scope_def opt_size_def)
  next
    case (StructV t vs)
    with lr assms(2) obtain ws where ws: "y = StructV t ws" "(a, b) \<in> set (elem_pairs vs ws)"
      by (cases y) (auto simp: children_of_def)
    then obtain v w where "a = Some v" "b = Some w" "v \<in> set vs" "w \<in> set ws" using elem_pairs_mem by blast
    then show ?thesis using assms(3,4) StructV ws(1) lr size_elem [of v vs] size_elem [of w ws]
      by (auto simp: in_scope_def opt_size_def)
  qed (use lr assms(2) in \<open>auto simp: children_of_def split: if_splits rvalue.splits\<close>)
qed

lemma visit_possible:
  assumes "visit_of l r = Some v" and "children h l r = Some ps" and "in_scope R S l" and "in_scope R S r"
  shows "v \<in> possible R"
proof -
  from assms(1) obtain x y where lr: "l = Some x" "r = Some y"
    by (cases l; cases r) (auto simp: visit_of_def reference_of_def split: option.splits)
  with assms(2) have t: "valueTypeOf x = valueTypeOf y" "children_of h x y = Some ps" by (auto simp: children_def split: if_splits)
  show ?thesis
    using assms(1,3,4) t unfolding lr
    by (cases x; cases y)
      (auto simp: visit_of_def reference_of_def in_scope_def possible_def children_of_def split: if_splits)
qed

text \<open>Going through a list of pairs ends if each comparison does, with the visits only growing.\<close>

lemma same_all_total:
  assumes "\<And>l r vis. (l, r) \<in> set ps \<Longrightarrow> I vis \<Longrightarrow>
      \<exists>b vis'. same l r vis = Some (b, vis') \<and> set vis \<subseteq> set vis' \<and> I vis'"
    and "I vis"
  shows "\<exists>b vis'. same_all same ps vis = Some (b, vis') \<and> set vis \<subseteq> set vis' \<and> I vis'"
  using assms
proof (induction ps arbitrary: vis)
  case Nil
  then show ?case by auto
next
  case (Cons p ps)
  obtain l r where p: "p = (l, r)" by fastforce
  obtain b vis1 where 1: "same l r vis = Some (b, vis1)" "set vis \<subseteq> set vis1" "I vis1"
    using Cons.prems(1) [of l r vis] Cons.prems(2) p by auto
  show ?case
  proof (cases b)
    case True
    have "\<exists>c vis2. same_all same ps vis1 = Some (c, vis2) \<and> set vis1 \<subseteq> set vis2 \<and> I vis2"
      using Cons.prems(1) by (intro Cons.IH [OF _ 1(3)]) simp
    then obtain c vis2 where
      "same_all same ps vis1 = Some (c, vis2)" "set vis1 \<subseteq> set vis2" "I vis2" by blast
    then show ?thesis using 1 True p by auto
  next
    case False
    then show ?thesis using 1 p by auto
  qed
qed

lemma isSame_total:
  assumes fin: "finite R" and heap: "heap_in_scope R S h"
  shows "in_scope R S l \<Longrightarrow> in_scope R S r \<Longrightarrow> set vis \<subseteq> possible R \<Longrightarrow>
    card (possible R - set vis) * (S + 2) + opt_size l < n \<Longrightarrow>
    \<exists>b vis'. isSame n h l r vis = Some (b, vis') \<and> set vis \<subseteq> set vis' \<and> set vis' \<subseteq> possible R"
proof (induction n arbitrary: l r vis)
  case 0
  then show ?case by simp
next
  case (Suc n)
  have finP: "finite (possible R)" using finite_possible [OF fin] by simp
  show ?case
  proof (cases "children h l r")
    case None
    then show ?thesis using Suc.prems by (auto simp: isSame_step)
  next
    case (Some ps)
    note parts = children_scope [OF Some _ Suc.prems(1,2) heap]
    have go: "\<exists>b vis'. same_all (isSame n h) ps vis0 = Some (b, vis') \<and> set vis0 \<subseteq> set vis' \<and> set vis' \<subseteq> possible R"
      if vis0: "set vis0 \<subseteq> possible R"
        and room: "\<And>a b. (a, b) \<in> set ps \<Longrightarrow> card (possible R - set vis0) * (S + 2) + opt_size a < n" for vis0
    proof -
      let ?I = "\<lambda>vis. set vis \<subseteq> possible R \<and> set vis0 \<subseteq> set vis"
      have "\<exists>b vis'. same_all (isSame n h) ps vis0 = Some (b, vis') \<and> set vis0 \<subseteq> set vis' \<and> ?I vis'"
      proof (rule same_all_total)
        fix a b vis
        assume ab: "(a, b) \<in> set ps" and I: "?I vis"
        have "card (possible R - set vis) \<le> card (possible R - set vis0)"
          using I finP by (intro card_mono) auto
        then have "card (possible R - set vis) * (S + 2) + opt_size a < n"
          using room [OF ab] by (meson add_right_mono le_less_trans mult_right_mono zero_le)
        with Suc.IH [of a b vis] parts [OF ab] I
        show "\<exists>c vis'. isSame n h a b vis = Some (c, vis') \<and> set vis \<subseteq> set vis' \<and> ?I vis'" by (metis subset_trans)
      qed (use vis0 in simp)
      then show ?thesis by blast
    qed
    show ?thesis
    proof (cases "visit_of l r")
      case None
      have "card (possible R - set vis) * (S + 2) + opt_size a < n" if "(a, b) \<in> set ps" for a b
        using parts [OF that] None Suc.prems(4) by simp
      with go [OF Suc.prems(3)] show ?thesis using Some None by (simp add: isSame_step)
    next
      case v: (Some v)
      show ?thesis
      proof (cases "v \<in> set vis")
        case True
        then show ?thesis using Some v Suc.prems by (auto simp: isSame_step visit_or_def)
      next
        case False
        have vP: "v \<in> possible R" using visit_possible [OF v Some Suc.prems(1,2)] .
        have "possible R - set (v # vis) = possible R - set vis - {v}" by auto
        then have card: "card (possible R - set vis) = Suc (card (possible R - set (v # vis)))"
          using card_Suc_Diff1 [of "possible R - set vis" v] finP vP False by simp
        have "card (possible R - set (v # vis)) * (S + 2) + opt_size a < n" if "(a, b) \<in> set ps" for a b
        proof -
          have "opt_size a \<le> S" using parts [OF that] by (auto simp: in_scope_def opt_size_def split: option.splits)
          then show ?thesis using Suc.prems(4) unfolding card by simp
        qed
        with go [of "v # vis"] vP Suc.prems(3) obtain b vis' where
          "same_all (isSame n h) ps (v # vis) = Some (b, vis')" "set (v # vis) \<subseteq> set vis'" "set vis' \<subseteq> possible R" by auto
        then show ?thesis using Some v False by (simp add: isSame_step visit_or_def)
      qed
    qed
  qed
qed

text \<open>The fuel is enough.\<close>

lemma size_le_sizes: "v \<in> set vs \<Longrightarrow> size v \<le> sizes vs"
  by (auto simp: sizes_def intro: member_le_sum_list)

lemma in_scope_of: "(\<And>x. v = Some x \<Longrightarrow> x \<in> set vs) \<Longrightarrow> in_scope (set (concat (map refs_of vs))) (sizes vs) v"
  using size_le_sizes by (auto simp: in_scope_def split: option.splits)

lemma sameFuel_enough: "\<exists>b vis. isSame (sameFuel h l r) h l r [] = Some (b, vis)"
proof -
  let ?vs = "scope h l r" let ?R = "set (concat (map refs_of ?vs))" let ?S = "sizes ?vs"
  have heap: "heap_in_scope ?R ?S h"
    unfolding heap_in_scope_def by (intro ballI in_scope_of) (auto simp: scope_def)
  have l: "in_scope ?R ?S l" and r: "in_scope ?R ?S r"
    by (intro in_scope_of; simp add: scope_def)+
  let ?k = "length (concat (map refs_of ?vs))"
  have "card (possible ?R) \<le> ?k * ?k"
    using finite_possible [of ?R] card_length [of "concat (map refs_of ?vs)"] by (meson List.finite_set le_trans mult_le_mono)
  then have "card (possible ?R) * (?S + 2) \<le> ?k * ?k * (?S + 2)" by (rule mult_right_mono) simp
  moreover have "opt_size l \<le> ?S" using l by (auto simp: in_scope_def opt_size_def split: option.splits)
  ultimately have "card (possible ?R - set []) * (?S + 2) + opt_size l < sameFuel h l r"
    unfolding sameFuel_def Let_def by simp
  from isSame_total [OF _ heap l r _ this] show ?thesis by auto
qed

section \<open>The comparison decides deep equality\<close>

lemma same_all_complete:
  "(\<And>l r vis b vis'. (l, r) \<in> set ps \<Longrightarrow> same l r vis = Some (b, vis') \<Longrightarrow> b = True) \<Longrightarrow>
     same_all same ps vis = Some (b, vis') \<Longrightarrow> b = True"
proof (induction ps arbitrary: vis)
  case Nil
  then show ?case by simp
next
  case (Cons p ps)
  obtain l r where p: "p = (l, r)" by fastforce
  with Cons.prems(2) obtain c vis1 where c: "same l r vis = Some (c, vis1)" by (auto split: option.splits)
  then have "c = True" using Cons.prems(1) [of l r vis] p by simp
  then have "same_all same ps vis1 = Some (b, vis')" using Cons.prems(2) c p by simp
  then show ?case using Cons.prems(1) by (rule Cons.IH [rotated]) (rule list.set_intros(2))
qed

lemma isSame_complete: "same_value h l r \<Longrightarrow> isSame n h l r vis = Some (b, vis') \<Longrightarrow> b"
proof (induction n arbitrary: l r vis b vis')
  case 0
  then show ?case by (simp add: isSame.simps)
next
  case (Suc n)
  from Suc.prems(1) obtain ps where ps: "children h l r = Some ps" "\<forall>p \<in> set ps. same_value h (fst p) (snd p)"
    by (cases rule: same_value.cases) auto
  have all: "c" if "same_all (isSame n h) ps w = Some (c, w')" for w c w'
  proof -
    have "d = True" if "(l, r) \<in> set ps" "isSame n h l r u = Some (d, u')" for l r u d u'
      using Suc.IH [OF _ that(2)] ps(2) that(1) by fastforce
    then show ?thesis using same_all_complete [of ps "isSame n h" w c w'] that by blast
  qed
  show ?case
    using Suc.prems(2) ps(1) all by (auto simp: isSame_step visit_or_def split: option.splits if_splits)
qed

text \<open>
  Soundness: two values are the same up to a set of visits if they are of the same shape down
  to references that the set relates; a set of visits is closed if what its references lead
  to is the same up to the set.
\<close>

inductive same_upto :: "heap \<Rightarrow> sameVisit set \<Rightarrow> rvalue option \<Rightarrow> rvalue option \<Rightarrow> bool" for h V where
  upto_ref: "children h l r = Some ps \<Longrightarrow> visit_of l r = Some v \<Longrightarrow> v \<in> V \<Longrightarrow> same_upto h V l r"
| upto_parts: "children h l r = Some ps \<Longrightarrow> visit_of l r = None \<Longrightarrow>
     (\<forall>p \<in> set ps. same_upto h V (fst p) (snd p)) \<Longrightarrow> same_upto h V l r"

definition visit_pairs :: "heap \<Rightarrow> sameVisit \<Rightarrow> (rvalue option \<times> rvalue option) list" where
  "visit_pairs h v =
     (case fst (valueType v) of
        PtrKind \<Rightarrow> [(pointee h (visitLeft v), pointee h (visitRight v))]
      | MapKind \<Rightarrow> map (\<lambda>(k, x). (Some x, MapIndex h (visitRight v) k)) (map_entries h (visitLeft v))
      | _ \<Rightarrow> elem_pairs (elements h (visitLeft v) (visitLength v)) (elements h (visitRight v) (visitLength v)))"

lemma visit_children: "visit_of l r = Some v \<Longrightarrow> children h l r = Some ps \<Longrightarrow> ps = visit_pairs h v"
proof -
  assume v: "visit_of l r = Some v" and ps: "children h l r = Some ps"
  then obtain x y where lr: "l = Some x" "r = Some y"
    by (cases l; cases r) (auto simp: visit_of_def reference_of_def split: option.splits)
  with ps have t: "valueTypeOf x = valueTypeOf y" "children_of h x y = Some ps" by (auto simp: children_def split: if_splits)
  show ?thesis
    using v t unfolding lr
    by (cases x; cases y) (auto simp: visit_of_def reference_of_def children_of_def visit_pairs_def split: if_splits)
qed

definition visits_closed :: "heap \<Rightarrow> sameVisit set \<Rightarrow> sameVisit set \<Rightarrow> bool" where
  "visits_closed h V W \<longleftrightarrow> (\<forall>v \<in> V. \<forall>p \<in> set (visit_pairs h v). same_upto h W (fst p) (snd p))"

lemma same_upto_mono: "same_upto h V l r \<Longrightarrow> V \<subseteq> W \<Longrightarrow> same_upto h W l r"
  by (induction rule: same_upto.induct) (auto intro: same_upto.intros)

lemma visits_closed_mono: "visits_closed h V W \<Longrightarrow> W \<subseteq> W' \<Longrightarrow> visits_closed h V W'"
  unfolding visits_closed_def using same_upto_mono by blast

lemma visits_closed_Un: "visits_closed h V W \<Longrightarrow> visits_closed h V' W \<Longrightarrow> visits_closed h (V \<union> V') W"
  unfolding visits_closed_def by blast

text \<open>What a successful comparison has established: the new visits are closed, and the values are the same.\<close>

definition established :: "heap \<Rightarrow> visits \<Rightarrow> visits \<Rightarrow> bool" where
  "established h vis vis' \<longleftrightarrow> set vis \<subseteq> set vis' \<and> visits_closed h (set vis' - set vis) (set vis')"

lemma established_trans: "established h vis vis1 \<Longrightarrow> established h vis1 vis2 \<Longrightarrow> established h vis vis2"
proof -
  assume 1: "established h vis vis1" and 2: "established h vis1 vis2"
  have "visits_closed h (set vis1 - set vis) (set vis2)"
    using 1 2 visits_closed_mono unfolding established_def by blast
  with 2 have "visits_closed h ((set vis1 - set vis) \<union> (set vis2 - set vis1)) (set vis2)"
    by (intro visits_closed_Un) (simp_all add: established_def)
  moreover have "set vis2 - set vis \<subseteq> (set vis1 - set vis) \<union> (set vis2 - set vis1)" by blast
  ultimately have "visits_closed h (set vis2 - set vis) (set vis2)" unfolding visits_closed_def by blast
  with 1 2 show ?thesis unfolding established_def by blast
qed

lemma same_all_sound:
  "(\<And>l r vis vis'. (l, r) \<in> set ps \<Longrightarrow> same l r vis = Some (True, vis') \<Longrightarrow> established h vis vis' \<and> same_upto h (set vis') l r) \<Longrightarrow>
     same_all same ps vis = Some (True, vis') \<Longrightarrow>
     established h vis vis' \<and> (\<forall>p \<in> set ps. same_upto h (set vis') (fst p) (snd p))"
proof (induction ps arbitrary: vis)
  case Nil
  then show ?case by (simp add: established_def visits_closed_def)
next
  case (Cons p ps)
  obtain l r where p: "p = (l, r)" by fastforce
  with Cons.prems(2) obtain vis1 where 1: "same l r vis = Some (True, vis1)" "same_all same ps vis1 = Some (True, vis')"
    by (auto split: option.splits bool.splits)
  have e1: "established h vis vis1" "same_upto h (set vis1) l r" using Cons.prems(1) [of l r vis vis1] p 1 by simp_all
  have e2: "established h vis1 vis' \<and> (\<forall>p \<in> set ps. same_upto h (set vis') (fst p) (snd p))"
    using Cons.prems(1) by (rule Cons.IH [OF _ 1(2)]) (rule list.set_intros(2))
  then have "same_upto h (set vis') l r" using e1(2) same_upto_mono unfolding established_def by blast
  with e1 e2 established_trans show ?case unfolding p by auto
qed

lemma isSame_sound:
  "isSame n h l r vis = Some (True, vis') \<Longrightarrow> established h vis vis' \<and> same_upto h (set vis') l r"
proof (induction n arbitrary: l r vis vis')
  case 0
  then show ?case by (simp add: isSame.simps)
next
  case (Suc n)
  then obtain ps where ps: "children h l r = Some ps" by (auto simp: isSame_step split: option.splits)
  have all: "established h w w' \<and> (\<forall>p \<in> set ps. same_upto h (set w') (fst p) (snd p))"
    if "same_all (isSame n h) ps w = Some (True, w')" for w w'
    using same_all_sound [OF _ that] Suc.IH by blast
  show ?case
  proof (cases "visit_of l r")
    case None
    with Suc.prems ps have "same_all (isSame n h) ps vis = Some (True, vis')" by (simp add: isSame_step)
    from all [OF this] show ?thesis using upto_parts [OF ps None] by blast
  next
    case (Some v)
    show ?thesis
    proof (cases "v \<in> set vis")
      case True
      with Suc.prems ps Some have "vis' = vis" by (simp add: isSame_step visit_or_def)
      with True show ?thesis using upto_ref [OF ps Some] by (simp add: established_def visits_closed_def)
    next
      case False
      with Suc.prems ps Some have "same_all (isSame n h) ps (v # vis) = Some (True, vis')"
        by (simp add: isSame_step visit_or_def)
      from all [OF this] have e: "established h (v # vis) vis'" "\<forall>p \<in> set ps. same_upto h (set vis') (fst p) (snd p)"
        by simp_all
      then have v: "v \<in> set vis'" by (simp add: established_def)
      have "visits_closed h {v} (set vis')" using e(2) visit_children [OF Some ps] by (simp add: visits_closed_def)
      with e(1) have "visits_closed h ({v} \<union> (set vis' - set (v # vis))) (set vis')"
        by (intro visits_closed_Un) (simp_all add: established_def)
      then have "visits_closed h (set vis' - set vis) (set vis')" unfolding visits_closed_def by auto
      with e(1) have "established h vis vis'" by (simp add: established_def)
      then show ?thesis using upto_ref [OF ps Some v] by simp
    qed
  qed
qed

lemma same_upto_same_value:
  assumes "visits_closed h V V" and "same_upto h V l r"
  shows "same_value h l r"
  using assms(2)
proof (coinduction arbitrary: l r rule: same_value.coinduct)
  case same_value
  from same_value obtain ps where "children h l r = Some ps" "\<forall>p \<in> set ps. same_upto h V (fst p) (snd p)"
  proof (cases rule: same_upto.cases)
    case (upto_ref ps v)
    then show ?thesis using that assms(1) visit_children unfolding visits_closed_def by blast
  qed (use that in blast)
  then show ?case by blast
qed

section \<open>Properties\<close>

text \<open>
  C30. \<open>isSame\<close> always ends, also on values that refer to each other in cycles, and its verdict
  is deep equality: the largest relation in which two values are related only if they have the
  same type and shape and all their parts are related, floats counting as equal if both are
  NaN, functions if both are nil or both are not, and a map entry being looked up in the other
  map. The fuel \<open>sameFuel\<close> is enough for every heap.
\<close>

theorem isSame_decides:
  "\<exists>b vis. isSame (sameFuel h l r) h l r [] = Some (b, vis) \<and> (b \<longleftrightarrow> same_value h l r)"
proof -
  obtain b vis where b: "isSame (sameFuel h l r) h l r [] = Some (b, vis)" using sameFuel_enough by blast
  have "same_value h l r" if b
  proof -
    have "established h [] vis \<and> same_upto h (set vis) l r"
      using b that by (intro isSame_sound [of "sameFuel h l r"]) simp
    then show ?thesis using same_upto_same_value [of h "set vis" l r] by (simp add: established_def)
  qed
  moreover have b if "same_value h l r" using isSame_complete [OF that b] .
  ultimately show ?thesis using b by blast
qed

text \<open>
  Every value equals itself, also one that holds functions, NaN or cycles, as long as every
  map finds its own entries again, which fails exactly for a key that does not equal itself,
  such as NaN.
\<close>

theorem isSame_reflexive:
  assumes "\<forall>(a, es) \<in> set (heapMaps h). \<forall>(k, v) \<in> set (map_entries h (Some a)). MapIndex h (Some a) k = Some v"
  shows "\<exists>vis. isSame (sameFuel h l l) h l l [] = Some (True, vis)"
proof -
  have entries: "MapIndex h a k = Some v" if "(k, v) \<in> set (map_entries h a)" for a k v
  proof -
    from that obtain i es where "a = Some i" "map_of (heapMaps h) i = Some es"
      by (cases "Option.bind a (map_of (heapMaps h))") (auto simp: map_entries_def bind_eq_Some_conv)
    then show ?thesis using assms that map_of_SomeD by fastforce
  qed
  have pairs: "\<exists>ps. children h l l = Some ps \<and> (\<forall>p \<in> set ps. fst p = snd p)" for l
  proof (cases l)
    case (Some x)
    then show ?thesis
      using entries
      by (cases x) (auto simp: children_def children_of_def isSameFloat_def float_eq_def elem_pairs_def zip_same_conv_map)
  qed (simp add: children_def)
  have "same_value h l l"
  proof (coinduction arbitrary: l)
    case same_value
    obtain ps where "children h l l = Some ps" "\<forall>p \<in> set ps. fst p = snd p" using pairs by blast
    then show ?case by auto
  qed
  obtain b vis where b: "isSame (sameFuel h l l) h l l [] = Some (b, vis)" using sameFuel_enough by blast
  moreover have b using isSame_complete [OF \<open>same_value h l l\<close> b] .
  ultimately show ?thesis by simp
qed

definition cyclic_heap :: heap where
  "cyclic_heap = \<lparr>heapCells = [(1, StructV ''Node'' [PointerV ''*Node'' (Some 1), FloatV ''float64'' NaN, MapV ''map'' (Some 2)])],
     heapArrays = [], heapMaps = [(2, [(BasicV ''string'' ''k'', FuncV ''func'' False)])]\<rparr>"

theorem isSame_reflexive_witness:
  "\<exists>vis. isSame (sameFuel cyclic_heap (Some (PointerV ''*Node'' (Some 1))) (Some (PointerV ''*Node'' (Some 1))))
     cyclic_heap (Some (PointerV ''*Node'' (Some 1))) (Some (PointerV ''*Node'' (Some 1))) [] = Some (True, vis)"
  by (rule isSame_reflexive) (simp add: cyclic_heap_def map_entries_def MapIndex_def)

end
