(* ===== verification/State.thy ===== *)
theory State
  imports Upcast Same_Value
begin

text \<open>
  States and deciders (\<open>state.go\<close>): building a state from rules, the copies a read starts
  from, replaying and stepping events, and the checks a decider's events go through.

  A state of the application is a value of the type \<open>'s\<close>; data that two Go values would
  share is not represented. What \<open>value_type.go\<close> and \<open>state_cache.go\<close> find out by reflection
  is computed from the fields \<open>stateType\<close> and \<open>reflected\<close>, which stand for
  \<open>reflect.TypeFor[TState]()\<close> and \<open>reflect.ValueOf\<close>.
\<close>

section \<open>Events of the application\<close>

text \<open>
  An event of the application: its type, what \<open>json.Marshal\<close> returns for it, which is the
  text of an error or the encoded data, and the Go value. \<open>None\<close> is a nil interface, and
  \<open>isNil\<close> of \<open>projection.go\<close> counts a nil pointer and the like as nil, too.
\<close>

record app_event =
  EventType :: string
  Marshal :: "string + string"
  AppValue :: rvalue

type_synonym Event = "app_event option"

definition isNil :: "rvalue option \<Rightarrow> bool" where
  "isNil v =
     (case v of
        None \<Rightarrow> True
      | Some (PointerV _ a) \<Rightarrow> a = None
      | Some (MapV _ a) \<Rightarrow> a = None
      | Some (SliceV _ a _ _) \<Rightarrow> a = None
      | Some (FuncV _ nil) \<Rightarrow> nil
      | Some (ChanV _ a) \<Rightarrow> a = None
      | Some _ \<Rightarrow> False)"

text \<open>
  A schema is what \<open>json.Marshal\<close> makes of it, which is how schemas are compared, or
  \<open>None\<close> for a nil one.
\<close>

type_synonym schema_json = "(string + string) option"

record EventSchema =
  SchemaEventType :: string
  Schema :: schema_json

text \<open>
  The type argument \<open>TEvent\<close>: its kind and name, the event type of its zero value, decoding
  it from JSON, and what \<open>eventSchemaOf\<close> returns for it.
\<close>

datatype class_kind = ConcreteKind | PointerKind string | InterfaceKind

record 'e event_class =
  ClassKind :: class_kind
  ClassName :: string
  ClassEventType :: string
  Unmarshal :: "string \<Rightarrow> string + 'e"
  ClassSchema :: "string + schema_json"

section \<open>The state and its builder\<close>

type_synonym 's rule = "'s \<Rightarrow> string \<Rightarrow> 's \<times> goerr option"

record 's State =
  initial :: 's
  evolve :: "string \<rightharpoonup> 's rule"
  schemas :: "EventSchema list"
  ignored :: "string set"
  upcasters :: "Upcasters option"
  fromLatest :: string
  clone :: "('s \<Rightarrow> 's) option"
  stateType :: rtype
  stateTypeName :: string
  reflected :: "'s \<Rightarrow> rvalue"
  zeroState :: 's
  address :: nat

text \<open>The Go type argument of a state, and the address \<open>NewState\<close> allocates, which tells two states apart.\<close>

definition NewState :: "rtype \<Rightarrow> string \<Rightarrow> ('s \<Rightarrow> rvalue) \<Rightarrow> 's \<Rightarrow> nat \<Rightarrow> 's \<Rightarrow> 's State" where
  "NewState t name reflect zero addr init =
     \<lparr>initial = init, evolve = Map.empty, schemas = [], ignored = {}, upcasters = None, fromLatest = [],
      clone = None, stateType = t, stateTypeName = name, reflected = reflect, zeroState = zero,
      address = addr\<rparr>"

definition eventTypeOf :: "'e event_class \<Rightarrow> string \<Rightarrow> string go" where
  "eventTypeOf c function =
     (case ClassKind c of
        PointerKind elem \<Rightarrow> Panic (''architecturekit: '' @ function @ '' needs the event type '' @ elem @ '', not the pointer '' @ ClassName c)
      | InterfaceKind \<Rightarrow> Panic (''architecturekit: '' @ function @ '' needs a concrete event type, not the interface '' @ ClassName c)
      | ConcreteKind \<Rightarrow> Ret (ClassEventType c))"

definition schemaFor :: "'e event_class \<Rightarrow> string \<Rightarrow> EventSchema go" where
  "schemaFor c eventType =
     (case ClassSchema c of
        Inl err \<Rightarrow> Panic (''architecturekit: event type '' @ strconv_Quote eventType @ '': '' @ err)
      | Inr schema \<Rightarrow> Ret \<lparr>SchemaEventType = eventType, Schema = schema\<rparr>)"

definition already_registered :: "string \<Rightarrow> string" where
  "already_registered eventType =
     ''architecturekit: event type '' @ strconv_Quote eventType @ '' is already registered on this state''"

text \<open>The rule \<open>Evolve\<close> registers: decode the data, then call the function.\<close>

definition evolve_rule :: "'e event_class \<Rightarrow> string \<Rightarrow> ('s \<Rightarrow> 'e \<Rightarrow> 's) \<Rightarrow> 's rule" where
  "evolve_rule c eventType f state data =
     (case Unmarshal c data of
        Inl err \<Rightarrow> (state, Some (Errorf [W (Sentinel ErrPermanent), Lit ('': decoding '' @ strconv_Quote eventType @ '': '' @ err)]))
      | Inr event \<Rightarrow> (f state event, None))"

definition Evolve :: "'e event_class \<Rightarrow> 's State \<Rightarrow> ('s \<Rightarrow> 'e \<Rightarrow> 's) option \<Rightarrow> 's State go" where
  "Evolve c s f =
     (case f of
        None \<Rightarrow> Panic ''architecturekit: Evolve needs a function, not nil''
      | Some g \<Rightarrow>
          go_bind (eventTypeOf c ''Evolve'') (\<lambda>eventType.
            if evolve s eventType \<noteq> None then Panic (already_registered eventType)
            else go_bind (schemaFor c eventType) (\<lambda>schema.
              Ret (s\<lparr>evolve := (evolve s)(eventType \<mapsto> evolve_rule c eventType g), schemas := schemas s @ [schema]\<rparr>))))"

definition Ignore :: "'e event_class \<Rightarrow> 's State \<Rightarrow> 's State go" where
  "Ignore c s =
     go_bind (eventTypeOf c ''Ignore'') (\<lambda>eventType.
       if evolve s eventType \<noteq> None then Panic (already_registered eventType)
       else go_bind (schemaFor c eventType) (\<lambda>schema.
         Ret (s\<lparr>evolve := (evolve s)(eventType \<mapsto> (\<lambda>state data. (state, None))),
                ignored := insert eventType (ignored s), schemas := schemas s @ [schema]\<rparr>)))"

definition UpcastWith :: "'s State \<Rightarrow> Upcasters option \<Rightarrow> 's State go" where
  "UpcastWith s u =
     (if u = None then Panic ''architecturekit: UpcastWith needs a set of upcasters, not nil''
      else if upcasters s \<noteq> None then Panic ''architecturekit: this state already has a set of upcasters''
      else Ret (s\<lparr>upcasters := u\<rparr>))"

definition FromLatest :: "'e event_class \<Rightarrow> 's State \<Rightarrow> 's State go" where
  "FromLatest c s =
     go_bind (eventTypeOf c ''FromLatest'') (\<lambda>eventType.
       if evolve s eventType = None \<or> eventType \<in> ignored s then
         Panic (''architecturekit: event type '' @ strconv_Quote eventType @ '' has no Evolve rule on this state'')
       else if fromLatest s \<noteq> [] then
         Panic (''architecturekit: this state already starts from the latest '' @ strconv_Quote (fromLatest s) @ '' event'')
       else Ret (s\<lparr>fromLatest := eventType\<rparr>))"

definition Clone :: "'s State \<Rightarrow> ('s \<Rightarrow> 's) option \<Rightarrow> 's State go" where
  "Clone s f =
     (if f = None then Panic ''architecturekit: Clone needs a function, not nil''
      else if clone s \<noteq> None then Panic ''architecturekit: this state already has a clone function''
      else Ret (s\<lparr>clone := f\<rparr>))"

definition Schemas :: "'s State \<Rightarrow> EventSchema list" where
  "Schemas s = schemas s"

section \<open>Copies\<close>

definition isCopyable :: "'s State \<Rightarrow> bool" where
  "isCopyable s \<longleftrightarrow> isValueType (stateType s) \<or> clone s \<noteq> None"

definition copyOf :: "'s State \<Rightarrow> 's \<Rightarrow> 's" where
  "copyOf s state = (case clone s of Some f \<Rightarrow> f state | None \<Rightarrow> state)"

definition copyOfInitial :: "'s State \<Rightarrow> 's \<times> goerr option" where
  "copyOfInitial s =
     (if sharesData (reflected s (initial s)) \<and> clone s = None then
        (zeroState s, Some (Errorf [W (Sentinel ErrPermanent),
          Lit ('': '' @ stateTypeName s @ '' holds slices, maps, pointers or channels in its initial value, so it '' @
            ''needs a Clone function to start every read from a copy of the initial value'')]))
      else (copyOf s (initial s), None))"

definition checkCopyable :: "'s State \<Rightarrow> goerr option" where
  "checkCopyable s =
     (if isCopyable s then None
      else Some (Errorf [W (Sentinel ErrPermanent),
        Lit ('': '' @ stateTypeName s @ '' holds slices, maps, pointers, channels, functions or interfaces, so it needs a '' @
          ''Clone function to be stepped without changing the given state'')]))"

section \<open>Rules\<close>

definition HasRule :: "'s State \<Rightarrow> string \<Rightarrow> bool" where
  "HasRule s eventType \<longleftrightarrow> evolve s eventType \<noteq> None"

text \<open>\<open>checkRules\<close>, on events that are not nil, which \<open>checkNotNil\<close> makes sure of before.\<close>

fun checkRules :: "'s State \<Rightarrow> string \<Rightarrow> app_event list \<Rightarrow> goerr option" where
  "checkRules s subject [] = None"
| "checkRules s subject (event # events) =
     (if \<not> HasRule s (EventType event) then
        Some (Errorf [W (Sentinel ErrPermanent),
          Lit ('': refusing to write an event of type '' @ strconv_Quote (EventType event) @ '' to '' @ strconv_Quote subject @
            '', since the state of the decider has no rule for it and could not read the subject any more'')])
      else checkRules s subject events)"

definition no_rule :: "string \<Rightarrow> string \<Rightarrow> goerr" where
  "no_rule eventType loc =
     Errorf [W (Sentinel ErrPermanent), Lit ('': no rule for event type '' @ strconv_Quote eventType @ loc)]"

definition evolveBy :: "'s State \<Rightarrow> 's \<Rightarrow> app_event \<Rightarrow> 's \<times> goerr option" where
  "evolveBy s current event =
     (case evolve s (EventType event) of
        None \<Rightarrow> (current, Some (no_rule (EventType event) []))
      | Some rule \<Rightarrow>
          (case Marshal event of
             Inl err \<Rightarrow> (current, Some (Errorf [W (Sentinel ErrPermanent),
                          Lit ('': encoding '' @ strconv_Quote (EventType event) @ '': '' @ err)]))
           | Inr data \<Rightarrow> rule current data))"

text \<open>
  Applying the rules to the events an upcaster returned, as \<open>evolveByStored\<close> does and, with
  the subject in the message, \<open>fold\<close> of \<open>store.go\<close>.
\<close>

fun evolve_all :: "string \<Rightarrow> 's State \<Rightarrow> 's \<Rightarrow> event list \<Rightarrow> 's \<times> goerr option" where
  "evolve_all loc s current [] = (current, None)"
| "evolve_all loc s current (event # events) =
     (case evolve s (Type event) of
        None \<Rightarrow> (current, Some (no_rule (Type event) loc))
      | Some rule \<Rightarrow>
          (case rule current (Data event) of
             (current', Some err) \<Rightarrow> (current', Some err)
           | (current', None) \<Rightarrow> evolve_all loc s current' events))"

definition evolveByStored :: "'s State \<Rightarrow> 's \<Rightarrow> event \<Rightarrow> 's \<times> goerr option" where
  "evolveByStored s current stored =
     (case upcast_apply (upcasters s) stored of
        Inl err \<Rightarrow> (current, Some err)
      | Inr upcasted \<Rightarrow> evolve_all [] s current upcasted)"

section \<open>Replaying and stepping\<close>

text \<open>The events from the latest one that \<open>P\<close> holds for, looking from the end, or all of them.\<close>

fun from_latest_loop :: "('a \<Rightarrow> bool) \<Rightarrow> 'a list \<Rightarrow> nat \<Rightarrow> 'a list" where
  "from_latest_loop P history 0 = history"
| "from_latest_loop P history (Suc i) =
     (if P (history ! i) then drop i history else from_latest_loop P history i)"

definition since_latest :: "string \<Rightarrow> ('a \<Rightarrow> string) \<Rightarrow> 'a list \<Rightarrow> 'a list" where
  "since_latest latest typeOf history =
     (if latest \<noteq> [] then from_latest_loop (\<lambda>e. typeOf e = latest) history (length history) else history)"

text \<open>A loop that advances a state by one element at a time, until one fails.\<close>

fun advance_all :: "('s \<Rightarrow> 'a \<Rightarrow> 's \<times> goerr option) \<Rightarrow> 's \<Rightarrow> 'a list \<Rightarrow> 's \<times> goerr option" where
  "advance_all f current [] = (current, None)"
| "advance_all f current (x # xs) =
     (case f current x of
        (current', Some err) \<Rightarrow> (current', Some err)
      | (current', None) \<Rightarrow> advance_all f current' xs)"

definition Replay :: "'s State \<Rightarrow> app_event list \<Rightarrow> 's \<times> goerr option" where
  "Replay s history =
     (case copyOfInitial s of
        (current, Some err) \<Rightarrow> (current, Some err)
      | (current, None) \<Rightarrow> advance_all (evolveBy s) current (since_latest (fromLatest s) EventType history))"

definition ReplayStored :: "'s State \<Rightarrow> event list \<Rightarrow> 's \<times> goerr option" where
  "ReplayStored s history =
     (case copyOfInitial s of
        (current, Some err) \<Rightarrow> (current, Some err)
      | (current, None) \<Rightarrow> advance_all (evolveByStored s) current (since_latest (fromLatest s) Type history))"

definition Step :: "'s State \<Rightarrow> 's \<Rightarrow> app_event \<Rightarrow> 's \<times> goerr option" where
  "Step s current event =
     (case checkCopyable s of
        Some err \<Rightarrow> (current, Some err)
      | None \<Rightarrow>
          (case evolveBy s (copyOf s current) event of
             (_, Some err) \<Rightarrow> (current, Some err)
           | (advanced, None) \<Rightarrow> (advanced, None)))"

definition StepStored :: "'s State \<Rightarrow> 's \<Rightarrow> event \<Rightarrow> 's \<times> goerr option" where
  "StepStored s current stored =
     (case checkCopyable s of
        Some err \<Rightarrow> (current, Some err)
      | None \<Rightarrow>
          (case evolveByStored s (copyOf s current) stored of
             (_, Some err) \<Rightarrow> (current, Some err)
           | (advanced, None) \<Rightarrow> (advanced, None)))"

section \<open>Deciders\<close>

text \<open>
  A decider, whose zero value has neither a state nor a function. The function gets the
  world, in which the context and whatever it reads live, and returns it.
\<close>

record ('w, 'c, 's) Decider =
  dstate :: "'s State option"
  ddecide :: "('w \<Rightarrow> 'c \<Rightarrow> 's \<Rightarrow> (goerr + Event list) \<times> 'w) option"

definition NewDecider ::
  "'s State option \<Rightarrow> ('w \<Rightarrow> 'c \<Rightarrow> 's \<Rightarrow> (goerr + Event list) \<times> 'w) option \<Rightarrow> ('w, 'c, 's) Decider go" where
  "NewDecider state decide =
     (if state = None then Panic ''architecturekit: NewDecider needs a state, not nil''
      else if decide = None then Panic ''architecturekit: NewDecider needs a function that decides, not nil''
      else Ret \<lparr>dstate = state, ddecide = decide\<rparr>)"

definition decider_State :: "('w, 'c, 's) Decider \<Rightarrow> 's State option" where
  "decider_State d = dstate d"

definition Decide :: "('w, 'c, 's) Decider \<Rightarrow> 'w \<Rightarrow> 'c \<Rightarrow> 's \<Rightarrow> ((goerr + Event list) \<times> 'w) go" where
  "Decide d w cmd state =
     (case ddecide d of
        None \<Rightarrow> Panic ''architecturekit: Decide needs a decider made with NewDecider, not the zero Decider''
      | Some f \<Rightarrow> Ret (f w cmd state))"

section \<open>Lemmas\<close>

lemma advance_all_append:
  "advance_all f s (xs @ ys) =
     (case advance_all f s xs of (s', Some err) \<Rightarrow> (s', Some err) | (s', None) \<Rightarrow> advance_all f s' ys)"
  by (induction xs arbitrary: s) (auto split: prod.splits option.splits)

lemma advance_all_cong:
  "list_all2 (\<lambda>x y. \<forall>s. f s x = g s y) xs ys \<Longrightarrow> advance_all f s xs = advance_all g s ys"
  by (induction xs ys arbitrary: s rule: list_all2_induct) (auto split: prod.split option.split)

lemma from_latest_loop_none: "\<forall>x \<in> set (take n h). \<not> P x \<Longrightarrow> n \<le> length h \<Longrightarrow> from_latest_loop P h n = h"
  by (induction n) (auto simp: take_Suc_conv_app_nth)

lemma from_latest_loop_split:
  assumes "P x" and "\<forall>y \<in> set post. \<not> P y" and "length pre < n" and "n \<le> length (pre @ x # post)"
  shows "from_latest_loop P (pre @ x # post) n = x # post"
  using assms(3,4)
proof (induction n)
  case (Suc n)
  show ?case
  proof (cases "n = length pre")
    case True
    then show ?thesis using assms(1) by simp
  next
    case False
    with Suc.prems have n: "length pre < n" "n \<le> length (pre @ x # post)" by auto
    then have "(pre @ x # post) ! n = post ! (n - Suc (length pre))" "n - Suc (length pre) < length post"
      using Suc.prems by (auto simp: nth_append nth_Cons')
    then have "\<not> P ((pre @ x # post) ! n)" using assms(2) by simp
    then show ?thesis using Suc.IH [OF n] by simp
  qed
qed simp

lemma since_latest_cases:
  obtains "since_latest t typeOf h = h" "t = [] \<or> (\<forall>e \<in> set h. typeOf e \<noteq> t)"
  | pre x post where "t \<noteq> []" "h = pre @ x # post" "typeOf x = t" "\<forall>e \<in> set post. typeOf e \<noteq> t"
      "since_latest t typeOf h = x # post"
proof (cases "t = [] \<or> (\<forall>e \<in> set h. typeOf e \<noteq> t)")
  case True
  then show ?thesis using that(1) from_latest_loop_none [of "length h" h] by (auto simp: since_latest_def)
next
  case False
  then obtain pre x post where "h = pre @ x # post" "typeOf x = t" "\<forall>e \<in> set post. typeOf e \<noteq> t"
    using split_list_last_prop [of h "\<lambda>e. typeOf e = t"] by blast
  then show ?thesis
    using False that(2) from_latest_loop_split [of "\<lambda>e. typeOf e = t" x post pre "length h"]
    by (auto simp: since_latest_def)
qed

lemma since_latest_rel:
  assumes "list_all2 R h h'" and "\<And>x y. R x y \<Longrightarrow> typeOf x = typeOf' y"
  shows "list_all2 R (since_latest t typeOf h) (since_latest t typeOf' h')"
proof -
  have "n \<le> length h \<Longrightarrow>
      list_all2 R (from_latest_loop (\<lambda>e. typeOf e = t) h n) (from_latest_loop (\<lambda>e. typeOf' e = t) h' n)" for n
  proof (induction n)
    case (Suc n)
    then have "typeOf (h ! n) = typeOf' (h' ! n)" using assms by (auto simp: list_all2_conv_all_nth)
    then show ?case using Suc assms(1) by (auto intro: list_all2_dropI)
  qed (simp add: assms(1))
  then show ?thesis using assms(1) list_all2_lengthD [OF assms(1)] by (auto simp: since_latest_def)
qed

text \<open>What came before an element that does not depend on the state is forgotten.\<close>

lemma advance_all_forget:
  assumes "advance_all f a (pre @ x # post) = (r, None)"
    and "\<And>b c y. f b x = (y, None) \<Longrightarrow> f c x = (y, None)"
  shows "advance_all f c (x # post) = (r, None)"
proof -
  obtain b e where pre: "advance_all f a pre = (b, e)" by fastforce
  with assms(1) have b: "advance_all f b (x # post) = (r, None)" by (cases e) (simp_all add: advance_all_append)
  obtain y e' where y: "f b x = (y, e')" by fastforce
  with b have "e' = None" "advance_all f y post = (r, None)" by (cases e'; simp)+
  with y assms(2) [of b y c] show ?thesis by simp
qed

lemma checkRules_None: "checkRules s subject events = None \<longleftrightarrow> (\<forall>e \<in> set events. HasRule s (EventType e))"
  by (induction events) auto

lemma checkRules_Some: "checkRules s subject events = Some err \<Longrightarrow> errors_Is err ErrPermanent"
  by (induction events) (auto simp: sentinel_Is_def split: if_splits)

section \<open>The invariant of the builder\<close>

definition state_ok :: "'s State \<Rightarrow> bool" where
  "state_ok s \<longleftrightarrow>
     (\<forall>t \<in> ignored s. evolve s t = Some (\<lambda>state data. (state, None)))
     \<and> (fromLatest s \<noteq> [] \<longrightarrow> HasRule s (fromLatest s) \<and> fromLatest s \<notin> ignored s)
     \<and> distinct (map SchemaEventType (schemas s)) \<and> set (map SchemaEventType (schemas s)) = dom (evolve s)"

lemma eventTypeOf_Ret: "eventTypeOf c f = Ret t \<longleftrightarrow> ClassKind c = ConcreteKind \<and> t = ClassEventType c"
  by (cases "ClassKind c") (auto simp: eventTypeOf_def)

lemma schemaFor_Ret: "schemaFor c t = Ret schema \<longleftrightarrow> (\<exists>j. ClassSchema c = Inr j \<and> schema = \<lparr>SchemaEventType = t, Schema = j\<rparr>)"
  by (cases "ClassSchema c") (auto simp: schemaFor_def)

lemma Evolve_Ret:
  "Evolve c s f = Ret s' \<longleftrightarrow> ClassKind c = ConcreteKind \<and> evolve s (ClassEventType c) = None \<and>
     (\<exists>g j. f = Some g \<and> ClassSchema c = Inr j \<and>
       s' = s\<lparr>evolve := (evolve s)(ClassEventType c \<mapsto> evolve_rule c (ClassEventType c) g),
               schemas := schemas s @ [\<lparr>SchemaEventType = ClassEventType c, Schema = j\<rparr>]\<rparr>)"
  by (cases f) (auto simp: Evolve_def go_bind_eq_Ret eventTypeOf_Ret schemaFor_Ret)

lemma Ignore_Ret:
  "Ignore c s = Ret s' \<longleftrightarrow> ClassKind c = ConcreteKind \<and> evolve s (ClassEventType c) = None \<and>
     (\<exists>j. ClassSchema c = Inr j \<and>
       s' = s\<lparr>evolve := (evolve s)(ClassEventType c \<mapsto> (\<lambda>state data. (state, None))),
               ignored := insert (ClassEventType c) (ignored s),
               schemas := schemas s @ [\<lparr>SchemaEventType = ClassEventType c, Schema = j\<rparr>]\<rparr>)"
  by (auto simp: Ignore_def go_bind_eq_Ret eventTypeOf_Ret schemaFor_Ret)

lemma FromLatest_Ret:
  "FromLatest c s = Ret s' \<longleftrightarrow> ClassKind c = ConcreteKind \<and> HasRule s (ClassEventType c)
     \<and> ClassEventType c \<notin> ignored s \<and> fromLatest s = [] \<and> s' = s\<lparr>fromLatest := ClassEventType c\<rparr>"
  by (auto simp: FromLatest_def HasRule_def go_bind_eq_Ret eventTypeOf_Ret)

text \<open>A state with one more rule, which may be the one of an ignored event type.\<close>

lemma state_ok_add:
  assumes ok: "state_ok s" and none: "evolve s t = None"
    and s': "evolve s' = (evolve s)(t \<mapsto> rule)" "schemas s' = schemas s @ [schema]" "SchemaEventType schema = t"
      "fromLatest s' = fromLatest s"
      "ignored s' = ignored s \<or> ignored s' = insert t (ignored s) \<and> rule = (\<lambda>state data. (state, None))"
  shows "state_ok s'"
proof -
  have new: "t \<notin> dom (evolve s)" "t \<notin> ignored s" "fromLatest s \<noteq> [] \<longrightarrow> fromLatest s \<noteq> t"
    using ok none by (auto simp: state_ok_def HasRule_def)
  have "\<forall>u \<in> ignored s'. evolve s' u = Some (\<lambda>state data. (state, None))"
    using ok new s' by (auto simp: state_ok_def)
  moreover have "fromLatest s' \<noteq> [] \<longrightarrow> HasRule s' (fromLatest s') \<and> fromLatest s' \<notin> ignored s'"
    using ok new s' by (auto simp: state_ok_def HasRule_def)
  moreover have "set (map SchemaEventType (schemas s)) = dom (evolve s)" "distinct (map SchemaEventType (schemas s))"
    using ok by (simp_all add: state_ok_def)
  then have "distinct (map SchemaEventType (schemas s'))" "set (map SchemaEventType (schemas s')) = dom (evolve s')"
    using new(1) s'(1-3) by simp_all
  ultimately show ?thesis unfolding state_ok_def by blast
qed

lemma state_ok_Evolve:
  assumes "state_ok s" and "Evolve c s f = Ret s'"
  shows "state_ok s'"
proof -
  from assms(2) obtain g j where "evolve s (ClassEventType c) = None"
    "s' = s\<lparr>evolve := (evolve s)(ClassEventType c \<mapsto> evolve_rule c (ClassEventType c) g),
            schemas := schemas s @ [\<lparr>SchemaEventType = ClassEventType c, Schema = j\<rparr>]\<rparr>"
    by (auto simp: Evolve_Ret)
  then show ?thesis
    by (intro state_ok_add [OF assms(1), where t = "ClassEventType c" and rule = "evolve_rule c (ClassEventType c) g"
          and schema = "\<lparr>SchemaEventType = ClassEventType c, Schema = j\<rparr>"]) simp_all
qed

lemma state_ok_Ignore:
  assumes "state_ok s" and "Ignore c s = Ret s'"
  shows "state_ok s'"
proof -
  from assms(2) obtain j where "evolve s (ClassEventType c) = None"
    "s' = s\<lparr>evolve := (evolve s)(ClassEventType c \<mapsto> (\<lambda>state data. (state, None))),
            ignored := insert (ClassEventType c) (ignored s),
            schemas := schemas s @ [\<lparr>SchemaEventType = ClassEventType c, Schema = j\<rparr>]\<rparr>"
    by (auto simp: Ignore_Ret)
  then show ?thesis
    by (intro state_ok_add [OF assms(1), where t = "ClassEventType c" and rule = "\<lambda>state data. (state, None)"
          and schema = "\<lparr>SchemaEventType = ClassEventType c, Schema = j\<rparr>"]) simp_all
qed

lemma state_ok_fields:
  "state_ok s \<Longrightarrow> evolve s' = evolve s \<Longrightarrow> schemas s' = schemas s \<Longrightarrow> ignored s' = ignored s \<Longrightarrow>
     fromLatest s' = fromLatest s \<Longrightarrow> state_ok s'"
  by (simp add: state_ok_def HasRule_def)

lemma without_fromLatest:
  "evolveBy (s\<lparr>fromLatest := []\<rparr>) = evolveBy s"
  "evolveByStored (s\<lparr>fromLatest := []\<rparr>) = evolveByStored s"
  "copyOfInitial (s\<lparr>fromLatest := []\<rparr>) = copyOfInitial s"
proof -
  have all: "evolve_all loc (s\<lparr>fromLatest := []\<rparr>) c es = evolve_all loc s c es" for loc c es
    by (induction es arbitrary: c) (auto split: option.split prod.split)
  show "evolveBy (s\<lparr>fromLatest := []\<rparr>) = evolveBy s" by (intro ext) (simp add: evolveBy_def)
  show "evolveByStored (s\<lparr>fromLatest := []\<rparr>) = evolveByStored s"
    by (intro ext) (simp add: evolveByStored_def all split: sum.split)
  show "copyOfInitial (s\<lparr>fromLatest := []\<rparr>) = copyOfInitial s" by (simp add: copyOfInitial_def copyOf_def)
qed

lemma advance_since_latest:
  assumes "advance_all f a h = (r, None)"
    and "\<And>x b c y. typeOf x = t \<Longrightarrow> f b x = (y, None) \<Longrightarrow> f c x = (y, None)"
  shows "advance_all f a (since_latest t typeOf h) = (r, None)"
proof (cases rule: since_latest_cases [of t typeOf h])
  case 1
  then show ?thesis using assms(1) by simp
next
  case (2 pre x post)
  then have "advance_all f a (x # post) = (r, None)"
    using advance_all_forget [of f a pre x post r a] assms by blast
  then show ?thesis using 2 by simp
qed

section \<open>Properties\<close>

text \<open>
  C33. Every function that builds a state keeps it well-formed: an ignored event type has the
  rule that changes nothing, \<open>FromLatest\<close> names a type with an \<open>Evolve\<close> rule that is not ignored,
  and there is exactly one schema per event type with a rule. \<open>NewState\<close> starts with it.
\<close>

theorem builder_keeps_state_ok:
  "state_ok (NewState t name reflect zero addr init)
   \<and> (state_ok s \<longrightarrow>
        (\<forall>s'. Evolve c s f = Ret s' \<or> Ignore c s = Ret s' \<or> FromLatest c s = Ret s'
              \<or> UpcastWith s u = Ret s' \<or> Clone s g = Ret s' \<longrightarrow> state_ok s'))"
proof -
  have "state_ok (NewState t name reflect zero addr init)" by (simp add: state_ok_def NewState_def)
  moreover have "state_ok s'" if "state_ok s" "FromLatest c s = Ret s'" for s'
    using that unfolding FromLatest_Ret by (simp add: state_ok_def HasRule_def)
  moreover have "state_ok s'" if "state_ok s" "UpcastWith s u = Ret s' \<or> Clone s g = Ret s'" for s'
    using that(2) by (intro state_ok_fields [OF that(1)]) (auto simp: UpcastWith_def Clone_def split: if_splits)
  ultimately show ?thesis using state_ok_Evolve state_ok_Ignore by blast
qed

definition sample_class :: "string \<Rightarrow> string event_class" where
  "sample_class t = \<lparr>ClassKind = ConcreteKind, ClassName = t, ClassEventType = t, Unmarshal = Inr, ClassSchema = Inr (Some (Inr ''{}''))\<rparr>"

definition sample_state :: "string State" where
  "sample_state = NewState (BasicType KString) ''string'' (BasicV ''string'') [] 1 []"

theorem builder_keeps_state_ok_witness:
  "\<exists>s'. Evolve (sample_class ''added'') sample_state (Some (@)) = Ret s' \<and> state_ok s' \<and> HasRule s' ''added''"
proof -
  let ?c = "sample_class ''added''"
  let ?r = "sample_state\<lparr>evolve := (evolve sample_state)(ClassEventType ?c \<mapsto> evolve_rule ?c (ClassEventType ?c) (@)),
               schemas := schemas sample_state @ [\<lparr>SchemaEventType = ClassEventType ?c, Schema = Some (Inr ''{}'')\<rparr>]\<rparr>"
  have e: "Evolve ?c sample_state (Some (@)) = Ret ?r"
    by (auto simp: Evolve_Ret sample_class_def sample_state_def NewState_def)
  have "state_ok sample_state" by (simp add: sample_state_def state_ok_def NewState_def)
  then have "state_ok ?r"
    using builder_keeps_state_ok [of undefined undefined undefined "[]" undefined "[]" sample_state ?c "Some (@)" None None] e
    by blast
  with e show ?thesis by (auto simp: HasRule_def sample_class_def)
qed

text \<open>A typed event and the event it is stored as.\<close>

definition stored_as :: "app_event \<Rightarrow> event \<Rightarrow> bool" where
  "stored_as e stored \<longleftrightarrow> Type stored = EventType e \<and> Marshal e = Inr (Data stored)"

lemma replay_stored_as:
  assumes "list_all2 stored_as history stored"
    and "\<forall>e \<in> set stored. upcast_apply (upcasters s) e = Inr [e]"
  shows "ReplayStored s stored = Replay s history"
proof -
  let ?R = "\<lambda>x y. stored_as x y \<and> upcast_apply (upcasters s) y = Inr [y]"
  have "list_all2 ?R history stored"
    using assms by (auto simp: list_all2_conv_all_nth)
  then have "list_all2 ?R (since_latest (fromLatest s) EventType history) (since_latest (fromLatest s) Type stored)"
    by (rule since_latest_rel) (simp add: stored_as_def)
  then have "list_all2 (\<lambda>x y. \<forall>c. evolveBy s c x = evolveByStored s c y)
      (since_latest (fromLatest s) EventType history) (since_latest (fromLatest s) Type stored)"
    by (rule list.rel_mono_strong)
      (auto simp: stored_as_def evolveBy_def evolveByStored_def split: option.split prod.split)
  then show ?thesis
    using advance_all_cong [of "evolveBy s" "evolveByStored s"]
    by (auto simp: Replay_def ReplayStored_def split: prod.split option.split)
qed

text \<open>
  C32. \<open>Replay\<close> of typed events and \<open>ReplayStored\<close> of the same events as they are stored agree
  exactly, in the state and in the error, and whichever event they start from, as long as the
  stored events are of current types, which no upcaster changes.
\<close>

theorem ReplayStored_Replay:
  assumes "list_all2 stored_as history stored"
    and "\<forall>e \<in> set stored. upcast_apply (upcasters s) e = Inr [e]"
  shows "ReplayStored s stored = Replay s history"
  using assms by (rule replay_stored_as)

theorem ReplayStored_Replay_witness:
  "\<exists>s'. Evolve (sample_class ''t'') sample_state (Some (@)) = Ret s' \<and>
     ReplayStored s' [sample_event ''1''] = Replay s' [\<lparr>EventType = ''t'', Marshal = Inr (Data (sample_event ''1'')), AppValue = StructV ''E'' []\<rparr>]"
proof -
  obtain s' where s': "Evolve (sample_class ''t'') sample_state (Some (@)) = Ret s'" "upcasters s' = None"
    by (auto simp: Evolve_Ret sample_class_def sample_state_def NewState_def)
  have "ReplayStored s' [sample_event ''1''] = Replay s' [\<lparr>EventType = ''t'', Marshal = Inr (Data (sample_event ''1'')), AppValue = StructV ''E'' []\<rparr>]"
    using s'(2) by (intro ReplayStored_Replay) (simp_all add: stored_as_def sample_event_def upcast_apply_def)
  with s'(1) show ?thesis by blast
qed

text \<open>
  \<open>FromLatest\<close> does not change what a state is built to, if the rule for its event type does
  not depend on the state before: whenever replaying the whole history succeeds, replaying from
  the latest event of the type succeeds with the same state, for typed and for stored events.
\<close>

theorem FromLatest_same_state:
  assumes "evolve s (fromLatest s) = Some rule" and "\<And>a b data. rule a data = rule b data"
    and "\<And>e. Type e = fromLatest s \<Longrightarrow> upcast_apply (upcasters s) e = Inr [e]"
  shows "(Replay (s\<lparr>fromLatest := []\<rparr>) history = (x, None) \<longrightarrow> Replay s history = (x, None))
    \<and> (ReplayStored (s\<lparr>fromLatest := []\<rparr>) stored = (y, None) \<longrightarrow> ReplayStored s stored = (y, None))"
proof -
  have typed: "evolveBy s b e = (y, None)" if "EventType e = fromLatest s" "evolveBy s a e = (y, None)" for a b e y
  proof (cases "Marshal e")
    case (Inr d)
    then show ?thesis using that assms(1) assms(2) [of a d b] by (simp add: evolveBy_def)
  qed (use that assms(1) in \<open>simp add: evolveBy_def\<close>)
  have stored: "evolveByStored s b e = (y, None)" if "Type e = fromLatest s" "evolveByStored s a e = (y, None)" for a b e y
    using that assms(1) assms(2) [of a "Data e" b] assms(3) [OF that(1)] by (simp add: evolveByStored_def)
  obtain i e where i: "copyOfInitial s = (i, e)" by fastforce
  have "Replay s history = (x, None)" if "Replay (s\<lparr>fromLatest := []\<rparr>) history = (x, None)"
    using that i advance_since_latest [of "evolveBy s" i history x EventType "fromLatest s", OF _ typed]
    by (cases e) (simp_all add: Replay_def without_fromLatest since_latest_def [of "[]"])
  moreover have "ReplayStored s stored = (y, None)" if "ReplayStored (s\<lparr>fromLatest := []\<rparr>) stored = (y, None)"
    using that i advance_since_latest [of "evolveByStored s" i stored y Type "fromLatest s", OF _ stored]
    by (cases e) (simp_all add: ReplayStored_def without_fromLatest since_latest_def [of "[]"])
  ultimately show ?thesis by blast
qed

theorem FromLatest_same_state_witness:
  "\<exists>s. fromLatest s = ''reset'' \<and>
     Replay s [\<lparr>EventType = ''reset'', Marshal = Inr ''a'', AppValue = StructV ''E'' []\<rparr>, \<lparr>EventType = ''reset'', Marshal = Inr ''b'', AppValue = StructV ''E'' []\<rparr>] = (''b'', None)"
proof -
  let ?rule = "\<lambda>(_ :: string) data. (data, None :: goerr option)"
  let ?s = "sample_state\<lparr>evolve := [''reset'' \<mapsto> ?rule], fromLatest := ''reset''\<rparr>"
  let ?h = "[\<lparr>EventType = ''reset'', Marshal = Inr ''a'', AppValue = StructV ''E'' []\<rparr>, \<lparr>EventType = ''reset'', Marshal = Inr ''b'', AppValue = StructV ''E'' []\<rparr>]"
  have "Replay (?s\<lparr>fromLatest := []\<rparr>) ?h = (''b'', None)"
    by (simp add: Replay_def sample_state_def NewState_def copyOfInitial_def copyOf_def since_latest_def evolveBy_def)
  moreover have "Replay (?s\<lparr>fromLatest := []\<rparr>) ?h = (''b'', None) \<longrightarrow> Replay ?s ?h = (''b'', None)"
    by (rule conjunct1 [OF FromLatest_same_state [of ?s ?rule ?h "''b''" "[]" "''b''"]])
      (simp_all add: sample_state_def NewState_def upcast_apply_def)
  ultimately have "Replay ?s ?h = (''b'', None)" by blast
  then show ?thesis by (intro exI [of _ ?s]) simp
qed

end
