(* ===== verification/State_Cache.thy ===== *)
theory State_Cache
  imports State "HOL-Library.List_Lexorder" "HOL-Library.Char_ord"
begin

text \<open>
  The state cache of a store (\<open>state_cache.go\<close>): a map from keys to the elements of a list
  that is ordered by use. The abstract view is the list of its entries, the most recently used
  one first; the interface the store relies on is the locale \<open>entry_cache\<close>.
\<close>

section \<open>Keys, shapes and entries\<close>

record stateCacheKey =
  keyType :: string
  keySubject :: string

record stateShape =
  shapeSource :: nat
  shapeInitial :: rvalue
  shapeEvolved :: "string list"
  shapeIgnored :: "string list"
  shapeUpcasted :: "string list"
  shapeFromLatest :: string

record 'a stateCacheEntry =
  entryKey :: stateCacheKey
  entryShape :: stateShape
  entryState :: 'a
  entryLastEventID :: string

definition shapeOf :: "'s State \<Rightarrow> stateShape" where
  "shapeOf s =
     \<lparr>shapeSource = address s, shapeInitial = reflected s (copyOf s (initial s)),
      shapeEvolved = sorted_list_of_set (dom (evolve s)), shapeIgnored = sorted_list_of_set (ignored s),
      shapeUpcasted = (case upcasters s of None \<Rightarrow> [] | Some u \<Rightarrow> sorted_list_of_set (dom (byType u))),
      shapeFromLatest = fromLatest s\<rparr>"

definition same_initial :: "heap \<Rightarrow> rvalue \<Rightarrow> rvalue \<Rightarrow> bool" where
  "same_initial h a b =
     (case isSame (sameFuel h (Some a) (Some b)) h (Some a) (Some b) [] of Some (same, _) \<Rightarrow> same | None \<Rightarrow> False)"

definition equals :: "heap \<Rightarrow> stateShape \<Rightarrow> stateShape \<Rightarrow> bool" where
  "equals h s other \<longleftrightarrow>
     shapeSource s = shapeSource other
     \<or> same_initial h (shapeInitial s) (shapeInitial other)
        \<and> shapeEvolved s = shapeEvolved other \<and> shapeIgnored s = shapeIgnored other
        \<and> shapeUpcasted s = shapeUpcasted other \<and> shapeFromLatest s = shapeFromLatest other"

section \<open>The cache\<close>

text \<open>
  An element of the list is a number, the one that \<open>PushFront\<close> allocates. \<open>entries\<close> is the map
  and \<open>order\<close> the list, with the entry each element holds.
\<close>

record 'a stateCache =
  maxSubjects :: nat
  entries :: "stateCacheKey \<rightharpoonup> nat"
  order :: "(nat \<times> 'a stateCacheEntry) list"
  nextElement :: nat

definition newStateCache :: "nat \<Rightarrow> 'a stateCache" where
  "newStateCache n = \<lparr>maxSubjects = n, entries = Map.empty, order = [], nextElement = 0\<rparr>"

definition MoveToFront :: "nat \<Rightarrow> (nat \<times> 'e) list \<Rightarrow> (nat \<times> 'e) list" where
  "MoveToFront i xs = (case map_of xs i of None \<Rightarrow> xs | Some e \<Rightarrow> (i, e) # filter (\<lambda>x. fst x \<noteq> i) xs)"

definition cache_get :: "stateCacheKey \<Rightarrow> 'a stateCache \<Rightarrow> 'a stateCacheEntry option \<times> 'a stateCache" where
  "cache_get key c =
     (case entries c key of
        None \<Rightarrow> (None, c)
      | Some element \<Rightarrow> (map_of (order c) element, c\<lparr>order := MoveToFront element (order c)\<rparr>))"

text \<open>Writing through the pointer to an entry that an element holds.\<close>

definition set_entry :: "nat \<Rightarrow> 'e \<Rightarrow> (nat \<times> 'e) list \<Rightarrow> (nat \<times> 'e) list" where
  "set_entry i e xs = map (\<lambda>x. if fst x = i then (i, e) else x) xs"

definition cache_put ::
  "heap \<Rightarrow> stateCacheKey \<Rightarrow> stateShape \<Rightarrow> 'a \<Rightarrow> string \<Rightarrow> 'a stateCache \<Rightarrow> 'a stateCache" where
  "cache_put h key shape state lastEventID c =
     (case Option.bind (entries c key) (\<lambda>i. map_option (Pair i) (map_of (order c) i)) of
        Some (element, entry) \<Rightarrow>
          if \<not> equals h (entryShape entry) shape then c
          else
            (let order' =
               (case CompareRevisions lastEventID (entryLastEventID entry) of
                  Inr isNewer \<Rightarrow>
                    if isNewer \<ge> 0
                    then set_entry element (entry\<lparr>entryState := state, entryLastEventID := lastEventID\<rparr>) (order c)
                    else order c
                | Inl _ \<Rightarrow> order c)
             in c\<lparr>order := MoveToFront element order'\<rparr>)
      | None \<Rightarrow>
          (let element = nextElement c;
               c1 = c\<lparr>entries := (entries c)(key \<mapsto> element), nextElement := element + 1,
                      order := (element, \<lparr>entryKey = key, entryShape = shape, entryState = state,
                                          entryLastEventID = lastEventID\<rparr>) # order c\<rparr>
           in if length (order c1) > maxSubjects c1 then
                c1\<lparr>order := butlast (order c1), entries := (entries c1)(entryKey (snd (last (order c1))) := None)\<rparr>
              else c1))"

section \<open>The invariant\<close>

text \<open>
  The map and the list hold the same entries, one element per key, and the list is no longer
  than allowed.
\<close>

definition cache_ok :: "'a stateCache \<Rightarrow> bool" where
  "cache_ok c \<longleftrightarrow>
     distinct (map fst (order c)) \<and> distinct (map (entryKey \<circ> snd) (order c))
     \<and> entries c = map_of (map (\<lambda>(i, e). (entryKey e, i)) (order c))
     \<and> (\<forall>i \<in> set (map fst (order c)). i < nextElement c)
     \<and> length (order c) \<le> maxSubjects c"

text \<open>The abstract cache: entries by use, the most recent one first.\<close>

definition lru :: "'a stateCache \<Rightarrow> 'a stateCacheEntry list" where
  "lru c = map snd (order c)"

definition lookup :: "stateCacheKey \<Rightarrow> 'a stateCacheEntry list \<Rightarrow> 'a stateCacheEntry option" where
  "lookup key es = find (\<lambda>e. entryKey e = key) es"

definition others :: "stateCacheKey \<Rightarrow> 'a stateCacheEntry list \<Rightarrow> 'a stateCacheEntry list" where
  "others key es = filter (\<lambda>e. entryKey e \<noteq> key) es"

definition newer :: "string \<Rightarrow> string \<Rightarrow> bool" where
  "newer new old \<longleftrightarrow> (case CompareRevisions new old of Inr c \<Rightarrow> c \<ge> 0 | Inl _ \<Rightarrow> False)"

definition lru_get :: "stateCacheKey \<Rightarrow> 'a stateCacheEntry list \<Rightarrow> 'a stateCacheEntry option \<times> 'a stateCacheEntry list" where
  "lru_get key es = (case lookup key es of None \<Rightarrow> (None, es) | Some e \<Rightarrow> (Some e, e # others key es))"

definition lru_put ::
  "heap \<Rightarrow> nat \<Rightarrow> stateCacheKey \<Rightarrow> stateShape \<Rightarrow> 'a \<Rightarrow> string \<Rightarrow> 'a stateCacheEntry list \<Rightarrow> 'a stateCacheEntry list" where
  "lru_put h n key shape state lastEventID es =
     (case lookup key es of
        None \<Rightarrow> take n (\<lparr>entryKey = key, entryShape = shape, entryState = state, entryLastEventID = lastEventID\<rparr> # es)
      | Some e \<Rightarrow>
          if \<not> equals h (entryShape e) shape then es
          else (if newer lastEventID (entryLastEventID e)
                then e\<lparr>entryState := state, entryLastEventID := lastEventID\<rparr> else e) # others key es)"

section \<open>The cache implements the abstract one\<close>

definition keyed :: "(nat \<times> 'a stateCacheEntry) list \<Rightarrow> (stateCacheKey \<times> nat) list" where
  "keyed xs = map (\<lambda>(i, e). (entryKey e, i)) xs"

lemma keyed_keys: "map fst (keyed xs) = map (entryKey \<circ> snd) xs"
  by (simp add: keyed_def case_prod_beta comp_def)

lemma set_keyed: "set (keyed xs) = (\<lambda>(i, e). (entryKey e, i)) ` set xs"
  by (simp add: keyed_def)

lemma cache_ok_elim:
  assumes "cache_ok c" and "entries c key = Some i"
  obtains e where "(i, e) \<in> set (order c)" "entryKey e = key" "map_of (order c) i = Some e" "lookup key (lru c) = Some e"
proof -
  note ok = assms(1) [unfolded cache_ok_def]
  from assms(2) ok have "(key, i) \<in> set (keyed (order c))" by (auto simp: keyed_def dest: map_of_SomeD)
  then obtain e where e: "(i, e) \<in> set (order c)" "entryKey e = key" by (auto simp: set_keyed)
  have "map_of (order c) i = Some e" using ok e(1) by simp
  moreover have "lookup key (lru c) = Some e"
  proof -
    have inj: "inj_on (entryKey \<circ> snd) (set (order c))" using ok by (simp add: distinct_map)
    have "e' = e" if "e' \<in> set (lru c)" "entryKey e' = key" for e'
    proof -
      from that(1) obtain j where "(j, e') \<in> set (order c)" by (auto simp: lru_def)
      then show ?thesis using inj_onD [OF inj, of "(j, e')" "(i, e)"] e that(2) by simp
    qed
    moreover have "e \<in> set (lru c)" using e(1) by (force simp: lru_def)
    ultimately show ?thesis using e(2)
      by (metis (mono_tags, lifting) find_None_iff2 find_Some_iff lookup_def nth_mem not_None_eq)
  qed
  ultimately show ?thesis using that e by blast
qed

lemma cache_ok_lookup_None: "cache_ok c \<Longrightarrow> entries c key = None \<longleftrightarrow> lookup key (lru c) = None"
proof -
  assume "cache_ok c"
  then have "entries c = map_of (keyed (order c))" by (simp add: cache_ok_def keyed_def)
  then have "entries c key = None \<longleftrightarrow> key \<notin> set (map fst (keyed (order c)))" by (simp add: map_of_eq_None_iff)
  then show ?thesis by (auto simp: keyed_keys lookup_def find_None_iff lru_def)
qed

text \<open>One element of the list, seen by its number and by its key.\<close>

lemma filter_element:
  assumes "distinct (map fst xs)" and "distinct (map (entryKey \<circ> snd) xs)" and "(i, e) \<in> set xs"
  shows "map snd (filter (\<lambda>x. fst x \<noteq> i) xs) = others (entryKey e) (map snd xs)"
proof -
  have "fst x \<noteq> i \<longleftrightarrow> entryKey (snd x) \<noteq> entryKey e" if "x \<in> set xs" for x
    using assms that by (metis (mono_tags, lifting) comp_apply distinct_map fst_conv inj_onD snd_conv)
  then have "filter (\<lambda>x. fst x \<noteq> i) xs = filter (\<lambda>x. entryKey (snd x) \<noteq> entryKey e) xs" by (rule filter_cong [OF refl])
  then show ?thesis by (simp add: others_def filter_map comp_def)
qed

lemma cache_ok_front:
  assumes "cache_ok c" and "(i, e) \<in> set (order c)" and "entryKey e' = entryKey e"
  shows "cache_ok (c\<lparr>order := (i, e') # filter (\<lambda>x. fst x \<noteq> i) (order c)\<rparr>)"
proof -
  note ok = assms(1) [unfolded cache_ok_def]
  let ?ys = "(i, e') # filter (\<lambda>x. fst x \<noteq> i) (order c)"
  have fst_eq: "e'' = e" if "(i, e'') \<in> set (order c)" for e''
    using ok assms(2) that by (intro eq_key_imp_eq_value [of "order c" i e'' e]) simp_all
  have "set (filter (\<lambda>x. fst x \<noteq> i) (order c)) = set (order c) - {(i, e)}"
    by (auto dest: fst_eq)
  then have "set (keyed ?ys) = insert (entryKey e, i) ((\<lambda>(i, e). (entryKey e, i)) ` (set (order c) - {(i, e)}))"
    unfolding set_keyed by (simp add: assms(3))
  also have "\<dots> = (\<lambda>(i, e). (entryKey e, i)) ` insert (i, e) (set (order c) - {(i, e)})"
    by (simp only: image_insert case_prod_conv)
  also have "\<dots> = set (keyed (order c))" using assms(2) by (simp only: set_keyed insert_Diff)
  finally have keyed: "set (keyed ?ys) = set (keyed (order c))" .
  have "distinct (map entryKey (e' # others (entryKey e) (map snd (order c))))"
    using ok by (auto simp: others_def assms(3) intro: distinct_map_filter)
  moreover have "map snd ?ys = e' # others (entryKey e) (map snd (order c))"
    using filter_element [OF _ _ assms(2)] ok by simp
  ultimately have "distinct (map entryKey (map snd ?ys))" by (simp only:)
  then have keys: "distinct (map (entryKey \<circ> snd) ?ys)" by (simp only: map_map)
  have "map_of (keyed ?ys) = map_of (keyed (order c))"
    using keyed keys ok by (intro map_of_inject_set [THEN iffD2]) (simp_all only: keyed_keys)
  moreover have "length (filter (\<lambda>x. fst x \<noteq> i) (order c)) < length (order c)"
    using assms(2) by (intro length_filter_less) auto
  ultimately show ?thesis
    using ok keys assms(2) by (auto simp: cache_ok_def keyed_def distinct_map_filter)
qed

lemma MoveToFront_set_entry:
  assumes "distinct (map fst xs)" and "(i, e) \<in> set xs"
  shows "MoveToFront i xs = (i, e) # filter (\<lambda>x. fst x \<noteq> i) xs"
    and "MoveToFront i (set_entry i e' xs) = (i, e') # filter (\<lambda>x. fst x \<noteq> i) xs"
proof -
  have "map_of (set_entry i e' xs) i = Some e'"
    using assms(2) by (induction xs) (auto simp: set_entry_def)
  moreover have "filter (\<lambda>x. fst x \<noteq> i) (set_entry i e' xs) = filter (\<lambda>x. fst x \<noteq> i) xs"
    by (induction xs) (auto simp: set_entry_def)
  ultimately show "MoveToFront i (set_entry i e' xs) = (i, e') # filter (\<lambda>x. fst x \<noteq> i) xs"
    by (simp add: MoveToFront_def)
  show "MoveToFront i xs = (i, e) # filter (\<lambda>x. fst x \<noteq> i) xs" using assms by (simp add: MoveToFront_def)
qed

lemma cache_get_lru:
  assumes "cache_ok c"
  shows "cache_ok (snd (cache_get key c)) \<and> lru_get key (lru c) = (fst (cache_get key c), lru (snd (cache_get key c)))
    \<and> maxSubjects (snd (cache_get key c)) = maxSubjects c"
proof (cases "entries c key")
  case None
  then show ?thesis using assms cache_ok_lookup_None [OF assms, of key] by (simp add: cache_get_def lru_get_def)
next
  case (Some i)
  from cache_ok_elim [OF assms Some] obtain e where e: "(i, e) \<in> set (order c)" "entryKey e = key"
    "map_of (order c) i = Some e" "lookup key (lru c) = Some e" .
  have d: "distinct (map fst (order c))" "distinct (map (entryKey \<circ> snd) (order c))"
    using assms by (simp_all add: cache_ok_def)
  have "cache_get key c = (Some e, c\<lparr>order := (i, e) # filter (\<lambda>x. fst x \<noteq> i) (order c)\<rparr>)"
    using Some e MoveToFront_set_entry(1) [OF d(1) e(1)] by (simp add: cache_get_def)
  then show ?thesis
    using cache_ok_front [OF assms e(1) refl] filter_element [OF d e(1)] e
    by (simp add: lru_get_def) (simp add: lru_def)
qed

text \<open>Adding a new entry, and evicting the last one.\<close>

lemma map_of_butlast:
  assumes "distinct (map fst ys)" and "ys \<noteq> []"
  shows "(map_of ys)(fst (last ys) := None) = map_of (butlast ys)"
proof -
  obtain zs z where ys: "ys = zs @ [z]" using assms(2) by (metis append_butlast_last_id)
  then have "map_of zs (fst z) = None" using assms(1) by (simp add: map_of_eq_None_iff)
  then show ?thesis by (intro ext) (auto simp: ys map_add_def split: option.split)
qed

lemma keyed_butlast: "keyed (butlast xs) = butlast (keyed xs)"
  by (simp add: keyed_def map_butlast)

lemma cache_put_new:
  assumes ok: "cache_ok c" and none: "entries c key = None"
    and e: "e = \<lparr>entryKey = key, entryShape = shape, entryState = state, entryLastEventID = lastEventID\<rparr>"
  shows "cache_ok (cache_put h key shape state lastEventID c)"
    and "lru (cache_put h key shape state lastEventID c) = take (maxSubjects c) (e # lru c)"
    and "maxSubjects (cache_put h key shape state lastEventID c) = maxSubjects c"
proof -
  let ?ys = "(nextElement c, e) # order c"
  let ?c1 = "c\<lparr>entries := (entries c)(key \<mapsto> nextElement c), nextElement := nextElement c + 1, order := ?ys\<rparr>"
  let ?new = "if length ?ys > maxSubjects c
    then ?c1\<lparr>order := butlast ?ys, entries := (entries ?c1)(entryKey (snd (last ?ys)) := None)\<rparr> else ?c1"
  have put: "cache_put h key shape state lastEventID c = ?new"
    using none by (simp add: cache_put_def Let_def e)
  note oks = ok [unfolded cache_ok_def]
  have "key \<notin> set (map (entryKey \<circ> snd) (order c))"
    using none cache_ok_lookup_None [OF ok, of key] by (auto simp: lookup_def find_None_iff lru_def)
  then have ids: "distinct (map fst ?ys)" and keys: "distinct (map (entryKey \<circ> snd) ?ys)"
    using oks by (auto simp: e)
  have ent: "entries ?c1 = map_of (keyed ?ys)" using oks by (simp add: keyed_def e)
  have len: "length ?ys \<le> Suc (maxSubjects c)" using oks by simp
  have below: "\<forall>i \<in> set (map fst ?ys). i < nextElement c + 1" using oks by auto
  show "cache_ok (cache_put h key shape state lastEventID c)"
  proof (cases "length ?ys > maxSubjects c")
    case True
    have last: "entryKey (snd (last ?ys)) = fst (last (keyed ?ys))"
      by (simp add: keyed_def last_map case_prod_beta)
    have "(entries ?c1)(entryKey (snd (last ?ys)) := None) = map_of (keyed (butlast ?ys))"
      unfolding ent last keyed_butlast using keys by (intro map_of_butlast) (simp_all only: keyed_keys, simp add: keyed_def)
    moreover have "distinct (map fst (butlast ?ys))" "distinct (map (entryKey \<circ> snd) (butlast ?ys))"
      using ids keys by (simp_all only: map_butlast distinct_butlast)
    moreover have "\<forall>i \<in> set (map fst (butlast ?ys)). i < nextElement c + 1"
      using below in_set_butlastD by (metis map_butlast)
    ultimately show ?thesis
      unfolding put using True len by (simp add: cache_ok_def keyed_def)
  next
    case False
    then show ?thesis unfolding put using ids keys ent below len by (simp add: cache_ok_def keyed_def)
  qed
  have all: "e # lru c = map snd ?ys" by (simp add: lru_def)
  have "map snd (butlast ?ys) = take (maxSubjects c) (e # lru c)" if "length ?ys > maxSubjects c"
  proof -
    have "maxSubjects c = length ?ys - 1" using that len by simp
    then have "butlast ?ys = take (maxSubjects c) ?ys" by (simp only: butlast_conv_take)
    then show ?thesis unfolding all take_map by simp
  qed
  moreover have "map snd ?ys = take (maxSubjects c) (e # lru c)" if "\<not> length ?ys > maxSubjects c"
    using that by (simp add: lru_def)
  ultimately show "lru (cache_put h key shape state lastEventID c) = take (maxSubjects c) (e # lru c)"
    unfolding put by (simp add: lru_def)
  show "maxSubjects (cache_put h key shape state lastEventID c) = maxSubjects c"
    unfolding put by simp
qed

lemma cache_put_lru:
  assumes ok: "cache_ok c"
  shows "cache_ok (cache_put h key shape state lastEventID c)
    \<and> lru (cache_put h key shape state lastEventID c) = lru_put h (maxSubjects c) key shape state lastEventID (lru c)
    \<and> maxSubjects (cache_put h key shape state lastEventID c) = maxSubjects c"
proof (cases "entries c key")
  case None
  then have "lookup key (lru c) = None" using cache_ok_lookup_None [OF ok] by simp
  then show ?thesis using cache_put_new [OF ok None refl] by (simp add: lru_put_def)
next
  case (Some i)
  from cache_ok_elim [OF ok Some] obtain e where e: "(i, e) \<in> set (order c)" "entryKey e = key"
    "map_of (order c) i = Some e" "lookup key (lru c) = Some e" .
  have d: "distinct (map fst (order c))" "distinct (map (entryKey \<circ> snd) (order c))"
    using ok by (simp_all add: cache_ok_def)
  let ?e = "if newer lastEventID (entryLastEventID e)
    then e\<lparr>entryState := state, entryLastEventID := lastEventID\<rparr> else e"
  show ?thesis
  proof (cases "equals h (entryShape e) shape")
    case False
    then show ?thesis using Some e ok by (simp add: cache_put_def lru_put_def)
  next
    case True
    have put: "cache_put h key shape state lastEventID c = c\<lparr>order := (i, ?e) # filter (\<lambda>x. fst x \<noteq> i) (order c)\<rparr>"
      using Some e True MoveToFront_set_entry [OF d(1) e(1)]
      by (auto simp: cache_put_def newer_def split: sum.split)
    have "entryKey ?e = entryKey e" by simp
    then have "cache_ok (cache_put h key shape state lastEventID c)"
      unfolding put by (rule cache_ok_front [OF ok e(1)])
    moreover have "lru (cache_put h key shape state lastEventID c) = ?e # others key (lru c)"
      unfolding put using filter_element [OF d e(1)] e(2) by (simp add: lru_def)
    ultimately show ?thesis using put True e(4) by (simp add: lru_put_def)
  qed
qed

section \<open>The interface of the store\<close>

text \<open>
  What \<open>fold\<close> relies on: \<open>get\<close> returns an entry of the key that is in the cache, and \<open>put\<close> adds
  at most the entry it is given, under its own shape or one that equals it. So whatever holds of
  every entry that was put holds of every entry that is returned.
\<close>

locale entry_cache =
  fixes inv :: "'c \<Rightarrow> bool"
    and content :: "'c \<Rightarrow> 'a stateCacheEntry set"
    and get :: "stateCacheKey \<Rightarrow> 'c \<Rightarrow> 'a stateCacheEntry option \<times> 'c"
    and put :: "heap \<Rightarrow> stateCacheKey \<Rightarrow> stateShape \<Rightarrow> 'a \<Rightarrow> string \<Rightarrow> 'c \<Rightarrow> 'c"
  assumes get_law: "inv c \<Longrightarrow> get key c = (r, c') \<Longrightarrow>
      inv c' \<and> content c' = content c \<and> (\<forall>e. r = Some e \<longrightarrow> e \<in> content c \<and> entryKey e = key)"
    and put_law: "inv c \<Longrightarrow> inv (put h key shape state lastEventID c)
      \<and> (\<forall>e \<in> content (put h key shape state lastEventID c). e \<in> content c
          \<or> entryKey e = key \<and> entryState e = state \<and> entryLastEventID e = lastEventID
             \<and> (entryShape e = shape \<or> equals h (entryShape e) shape))"
begin

definition all_entries :: "('a stateCacheEntry \<Rightarrow> bool) \<Rightarrow> 'c \<Rightarrow> bool" where
  "all_entries P c \<longleftrightarrow> inv c \<and> (\<forall>e \<in> content c. P e)"

lemma all_entries_get: "all_entries P c \<Longrightarrow> get key c = (r, c') \<Longrightarrow>
    all_entries P c' \<and> (\<forall>e. r = Some e \<longrightarrow> P e \<and> entryKey e = key)"
  using get_law unfolding all_entries_def by blast

lemma all_entries_put:
  assumes "all_entries P c"
    and "\<And>e. entryKey e = key \<Longrightarrow> entryState e = state \<Longrightarrow> entryLastEventID e = lastEventID \<Longrightarrow>
      entryShape e = shape \<or> equals h (entryShape e) shape \<Longrightarrow> P e"
  shows "all_entries P (put h key shape state lastEventID c)"
  using assms put_law unfolding all_entries_def by blast

end

lemma lookup_mem: "lookup key es = Some e \<Longrightarrow> e \<in> set es \<and> entryKey e = key"
  by (auto simp: lookup_def find_Some_iff)

lemma lookup_lru_put:
  assumes "n > 0"
  shows "lookup key (lru_put h n key shape state lastID es) = Some (case lookup key es of
      None \<Rightarrow> \<lparr>entryKey = key, entryShape = shape, entryState = state, entryLastEventID = lastID\<rparr>
    | Some e \<Rightarrow> if equals h (entryShape e) shape \<and> newer lastID (entryLastEventID e)
                then e\<lparr>entryState := state, entryLastEventID := lastID\<rparr> else e)"
proof (cases "lookup key es")
  case None
  then show ?thesis using assms by (cases n) (simp_all add: lru_put_def lookup_def)
next
  case (Some e)
  then show ?thesis
    using lookup_mem [OF Some]
    by (cases "equals h (entryShape e) shape"; cases "newer lastID (entryLastEventID e)")
      (simp_all add: lru_put_def lookup_def [of _ "_ # _"])
qed

lemma lru_get_set:
  "distinct (map entryKey es) \<Longrightarrow> lru_get key es = (r, es') \<Longrightarrow> set es' = set es \<and> (\<forall>e. r = Some e \<longrightarrow> e \<in> set es \<and> entryKey e = key)"
proof (cases "lookup key es")
  case (Some e)
  assume d: "distinct (map entryKey es)" and g: "lru_get key es = (r, es')"
  have e: "e \<in> set es" "entryKey e = key" using lookup_mem [OF Some] by simp_all
  have uniq: "x = e" if "x \<in> set es" "entryKey x = key" for x
    using d e that inj_onD [of entryKey "set es" x e] by (simp add: distinct_map)
  have "set (e # others key es) = set es"
    using e(1) by (auto simp: others_def dest: uniq)
  moreover have "r = Some e" "es' = e # others key es" using g Some by (simp_all add: lru_get_def)
  ultimately show ?thesis using e by simp
qed (auto simp: lru_get_def)

lemma lru_put_set:
  "e \<in> set (lru_put h n key shape state lastEventID es) \<Longrightarrow> e \<in> set es
     \<or> entryKey e = key \<and> entryState e = state \<and> entryLastEventID e = lastEventID
        \<and> (entryShape e = shape \<or> equals h (entryShape e) shape)"
  using lookup_mem [of key es]
  by (auto simp: lru_put_def others_def split: option.splits if_splits dest: in_set_takeD)

lemma cache_ok_distinct: "cache_ok c \<Longrightarrow> distinct (map entryKey (lru c))"
  by (simp add: cache_ok_def lru_def)

interpretation sc: entry_cache cache_ok "\<lambda>c. set (lru c)" cache_get cache_put
proof
  fix c :: "'a stateCache" and key r c'
  assume ok: "cache_ok c" and g: "cache_get key c = (r, c')"
  then show "cache_ok c' \<and> set (lru c') = set (lru c) \<and> (\<forall>e. r = Some e \<longrightarrow> e \<in> set (lru c) \<and> entryKey e = key)"
    using cache_get_lru [OF ok, of key] lru_get_set [OF cache_ok_distinct [OF ok], of key r "lru c'"] by simp
next
  fix c :: "'a stateCache" and h key shape state lastEventID
  assume ok: "cache_ok c"
  then show "cache_ok (cache_put h key shape state lastEventID c) \<and>
      (\<forall>e \<in> set (lru (cache_put h key shape state lastEventID c)). e \<in> set (lru c)
        \<or> entryKey e = key \<and> entryState e = state \<and> entryLastEventID e = lastEventID
           \<and> (entryShape e = shape \<or> equals h (entryShape e) shape))"
    using cache_put_lru [OF ok, of h key shape state lastEventID] lru_put_set by (metis (no_types, lifting))
qed

section \<open>Properties\<close>

text \<open>A sequence of operations, on the cache and on the abstract one, with what each returns.\<close>

datatype 'a cache_op = OpGet stateCacheKey | OpPut heap stateCacheKey stateShape 'a string

fun cache_run :: "'a cache_op list \<Rightarrow> 'a stateCache \<Rightarrow> 'a stateCacheEntry option list \<times> 'a stateCache" where
  "cache_run [] c = ([], c)"
| "cache_run (OpGet key # ops) c =
     (let (r, c1) = cache_get key c; (rs, c2) = cache_run ops c1 in (r # rs, c2))"
| "cache_run (OpPut h key shape state lastEventID # ops) c =
     cache_run ops (cache_put h key shape state lastEventID c)"

fun lru_run :: "nat \<Rightarrow> 'a cache_op list \<Rightarrow> 'a stateCacheEntry list \<Rightarrow> 'a stateCacheEntry option list \<times> 'a stateCacheEntry list" where
  "lru_run n [] es = ([], es)"
| "lru_run n (OpGet key # ops) es =
     (let (r, es1) = lru_get key es; (rs, es2) = lru_run n ops es1 in (r # rs, es2))"
| "lru_run n (OpPut h key shape state lastEventID # ops) es =
     lru_run n ops (lru_put h n key shape state lastEventID es)"

lemma cache_run_ok:
  "cache_ok c \<Longrightarrow> cache_run ops c = (rs, c') \<Longrightarrow>
     cache_ok c' \<and> maxSubjects c' = maxSubjects c \<and> lru_run (maxSubjects c) ops (lru c) = (rs, lru c')"
proof (induction ops arbitrary: c rs c')
  case Nil
  then show ?case by simp
next
  case (Cons x ops)
  show ?case
  proof (cases x)
    case (OpGet key)
    obtain r c1 where g: "cache_get key c = (r, c1)" by fastforce
    obtain rs1 c2 where run: "cache_run ops c1 = (rs1, c2)" by fastforce
    have "cache_ok c1" "lru_get key (lru c) = (r, lru c1)" "maxSubjects c1 = maxSubjects c"
      using cache_get_lru [OF Cons.prems(1), of key] g by simp_all
    with Cons.IH [OF _ run] Cons.prems(2) g run OpGet show ?thesis by simp
  next
    case (OpPut h key shape state lastEventID)
    let ?c1 = "cache_put h key shape state lastEventID c"
    have "cache_ok ?c1" "lru ?c1 = lru_put h (maxSubjects c) key shape state lastEventID (lru c)" "maxSubjects ?c1 = maxSubjects c"
      using cache_put_lru [OF Cons.prems(1), of h key shape state lastEventID] by simp_all
    with Cons.IH [of ?c1 rs c'] Cons.prems(2) OpPut show ?thesis by simp
  qed
qed

lemma cache_ok_new: "cache_ok (newStateCache n)"
  by (simp add: cache_ok_def newStateCache_def)

lemma cache_reachable:
  "cache_ok (snd (cache_run ops (newStateCache n))) \<and> maxSubjects (snd (cache_run ops (newStateCache n))) = n"
proof -
  obtain rs c where "cache_run ops (newStateCache n) = (rs, c)" by fastforce
  then show ?thesis using cache_run_ok [OF cache_ok_new, of ops n rs c] by (simp add: newStateCache_def)
qed

text \<open>
  C24. The cache, a map into a list of elements, implements a plain list of entries that is
  ordered by use: for every sequence of operations on a new cache, every \<open>get\<close> returns what the
  abstract cache returns, the entries are the same in the same order, the map and the list agree,
  and there are never more entries than the cache is made for.
\<close>

theorem cache_refines_lru:
  "case cache_run ops (newStateCache n) of (rs, c) \<Rightarrow>
     lru_run n ops [] = (rs, lru c) \<and> length (lru c) \<le> n \<and> dom (entries c) = entryKey ` set (lru c)"
proof -
  obtain rs c where run: "cache_run ops (newStateCache n) = (rs, c)" by fastforce
  have ok: "cache_ok c" "maxSubjects c = n" "lru_run n ops [] = (rs, lru c)"
    using cache_run_ok [OF cache_ok_new run] by (simp_all add: newStateCache_def lru_def)
  have "entries c = map_of (keyed (order c))" using ok(1) by (simp add: cache_ok_def keyed_def)
  then have "dom (entries c) = fst ` set (keyed (order c))" by (simp add: dom_map_of_conv_image_fst)
  also have "\<dots> = set (map fst (keyed (order c)))" by simp
  also have "\<dots> = entryKey ` set (lru c)" by (simp only: keyed_keys) (auto simp: lru_def)
  finally show ?thesis using ok run by (simp add: cache_ok_def lru_def)
qed

text \<open>
  A command that read less never replaces one that read more. After \<open>put\<close>, \<open>get\<close> returns the
  given state if nothing was cached for the key; otherwise it returns the given state only if the
  cached one is of an equal shape and the given revision is not older, and the cached one in every
  other case, so the revision a key is cached at never decreases.
\<close>

theorem cache_put_get:
  assumes "c = snd (cache_run ops (newStateCache n))" and "n > 0"
    and "fst (cache_get key c) = before" and "fst (cache_get key (cache_put h key shape state lastID c)) = after"
  shows "after = Some (case before of
      None \<Rightarrow> \<lparr>entryKey = key, entryShape = shape, entryState = state, entryLastEventID = lastID\<rparr>
    | Some e \<Rightarrow> if equals h (entryShape e) shape \<and> newer lastID (entryLastEventID e)
                then e\<lparr>entryState := state, entryLastEventID := lastID\<rparr> else e)
    \<and> (\<forall>e. before = Some e \<and> rev_valid (entryLastEventID e) \<longrightarrow>
         rev_rank (entryLastEventID e) \<le> rev_rank (entryLastEventID (the after)))"
proof -
  have ok: "cache_ok c" "maxSubjects c = n" using cache_reachable [of ops n] assms(1) by simp_all
  have get: "fst (cache_get key c') = lookup key (lru c')" if "cache_ok c'" for c' :: "'a stateCache"
    using cache_get_lru [OF that, of key] by (auto simp: lru_get_def split: option.splits)
  have put: "cache_ok (cache_put h key shape state lastID c)"
    "lru (cache_put h key shape state lastID c) = lru_put h n key shape state lastID (lru c)"
    using cache_put_lru [OF ok(1), of h key shape state lastID] ok(2) by simp_all
  have before: "before = lookup key (lru c)" using get [OF ok(1)] assms(3) by simp
  have "after = lookup key (lru_put h n key shape state lastID (lru c))" using get [OF put(1)] put(2) assms(4) by simp
  then have result: "after = Some (case before of
      None \<Rightarrow> \<lparr>entryKey = key, entryShape = shape, entryState = state, entryLastEventID = lastID\<rparr>
    | Some e \<Rightarrow> if equals h (entryShape e) shape \<and> newer lastID (entryLastEventID e)
                then e\<lparr>entryState := state, entryLastEventID := lastID\<rparr> else e)"
    unfolding before using lookup_lru_put [OF assms(2)] by simp
  have "rev_rank (entryLastEventID e) \<le> rev_rank lastID" if "newer lastID (entryLastEventID e)" for e :: "'a stateCacheEntry"
    using that rev_order.cmp_Inr_iff by (auto simp: newer_def sgn_if split: sum.splits if_splits)
  then show ?thesis using result by auto
qed

theorem cache_put_get_witness:
  "\<exists>e. fst (cache_get \<lparr>keyType = ''Book'', keySubject = ''/books/42''\<rparr>
      (cache_put \<lparr>heapCells = [], heapArrays = [], heapMaps = []\<rparr> \<lparr>keyType = ''Book'', keySubject = ''/books/42''\<rparr>
         (shapeOf sample_state) ''open'' ''7'' (snd (cache_run [] (newStateCache 1))))) = Some e
    \<and> entryState e = ''open'' \<and> entryLastEventID e = ''7''"
  using cache_put_get [of "snd (cache_run [] (newStateCache 1))" "[]" 1 "\<lparr>keyType = ''Book'', keySubject = ''/books/42''\<rparr>" None
      "\<lparr>heapCells = [], heapArrays = [], heapMaps = []\<rparr>" "shapeOf sample_state" "''open''" "''7''", OF refl _ _ refl]
  by (simp add: newStateCache_def cache_get_def)

end
