(* ===== verification/Read_Options.thy ===== *)
theory Read_Options
  imports Revision
begin

text \<open>
  What a read or a projection reads: the subjects and options of
  \<open>projection_options.go\<close>, and the bounds of a read in \<open>read_options.go\<close>. A Go option is a
  function on settings that may panic; a nil option is \<open>None\<close>. The IDs of a range are
  64-bit words, as in the code.
\<close>

section \<open>Applying options (applyOptions of store.go)\<close>

fun applyOptions :: "string \<Rightarrow> 's \<Rightarrow> ('s \<Rightarrow> 's go) option list \<Rightarrow> 's go" where
  "applyOptions function settings [] = Ret settings"
| "applyOptions function settings (None # options) =
     Panic (''architecturekit: '' @ function @ '' got a nil option'')"
| "applyOptions function settings (Some option # options) =
     go_bind (option settings) (\<lambda>settings'. applyOptions function settings' options)"

section \<open>Subjects and options of a projection\<close>

record subjects =
  rootSubject :: string
  isRecursive :: bool

definition requireLeadingSlash :: "string \<Rightarrow> unit go" where
  "requireLeadingSlash s =
     (if \<not> strings_HasPrefix s ''/'' then
        Panic (''architecturekit: a subject starts with a slash, which '' @ strconv_Quote s @ '' does not'')
      else Ret ())"

definition subjectsOf :: "string \<Rightarrow> bool \<Rightarrow> subjects go" where
  "subjectsOf s rec = go_bind (requireLeadingSlash s) (\<lambda>_. Ret \<lparr>rootSubject = s, isRecursive = rec\<rparr>)"

definition SubjectTree :: "string \<Rightarrow> subjects go" where
  "SubjectTree s = subjectsOf s True"

definition ExactSubject :: "string \<Rightarrow> subjects go" where
  "ExactSubject s = subjectsOf s False"

definition requireSubjects :: "subjects \<Rightarrow> unit go" where
  "requireSubjects s =
     (if rootSubject s = [] then
        Panic ''architecturekit: reading needs the subjects of SubjectTree or ExactSubject, not none''
      else Ret ())"

type_synonym projection_settings = string \<comment> \<open>the name\<close>

definition Named :: "string \<Rightarrow> (projection_settings \<Rightarrow> projection_settings go) go" where
  "Named name =
     (if name = [] then Panic ''architecturekit: Named needs a name, not an empty one''
      else Ret (\<lambda>settings.
        if settings \<noteq> [] then
          Panic (''architecturekit: the projection is named twice, as '' @ strconv_Quote settings
                 @ '' and as '' @ strconv_Quote name)
        else Ret name))"

definition projectionSettingsOf ::
  "string \<Rightarrow> (projection_settings \<Rightarrow> projection_settings go) option list \<Rightarrow> projection_settings go" where
  "projectionSettingsOf function options = applyOptions function [] options"

section \<open>Options of a read\<close>

datatype bound_type = BoundTypeInclusive | BoundTypeExclusive

record bound =
  BoundID :: string
  BoundType :: bound_type

datatype event_order = OrderChronological | OrderAntichronological

datatype if_missing = ReadIfEventIsMissingReadEverything | ReadIfEventIsMissingReadNothing

record read_from_latest =
  LatestSubject :: string
  LatestType :: string
  IfEventIsMissing :: if_missing

text \<open>The options the client's \<open>ReadEvents\<close> takes.\<close>

record read_events_options =
  Recursive :: bool
  Order :: event_order
  LowerBound :: "bound option"
  UpperBound :: "bound option"
  LatestEvent :: "read_from_latest option"

record read_settings =
  lowerBoundOption :: string
  upperBoundOption :: string
  orderOption :: string
  readDatabase :: read_events_options

type_synonym read_option = "read_settings \<Rightarrow> read_settings go"

definition zero_read_settings :: read_settings where
  "zero_read_settings =
     \<lparr>lowerBoundOption = [], upperBoundOption = [], orderOption = [],
      readDatabase = \<lparr>Recursive = False, Order = OrderChronological, LowerBound = None, UpperBound = None,
                  LatestEvent = None\<rparr>\<rparr>"

text \<open>\<open>set\<close> records the option that sets one of the settings, or panics if one has.\<close>

definition set_setting :: "string \<Rightarrow> string \<Rightarrow> string \<Rightarrow> string go" where
  "set_setting setting what option =
     (if setting \<noteq> [] then
        Panic (''architecturekit: a read has one '' @ what @ '', but got '' @ setting @ '' and '' @ option)
      else Ret option)"

definition lowerBound :: "string \<Rightarrow> string \<Rightarrow> bound_type \<Rightarrow> read_option" where
  "lowerBound name eventID boundType = (\<lambda>settings.
     go_bind (set_setting (lowerBoundOption settings) ''lower bound'' (name @ ''('' @ strconv_Quote eventID @ '')''))
       (\<lambda>option. Ret (settings\<lparr>lowerBoundOption := option,
          readDatabase := (readDatabase settings)\<lparr>LowerBound := Some \<lparr>BoundID = eventID, BoundType = boundType\<rparr>\<rparr>\<rparr>)))"

definition upperBound :: "string \<Rightarrow> string \<Rightarrow> bound_type \<Rightarrow> read_option" where
  "upperBound name eventID boundType = (\<lambda>settings.
     go_bind (set_setting (upperBoundOption settings) ''upper bound'' (name @ ''('' @ strconv_Quote eventID @ '')''))
       (\<lambda>option. Ret (settings\<lparr>upperBoundOption := option,
          readDatabase := (readDatabase settings)\<lparr>UpperBound := Some \<lparr>BoundID = eventID, BoundType = boundType\<rparr>\<rparr>\<rparr>)))"

definition FromEvent :: "string \<Rightarrow> read_option" where
  "FromEvent eventID = lowerBound ''FromEvent'' eventID BoundTypeInclusive"

definition AfterEvent :: "string \<Rightarrow> read_option" where
  "AfterEvent eventID = lowerBound ''AfterEvent'' eventID BoundTypeExclusive"

definition UpToEvent :: "string \<Rightarrow> read_option" where
  "UpToEvent eventID = upperBound ''UpToEvent'' eventID BoundTypeInclusive"

definition BeforeEvent :: "string \<Rightarrow> read_option" where
  "BeforeEvent eventID = upperBound ''BeforeEvent'' eventID BoundTypeExclusive"

definition NewestFirst :: read_option where
  "NewestFirst = (\<lambda>settings.
     go_bind (set_setting (orderOption settings) ''order'' ''NewestFirst()'')
       (\<lambda>option. Ret (settings\<lparr>orderOption := option,
          readDatabase := (readDatabase settings)\<lparr>Order := OrderAntichronological\<rparr>\<rparr>)))"

text \<open>\<open>IfLatestEventIsMissing\<close> is an integer; 1 is \<open>ReadEverything\<close> and 2 is \<open>ReadNothing\<close>.\<close>

definition ReadEverything :: int where "ReadEverything = 1"

definition ReadNothing :: int where "ReadNothing = 2"

definition latest_option :: "string \<Rightarrow> string \<Rightarrow> if_missing \<Rightarrow> read_option" where
  "latest_option s eventType missing = (\<lambda>settings.
     go_bind (set_setting (lowerBoundOption settings) ''lower bound''
                (''FromLatestEvent('' @ strconv_Quote s @ '', '' @ strconv_Quote eventType @ '')''))
       (\<lambda>option. Ret (settings\<lparr>lowerBoundOption := option,
          readDatabase := (readDatabase settings)\<lparr>LatestEvent :=
            Some \<lparr>LatestSubject = s, LatestType = eventType, IfEventIsMissing = missing\<rparr>\<rparr>\<rparr>)))"

definition FromLatestEvent :: "string \<Rightarrow> string \<Rightarrow> int \<Rightarrow> read_option go" where
  "FromLatestEvent s eventType ifMissing =
     go_bind (requireLeadingSlash s) (\<lambda>_.
       if ifMissing = ReadEverything then Ret (latest_option s eventType ReadIfEventIsMissingReadEverything)
       else if ifMissing = ReadNothing then Ret (latest_option s eventType ReadIfEventIsMissingReadNothing)
       else Panic (''architecturekit: FromLatestEvent needs ReadEverything or ReadNothing, not IfLatestEventIsMissing(''
                   @ (if ifMissing < 0 then ''-'' else []) @ strconv_Itoa (nat \<bar>ifMissing\<bar>) @ '')''))"

definition readSettingsOf :: "string \<Rightarrow> read_option option list \<Rightarrow> read_settings go" where
  "readSettingsOf function options =
     go_bind (applyOptions function zero_read_settings options) (\<lambda>settings.
       if LatestEvent (readDatabase settings) \<noteq> None \<and> orderOption settings \<noteq> [] then
         Panic (''architecturekit: the database reads from the latest event of a type only oldest first, but got ''
                @ lowerBoundOption settings @ '' and '' @ orderOption settings)
       else Ret settings)"

section \<open>Checking the bounds\<close>

text \<open>
  \<open>describeRange\<close>. Without any bound it would dereference a nil pointer, which
  \<open>checkBounds\<close> never asks for (see \<open>checkBounds_unbounded\<close>).
\<close>

fun describeRange :: "bound option \<Rightarrow> bound option \<Rightarrow> string" where
  "describeRange None None = []"
| "describeRange (Some lower) None = ''after '' @ strconv_Quote (BoundID lower)"
| "describeRange lower (Some upper) =
     (let ending = (if BoundType upper = BoundTypeInclusive
                    then ''up to '' @ strconv_Quote (BoundID upper)
                    else ''before '' @ strconv_Quote (BoundID upper))
      in case lower of
           None \<Rightarrow> ending
         | Some l \<Rightarrow>
             if BoundType l = BoundTypeExclusive then ''after '' @ strconv_Quote (BoundID l) @ '' and '' @ ending
             else if BoundType upper = BoundTypeInclusive then ''from '' @ strconv_Quote (BoundID l) @ '' '' @ ending
             else ''from '' @ strconv_Quote (BoundID l) @ '' and '' @ ending)"

text \<open>The first ID of the range, and the one after its last, as unsigned 64-bit integers.\<close>

definition range_first :: "bound option \<Rightarrow> goerr + 64 word" where
  "range_first lower =
     (case lower of None \<Rightarrow> Inr 0
      | Some b \<Rightarrow> (case ParseRevision (BoundID b) of Inl err \<Rightarrow> Inl err
                   | Inr eventID \<Rightarrow> Inr (if BoundType b = BoundTypeExclusive then eventID + 1 else eventID)))"

definition range_end :: "bound option \<Rightarrow> goerr + 64 word" where
  "range_end upper =
     (case upper of None \<Rightarrow> Inr (push_bit 63 1)
      | Some b \<Rightarrow> (case ParseRevision (BoundID b) of Inl err \<Rightarrow> Inl err
                   | Inr eventID \<Rightarrow> Inr (if BoundType b = BoundTypeInclusive then eventID + 1 else eventID)))"

definition checkBounds :: "read_settings \<Rightarrow> goerr option" where
  "checkBounds s =
     (let lower = LowerBound (readDatabase s); upper = UpperBound (readDatabase s) in
      case range_first lower of Inl err \<Rightarrow> Some err
      | Inr first \<Rightarrow>
          (case range_end upper of Inl err \<Rightarrow> Some err
           | Inr stop \<Rightarrow>
               if first \<ge> stop then
                 Some (Errorf [W (Sentinel ErrEmptyRange), Lit ('': no event can lie '' @ describeRange lower upper)])
               else None))"

definition CheckReadOptions :: "read_option option list \<Rightarrow> goerr option go" where
  "CheckReadOptions options =
     go_bind (readSettingsOf ''CheckReadOptions'' options) (\<lambda>settings. Ret (checkBounds settings))"

text \<open>\<open>boundAfter\<close> of \<open>projection.go\<close>: a lower bound that leaves out the checkpoint itself.\<close>

definition boundAfter :: "string \<Rightarrow> bound option" where
  "boundAfter eventID =
     (if eventID = [] then None else Some \<lparr>BoundID = eventID, BoundType = BoundTypeExclusive\<rparr>)"

section \<open>What the bounds mean\<close>

definition bound_id_ok :: "bound option \<Rightarrow> bool" where
  "bound_id_ok b \<longleftrightarrow> (case b of None \<Rightarrow> True | Some b \<Rightarrow> is_revision (BoundID b))"

definition above :: "bound option \<Rightarrow> int \<Rightarrow> bool" where
  "above lower n \<longleftrightarrow>
     (case lower of None \<Rightarrow> True
      | Some b \<Rightarrow> if BoundType b = BoundTypeExclusive then rev_rank (BoundID b) < n else rev_rank (BoundID b) \<le> n)"

definition below :: "bound option \<Rightarrow> int \<Rightarrow> bool" where
  "below upper n \<longleftrightarrow>
     (case upper of None \<Rightarrow> True
      | Some b \<Rightarrow> if BoundType b = BoundTypeInclusive then n \<le> rev_rank (BoundID b) else n < rev_rank (BoundID b))"

text \<open>
  Since a revision ends below \<open>2 ^ 63\<close>, adding one never wraps around, and the two ends
  of the range are what the bounds say.
\<close>

lemma uint_push_bit_63: "uint (push_bit 63 1 :: 64 word) = 2 ^ 63"
  by simp

lemma uint_Suc_revision:
  assumes "ParseRevision r = Inr n"
  shows "uint (n + 1) = uint n + 1"
proof -
  have "uint n < 2 ^ 63" using ParseRevision_uint [OF assms] .
  then have "(uint n + 1) mod 2 ^ 64 = uint n + 1" by (intro mod_pos_pos_trivial) auto
  then show ?thesis by (simp add: uint_word_ariths(1))
qed

lemma range_first_ok:
  assumes "bound_id_ok lower"
  obtains first where "range_first lower = Inr first"
    and "\<And>n. 0 \<le> n \<Longrightarrow> above lower n \<longleftrightarrow> uint first \<le> n"
proof (cases lower)
  case None
  then show ?thesis using that [of 0] by (simp add: range_first_def above_def)
next
  case (Some b)
  with assms obtain m where m: "ParseRevision (BoundID b) = Inr m" "rev_rank (BoundID b) = uint m"
    by (auto simp: bound_id_ok_def elim: is_revisionE)
  with Some show ?thesis
    using that [of "if BoundType b = BoundTypeExclusive then m + 1 else m"]
    by (cases "BoundType b") (auto simp: range_first_def above_def uint_Suc_revision add1_zle_eq)
qed

lemma range_end_ok:
  assumes "bound_id_ok upper"
  obtains stop where "range_end upper = Inr stop" and "uint stop \<le> 2 ^ 63"
    and "\<And>n. n < 2 ^ 63 \<Longrightarrow> below upper n \<longleftrightarrow> n < uint stop"
proof (cases upper)
  case None
  then show ?thesis using that [of "push_bit 63 1"] by (simp add: range_end_def below_def)
next
  case (Some b)
  with assms obtain m where m: "ParseRevision (BoundID b) = Inr m" "rev_rank (BoundID b) = uint m"
    by (auto simp: bound_id_ok_def elim: is_revisionE)
  from ParseRevision_uint [OF m(1)] have "uint m < 2 ^ 63" .
  with Some m show ?thesis
    using that [of "if BoundType b = BoundTypeInclusive then m + 1 else m"]
    by (cases "BoundType b") (auto simp: range_end_def below_def uint_Suc_revision zle_add1_eq_le)
qed

lemma range_first_bad: "\<not> bound_id_ok lower \<Longrightarrow> \<exists>e. range_first lower = Inl e \<and> errors_Is e ErrNotARevision"
  by (auto simp: bound_id_ok_def range_first_def is_revision_def dest: ParseRevision_not split: option.splits sum.splits)

lemma range_end_bad: "\<not> bound_id_ok upper \<Longrightarrow> \<exists>e. range_end upper = Inl e \<and> errors_Is e ErrNotARevision"
  by (auto simp: bound_id_ok_def range_end_def is_revision_def dest: ParseRevision_not split: option.splits sum.splits)

lemma checkBounds_unbounded:
  "LowerBound (readDatabase s) = None \<Longrightarrow> UpperBound (readDatabase s) = None \<Longrightarrow> checkBounds s = None"
  by (simp add: checkBounds_def range_first_def range_end_def word_le_def)

lemma boundAfter_above: "rev_valid r \<Longrightarrow> 0 \<le> n \<Longrightarrow> above (boundAfter r) n \<longleftrightarrow> rev_rank r < n"
  by (auto simp: boundAfter_def above_def)

section \<open>What options can be combined\<close>

text \<open>The options the package offers, as data, and the option each of them stands for.\<close>

datatype option_kind =
    Lower string string bound_type | Upper string string bound_type | Newest | Latest string string if_missing

fun option_of :: "option_kind \<Rightarrow> read_option" where
  "option_of (Lower name eventID t) = lowerBound name eventID t"
| "option_of (Upper name eventID t) = upperBound name eventID t"
| "option_of Newest = NewestFirst"
| "option_of (Latest s e m) = latest_option s e m"

fun sets_lower :: "option_kind \<Rightarrow> bool" where
  "sets_lower (Lower n i t) = True" | "sets_lower (Latest s e m) = True" | "sets_lower k = False"

fun sets_upper :: "option_kind \<Rightarrow> bool" where
  "sets_upper (Upper n i t) = True" | "sets_upper k = False"

definition at_most_one :: "('a \<Rightarrow> bool) \<Rightarrow> 'a list \<Rightarrow> bool" where
  "at_most_one P xs \<longleftrightarrow> length (filter P xs) \<le> 1"

lemma at_most_one_Cons: "at_most_one P (x # xs) \<longleftrightarrow> (if P x then filter P xs = [] else at_most_one P xs)"
  by (simp add: at_most_one_def)

lemma filter_eq_Nil_Cons: "filter P (x # xs) = [] \<longleftrightarrow> \<not> P x \<and> filter P xs = []"
  by simp

lemmas option_defs = lowerBound_def upperBound_def NewestFirst_def latest_option_def set_setting_def

text \<open>One option sets what it stands for, and panics if that is set already.\<close>

definition applicable :: "option_kind \<Rightarrow> read_settings \<Rightarrow> bool" where
  "applicable k s \<longleftrightarrow>
     (sets_lower k \<longrightarrow> lowerBoundOption s = []) \<and> (sets_upper k \<longrightarrow> upperBoundOption s = [])
     \<and> (k = Newest \<longrightarrow> orderOption s = [])"

lemma option_of_step:
  "(\<exists>s'. option_of k s = Ret s') \<longleftrightarrow> applicable k s"
  "option_of k s = Ret s' \<Longrightarrow> (lowerBoundOption s' = [] \<longleftrightarrow> lowerBoundOption s = [] \<and> \<not> sets_lower k)
     \<and> (upperBoundOption s' = [] \<longleftrightarrow> upperBoundOption s = [] \<and> \<not> sets_upper k)
     \<and> (orderOption s' = [] \<longleftrightarrow> orderOption s = [] \<and> k \<noteq> Newest)
     \<and> (LatestEvent (readDatabase s') = None \<longleftrightarrow> LatestEvent (readDatabase s) = None \<and> (\<forall>a b c. k \<noteq> Latest a b c))"
  by (cases k; auto simp: option_defs applicable_def go_bind_eq_Ret split: if_splits)+

lemma applyOptions_kinds:
  "(\<exists>s'. applyOptions f s (map (Some \<circ> option_of) ks) = Ret s') \<longleftrightarrow>
     at_most_one sets_lower ks \<and> at_most_one sets_upper ks \<and> at_most_one ((=) Newest) ks
     \<and> (lowerBoundOption s \<noteq> [] \<longrightarrow> filter sets_lower ks = [])
     \<and> (upperBoundOption s \<noteq> [] \<longrightarrow> filter sets_upper ks = [])
     \<and> (orderOption s \<noteq> [] \<longrightarrow> filter ((=) Newest) ks = [])"
proof (induction ks arbitrary: s)
  case Nil
  then show ?case by (simp add: at_most_one_def)
next
  case (Cons k ks)
  show ?case
  proof (cases "applicable k s")
    case True
    then obtain s' where s': "option_of k s = Ret s'" using option_of_step(1) by blast
    have rest: "applyOptions f s (map (Some \<circ> option_of) (k # ks)) = applyOptions f s' (map (Some \<circ> option_of) ks)"
      using s' by simp
    show ?thesis
      unfolding rest Cons.IH [of s']
      using option_of_step(2) [OF s'] True
      by (cases k; simp add: at_most_one_Cons applicable_def) (auto simp: at_most_one_def)
  next
    case False
    then obtain p where "option_of k s = Panic p"
      using option_of_step(1) [of k s] by (cases "option_of k s") auto
    with False show ?thesis by (cases k) (auto simp: applicable_def)
  qed
qed

lemma applyOptions_kinds_result:
  "applyOptions f s (map (Some \<circ> option_of) ks) = Ret s' \<Longrightarrow>
     (orderOption s' = [] \<longleftrightarrow> orderOption s = [] \<and> Newest \<notin> set ks)
     \<and> (LatestEvent (readDatabase s') = None \<longleftrightarrow> LatestEvent (readDatabase s) = None \<and> (\<forall>a b c. Latest a b c \<notin> set ks))"
proof (induction ks arbitrary: s)
  case Nil
  then show ?case by simp
next
  case (Cons k ks)
  obtain s1 where s1: "option_of k s = Ret s1"
    using Cons.prems by (cases "option_of k s") simp_all
  then have rest: "applyOptions f s1 (map (Some \<circ> option_of) ks) = Ret s'"
    using Cons.prems by (simp add: comp_def)
  from Cons.IH [OF rest] option_of_step(2) [OF s1] show ?case
    by (simp add: conj_comms) blast
qed

section \<open>Properties\<close>

text \<open>
  C34. \<open>checkBounds\<close>, which computes with unsigned 64-bit integers, passes a read exactly
  if both IDs are revisions and some event ID from 0 to \<open>2^63-1\<close> lies within the bounds;
  no addition in it wraps around. It fails with \<open>ErrNotARevision\<close> if an ID is not a
  revision, and with \<open>ErrEmptyRange\<close> exactly if no event can ever lie in the range.
\<close>

theorem checkBounds_exact:
  fixes s
  defines "lower \<equiv> LowerBound (readDatabase s)" and "upper \<equiv> UpperBound (readDatabase s)"
  shows "(checkBounds s = None \<longleftrightarrow> bound_id_ok lower \<and> bound_id_ok upper
            \<and> (\<exists>n. 0 \<le> n \<and> n < 2 ^ 63 \<and> above lower n \<and> below upper n))
    \<and> (\<forall>err. checkBounds s = Some err \<longrightarrow>
         (if bound_id_ok lower \<and> bound_id_ok upper then errors_Is err ErrEmptyRange
          else errors_Is err ErrNotARevision))"
proof (cases "bound_id_ok lower \<and> bound_id_ok upper")
  case True
  then obtain first stop where f: "range_first lower = Inr first"
      "\<And>n. 0 \<le> n \<Longrightarrow> above lower n \<longleftrightarrow> uint first \<le> n"
    and e: "range_end upper = Inr stop" "uint stop \<le> 2 ^ 63"
      "\<And>n. n < 2 ^ 63 \<Longrightarrow> below upper n \<longleftrightarrow> n < uint stop"
    by (metis range_first_ok range_end_ok)
  have nonempty: "(\<exists>n. 0 \<le> n \<and> n < 2 ^ 63 \<and> above lower n \<and> below upper n) \<longleftrightarrow> first < stop"
  proof
    assume "\<exists>n. 0 \<le> n \<and> n < 2 ^ 63 \<and> above lower n \<and> below upper n"
    then obtain n where "uint first \<le> n" "n < uint stop" using f(2) e(3) by blast
    then show "first < stop" by (simp add: word_less_def)
  next
    assume "first < stop"
    then have "uint first < uint stop" by (simp add: word_less_def)
    moreover have "0 \<le> uint first" by simp
    ultimately have "0 \<le> uint first \<and> uint first < 2 ^ 63 \<and> above lower (uint first) \<and> below upper (uint first)"
      using f(2) e by (metis order_less_le_trans order_refl)
    then show "\<exists>n. 0 \<le> n \<and> n < 2 ^ 63 \<and> above lower n \<and> below upper n" by blast
  qed
  show ?thesis
    using True f(1) e(1) unfolding nonempty
    by (auto simp: checkBounds_def Let_def lower_def upper_def not_le)
next
  case False
  have "\<exists>err. checkBounds s = Some err \<and> errors_Is err ErrNotARevision"
  proof (cases "range_first lower")
    case (Inl e)
    then show ?thesis using range_first_bad [of lower] range_first_ok [of lower]
      by (metis checkBounds_def lower_def old.sum.simps(5) sum.inject(1) Inl_Inr_False)
  next
    case (Inr f)
    with False have "\<not> bound_id_ok upper" using range_first_bad by fastforce
    then show ?thesis using Inr range_end_bad [of upper]
      by (auto simp: checkBounds_def Let_def lower_def upper_def)
  qed
  with False show ?thesis by auto
qed

theorem checkBounds_exact_witness:
  "\<exists>err. checkBounds (zero_read_settings\<lparr>readDatabase := (readDatabase zero_read_settings)\<lparr>
       LowerBound := Some \<lparr>BoundID = ''0'', BoundType = BoundTypeExclusive\<rparr>,
       UpperBound := Some \<lparr>BoundID = ''1'', BoundType = BoundTypeExclusive\<rparr>\<rparr>\<rparr>) = Some err
     \<and> errors_Is err ErrEmptyRange"
proof -
  let ?s = "zero_read_settings\<lparr>readDatabase := (readDatabase zero_read_settings)\<lparr>
       LowerBound := Some \<lparr>BoundID = ''0'', BoundType = BoundTypeExclusive\<rparr>,
       UpperBound := Some \<lparr>BoundID = ''1'', BoundType = BoundTypeExclusive\<rparr>\<rparr>\<rparr>"
  have ok: "bound_id_ok (LowerBound (readDatabase ?s)) \<and> bound_id_ok (UpperBound (readDatabase ?s))"
    by (simp add: bound_id_ok_def rev_eval)
  have "rev_rank ''0'' = 0" "rev_rank ''1'' = 1" by (simp_all add: rev_eval)
  then have "\<not> (\<exists>n. 0 \<le> n \<and> n < 2 ^ 63 \<and> above (LowerBound (readDatabase ?s)) n \<and> below (UpperBound (readDatabase ?s)) n)"
    by (auto simp: above_def below_def)
  then show ?thesis using checkBounds_exact [of ?s] ok by (cases "checkBounds ?s") auto
qed

text \<open>
  The options of a read are accepted exactly if at most one of them sets the lower
  bound, at most one the upper bound, at most one the order, and \<open>FromLatestEvent\<close> does
  not come with \<open>NewestFirst\<close>, in whatever order they are given; otherwise
  \<open>readSettingsOf\<close> panics.
\<close>

theorem readSettingsOf_compatible:
  "(\<exists>s. readSettingsOf f (map (Some \<circ> option_of) ks) = Ret s) \<longleftrightarrow>
     at_most_one sets_lower ks \<and> at_most_one sets_upper ks \<and> at_most_one ((=) Newest) ks
     \<and> \<not> (Newest \<in> set ks \<and> (\<exists>a b c. Latest a b c \<in> set ks))"
proof (cases "\<exists>s'. applyOptions f zero_read_settings (map (Some \<circ> option_of) ks) = Ret s'")
  case True
  then obtain s' where s': "applyOptions f zero_read_settings (map (Some \<circ> option_of) ks) = Ret s'" ..
  show ?thesis
    using True applyOptions_kinds [of f zero_read_settings ks] applyOptions_kinds_result [OF s'] s'
    by (auto simp: readSettingsOf_def zero_read_settings_def)
next
  case False
  then have "\<not> (\<exists>s. readSettingsOf f (map (Some \<circ> option_of) ks) = Ret s)"
    by (auto simp: readSettingsOf_def go_bind_eq_Ret)
  with False show ?thesis
    using applyOptions_kinds [of f zero_read_settings ks] by (auto simp: zero_read_settings_def)
qed

end
