(* ===== verification/Preconditions.thy ===== *)
theory Preconditions
  imports Revision
begin

text \<open>
  Preconditions of a command (\<open>precondition.go\<close>) and of a write (\<open>writePreconditions\<close> of
  \<open>write.go\<close>): how they are declared, checked before anything is read, turned into the
  preconditions the database checks, and found again by the index the database names.
\<close>

section \<open>Declaring\<close>

text \<open>
  The preconditions of the client, by the function that creates each, and the kinds of the kit. A
  check on a subject may be created with options, whose only field is \<open>Recursive\<close>; the kit
  itself creates them without any.
\<close>

type_synonym precondition_options = "bool option"

datatype db_precondition =
    IsSubjectPristine string precondition_options
  | IsSubjectPopulated string precondition_options
  | IsSubjectOnEventID string string precondition_options
  | IsEventQLQueryTrue string

datatype preconditionKind =
    zeroKind | requiredKind | onStateReadKind | unconditionallyKind | onEventIDKind

record precondition =
  kind :: preconditionKind
  pDatabase :: "db_precondition option"
  pSubject :: string
  pEventID :: string

definition zero_precondition :: precondition where
  "zero_precondition = \<lparr>kind = zeroKind, pDatabase = None, pSubject = [], pEventID = []\<rparr>"

definition Require :: "db_precondition option \<Rightarrow> precondition" where
  "Require p = zero_precondition\<lparr>kind := requiredKind, pDatabase := p\<rparr>"

definition OnPristineSubject :: "string \<Rightarrow> precondition" where
  "OnPristineSubject subject = Require (Some (IsSubjectPristine subject None))"

definition OnPopulatedSubject :: "string \<Rightarrow> precondition" where
  "OnPopulatedSubject subject = Require (Some (IsSubjectPopulated subject None))"

definition OnEventID :: "string \<Rightarrow> string \<Rightarrow> precondition" where
  "OnEventID subject eventID =
     zero_precondition\<lparr>kind := onEventIDKind, pSubject := subject, pEventID := eventID\<rparr>"

definition OnStateRead :: precondition where
  "OnStateRead = zero_precondition\<lparr>kind := onStateReadKind\<rparr>"

definition Unconditionally :: precondition where
  "Unconditionally = zero_precondition\<lparr>kind := unconditionallyKind\<rparr>"

text \<open>The precondition of the client, which is nil for a kind that has none, and whether there is one.\<close>

definition Database :: "precondition \<Rightarrow> db_precondition option \<times> bool" where
  "Database p =
     (if kind p = onEventIDKind then (Some (IsSubjectOnEventID (pSubject p) (pEventID p) None), True)
      else (pDatabase p, kind p = requiredKind))"

definition IsOnStateRead :: "precondition \<Rightarrow> bool" where
  "IsOnStateRead p \<longleftrightarrow> kind p = onStateReadKind"

definition IsUnconditional :: "precondition \<Rightarrow> bool" where
  "IsUnconditional p \<longleftrightarrow> kind p = unconditionallyKind"

lemmas precondition_defs =
  zero_precondition_def Require_def OnPristineSubject_def OnPopulatedSubject_def OnEventID_def
  OnStateRead_def Unconditionally_def

section \<open>Checking\<close>

fun checkEventIDs :: "precondition list \<Rightarrow> goerr option" where
  "checkEventIDs [] = None"
| "checkEventIDs (p # ps) =
     (if kind p \<noteq> onEventIDKind then checkEventIDs ps
      else case ParseRevision (pEventID p) of Inl err \<Rightarrow> Some err | Inr _ \<Rightarrow> checkEventIDs ps)"

text \<open>
  The loop of \<open>checkPreconditions\<close>, for a command of the Go type \<open>T\<close> that declares \<open>n\<close>
  preconditions.
\<close>

fun checkPreconditions_loop :: "string \<Rightarrow> nat \<Rightarrow> precondition list \<Rightarrow> goerr option" where
  "checkPreconditions_loop T n [] = None"
| "checkPreconditions_loop T n (p # ps) =
     (case kind p of
        requiredKind \<Rightarrow>
          if pDatabase p = None then
            Some (Errorf [W (Sentinel ErrPermanent), Lit ('': '' @ T @ '' requires a precondition that is nil'')])
          else checkPreconditions_loop T n ps
      | onStateReadKind \<Rightarrow> checkPreconditions_loop T n ps
      | unconditionallyKind \<Rightarrow>
          if n > 1 then
            Some (Errorf [W (Sentinel ErrPermanent),
              Lit ('': '' @ T @ '' combines Unconditionally with other preconditions'')])
          else checkPreconditions_loop T n ps
      | onEventIDKind \<Rightarrow> checkPreconditions_loop T n ps
      | zeroKind \<Rightarrow>
          Some (Errorf [W (Sentinel ErrPermanent),
            Lit ('': '' @ T @ '' declares a zero Precondition, which none of OnPristineSubject, '' @
              ''OnPopulatedSubject, OnEventID, OnStateRead, Require, or Unconditionally returns'')]))"

definition checkPreconditions :: "string \<Rightarrow> precondition list \<Rightarrow> goerr + precondition list" where
  "checkPreconditions T declared =
     (if declared = [] then
        Inl (Errorf [W (Sentinel ErrPermanent),
          Lit ('': '' @ T @ '' declares no preconditions, use Unconditionally to write without any'')])
      else case checkPreconditions_loop T (length declared) declared of
        Some err \<Rightarrow> Inl err
      | None \<Rightarrow> (case checkEventIDs declared of Some err \<Rightarrow> Inl err | None \<Rightarrow> Inr declared))"

definition CheckPreconditions :: "string \<Rightarrow> precondition list \<Rightarrow> goerr option" where
  "CheckPreconditions T declared = (case checkPreconditions T declared of Inl err \<Rightarrow> Some err | Inr _ \<Rightarrow> None)"

section \<open>Resolving\<close>

text \<open>
  The preconditions the database checks, \<open>None\<close> being a nil one. A zero precondition falls
  through the switch of \<open>resolvePreconditions\<close> and adds nothing.
\<close>

definition resolve_one :: "string \<Rightarrow> string \<Rightarrow> precondition \<Rightarrow> db_precondition option list" where
  "resolve_one subject lastEventID p =
     (case kind p of
        requiredKind \<Rightarrow> [fst (Database p)]
      | onEventIDKind \<Rightarrow> [fst (Database p)]
      | onStateReadKind \<Rightarrow>
          if lastEventID = [] then [Some (IsSubjectPristine subject None)]
          else [Some (IsSubjectOnEventID subject lastEventID None)]
      | unconditionallyKind \<Rightarrow> []
      | zeroKind \<Rightarrow> [])"

definition resolvePreconditions :: "string \<Rightarrow> precondition list \<Rightarrow> string \<Rightarrow> db_precondition option list" where
  "resolvePreconditions subject declared lastEventID = concat (map (resolve_one subject lastEventID) declared)"

definition violatedPrecondition :: "goerr \<Rightarrow> precondition list \<Rightarrow> precondition \<times> bool" where
  "violatedPrecondition err declared =
     (case answerOf err of
        None \<Rightarrow> (zero_precondition, False)
      | Some answer \<Rightarrow>
          if Code answer \<noteq> CodePreconditionViolated then (zero_precondition, False)
          else (case Details answer of
              Some (Some index) \<Rightarrow>
                if index < 0 \<or> index \<ge> int (length declared) then (zero_precondition, False)
                else (declared ! nat index, True)
            | _ \<Rightarrow> (zero_precondition, False)))"

section \<open>The preconditions of a write\<close>

fun writePreconditions_loop ::
  "nat \<Rightarrow> db_precondition option list \<Rightarrow> precondition list \<Rightarrow> goerr + db_precondition option list" where
  "writePreconditions_loop n resolved [] = Inr resolved"
| "writePreconditions_loop n resolved (p # ps) =
     (case kind p of
        requiredKind \<Rightarrow>
          if pDatabase p = None then
            Inl (Errorf [W (Sentinel ErrPermanent), Lit '': a write requires a precondition that is nil''])
          else writePreconditions_loop n (resolved @ [pDatabase p]) ps
      | onStateReadKind \<Rightarrow>
          Inl (Errorf [W (Sentinel ErrPermanent),
            Lit ('': a write reads no state, so OnStateRead has nothing to guard, '' @
              ''use OnPristineSubject, OnPopulatedSubject, OnEventID, or Require instead'')])
      | unconditionallyKind \<Rightarrow>
          if n > 1 then
            Inl (Errorf [W (Sentinel ErrPermanent), Lit '': a write combines Unconditionally with other preconditions''])
          else writePreconditions_loop n resolved ps
      | onEventIDKind \<Rightarrow> writePreconditions_loop n (resolved @ [fst (Database p)]) ps
      | zeroKind \<Rightarrow>
          Inl (Errorf [W (Sentinel ErrPermanent),
            Lit ('': a write declares a zero Precondition, which none of OnPristineSubject, '' @
              ''OnPopulatedSubject, OnEventID, OnStateRead, Require, or Unconditionally returns'')]))"

definition writePreconditions :: "precondition list \<Rightarrow> goerr + db_precondition option list" where
  "writePreconditions declared =
     (if declared = [] then
        Inl (Errorf [W (Sentinel ErrPermanent),
          Lit '': a write declares no preconditions, use Unconditionally to write without any''])
      else case writePreconditions_loop (length declared) [] declared of
        Inl err \<Rightarrow> Inl err
      | Inr resolved \<Rightarrow> (case checkEventIDs declared of Some err \<Rightarrow> Inl err | None \<Rightarrow> Inr resolved))"

section \<open>What is well declared\<close>

text \<open>The code is in order: what the programmer, not the caller, answers for.\<close>

definition kind_ok :: "nat \<Rightarrow> precondition \<Rightarrow> bool" where
  "kind_ok n p \<longleftrightarrow> kind p \<noteq> zeroKind \<and> (kind p = requiredKind \<longrightarrow> pDatabase p \<noteq> None)
     \<and> (kind p = unconditionallyKind \<longrightarrow> n \<le> 1)"

definition well_declared :: "precondition list \<Rightarrow> bool" where
  "well_declared declared \<longleftrightarrow> declared \<noteq> [] \<and> (\<forall>p \<in> set declared. kind_ok (length declared) p)"

definition event_ids_ok :: "precondition list \<Rightarrow> bool" where
  "event_ids_ok declared \<longleftrightarrow> (\<forall>p \<in> set declared. kind p = onEventIDKind \<longrightarrow> is_revision (pEventID p))"

lemma is_revision_Parse: "is_revision s \<longleftrightarrow> (\<exists>w. ParseRevision s = Inr w)"
  by (auto simp: ParseRevision_def is_revision_def split: option.splits)

lemma ParseRevision_error:
  "ParseRevision s = Inl err \<Longrightarrow> errors_Is err ErrNotARevision \<and> \<not> errors_Is err ErrPermanent \<and> \<not> is_revision s"
  by (auto simp: ParseRevision_def is_revision_def sentinel_Is_def split: option.splits)

lemma checkEventIDs_None: "checkEventIDs ps = None \<longleftrightarrow> event_ids_ok ps"
  by (induction ps) (auto simp: event_ids_ok_def is_revision_Parse split: sum.splits)

lemma checkEventIDs_Some:
  "checkEventIDs ps = Some err \<Longrightarrow> errors_Is err ErrNotARevision \<and> \<not> errors_Is err ErrPermanent"
  by (induction ps) (auto dest: ParseRevision_error split: sum.splits if_splits)

lemma checkPreconditions_loop_None:
  "checkPreconditions_loop T n ps = None \<longleftrightarrow> (\<forall>p \<in> set ps. kind_ok n p)"
  by (induction ps) (auto simp: kind_ok_def split: preconditionKind.splits)

lemma checkPreconditions_loop_Some:
  "checkPreconditions_loop T n ps = Some err \<Longrightarrow> errors_Is err ErrPermanent \<and> \<not> errors_Is err ErrNotARevision"
  by (induction ps) (auto simp: sentinel_Is_def split: preconditionKind.splits if_splits)

lemma checkPreconditions_Inr:
  "checkPreconditions T declared = Inr r \<longleftrightarrow> well_declared declared \<and> event_ids_ok declared \<and> r = declared"
  using checkPreconditions_loop_None [of T "length declared" declared] checkEventIDs_None [of declared]
  by (auto simp: checkPreconditions_def well_declared_def split: option.splits)

text \<open>Without \<open>Unconditionally\<close>, every declared precondition resolves to exactly one.\<close>

lemma resolve_one_length:
  "kind_ok n p \<Longrightarrow> kind p \<noteq> unconditionallyKind \<Longrightarrow> \<exists>d. resolve_one subject lastEventID p = [Some d]"
  by (cases "kind p") (auto simp: resolve_one_def kind_ok_def Database_def)

lemma concat_singletons: "\<forall>x \<in> set xs. \<exists>y. f x = [y] \<Longrightarrow> concat (map f xs) = map (hd \<circ> f) xs"
  by (induction xs) force+

lemma resolve_all:
  assumes "well_declared declared" and "\<forall>p \<in> set declared. kind p \<noteq> unconditionallyKind"
  shows "resolvePreconditions subject declared lastEventID = map (hd \<circ> resolve_one subject lastEventID) declared"
  unfolding resolvePreconditions_def
  using assms resolve_one_length by (intro concat_singletons) (fastforce simp: well_declared_def)

lemma well_declared_unconditional:
  assumes "well_declared declared" and "\<exists>p \<in> set declared. kind p = unconditionallyKind"
  shows "\<exists>p. declared = [p] \<and> kind p = unconditionallyKind"
proof -
  from assms have "length declared = 1"
    by (auto simp: well_declared_def kind_ok_def le_Suc_eq)
  then obtain p where "declared = [p]" by (auto simp: length_Suc_conv)
  with assms(2) show ?thesis by simp
qed

lemma writePreconditions_loop_Inr:
  "writePreconditions_loop n acc ps = Inr r \<longleftrightarrow>
     (\<forall>p \<in> set ps. kind_ok n p \<and> kind p \<noteq> onStateReadKind)
     \<and> r = acc @ concat (map (resolve_one subject lastEventID) ps)"
proof (induction ps arbitrary: acc)
  case Nil
  then show ?case by auto
next
  case (Cons p ps)
  then show ?case
    by (cases "kind p") (auto simp: kind_ok_def resolve_one_def Database_def)
qed

lemma writePreconditions_loop_Inl:
  "writePreconditions_loop n acc ps = Inl err \<Longrightarrow> errors_Is err ErrPermanent \<and> \<not> errors_Is err ErrNotARevision"
  by (induction ps arbitrary: acc) (auto simp: sentinel_Is_def split: preconditionKind.splits if_splits)

section \<open>Properties\<close>

text \<open>
  C25. \<open>checkPreconditions\<close> lets a command through exactly if it declares at least one
  precondition, none of them zero or a requirement of nil, \<open>Unconditionally\<close> only alone, and
  only revisions as IDs of \<open>OnEventID\<close>. A mistake in the code fails with \<open>ErrPermanent\<close> and
  hides any ID that is not a revision; an ID alone fails with \<open>ErrNotARevision\<close>, which is not
  permanent.
\<close>

theorem checkPreconditions_exact:
  "case checkPreconditions T declared of
     Inr r \<Rightarrow> well_declared declared \<and> event_ids_ok declared \<and> r = declared
   | Inl err \<Rightarrow>
       (if well_declared declared
        then \<not> event_ids_ok declared \<and> errors_Is err ErrNotARevision \<and> \<not> errors_Is err ErrPermanent
        else errors_Is err ErrPermanent \<and> \<not> errors_Is err ErrNotARevision)"
proof (cases "checkPreconditions T declared")
  case (Inr r)
  moreover from this have "well_declared declared \<and> event_ids_ok declared \<and> r = declared"
    by (simp add: checkPreconditions_Inr)
  ultimately show ?thesis by simp
next
  case (Inl err)
  show ?thesis
  proof (cases "declared = [] \<or> checkPreconditions_loop T (length declared) declared \<noteq> None")
    case True
    then have "\<not> well_declared declared"
      using checkPreconditions_loop_None [of T "length declared" declared] by (auto simp: well_declared_def)
    moreover have "errors_Is err ErrPermanent \<and> \<not> errors_Is err ErrNotARevision"
      using True Inl checkPreconditions_loop_Some
      by (auto simp: checkPreconditions_def sentinel_Is_def split: if_splits)
    ultimately show ?thesis using Inl by simp
  next
    case False
    then have pass: "declared \<noteq> []" "checkPreconditions_loop T (length declared) declared = None" by simp_all
    then have "well_declared declared"
      by (simp add: well_declared_def checkPreconditions_loop_None)
    moreover have "checkEventIDs declared = Some err"
      using Inl pass by (auto simp: checkPreconditions_def split: option.splits)
    ultimately show ?thesis
      using Inl checkEventIDs_None [of declared] checkEventIDs_Some [of declared err] by simp
  qed
qed

text \<open>
  C26. The index by which the database names a violated precondition is the index of the
  declared one. For declared preconditions that pass the check, \<open>resolvePreconditions\<close> yields
  either exactly one precondition per declared one, in their order and none of them nil, or
  none at all because \<open>Unconditionally\<close> is declared alone; and for an answer of the database
  that names the index \<open>i\<close> of a precondition it was sent, \<open>violatedPrecondition\<close> returns the
  declared precondition that resolves to the one at \<open>i\<close>.
\<close>

theorem violatedPrecondition_index:
  assumes "checkPreconditions T declared = Inr declared"
    and "resolved = resolvePreconditions subject declared lastEventID"
    and "answerOf err = Some answer" and "Code answer = CodePreconditionViolated"
    and "Details answer = Some (Some (int i))" and "i < length resolved"
  shows "length resolved = length declared \<and> (\<forall>d \<in> set resolved. d \<noteq> None)
    \<and> (\<exists>p. violatedPrecondition err declared = (p, True) \<and> resolve_one subject lastEventID p = [resolved ! i])"
proof -
  have wd: "well_declared declared" using assms(1) by (simp add: checkPreconditions_Inr)
  have cond: "\<forall>p \<in> set declared. kind p \<noteq> unconditionallyKind"
  proof (rule ccontr)
    assume "\<not> ?thesis"
    then obtain p where "declared = [p]" "kind p = unconditionallyKind"
      using well_declared_unconditional [OF wd] by auto
    then have "resolved = []" by (simp add: assms(2) resolvePreconditions_def resolve_one_def)
    with assms(6) show False by simp
  qed
  then have r: "resolved = map (hd \<circ> resolve_one subject lastEventID) declared"
    using resolve_all [OF wd] cond assms(2) by simp
  then have len: "length resolved = length declared" by simp
  have one: "\<exists>d. resolve_one subject lastEventID p = [Some d]" if "p \<in> set declared" for p
    using that wd cond resolve_one_length by (auto simp: well_declared_def)
  then have some: "\<forall>d \<in> set resolved. d \<noteq> None" unfolding r by fastforce
  have "i < length declared" using assms(6) len by simp
  moreover from this have "declared ! i \<in> set declared" by simp
  ultimately have "\<exists>p. violatedPrecondition err declared = (p, True)
      \<and> resolve_one subject lastEventID p = [resolved ! i]"
    using one [of "declared ! i"] r assms(3-5) by (auto simp: violatedPrecondition_def)
  with len some show ?thesis by blast
qed

theorem violatedPrecondition_index_witness:
  "\<exists>p. violatedPrecondition
         (DBAPIError \<lparr>Status = 409, Code = CodePreconditionViolated, Description = [],
            Details = Some (Some 1), ErrorText = ''conflict''\<rparr>)
         [OnPopulatedSubject ''/shelf'', OnStateRead] = (p, True)
     \<and> resolve_one ''/book'' ''7'' p = [Some (IsSubjectOnEventID ''/book'' ''7'' None)]"
  using violatedPrecondition_index [of "''cmd''" "[OnPopulatedSubject ''/shelf'', OnStateRead]"
    "[Some (IsSubjectPopulated ''/shelf'' None), Some (IsSubjectOnEventID ''/book'' ''7'' None)]" "''/book''" "''7''"
    "DBAPIError \<lparr>Status = 409, Code = CodePreconditionViolated, Description = [],
            Details = Some (Some 1), ErrorText = ''conflict''\<rparr>"
    "\<lparr>Status = 409, Code = CodePreconditionViolated, Description = [],
            Details = Some (Some 1), ErrorText = ''conflict''\<rparr>" 1]
  by (simp add: checkPreconditions_def resolvePreconditions_def resolve_one_def Database_def precondition_defs
      answerOf_def)

text \<open>
  \<open>writePreconditions\<close> agrees with what \<open>Execute\<close> does for a command: it succeeds exactly
  if \<open>checkPreconditions\<close> does and \<open>OnStateRead\<close> is not among the preconditions, and then
  yields what \<open>resolvePreconditions\<close> yields for them, whatever the subject and the last event.
  Its failures have the same categories: \<open>ErrNotARevision\<close> if all that is wrong are IDs, and
  \<open>ErrPermanent\<close> otherwise.
\<close>

theorem writePreconditions_agree:
  "case writePreconditions declared of
     Inr r \<Rightarrow> checkPreconditions T declared = Inr declared \<and> \<not> list_ex IsOnStateRead declared
              \<and> r = resolvePreconditions subject declared lastEventID
   | Inl err \<Rightarrow>
       (if well_declared declared \<and> \<not> list_ex IsOnStateRead declared
        then \<not> event_ids_ok declared \<and> errors_Is err ErrNotARevision \<and> \<not> errors_Is err ErrPermanent
        else errors_Is err ErrPermanent \<and> \<not> errors_Is err ErrNotARevision)"
proof (cases "declared = []")
  case True
  then show ?thesis by (simp add: writePreconditions_def well_declared_def sentinel_Is_def)
next
  case False
  note loop = writePreconditions_loop_Inr [of "length declared" "[]" declared _ subject lastEventID]
  show ?thesis
  proof (cases "writePreconditions_loop (length declared) [] declared")
    case (Inl e)
    then have "\<not> (well_declared declared \<and> \<not> list_ex IsOnStateRead declared)"
      using loop [of "concat (map (resolve_one subject lastEventID) declared)"]
      by (auto simp: well_declared_def list_ex_iff IsOnStateRead_def)
    then show ?thesis
      using Inl False writePreconditions_loop_Inl [OF Inl] by (simp add: writePreconditions_def)
  next
    case (Inr r)
    with loop [of r] False have "well_declared declared \<and> \<not> list_ex IsOnStateRead declared"
        "r = resolvePreconditions subject declared lastEventID"
      by (auto simp: well_declared_def list_ex_iff IsOnStateRead_def resolvePreconditions_def)
    then show ?thesis
      using Inr False checkEventIDs_None [of declared] checkEventIDs_Some [of declared]
      by (cases "checkEventIDs declared")
        (auto simp: writePreconditions_def checkPreconditions_Inr)
  qed
qed

end
