(* ===== verification/Store.thy ===== *)
theory Store
  imports State_Cache Read_Options Preconditions
begin

text \<open>
  The store (\<open>store.go\<close> and \<open>write.go\<close>): its options, reading and folding a subject with and
  without the state cache, writing under preconditions, executing a command with retries on a
  conflict, and registering schemas.

  The database client is a parameter, the record \<open>client\<close>: each of its functions gets the world
  and returns the world after the call. The world holds the database, the context of the call
  and the memory of the process; other processes may change the database in any step. An
  iteration is the list of what it yields.
\<close>

section \<open>The client\<close>

record EventCandidate =
  CandidateSource :: string
  CandidateSubject :: string
  CandidateType :: string
  CandidateData :: string

record event_type_info =
  InfoType :: string
  InfoSchema :: "schema_json option"

record 'w client =
  ReadEvents :: "'w \<Rightarrow> string \<Rightarrow> read_events_options \<Rightarrow> (goerr + event) list \<times> 'w"
  WriteEvents :: "'w \<Rightarrow> EventCandidate list \<Rightarrow> db_precondition option list \<Rightarrow> (goerr + event list) \<times> 'w"
  RegisterEventSchema :: "'w \<Rightarrow> string \<Rightarrow> schema_json \<Rightarrow> goerr option \<times> 'w"
  ReadEventTypes :: "'w \<Rightarrow> (goerr + event_type_info) list \<times> 'w"
  VerifyHash :: "event \<Rightarrow> goerr option"
  VerifySignature :: "event \<Rightarrow> string \<Rightarrow> goerr option"
  ctx_Err :: "'w \<Rightarrow> goerr option"
  memory :: "'w \<Rightarrow> heap"

section \<open>Options of a store\<close>

text \<open>A duration is a number of nanoseconds. An observer of reconnects is \<open>None\<close> if there is none.\<close>

record Reconnect =
  ReconnectProjection :: string
  ReconnectSubject :: string
  ReconnectErr :: "goerr option"
  ReconnectDelay :: int
  ReconnectAttempt :: int

record 'w storeSettings =
  maxCachedSubjects :: int
  reconnectInitialDelay :: int
  reconnectMaxDelay :: int
  reconnectObserver :: "('w \<Rightarrow> Reconnect \<Rightarrow> 'w go) option"
  skipsHashes :: bool
  verificationKey :: "string option"
  conflictRetries :: int

type_synonym 'w StoreOption = "'w storeSettings \<Rightarrow> 'w storeSettings go"

definition show_int :: "int \<Rightarrow> string" where
  "show_int n = (if n < 0 then ''-'' @ strconv_Itoa (nat (- n)) else strconv_Itoa (nat n))"

definition WithStateCache :: "int \<Rightarrow> 'w StoreOption go" where
  "WithStateCache n =
     (if n < 0 then
        Panic (''architecturekit: WithStateCache needs a number of subjects that is not negative, not '' @ show_int n)
      else Ret (\<lambda>settings. Ret (settings\<lparr>maxCachedSubjects := n\<rparr>)))"

definition WithConflictRetries :: "int \<Rightarrow> 'w StoreOption go" where
  "WithConflictRetries n =
     (if n < 0 then
        Panic (''architecturekit: WithConflictRetries needs a number of retries that is not negative, not '' @ show_int n)
      else Ret (\<lambda>settings. Ret (settings\<lparr>conflictRetries := n\<rparr>)))"

definition WithReconnectDelays :: "(int \<Rightarrow> string) \<Rightarrow> int \<Rightarrow> int \<Rightarrow> 'w StoreOption go" where
  "WithReconnectDelays durationString initialDelay maxDelay =
     (if initialDelay \<le> 0 then
        Panic (''architecturekit: WithReconnectDelays needs an initial delay that is positive, not '' @ durationString initialDelay)
      else if maxDelay < initialDelay then
        Panic (''architecturekit: WithReconnectDelays needs a maximum delay that is not below the initial delay of ''
          @ durationString initialDelay @ '', not '' @ durationString maxDelay)
      else Ret (\<lambda>settings. Ret (settings\<lparr>reconnectInitialDelay := initialDelay, reconnectMaxDelay := maxDelay\<rparr>)))"

definition WithReconnectObserver :: "('w \<Rightarrow> Reconnect \<Rightarrow> 'w go) option \<Rightarrow> 'w StoreOption go" where
  "WithReconnectObserver observe =
     (if observe = None then Panic ''architecturekit: WithReconnectObserver needs a function, not nil''
      else Ret (\<lambda>settings. Ret (settings\<lparr>reconnectObserver := observe\<rparr>)))"

definition WithoutHashVerification :: "'w StoreOption" where
  "WithoutHashVerification = (\<lambda>settings. Ret (settings\<lparr>skipsHashes := True\<rparr>))"

definition WithSignatureVerification :: "string \<Rightarrow> 'w StoreOption go" where
  "WithSignatureVerification key =
     (if length key \<noteq> 32 then
        Panic (''architecturekit: a verification key needs 32 bytes, not '' @ strconv_Itoa (length key))
      else Ret (\<lambda>settings. Ret (settings\<lparr>verificationKey := Some key\<rparr>)))"

section \<open>The store\<close>

record 'w Store =
  storeClient :: "'w client"
  source :: string
  settings :: "'w storeSettings"

text \<open>
  What changes while a store is used: the world, and the state cache, which is \<open>None\<close> unless
  the store has one. It holds the states of the one Go type the store is used with here.
\<close>

record ('w, 's) sys =
  world :: 'w
  states :: "'s stateCache option"

definition default_settings :: "'w storeSettings" where
  "default_settings =
     \<lparr>maxCachedSubjects = 0, reconnectInitialDelay = 1000000000, reconnectMaxDelay = 60000000000,
      reconnectObserver = None, skipsHashes = False, verificationKey = None, conflictRetries = 0\<rparr>"

definition NewStore ::
  "'w client option \<Rightarrow> string \<Rightarrow> 'w StoreOption option list \<Rightarrow> ('w Store \<times> 's stateCache option) go" where
  "NewStore c src options =
     (case c of
        None \<Rightarrow> Panic ''architecturekit: NewStore needs a client, not nil''
      | Some cl \<Rightarrow>
          go_bind (applyOptions ''NewStore'' default_settings options) (\<lambda>st.
            if skipsHashes st \<and> verificationKey st \<noteq> None then
              Panic ''architecturekit: WithoutHashVerification contradicts WithSignatureVerification, which checks the hash as well''
            else Ret (\<lparr>storeClient = cl, source = src, settings = st\<rparr>,
                      if maxCachedSubjects st > 0 then Some (newStateCache (nat (maxCachedSubjects st))) else None)))"

section \<open>Reading\<close>

definition verify :: "'w Store \<Rightarrow> event \<Rightarrow> goerr option" where
  "verify s event =
     (let err =
        (case verificationKey (settings s) of
           Some key \<Rightarrow> VerifySignature (storeClient s) event key
         | None \<Rightarrow> if \<not> skipsHashes (settings s) then VerifyHash (storeClient s) event else None)
      in case err of
           None \<Rightarrow> None
         | Some e \<Rightarrow> Some (Errorf [W (Sentinel ErrUnverified),
             Lit ('': event '' @ ID event @ '' on '' @ strconv_Quote (Subject event) @ '': '' @ error_text e)]))"

text \<open>What \<open>Read\<close> yields to a caller that iterates to the end; one that stops sees a prefix.\<close>

fun read_loop :: "'w Store \<Rightarrow> goerr option \<Rightarrow> string \<Rightarrow> (goerr + event) list \<Rightarrow> (goerr + event) list" where
  "read_loop s ctxErr doing [] = []"
| "read_loop s ctxErr doing (Inl err # items) = [Inl (readFailure ctxErr err doing)]"
| "read_loop s ctxErr doing (Inr event # items) =
     (case verify s event of Some err \<Rightarrow> [Inl err] | None \<Rightarrow> Inr event # read_loop s ctxErr doing items)"

definition Read ::
  "'w Store \<Rightarrow> subjects \<Rightarrow> read_option option list \<Rightarrow> 'w \<Rightarrow> ((goerr + event) list \<times> 'w) go" where
  "Read s subs options w =
     go_bind (requireSubjects subs) (\<lambda>_.
       go_bind (readSettingsOf ''Read'' options) (\<lambda>st0.
         let st = st0\<lparr>readDatabase := (readDatabase st0)\<lparr>Recursive := isRecursive subs\<rparr>\<rparr> in
         case checkBounds st of
           Some err \<Rightarrow> Ret ([Inl err], w)
         | None \<Rightarrow>
             (let (items, w') = ReadEvents (storeClient s) w (rootSubject subs) (readDatabase st) in
              Ret (read_loop s (ctx_Err (storeClient s) w') (''reading '' @ strconv_Quote (rootSubject subs)) items, w'))))"

section \<open>Folding a subject\<close>

text \<open>The loop of \<open>fold\<close> over what \<open>ReadEvents\<close> yields.\<close>

fun fold_loop ::
  "'w Store \<Rightarrow> goerr option \<Rightarrow> string \<Rightarrow> 's State \<Rightarrow> 's \<Rightarrow> string \<Rightarrow> (goerr + event) list \<Rightarrow> 's \<times> string \<times> goerr option" where
  "fold_loop s ctxErr subj state current lastEventID [] = (current, lastEventID, None)"
| "fold_loop s ctxErr subj state current lastEventID (Inl err # items) =
     (current, [], Some (readFailure ctxErr err (''reading '' @ strconv_Quote subj)))"
| "fold_loop s ctxErr subj state current lastEventID (Inr event # items) =
     (case verify s event of
        Some err \<Rightarrow> (current, [], Some err)
      | None \<Rightarrow>
          (case upcast_apply (upcasters state) event of
             Inl err \<Rightarrow> (current, [], Some err)
           | Inr upcasted \<Rightarrow>
               (case evolve_all ('' on subject '' @ strconv_Quote subj) state current upcasted of
                  (current', Some err) \<Rightarrow> (current', [], Some err)
                | (current', None) \<Rightarrow> fold_loop s ctxErr subj state current' (ID event) items)))"

definition cacheKey :: "'s State \<Rightarrow> string \<Rightarrow> stateCacheKey" where
  "cacheKey state subj = \<lparr>keyType = stateTypeName state, keySubject = subj\<rparr>"

definition read_options :: "'s State \<Rightarrow> string \<Rightarrow> string \<Rightarrow> read_events_options" where
  "read_options state subj lastEventID =
     (let lower = boundAfter lastEventID in
      \<lparr>Recursive = False, Order = OrderChronological, LowerBound = lower, UpperBound = None,
       LatestEvent =
         (if lower = None \<and> fromLatest state \<noteq> [] then
            Some \<lparr>LatestSubject = subj, LatestType = fromLatest state, IfEventIsMissing = ReadIfEventIsMissingReadEverything\<rparr>
          else None)\<rparr>)"

text \<open>
  From where \<open>fold\<close> starts: the state and the last event of the cache, or the initial state; and
  whether the state is cached at all.
\<close>

definition fold_start ::
  "'w Store \<Rightarrow> string \<Rightarrow> 's State \<Rightarrow> 's \<Rightarrow> ('w, 's) sys \<Rightarrow> (goerr + 's \<times> string) \<times> ('w, 's) sys" where
  "fold_start s subj state current y =
     (case states y of
        Some cache \<Rightarrow>
          if isCopyable state then
            (case cache_get (cacheKey state subj) cache of
               (None, cache') \<Rightarrow> (Inr (current, []), y\<lparr>states := Some cache'\<rparr>)
             | (Some entry, cache') \<Rightarrow>
                 if \<not> equals (memory (storeClient s) (world y)) (entryShape entry) (shapeOf state) then
                   (Inl (Errorf [W (Sentinel ErrPermanent),
                      Lit ('': two different states of type '' @ stateTypeName state @ '' read '' @ strconv_Quote subj @
                        ''; give them different types to cache them'')]), y\<lparr>states := Some cache'\<rparr>)
                 else (Inr (copyOf state (entryState entry), entryLastEventID entry), y\<lparr>states := Some cache'\<rparr>))
          else (Inr (current, []), y)
      | None \<Rightarrow> (Inr (current, []), y))"

definition fold_end :: "'w Store \<Rightarrow> string \<Rightarrow> 's State \<Rightarrow> 's \<Rightarrow> string \<Rightarrow> ('w, 's) sys \<Rightarrow> ('w, 's) sys" where
  "fold_end s subj state current lastEventID y =
     (case states y of
        Some cache \<Rightarrow>
          if isCopyable state \<and> lastEventID \<noteq> [] then
            y\<lparr>states := Some (cache_put (memory (storeClient s) (world y)) (cacheKey state subj) (shapeOf state)
                 (copyOf state current) lastEventID cache)\<rparr>
          else y
      | None \<Rightarrow> y)"

definition store_fold ::
  "'w Store \<Rightarrow> string \<Rightarrow> 's State \<Rightarrow> ('w, 's) sys \<Rightarrow> ('s \<times> string \<times> goerr option) \<times> ('w, 's) sys" where
  "store_fold s subj state y =
     (case copyOfInitial state of
        (current, Some err) \<Rightarrow> ((current, [], Some err), y)
      | (current, None) \<Rightarrow>
          (case fold_start s subj state current y of
             (Inl err, y1) \<Rightarrow> ((current, [], Some err), y1)
           | (Inr (current1, lastEventID), y1) \<Rightarrow>
               (let (items, w2) = ReadEvents (storeClient s) (world y1) subj (read_options state subj lastEventID);
                    y2 = y1\<lparr>world := w2\<rparr> in
                case fold_loop s (ctx_Err (storeClient s) w2) subj state current1 lastEventID items of
                  (current2, lastEventID2, Some err) \<Rightarrow> ((current2, [], Some err), y2)
                | (current2, lastEventID2, None) \<Rightarrow>
                    ((current2, lastEventID2, None), fold_end s subj state current2 lastEventID2 y2))))"

definition Load :: "'w Store \<Rightarrow> 's State \<Rightarrow> string \<Rightarrow> ('w, 's) sys \<Rightarrow> ('s \<times> goerr option) \<times> ('w, 's) sys" where
  "Load s state subj y = (case store_fold s subj state y of ((current, _, err), y') \<Rightarrow> ((current, err), y'))"

section \<open>Writing\<close>

definition candidateFor :: "'w Store \<Rightarrow> string \<Rightarrow> app_event \<Rightarrow> goerr + EventCandidate" where
  "candidateFor s subj event =
     (case Marshal event of
        Inl err \<Rightarrow>
          Inl (Errorf [W (Sentinel ErrPermanent),
            Lit ('': refusing to write an event of type '' @ strconv_Quote (EventType event) @ '' to '' @ strconv_Quote subj @
              '', since its data can not be encoded as JSON: '' @ err)])
      | Inr data \<Rightarrow>
          Inr \<lparr>CandidateSource = source s, CandidateSubject = subj, CandidateType = EventType event, CandidateData = data\<rparr>)"

definition store_write ::
  "'w Store \<Rightarrow> EventCandidate list \<Rightarrow> db_precondition option list \<Rightarrow> string \<Rightarrow> 'w \<Rightarrow> (goerr + event list) \<times> 'w" where
  "store_write s candidates preconditions doing w =
     (case WriteEvents (storeClient s) w candidates preconditions of
        (Inl err, w') \<Rightarrow> (Inl (writeFailure err doing), w')
      | (Inr written, w') \<Rightarrow> (Inr written, w'))"

record EventOn =
  OnSubject :: string
  OnEvent :: Event

definition event_isNil :: "Event \<Rightarrow> bool" where
  "event_isNil e = isNil (map_option AppValue e)"

fun write_candidates :: "'w Store \<Rightarrow> nat \<Rightarrow> EventOn list \<Rightarrow> goerr + EventCandidate list" where
  "write_candidates s i [] = Inr []"
| "write_candidates s i (e # es) =
     (if OnSubject e = [] \<or> event_isNil (OnEvent e) then
        Inl (Errorf [W (Sentinel ErrPermanent),
          Lit ('': event '' @ strconv_Itoa i @ '' of a write needs a subject and an event'')])
      else
        (case candidateFor s (OnSubject e) (the (OnEvent e)) of
           Inl err \<Rightarrow> Inl err
         | Inr c \<Rightarrow> (case write_candidates s (i + 1) es of Inl err \<Rightarrow> Inl err | Inr cs \<Rightarrow> Inr (c # cs))))"

definition Write :: "'w Store \<Rightarrow> EventOn list \<Rightarrow> precondition list \<Rightarrow> 'w \<Rightarrow> (goerr + event list) \<times> 'w" where
  "Write s events preconditions w =
     (case writePreconditions preconditions of
        Inl err \<Rightarrow> (Inl err, w)
      | Inr resolved \<Rightarrow>
          if events = [] then (Inr [], w)
          else
            (case write_candidates s 0 events of
               Inl err \<Rightarrow> (Inl err, w)
             | Inr candidates \<Rightarrow>
                 (let doing = ''writing '' @ strconv_Itoa (length events) @ '' events, the first to '' @
                        strconv_Quote (OnSubject (hd events)) in
                  case ctx_Err (storeClient s) w of
                    Some ended \<Rightarrow> (Inl (contextEnded ended doing), w)
                  | None \<Rightarrow> store_write s candidates resolved doing w)))"

section \<open>Executing a command\<close>

text \<open>A command: its Go type, and what \<open>Subject()\<close> and \<open>Preconditions()\<close> return for it.\<close>

record 'p command =
  CommandType :: string
  CommandSubject :: string
  CommandPreconditions :: "precondition list"
  CommandPayload :: 'p

fun checkNotNil_loop :: "string \<Rightarrow> nat \<Rightarrow> Event list \<Rightarrow> goerr option" where
  "checkNotNil_loop subj i [] = None"
| "checkNotNil_loop subj i (event # events) =
     (if event_isNil event then
        Some (Errorf [W (Sentinel ErrPermanent),
          Lit ('': refusing to write to '' @ strconv_Quote subj @ '', since event '' @ strconv_Itoa i @
            '' that the decider returned is nil'')])
      else checkNotNil_loop subj (i + 1) events)"

definition checkNotNil :: "string \<Rightarrow> Event list \<Rightarrow> goerr option" where
  "checkNotNil subj events = checkNotNil_loop subj 0 events"

text \<open>What \<open>executeOnce\<close> does with the events that were decided: the checks, and the candidates to write.\<close>

definition prepare :: "'w Store \<Rightarrow> 's State \<Rightarrow> string \<Rightarrow> Event list \<Rightarrow> goerr + EventCandidate list" where
  "prepare s state subj events =
     (case checkNotNil subj events of
        Some err \<Rightarrow> Inl err
      | None \<Rightarrow>
          (case checkRules state subj (map the events) of
             Some err \<Rightarrow> Inl err
           | None \<Rightarrow> collect (candidateFor s subj) (map the events)))"

definition executeOnce ::
  "'w Store \<Rightarrow> ('w, 'p command, 's) Decider \<Rightarrow> 's State \<Rightarrow> 'p command \<Rightarrow> precondition list \<Rightarrow> ('w, 's) sys \<Rightarrow>
   ((goerr + event list) \<times> ('w, 's) sys) go" where
  "executeOnce s decider state cmd declared y =
     (let subj = CommandSubject cmd in
      case store_fold s subj state y of
        ((current, lastEventID, Some err), y1) \<Rightarrow> Ret (Inl err, y1)
      | ((current, lastEventID, None), y1) \<Rightarrow>
          go_bind (Decide decider (world y1) cmd current) (\<lambda>(decision, w2).
            let y2 = y1\<lparr>world := w2\<rparr> in
            case decision of
              Inl err \<Rightarrow> Ret (Inl err, y2)
            | Inr events \<Rightarrow>
                if events = [] then Ret (Inr [], y2)
                else
                  (case prepare s state subj events of
                     Inl err \<Rightarrow> Ret (Inl err, y2)
                   | Inr candidates \<Rightarrow>
                       (case ctx_Err (storeClient s) w2 of
                          Some ended \<Rightarrow> Ret (Inl (contextEnded ended (''writing to '' @ strconv_Quote subj)), y2)
                        | None \<Rightarrow>
                            (case store_write s candidates (resolvePreconditions subj declared lastEventID)
                                    (''writing '' @ strconv_Quote subj) w2 of
                               (result, w3) \<Rightarrow> Ret (result, y2\<lparr>world := w3\<rparr>))))))"

text \<open>The loop of \<open>Execute\<close>; \<open>remaining\<close> is \<open>retries - attempt\<close>.\<close>

fun execute_loop ::
  "'w Store \<Rightarrow> ('w, 'p command, 's) Decider \<Rightarrow> 's State \<Rightarrow> 'p command \<Rightarrow> precondition list \<Rightarrow> nat \<Rightarrow> ('w, 's) sys \<Rightarrow>
   ((goerr + event list) \<times> ('w, 's) sys) go" where
  "execute_loop s decider state cmd declared remaining y =
     go_bind (executeOnce s decider state cmd declared y) (\<lambda>(result, y').
       case result of
         Inr written \<Rightarrow> Ret (Inr written, y')
       | Inl err \<Rightarrow>
           if \<not> errors_Is err ErrConflict \<or> remaining = 0 \<or> ctx_Err (storeClient s) (world y') \<noteq> None
           then Ret (Inl err, y')
           else
             (case violatedPrecondition err declared of
                (violated, isNamed) \<Rightarrow>
                  if isNamed \<and> \<not> IsOnStateRead violated then Ret (Inl err, y')
                  else execute_loop s decider state cmd declared (remaining - 1) y'))"

declare execute_loop.simps [simp del]

definition Execute ::
  "'w Store \<Rightarrow> ('w, 'p command, 's) Decider \<Rightarrow> 'p command \<Rightarrow> ('w, 's) sys \<Rightarrow> ((goerr + event list) \<times> ('w, 's) sys) go" where
  "Execute s decider cmd y =
     (case decider_State decider of
        None \<Rightarrow> Panic ''architecturekit: Execute needs a decider made with NewDecider, not the zero Decider''
      | Some state \<Rightarrow>
          (case checkPreconditions (CommandType cmd) (CommandPreconditions cmd) of
             Inl err \<Rightarrow> Ret (Inl err, y)
           | Inr declared \<Rightarrow>
               (let retries = (if list_ex IsOnStateRead declared then conflictRetries (settings s) else 0) in
                execute_loop s decider state cmd declared (nat retries) y)))"

section \<open>Registering schemas\<close>

definition json_Marshal :: "schema_json \<Rightarrow> string + string" where
  "json_Marshal schema = (case schema of None \<Rightarrow> Inr ''null'' | Some r \<Rightarrow> r)"

definition isSameSchema :: "schema_json \<Rightarrow> schema_json \<Rightarrow> string + bool" where
  "isSameSchema l r =
     (case json_Marshal l of Inl err \<Rightarrow> Inl err
      | Inr encodedLeft \<Rightarrow>
          (case json_Marshal r of Inl err \<Rightarrow> Inl err | Inr encodedRight \<Rightarrow> Inr (encodedLeft = encodedRight)))"

definition comparing_error :: "string \<Rightarrow> string \<Rightarrow> goerr" where
  "comparing_error eventType err =
     Errorf [W (Sentinel ErrPermanent), Lit ('': comparing schemas for '' @ strconv_Quote eventType @ '': '' @ err)]"

text \<open>The two nested loops of \<open>collectSchemas\<close> go through the groups one after the other.\<close>

fun collect_loop :: "EventSchema list \<Rightarrow> (string \<rightharpoonup> schema_json) \<Rightarrow> EventSchema list \<Rightarrow> goerr + EventSchema list" where
  "collect_loop collected seen [] = Inr collected"
| "collect_loop collected seen (schema # rest) =
     (let eventType = SchemaEventType schema in
      if Schema schema = None then
        Inl (Errorf [W (Sentinel ErrPermanent), Lit ('': event type '' @ strconv_Quote eventType @ '' has no schema'')])
      else
        (case seen eventType of
           Some earlier \<Rightarrow>
             (case isSameSchema earlier (Schema schema) of
                Inl err \<Rightarrow> Inl (comparing_error eventType err)
              | Inr same \<Rightarrow>
                  if \<not> same then
                    Inl (Errorf [W (Sentinel ErrPermanent),
                      Lit ('': event type '' @ strconv_Quote eventType @ '' has two different schemas'')])
                  else collect_loop collected seen rest)
         | None \<Rightarrow> collect_loop (collected @ [schema]) (seen(eventType \<mapsto> Schema schema)) rest))"

definition collectSchemas :: "EventSchema list list \<Rightarrow> goerr + EventSchema list" where
  "collectSchemas groups = collect_loop [] Map.empty (concat groups)"

fun registered_loop ::
  "goerr option \<Rightarrow> (string \<rightharpoonup> schema_json) \<Rightarrow> (goerr + event_type_info) list \<Rightarrow> goerr + (string \<rightharpoonup> schema_json)" where
  "registered_loop ctxErr registered [] = Inr registered"
| "registered_loop ctxErr registered (Inl err # items) = Inl (readFailure ctxErr err ''reading the registered schemas'')"
| "registered_loop ctxErr registered (Inr info # items) =
     registered_loop ctxErr
       (case InfoSchema info of None \<Rightarrow> registered | Some schema \<Rightarrow> registered(InfoType info \<mapsto> schema)) items"

definition readRegisteredSchemas :: "'w Store \<Rightarrow> 'w \<Rightarrow> (goerr + (string \<rightharpoonup> schema_json)) \<times> 'w" where
  "readRegisteredSchemas s w =
     (let (items, w') = ReadEventTypes (storeClient s) w in
      (registered_loop (ctx_Err (storeClient s) w') Map.empty items, w'))"

definition checkRegisteredSchema :: "EventSchema \<Rightarrow> schema_json \<Rightarrow> goerr option" where
  "checkRegisteredSchema schema registered =
     (case isSameSchema (Schema schema) registered of
        Inl err \<Rightarrow> Some (comparing_error (SchemaEventType schema) err)
      | Inr same \<Rightarrow>
          if \<not> same then
            Some (Errorf [W (Sentinel ErrPermanent),
              Lit ('': the schema of '' @ strconv_Quote (SchemaEventType schema) @ '' differs from the registered one, which cannot change; '' @
                ''introduce a new event type and an upcaster instead'')])
          else None)"

fun register_loop ::
  "'w Store \<Rightarrow> (string \<rightharpoonup> schema_json) \<Rightarrow> EventSchema list \<Rightarrow> 'w \<Rightarrow> goerr option \<times> 'w" where
  "register_loop s registered [] w = (None, w)"
| "register_loop s registered (schema # given) w =
     (let eventType = SchemaEventType schema; doing = ''registering schema for '' @ strconv_Quote eventType in
      case registered eventType of
        Some current \<Rightarrow>
          (case checkRegisteredSchema schema current of
             Some err \<Rightarrow> (Some err, w)
           | None \<Rightarrow> register_loop s registered given w)
      | None \<Rightarrow>
          (case ctx_Err (storeClient s) w of
             Some ended \<Rightarrow> (Some (contextEnded ended doing), w)
           | None \<Rightarrow>
               (case RegisterEventSchema (storeClient s) w eventType (Schema schema) of
                  (None, w1) \<Rightarrow> register_loop s registered given w1
                | (Some refusal, w1) \<Rightarrow>
                    if \<not> isSchemaConflict refusal then (Some (databaseFailure refusal doing), w1)
                    else
                      (case readRegisteredSchemas s w1 of
                         (Inl err, w2) \<Rightarrow> (Some err, w2)
                       | (Inr registered', w2) \<Rightarrow>
                           (case registered' eventType of
                              None \<Rightarrow> (Some (schemaRefusal eventType refusal), w2)
                            | Some current \<Rightarrow>
                                (case checkRegisteredSchema schema current of
                                   Some err \<Rightarrow> (Some err, w2)
                                 | None \<Rightarrow> register_loop s registered' given w2))))))"

definition RegisterSchemas :: "'w Store \<Rightarrow> EventSchema list list \<Rightarrow> 'w \<Rightarrow> goerr option \<times> 'w" where
  "RegisterSchemas s groups w =
     (case collectSchemas groups of
        Inl err \<Rightarrow> (Some err, w)
      | Inr given \<Rightarrow>
          (case readRegisteredSchemas s w of
             (Inl err, w') \<Rightarrow> (Some err, w')
           | (Inr registered, w') \<Rightarrow> register_loop s registered given w'))"

section \<open>Lemmas on the checks before a write\<close>

lemma checkNotNil_loop_None: "checkNotNil_loop subj i events = None \<longleftrightarrow> (\<forall>e \<in> set events. \<not> event_isNil e)"
  by (induction events arbitrary: i) auto

lemma checkNotNil_loop_Some: "checkNotNil_loop subj i events = Some err \<Longrightarrow> errors_Is err ErrPermanent"
  by (induction events arbitrary: i) (auto simp: sentinel_Is_def split: if_splits)

lemma candidateFor_Inl: "candidateFor s subj e = Inl err \<Longrightarrow> errors_Is err ErrPermanent"
  by (auto simp: candidateFor_def sentinel_Is_def split: sum.splits)

lemma prepare_Inl: "prepare s state subj events = Inl err \<Longrightarrow> errors_Is err ErrPermanent"
  by (auto simp: prepare_def checkNotNil_def split: option.splits
      dest: checkNotNil_loop_Some checkRules_Some collect_Inl_mem candidateFor_Inl)

lemma not_nil_Some: "\<not> event_isNil e \<Longrightarrow> \<exists>a. e = Some a"
  by (cases e) (auto simp: event_isNil_def isNil_def)

text \<open>What is written is what was decided, event by event, and the state has a rule for each.\<close>

lemma prepare_Inr:
  "prepare s state subj events = Inr candidates \<Longrightarrow>
     list_all2 (\<lambda>e c. \<exists>a. e = Some a \<and> \<not> event_isNil e \<and> HasRule state (EventType a) \<and> CandidateSource c = source s
       \<and> CandidateSubject c = subj \<and> CandidateType c = EventType a \<and> Marshal a = Inr (CandidateData c)) events candidates"
proof -
  assume p: "prepare s state subj events = Inr candidates"
  then have nn: "\<forall>e \<in> set events. \<not> event_isNil e" and rules: "\<forall>e \<in> set (map the events). HasRule state (EventType e)"
    and c: "collect (candidateFor s subj) (map the events) = Inr candidates"
    by (auto simp: prepare_def checkNotNil_def checkNotNil_loop_None checkRules_None split: option.splits)
  have "list_all2 (\<lambda>e c. candidateFor s subj (the e) = Inr c) events candidates"
    using c by (simp add: collect_eq_Inr list_all2_map1)
  then show ?thesis
  proof (rule list.rel_mono_strong)
    fix e c
    assume e: "e \<in> set events" and c: "candidateFor s subj (the e) = Inr c"
    obtain a where "e = Some a" using nn e not_nil_Some by blast
    then show "\<exists>a. e = Some a \<and> \<not> event_isNil e \<and> HasRule state (EventType a) \<and> CandidateSource c = source s
        \<and> CandidateSubject c = subj \<and> CandidateType c = EventType a \<and> Marshal a = Inr (CandidateData c)"
      using nn rules e c by (force simp: candidateFor_def split: sum.splits)
  qed
qed

end
