(* ===== verification/Store_Safety.thy ===== *)
theory Store_Safety
  imports Store "HOL-Library.Sublist"
begin

text \<open>
  What the store guarantees on a database that behaves as documented: a read state is the fold
  of all events of its subject, with the state cache as without it, and the events of a command
  with \<open>OnStateRead\<close> are decided on the state right before them.

  The behaviour of the database is stated as \<open>database_laws\<close>, over the log of the database in a
  world: a list of events with ascending IDs, to which every step only appends, in whatever
  order other processes write.
\<close>

section \<open>The log of the database\<close>

definition subject_events :: "string \<Rightarrow> event list \<Rightarrow> event list" where
  "subject_events subj es = filter (\<lambda>e. Subject e = subj) es"

definition rank :: "event \<Rightarrow> int" where
  "rank e = rev_rank (ID e)"

definition log_ok :: "event list \<Rightarrow> bool" where
  "log_ok es \<longleftrightarrow> sorted_wrt (\<lambda>a b. rank a < rank b) es \<and> (\<forall>e \<in> set es. is_revision (ID e))"

text \<open>
  What a read without recursion yields of a log, oldest first and without an upper bound: the events of the
  subject above the lower bound, or those from the latest event of a type on. That one is looked for on the
  subject that the option names, which may be another one than the subject that is read; if it is missing, the
  option says whether everything or nothing is read (\<open>FromLatestEvent\<close> of \<open>read_options.go\<close>).
\<close>

definition latest_candidates :: "read_from_latest \<Rightarrow> event list \<Rightarrow> event list" where
  "latest_candidates l es = filter (\<lambda>e. Type e = LatestType l) (subject_events (LatestSubject l) es)"

definition selected :: "read_events_options \<Rightarrow> string \<Rightarrow> event list \<Rightarrow> event list" where
  "selected options subj es =
     (case LatestEvent options of
        None \<Rightarrow> filter (\<lambda>e. above (LowerBound options) (rank e)) (subject_events subj es)
      | Some l \<Rightarrow>
          if latest_candidates l es \<noteq> [] then
            filter (\<lambda>e. rank (last (latest_candidates l es)) \<le> rank e) (subject_events subj es)
          else
            (case IfEventIsMissing l of
               ReadIfEventIsMissingReadEverything \<Rightarrow> subject_events subj es
             | ReadIfEventIsMissingReadNothing \<Rightarrow> []))"

text \<open>
  When a precondition holds for a log. \<open>query\<close> evaluates an EventQL query. A check that is recursive
  looks at the events of the subject together with those of all subjects below it.
\<close>

definition checked_events :: "precondition_options \<Rightarrow> string \<Rightarrow> event list \<Rightarrow> event list" where
  "checked_events options subj es =
     (if options = Some True then
        filter (\<lambda>e. Subject e = subj \<or> strings_HasPrefix (Subject e) (if subj = ''/'' then subj else subj @ ''/'')) es
      else subject_events subj es)"

lemma checked_events_alone [simp]: "checked_events None subj es = subject_events subj es"
  by (simp add: checked_events_def)

fun pre_holds :: "(string \<Rightarrow> event list \<Rightarrow> bool) \<Rightarrow> event list \<Rightarrow> db_precondition \<Rightarrow> bool" where
  "pre_holds query es (IsSubjectPristine subj options) = (checked_events options subj es = [])"
| "pre_holds query es (IsSubjectPopulated subj options) = (checked_events options subj es \<noteq> [])"
| "pre_holds query es (IsSubjectOnEventID subj eventID options) =
     (checked_events options subj es \<noteq> [] \<and> ID (last (checked_events options subj es)) = eventID)"
| "pre_holds query es (IsEventQLQueryTrue q) = query q es"

definition recorded_as :: "EventCandidate \<Rightarrow> event \<Rightarrow> bool" where
  "recorded_as c e \<longleftrightarrow> Source e = CandidateSource c \<and> Subject e = CandidateSubject c \<and> Type e = CandidateType c
     \<and> Data e = CandidateData c"

text \<open>
  The documented behaviour of the database, as seen through the client: IDs ascend; a step only
  appends; a read that does not fail yields the selected events of the subject in the log at some
  moment during the read, if it asks for the events of one subject, oldest first and without an upper
  bound, and not for two lower bounds at once; a write that succeeds appends its events at once, at a moment at which
  all preconditions hold.
\<close>

definition database_laws :: "'w client \<Rightarrow> ('w \<Rightarrow> event list) \<Rightarrow> (string \<Rightarrow> event list \<Rightarrow> bool) \<Rightarrow> bool" where
  "database_laws c hist query \<longleftrightarrow>
     (\<forall>w. log_ok (hist w))
     \<and> (\<forall>w subj options items w'. ReadEvents c w subj options = (items, w') \<longrightarrow>
          prefix (hist w) (hist w')
          \<and> (\<forall>es. items = map Inr es \<longrightarrow> \<not> Recursive options \<and> Order options = OrderChronological \<and> UpperBound options = None
               \<and> (LowerBound options = None \<or> LatestEvent options = None) \<longrightarrow>
               (\<exists>snapshot. prefix (hist w) snapshot \<and> prefix snapshot (hist w') \<and> es = selected options subj snapshot)))
     \<and> (\<forall>w candidates pres r w'. WriteEvents c w candidates pres = (r, w') \<longrightarrow>
          prefix (hist w) (hist w')
          \<and> (\<forall>written. r = Inr written \<longrightarrow>
               (\<exists>before after. prefix (hist w) before \<and> hist w' = before @ written @ after
                  \<and> list_all2 recorded_as candidates written
                  \<and> (\<forall>p. Some p \<in> set pres \<longrightarrow> pre_holds query before p))))"

lemma laws_log_ok: "database_laws c hist query \<Longrightarrow> log_ok (hist w)"
  by (simp add: database_laws_def)

lemma laws_read_grows: "database_laws c hist query \<Longrightarrow> ReadEvents c w subj options = (items, w') \<Longrightarrow> prefix (hist w) (hist w')"
  unfolding database_laws_def by blast

lemma laws_read:
  "database_laws c hist query \<Longrightarrow> ReadEvents c w subj options = (map Inr es, w') \<Longrightarrow> \<not> Recursive options \<Longrightarrow>
     Order options = OrderChronological \<Longrightarrow> UpperBound options = None \<Longrightarrow> LowerBound options = None \<or> LatestEvent options = None \<Longrightarrow>
     \<exists>snapshot. prefix (hist w) snapshot \<and> prefix snapshot (hist w') \<and> es = selected options subj snapshot"
  unfolding database_laws_def by blast

lemma laws_write_grows: "database_laws c hist query \<Longrightarrow> WriteEvents c w candidates pres = (r, w') \<Longrightarrow> prefix (hist w) (hist w')"
  unfolding database_laws_def by blast

lemma laws_write:
  "database_laws c hist query \<Longrightarrow> WriteEvents c w candidates pres = (Inr written, w') \<Longrightarrow>
     \<exists>before after. prefix (hist w) before \<and> hist w' = before @ written @ after
       \<and> list_all2 recorded_as candidates written \<and> (\<forall>p. Some p \<in> set pres \<longrightarrow> pre_holds query before p)"
  unfolding database_laws_def by blast

lemma log_ok_ID: "log_ok es \<Longrightarrow> e \<in> set es \<Longrightarrow> is_revision (ID e)"
  by (simp add: log_ok_def)

lemma is_revision_not_Nil: "is_revision r \<Longrightarrow> r \<noteq> []"
  by (auto simp: is_revision_def ParseRevision_def strconv_ParseUint_def)

lemma log_ok_prefix: "log_ok es \<Longrightarrow> prefix es' es \<Longrightarrow> log_ok es'"
  by (auto simp: log_ok_def prefix_def sorted_wrt_append)

lemma subject_events_append [simp]: "subject_events subj (a @ b) = subject_events subj a @ subject_events subj b"
  by (simp add: subject_events_def)

lemma log_ok_subject: "log_ok es \<Longrightarrow> log_ok (subject_events subj es)"
  by (auto simp: log_ok_def subject_events_def sorted_wrt_filter)

lemma log_ok_last:
  "log_ok es \<Longrightarrow> e \<in> set es \<Longrightarrow> rank e \<le> rank (last es)"
proof (induction es rule: rev_induct)
  case (snoc x xs)
  then show ?case by (auto simp: log_ok_def sorted_wrt_append)
qed simp

text \<open>Two logs of a subject of which one continues the other and ends with the same ID are equal.\<close>

lemma log_same_last:
  assumes "log_ok (es @ new)" and "es \<noteq> []" and "ID (last (es @ new)) = ID (last es)"
  shows "new = []"
proof (rule ccontr)
  assume "new \<noteq> []"
  then have "rank (last es) < rank (last new)" using assms(1,2) by (auto simp: log_ok_def sorted_wrt_append)
  with \<open>new \<noteq> []\<close> assms(3) show False by (simp add: rank_def)
qed

section \<open>The state a log stands for\<close>

definition last_id :: "event list \<Rightarrow> string" where
  "last_id es = (if es = [] then [] else ID (last es))"

text \<open>The rule of the event type of \<open>FromLatest\<close> does not depend on the state, and no upcaster changes the event.\<close>

definition latest_ok :: "'s State \<Rightarrow> bool" where
  "latest_ok state \<longleftrightarrow> fromLatest state = [] \<or>
     (\<forall>e a b y. Type e = fromLatest state \<longrightarrow> evolveByStored state a e = (y, None) \<longrightarrow> evolveByStored state b e = (y, None))"

lemma evolve_all_success: "evolve_all loc s c es = (x, None) \<longleftrightarrow> evolve_all [] s c es = (x, None)"
  by (induction es arbitrary: c) (auto split: option.splits prod.splits)

lemma fold_loop_success:
  "fold_loop s ctxErr subj state current lastEventID items = (cur, lid, None) \<Longrightarrow>
     \<exists>es. items = map Inr es \<and> advance_all (evolveByStored state) current es = (cur, None)
          \<and> lid = (if es = [] then lastEventID else ID (last es))"
proof (induction s ctxErr subj state current lastEventID items rule: fold_loop.induct)
  case (1 s ctxErr subj state current lastEventID)
  then show ?case by simp
next
  case (2 s ctxErr subj state current lastEventID err items)
  then show ?case by simp
next
  case (3 s ctxErr subj state current lastEventID event items)
  from 3(2) obtain upcasted c' where v: "verify s event = None" and u: "upcast_apply (upcasters state) event = Inr upcasted"
    and e: "evolve_all ('' on subject '' @ strconv_Quote subj) state current upcasted = (c', None)"
    and rest: "fold_loop s ctxErr subj state c' (ID event) items = (cur, lid, None)"
    by (auto split: option.splits sum.splits prod.splits)
  from 3(1) [OF v u e [symmetric] refl rest] obtain es where es: "items = map Inr es"
    "advance_all (evolveByStored state) c' es = (cur, None)" "lid = (if es = [] then ID event else ID (last es))" by blast
  have "evolveByStored state current event = (c', None)" using u evolve_all_success [THEN iffD1, OF e] by (simp add: evolveByStored_def)
  with es show ?case by (intro exI [of _ "event # es"]) simp
qed

lemma since_latest_split:
  "t \<noteq> [] \<Longrightarrow> typeOf x = t \<Longrightarrow> \<forall>e \<in> set post. typeOf e \<noteq> t \<Longrightarrow> since_latest t typeOf (pre @ x # post) = x # post"
  using from_latest_loop_split [of "\<lambda>e. typeOf e = t" x post pre "length (pre @ x # post)"]
  by (simp add: since_latest_def)

lemma since_latest_none: "t = [] \<or> (\<forall>e \<in> set h. typeOf e \<noteq> t) \<Longrightarrow> since_latest t typeOf h = h"
  using from_latest_loop_none [of "length h" h "\<lambda>e. typeOf e = t"] by (auto simp: since_latest_def)

lemma since_latest_append:
  "since_latest t typeOf (a @ b) =
     (if t \<noteq> [] \<and> (\<exists>e \<in> set b. typeOf e = t) then since_latest t typeOf b else since_latest t typeOf a @ b)"
proof (cases rule: since_latest_cases [of t typeOf b])
  case 1
  show ?thesis
  proof (cases rule: since_latest_cases [of t typeOf a])
    case a: 1
    then show ?thesis using 1 since_latest_none [of t "a @ b" typeOf] by auto
  next
    case (2 pre x post)
    then show ?thesis using 1 since_latest_split [of t typeOf x "post @ b" pre] by auto
  qed
next
  case (2 pre x post)
  then show ?thesis using since_latest_split [of t typeOf x post "a @ pre"] by auto
qed

text \<open>Continuing a replayed state with more events is replaying all of them.\<close>

lemma ReplayStored_continue:
  assumes "latest_ok state" and "ReplayStored state es = (st, None)"
    and "advance_all (evolveByStored state) st new = (cur, None)"
  shows "ReplayStored state (es @ new) = (cur, None)"
proof -
  obtain i where i: "copyOfInitial state = (i, None)"
    and old: "advance_all (evolveByStored state) i (since_latest (fromLatest state) Type es) = (st, None)"
    using assms(2) by (auto simp: ReplayStored_def split: prod.splits option.splits)
  show ?thesis
  proof (cases "fromLatest state \<noteq> [] \<and> (\<exists>e \<in> set new. Type e = fromLatest state)")
    case True
    have "advance_all (evolveByStored state) i (since_latest (fromLatest state) Type new) = (cur, None)"
    proof (cases rule: since_latest_cases [of "fromLatest state" Type new])
      case (2 pre x post)
      have indep: "evolveByStored state c x = (y, None)" if "evolveByStored state b x = (y, None)" for b c y
        using assms(1) 2(1,3) that unfolding latest_ok_def by blast
      have "advance_all (evolveByStored state) st (pre @ x # post) = (cur, None)" using assms(3) 2(2) by simp
      from advance_all_forget [OF this indep] show ?thesis using 2(5) by simp
    qed (use True in blast)
    then show ?thesis using True i by (simp add: ReplayStored_def since_latest_append)
  next
    case False
    then have "since_latest (fromLatest state) Type (es @ new) = since_latest (fromLatest state) Type es @ new"
      unfolding since_latest_append by (rule if_not_P)
    then show ?thesis using i old assms(3) by (simp add: ReplayStored_def advance_all_append)
  qed
qed

section \<open>The cache holds states of the log\<close>

text \<open>An entry is good for a state and a log if it is the state at the event it names.\<close>

definition upto :: "string \<Rightarrow> event list \<Rightarrow> event list" where
  "upto eventID es = filter (\<lambda>e. rank e \<le> rev_rank eventID) es"

definition good_entry :: "'s State \<Rightarrow> event list \<Rightarrow> 's stateCacheEntry \<Rightarrow> bool" where
  "good_entry state es e \<longleftrightarrow> keyType (entryKey e) = stateTypeName state \<longrightarrow>
     (let known = upto (entryLastEventID e) (subject_events (keySubject (entryKey e)) es) in
      known \<noteq> [] \<and> ID (last known) = entryLastEventID e \<and> ReplayStored state known = (entryState e, None))"

definition cache_good :: "'s State \<Rightarrow> event list \<Rightarrow> 's stateCache option \<Rightarrow> bool" where
  "cache_good state es c \<longleftrightarrow> (\<forall>cache. c = Some cache \<longrightarrow> sc.all_entries (good_entry state es) cache)"

lemma prefix_subject: "prefix es es' \<Longrightarrow> prefix (subject_events subj es) (subject_events subj es')"
  by (auto simp: prefix_def)

text \<open>What was known up to an event stays the same as the log grows.\<close>

lemma upto_prefix:
  assumes "prefix es es'" and "log_ok es'" and "upto eventID es \<noteq> []" and "ID (last (upto eventID es)) = eventID"
  shows "upto eventID es' = upto eventID es"
proof -
  obtain new where es': "es' = es @ new" using assms(1) by (auto simp: prefix_def)
  have mem: "last (upto eventID es) \<in> set es" using assms(3) last_in_set [of "upto eventID es"] by (auto simp: upto_def)
  have "\<not> rank x \<le> rev_rank eventID" if "x \<in> set new" for x
  proof -
    have "rank (last (upto eventID es)) < rank x"
      using assms(2) mem that unfolding es' log_ok_def by (auto simp: sorted_wrt_append)
    then show ?thesis using assms(4) by (simp add: rank_def)
  qed
  then have "upto eventID new = []" by (auto simp: upto_def filter_empty_conv)
  then show ?thesis by (simp add: es' upto_def)
qed

lemma good_entry_prefix:
  assumes "good_entry state es e" and "prefix es es'" and "log_ok es'"
  shows "good_entry state es' e"
  using assms(1) upto_prefix [OF prefix_subject [OF assms(2)] log_ok_subject [OF assms(3)], of "entryLastEventID e" "keySubject (entryKey e)"]
  by (auto simp: good_entry_def Let_def)

lemma cache_good_prefix: "cache_good state es c \<Longrightarrow> prefix es es' \<Longrightarrow> log_ok es' \<Longrightarrow> cache_good state es' c"
  using good_entry_prefix unfolding cache_good_def sc.all_entries_def by blast

section \<open>What a fold returns\<close>

lemma since_latest_filter:
  assumes "log_ok es" and "t \<noteq> []" and "filter (\<lambda>e. Type e = t) es \<noteq> []"
  shows "filter (\<lambda>e. rank (last (filter (\<lambda>e. Type e = t) es)) \<le> rank e) es = since_latest t Type es"
proof (cases rule: since_latest_cases [of t Type es])
  case 1
  then show ?thesis using assms(2,3) by (auto simp: filter_empty_conv)
next
  case (2 pre x post)
  have "\<not> rank x \<le> rank e" if "e \<in> set pre" for e using that assms(1) 2(2) by (simp add: log_ok_def sorted_wrt_append not_le)
  moreover have "rank x \<le> rank e" if "e \<in> set post" for e using that assms(1) 2(2) by (auto simp: log_ok_def sorted_wrt_append)
  moreover have "last (filter (\<lambda>e. Type e = t) es) = x" using 2 by (simp add: filter_empty_conv [THEN iffD2])
  ultimately show ?thesis using 2 by (auto simp: filter_empty_conv filter_id_conv)
qed

lemma selected_options:
  assumes "log_ok es"
  shows "selected (read_options state subj lid) subj es =
     (if lid = [] then since_latest (fromLatest state) Type (subject_events subj es)
      else filter (\<lambda>e. rev_rank lid < rank e) (subject_events subj es))"
proof (cases "lid = [] \<and> fromLatest state \<noteq> []")
  case True
  let ?l = "\<lparr>LatestSubject = subj, LatestType = fromLatest state, IfEventIsMissing = ReadIfEventIsMissingReadEverything\<rparr>"
  have options: "LatestEvent (read_options state subj lid) = Some ?l" using True by (simp add: read_options_def boundAfter_def)
  show ?thesis
  proof (cases "latest_candidates ?l es = []")
    case missing: True
    then have "since_latest (fromLatest state) Type (subject_events subj es) = subject_events subj es"
      by (intro since_latest_none) (auto simp: latest_candidates_def filter_empty_conv)
    then show ?thesis using options missing True by (simp add: selected_def)
  next
    case False
    then show ?thesis
      using options True since_latest_filter [OF log_ok_subject [OF assms], of "fromLatest state" subj]
      by (simp add: selected_def latest_candidates_def)
  qed
next
  case False
  then show ?thesis by (auto simp: selected_def read_options_def boundAfter_def above_def since_latest_def)
qed

lemma read_options_plain [simp]:
  "Recursive (read_options state subj lid) = False" "Order (read_options state subj lid) = OrderChronological"
  "UpperBound (read_options state subj lid) = None"
  "LowerBound (read_options state subj lid) = None \<or> LatestEvent (read_options state subj lid) = None"
  by (simp_all add: read_options_def Let_def)

text \<open>What has been read up to an ID, and what comes after it.\<close>

lemma upto_split: "log_ok es \<Longrightarrow> es = upto eventID es @ filter (\<lambda>e. rev_rank eventID < rank e) es"
proof (induction es)
  case (Cons e es)
  then have ok: "log_ok es" "\<forall>x \<in> set es. rank e < rank x" by (auto simp: log_ok_def)
  show ?case
  proof (cases "rank e \<le> rev_rank eventID")
    case True
    then show ?thesis using Cons.IH [OF ok(1)] by (simp add: upto_def)
  next
    case False
    then have "\<forall>x \<in> set es. rev_rank eventID < rank x" using ok(2) by fastforce
    then have "filter (\<lambda>e. rev_rank eventID < rank e) es = es" "upto eventID es = []"
      by (auto simp: upto_def filter_empty_conv filter_id_conv)
    then show ?thesis using False by (simp add: upto_def)
  qed
qed (simp add: upto_def)

lemma upto_last: "log_ok es \<Longrightarrow> es \<noteq> [] \<Longrightarrow> upto (ID (last es)) es = es"
  using log_ok_last by (auto simp: upto_def filter_id_conv rank_def [symmetric])

definition same_copy :: "'s State \<Rightarrow> bool" where
  "same_copy state \<longleftrightarrow> (\<forall>x. copyOf state x = x)"

definition system_ok :: "'w Store \<Rightarrow> ('w \<Rightarrow> event list) \<Rightarrow> (string \<Rightarrow> event list \<Rightarrow> bool) \<Rightarrow> 's State \<Rightarrow> ('w, 's) sys \<Rightarrow> bool" where
  "system_ok s hist query state y \<longleftrightarrow>
     database_laws (storeClient s) hist query \<and> latest_ok state \<and> same_copy state
     \<and> cache_good state (hist (world y)) (states y)"

lemma fold_start_good:
  assumes "system_ok s hist query state y" and "fold_start s subj state i y = (Inr (cur, lid), y1)"
  shows "world y1 = world y \<and> cache_good state (hist (world y)) (states y1)
    \<and> (lid = [] \<and> cur = i \<or>
        (let known = upto lid (subject_events subj (hist (world y))) in
         lid \<noteq> [] \<and> known \<noteq> [] \<and> ID (last known) = lid \<and> ReplayStored state known = (cur, None)))"
proof (cases "states y")
  case None
  then show ?thesis using assms by (auto simp: fold_start_def system_ok_def cache_good_def)
next
  case (Some cache)
  show ?thesis
  proof (cases "isCopyable state")
    case False
    then show ?thesis using assms Some by (auto simp: fold_start_def system_ok_def)
  next
    case True
    obtain r cache' where g: "cache_get (cacheKey state subj) cache = (r, cache')" by fastforce
    have "sc.all_entries (good_entry state (hist (world y))) cache"
      using assms(1) Some by (simp add: system_ok_def cache_good_def)
    from sc.all_entries_get [OF this g] have good: "sc.all_entries (good_entry state (hist (world y))) cache'"
      "\<And>e. r = Some e \<Longrightarrow> good_entry state (hist (world y)) e \<and> entryKey e = cacheKey state subj" by blast+
    have y1: "y1 = y\<lparr>states := Some cache'\<rparr>"
      using assms(2) Some True g by (auto simp: fold_start_def split: option.splits if_splits)
    show ?thesis
    proof (cases r)
      case None
      then show ?thesis using assms(2) Some True g good(1) y1 by (simp add: fold_start_def cache_good_def)
    next
      case e: (Some e)
      have "(copyOf state (entryState e), entryLastEventID e) = (cur, lid)"
        using assms(2) Some True g e
        by (cases "equals (memory (storeClient s) (world y)) (entryShape e) (shapeOf state)") (simp_all add: fold_start_def)
      then have "cur = entryState e" "lid = entryLastEventID e"
        using assms(1) by (simp_all add: system_ok_def same_copy_def)
      moreover have "good_entry state (hist (world y)) e" "entryKey e = cacheKey state subj" using good(2) e by blast+
      ultimately have known: "let known = upto lid (subject_events subj (hist (world y))) in
          known \<noteq> [] \<and> ID (last known) = lid \<and> ReplayStored state known = (cur, None)"
        by (simp add: good_entry_def cacheKey_def)
      have "lid \<noteq> []"
      proof -
        let ?k = "upto lid (subject_events subj (hist (world y)))"
        have "last ?k \<in> set (hist (world y))" using known last_in_set [of ?k] by (auto simp: Let_def upto_def subject_events_def)
        moreover have "log_ok (hist (world y))" using assms(1) laws_log_ok [of "storeClient s" hist query] by (simp add: system_ok_def)
        ultimately have "ID (last ?k) \<noteq> []" using log_ok_ID is_revision_not_Nil by blast
        then show ?thesis using known by (simp add: Let_def)
      qed
      then show ?thesis using known good(1) y1 by (simp add: cache_good_def Let_def)
    qed
  qed
qed

lemma fold_start_keeps:
  assumes "cache_good state es (states y)" and "fold_start s subj state i y = (r, y1)"
  shows "world y1 = world y \<and> cache_good state es (states y1)"
proof (cases "states y")
  case (Some cache)
  obtain e cache' where g: "cache_get (cacheKey state subj) cache = (e, cache')" by fastforce
  have "sc.all_entries (good_entry state es) cache'"
    using assms(1) Some sc.all_entries_get [OF _ g] by (simp add: cache_good_def)
  then show ?thesis
    using assms Some g by (auto simp: fold_start_def cache_good_def split: if_splits option.splits)
qed (use assms in \<open>auto simp: fold_start_def\<close>)

lemma store_fold_failed:
  assumes ok: "system_ok s hist query state y" and fold: "store_fold s subj state y = ((cur, lid, Some err), y')"
  shows "system_ok s hist query state y' \<and> prefix (hist (world y)) (hist (world y'))"
proof -
  obtain i e where i: "copyOfInitial state = (i, e)" by fastforce
  obtain r y1 where start: "fold_start s subj state i y = (r, y1)" by fastforce
  have good: "world y1 = world y" "cache_good state (hist (world y)) (states y1)"
    using fold_start_keeps [OF _ start, of "hist (world y)"] ok by (simp_all add: system_ok_def)
  consider "e \<noteq> None" "y' = y" | err' where "e = None" "r = Inl err'" "y' = y1"
    | c1 l1 where "e = None" "r = Inr (c1, l1)"
    using fold i start by (cases e; cases r) (auto simp: store_fold_def)
  then show ?thesis
  proof cases
    case 3
    obtain items w2 where rd: "ReadEvents (storeClient s) (world y1) subj (read_options state subj l1) = (items, w2)" by fastforce
    have laws: "database_laws (storeClient s) hist query" using ok by (simp add: system_ok_def)
    have p: "prefix (hist (world y)) (hist w2)" using laws_read_grows [OF laws rd] good(1) by simp
    have "y' = y1\<lparr>world := w2\<rparr>"
      using fold i start 3 rd by (auto simp: store_fold_def Let_def split: prod.splits option.splits)
    then show ?thesis
      using ok p cache_good_prefix [OF good(2) p] laws_log_ok [OF laws] by (simp add: system_ok_def)
  qed (use ok good in \<open>auto simp: system_ok_def\<close>)
qed

lemma fold_end_good:
  assumes "cache_good state es (states y)" and "same_copy state" and "log_ok es"
    and "ReplayStored state known = (cur, None)" and "known \<noteq> [] \<Longrightarrow> known = upto lid (subject_events subj es)"
    and "lid = last_id known"
  shows "cache_good state es (states (fold_end s subj state cur lid y)) \<and> world (fold_end s subj state cur lid y) = world y"
proof (cases "states y")
  case (Some cache)
  show ?thesis
  proof (cases "isCopyable state \<and> lid \<noteq> []")
    case True
    have "known \<noteq> []" using True assms(6) by (auto simp: last_id_def)
    then have "sc.all_entries (good_entry state es)
        (cache_put (memory (storeClient s) (world y)) (cacheKey state subj) (shapeOf state) (copyOf state cur) lid cache)"
      using assms Some
      by (intro sc.all_entries_put) (auto simp: cache_good_def good_entry_def cacheKey_def same_copy_def last_id_def Let_def)
    then show ?thesis using Some True by (simp add: fold_end_def cache_good_def)
  qed (use Some assms(1) in \<open>auto simp: fold_end_def\<close>)
qed (use assms(1) in \<open>simp add: fold_end_def\<close>)

text \<open>
  A fold that succeeds returns the state of all events of the subject at some moment during
  the read, and the ID of the last of them, whether or not it starts from the cache; and it
  leaves the cache good.
\<close>

lemma store_fold_state:
  assumes ok: "system_ok s hist query state y" and fold: "store_fold s subj state y = ((cur, lid, None), y')"
  shows "\<exists>snapshot. prefix (hist (world y)) snapshot \<and> prefix snapshot (hist (world y'))
    \<and> ReplayStored state (subject_events subj snapshot) = (cur, None)
    \<and> lid = last_id (subject_events subj snapshot)
    \<and> system_ok s hist query state y'"
proof -
  have laws: "database_laws (storeClient s) hist query" and lat: "latest_ok state" and copy: "same_copy state"
    using ok by (simp_all add: system_ok_def)
  from fold obtain i where i: "copyOfInitial state = (i, None)"
    by (auto simp: store_fold_def split: prod.splits option.splits)
  from fold i obtain c1 l1 y1 where start: "fold_start s subj state i y = (Inr (c1, l1), y1)"
    by (auto simp: store_fold_def split: prod.splits sum.splits)
  obtain items w2 where rd: "ReadEvents (storeClient s) (world y1) subj (read_options state subj l1) = (items, w2)" by fastforce
  let ?y2 = "y1\<lparr>world := w2\<rparr>"
  from fold i start rd have loop: "fold_loop s (ctx_Err (storeClient s) w2) subj state c1 l1 items = (cur, lid, None)"
    and y': "y' = fold_end s subj state cur lid ?y2"
    by (auto simp: store_fold_def Let_def split: prod.splits option.splits)
  from fold_loop_success [OF loop] obtain es where es: "items = map Inr es"
    "advance_all (evolveByStored state) c1 es = (cur, None)" "lid = (if es = [] then l1 else ID (last es))" by blast
  note st = fold_start_good [OF ok start]
  then have w1: "world y1 = world y" by blast
  from laws_read [OF laws, of "world y1" subj "read_options state subj l1" es w2] rd es(1) w1
  obtain snapshot where snap: "prefix (hist (world y)) snapshot" "prefix snapshot (hist w2)"
    "es = selected (read_options state subj l1) subj snapshot" by auto
  have logs: "log_ok (hist w2)" "log_ok snapshot" "log_ok (subject_events subj snapshot)"
    using laws_log_ok [OF laws] log_ok_prefix [OF _ snap(2)] log_ok_subject by blast+
  let ?ev = "subject_events subj snapshot"
  have main: "ReplayStored state ?ev = (cur, None) \<and> lid = last_id ?ev"
  proof (cases "l1 = []")
    case True
    then have "c1 = i" using st by (auto simp: Let_def)
    then have "ReplayStored state ?ev = (cur, None)"
      using es(2) snap(3) True i by (simp add: selected_options [OF logs(2)] ReplayStored_def)
    moreover have "since_latest (fromLatest state) Type ?ev = [] \<longleftrightarrow> ?ev = []"
      "since_latest (fromLatest state) Type ?ev \<noteq> [] \<Longrightarrow> last (since_latest (fromLatest state) Type ?ev) = last ?ev"
      by (cases rule: since_latest_cases [of "fromLatest state" Type ?ev]; simp)+
    ultimately show ?thesis using es(3) snap(3) True by (auto simp: selected_options [OF logs(2)] last_id_def)
  next
    case False
    let ?k = "upto l1 (subject_events subj (hist (world y)))"
    have k: "?k \<noteq> []" "ID (last ?k) = l1" "ReplayStored state ?k = (c1, None)" using st False by (auto simp: Let_def)
    have "upto l1 ?ev = ?k" using upto_prefix [OF prefix_subject [OF snap(1)] logs(3)] k by blast
    moreover have "es = filter (\<lambda>e. rev_rank l1 < rank e) ?ev" using snap(3) False by (simp add: selected_options [OF logs(2)])
    ultimately have ev: "?ev = ?k @ es" using upto_split [OF logs(3), of l1] by simp
    then have "ReplayStored state ?ev = (cur, None)" using ReplayStored_continue [OF lat k(3) es(2)] by simp
    then show ?thesis using ev k es(3) by (simp add: last_id_def)
  qed
  have good: "cache_good state (hist w2) (states ?y2)"
    using st cache_good_prefix [of state "hist (world y)" "states y1" "hist w2"] prefix_order.trans [OF snap(1,2)] logs(1) by simp
  have "?ev = upto lid (subject_events subj (hist w2))" if "?ev \<noteq> []"
  proof -
    have "lid = ID (last ?ev)" using main that by (simp add: last_id_def)
    then have "upto lid ?ev = ?ev" using upto_last [OF logs(3) that] by simp
    with upto_prefix [OF prefix_subject [OF snap(2)] log_ok_subject [OF logs(1)], of lid subj] that \<open>lid = ID (last ?ev)\<close>
    show ?thesis by simp
  qed
  then have "cache_good state (hist w2) (states y') \<and> world y' = w2"
    using fold_end_good [OF good copy logs(1), of ?ev cur lid subj s] main y' by simp
  then have "system_ok s hist query state y'" "world y' = w2" using laws lat copy by (simp_all add: system_ok_def)
  then show ?thesis using snap main by blast
qed

section \<open>What an attempt to execute a command writes\<close>

text \<open>The decider may take its time, during which others write, but it does not take anything out of the log.\<close>

definition decider_grows :: "('w, 'c, 's) Decider \<Rightarrow> ('w \<Rightarrow> event list) \<Rightarrow> bool" where
  "decider_grows d hist \<longleftrightarrow>
     (\<forall>w cmd st r w'. Decide d w cmd st = Ret (r, w') \<longrightarrow> prefix (hist w) (hist w'))"

text \<open>
  The events of a command stand in the log right after the log on whose state they were
  decided, with nothing written to the subject in between.
\<close>

definition decided_on_log ::
  "'w Store \<Rightarrow> ('w, 'p command, 's) Decider \<Rightarrow> 's State \<Rightarrow> 'p command \<Rightarrow> event list \<Rightarrow> event list \<Rightarrow> bool" where
  "decided_on_log s decider state cmd before written \<longleftrightarrow>
     (\<exists>w st w' events. ReplayStored state (subject_events (CommandSubject cmd) before) = (st, None)
        \<and> Decide decider w cmd st = Ret (Inr events, w')
        \<and> list_all2 (\<lambda>e r. \<exists>a. e = Some a \<and> HasRule state (EventType a) \<and> Type r = EventType a \<and> Marshal a = Inr (Data r)
             \<and> Subject r = CommandSubject cmd \<and> Source r = source s) events written)"

lemma executeOnce_cases:
  assumes "executeOnce s decider state cmd declared y = Ret (r, y')"
  obtains (fold_failed) cur err where "store_fold s (CommandSubject cmd) state y = ((cur, [], Some err), y')" "r = Inl err"
  | (decided) cur lid y1 decision w2 where "store_fold s (CommandSubject cmd) state y = ((cur, lid, None), y1)"
      "Decide decider (world y1) cmd cur = Ret (decision, w2)" "y' = y1\<lparr>world := w2\<rparr>"
      "r = Inr [] \<or> (\<exists>err. r = Inl err)"
  | (wrote) cur lid y1 events w2 candidates w3 where "store_fold s (CommandSubject cmd) state y = ((cur, lid, None), y1)"
      "Decide decider (world y1) cmd cur = Ret (Inr events, w2)" "prepare s state (CommandSubject cmd) events = Inr candidates"
      "store_write s candidates (resolvePreconditions (CommandSubject cmd) declared lid)
         (''writing '' @ strconv_Quote (CommandSubject cmd)) w2 = (r, w3)" "y' = y1\<lparr>world := w3\<rparr>"
proof -
  obtain cur lid e y1 where f: "store_fold s (CommandSubject cmd) state y = ((cur, lid, e), y1)" by (metis prod.exhaust)
  show ?thesis
  proof (cases e)
    case (Some err)
    have "lid = []" using f Some by (auto simp: store_fold_def Let_def split: prod.splits option.splits sum.splits)
    then show ?thesis using fold_failed f Some assms by (simp add: executeOnce_def Let_def)
  next
    case None
    obtain decision w2 where d: "Decide decider (world y1) cmd cur = Ret (decision, w2)"
      using assms f None by (cases "Decide decider (world y1) cmd cur") (auto simp: executeOnce_def Let_def)
    show ?thesis
    proof (cases decision)
      case (Inl err)
      then show ?thesis using decided [of cur lid y1] f None d assms by (auto simp: executeOnce_def Let_def)
    next
      case (Inr events)
      show ?thesis
      proof (cases "prepare s state (CommandSubject cmd) events")
        case (Inl err)
        then show ?thesis using decided [of cur lid y1] f None d assms Inr
          by (auto simp: executeOnce_def Let_def split: if_splits)
      next
        case p: (Inr candidates)
        obtain r' w3 where wr: "store_write s candidates (resolvePreconditions (CommandSubject cmd) declared lid)
            (''writing '' @ strconv_Quote (CommandSubject cmd)) w2 = (r', w3)" by fastforce
        show ?thesis
        proof (cases "events = [] \<or> ctx_Err (storeClient s) w2 \<noteq> None")
          case True
          then show ?thesis using decided [of cur lid y1] f None d assms Inr p
            by (auto simp: executeOnce_def Let_def split: if_splits option.splits)
        next
          case False
          then show ?thesis using wrote [OF f [unfolded None] d [unfolded Inr] p] wr assms f None d Inr p
            by (simp add: executeOnce_def Let_def)
        qed
      qed
    qed
  qed
qed

lemma prefix_decided:
  assumes "ReplayStored state (subject_events (CommandSubject cmd) before) = (st, None)"
    and "Decide decider w cmd st = Ret (Inr events, w')"
    and "prepare s state (CommandSubject cmd) events = Inr candidates" and "list_all2 recorded_as candidates written"
  shows "decided_on_log s decider state cmd before written"
proof -
  have "list_all2 (\<lambda>e r. \<exists>a. e = Some a \<and> HasRule state (EventType a) \<and> Type r = EventType a \<and> Marshal a = Inr (Data r)
      \<and> Subject r = CommandSubject cmd \<and> Source r = source s) events written"
    by (rule list_all2_trans [OF _ prepare_Inr [OF assms(3)] assms(4)]) (auto simp: recorded_as_def)
  with assms(1,2) show ?thesis unfolding decided_on_log_def by blast
qed

lemma resolve_onStateRead:
  assumes "p \<in> set declared" and "kind p = onStateReadKind"
  shows "Some (if lid = [] then IsSubjectPristine subj None else IsSubjectOnEventID subj lid None) \<in> set (resolvePreconditions subj declared lid)"
proof -
  have "resolve_one subj lid p = [Some (if lid = [] then IsSubjectPristine subj None else IsSubjectOnEventID subj lid None)]"
    using assms(2) by (simp add: resolve_one_def)
  then show ?thesis using assms(1) by (force simp: resolvePreconditions_def)
qed

text \<open>If \<open>OnStateRead\<close> holds at the write, the subject has no other events than were read.\<close>

lemma onStateRead_unchanged:
  assumes "list_ex IsOnStateRead declared" and "log_ok before" and "prefix snapshot before"
    and "\<And>p. Some p \<in> set (resolvePreconditions subj declared (last_id (subject_events subj snapshot))) \<Longrightarrow> pre_holds query before p"
  shows "subject_events subj before = subject_events subj snapshot"
proof -
  let ?ev = "subject_events subj snapshot" let ?lid = "last_id ?ev"
  obtain new where new: "subject_events subj before = ?ev @ new"
    using prefix_subject [OF assms(3), of subj] by (auto simp: prefix_def)
  have ok: "log_ok (?ev @ new)" using log_ok_subject [OF assms(2), of subj] new by simp
  obtain p where p: "p \<in> set declared" "kind p = onStateReadKind" using assms(1) by (auto simp: list_ex_iff IsOnStateRead_def)
  show ?thesis
  proof (cases "?ev = []")
    case True
    then have "Some (IsSubjectPristine subj None) \<in> set (resolvePreconditions subj declared ?lid)"
      using resolve_onStateRead [OF p, of ?lid subj] by (simp add: last_id_def)
    from assms(4) [OF this] show ?thesis using True by simp
  next
    case False
    have id: "?lid = ID (last ?ev)" using False by (simp add: last_id_def)
    have "last ?ev \<in> set (?ev @ new)" using False by simp
    then have "?lid \<noteq> []" unfolding id by (intro is_revision_not_Nil log_ok_ID [OF ok])
    then have "Some (IsSubjectOnEventID subj ?lid None) \<in> set (resolvePreconditions subj declared ?lid)"
      using resolve_onStateRead [OF p, of ?lid subj] by simp
    from assms(4) [OF this] have "ID (last (subject_events subj before)) = ?lid" by simp
    then have "ID (last (?ev @ new)) = ID (last ?ev)" unfolding new id .
    then have "new = []" by (rule log_same_last [OF ok False])
    then show ?thesis using new by simp
  qed
qed

text \<open>
  One attempt keeps the system good and only lets the log grow, and what it writes under
  \<open>OnStateRead\<close> was decided on the log right before it.
\<close>

lemma executeOnce_safe:
  assumes ok: "system_ok s hist query state y" and grows: "decider_grows decider hist"
    and run: "executeOnce s decider state cmd declared y = Ret (r, y')"
  shows "system_ok s hist query state y' \<and> prefix (hist (world y)) (hist (world y'))
    \<and> (\<forall>written. r = Inr written \<longrightarrow> written \<noteq> [] \<longrightarrow> list_ex IsOnStateRead declared \<longrightarrow>
         (\<exists>before after. hist (world y') = before @ written @ after \<and> prefix (hist (world y)) before
            \<and> decided_on_log s decider state cmd before written))"
proof -
  have laws: "database_laws (storeClient s) hist query" and rest: "latest_ok state" "same_copy state"
    using ok by (simp_all add: system_ok_def)
  have sys: "system_ok s hist query state (y1\<lparr>world := w\<rparr>)"
    if "system_ok s hist query state y1" "prefix (hist (world y1)) (hist w)" for y1 w
    using that cache_good_prefix [of state "hist (world y1)" "states y1" "hist w"] laws_log_ok [OF laws]
    by (simp add: system_ok_def)
  from run show ?thesis
  proof (cases rule: executeOnce_cases)
    case (fold_failed cur err)
    then show ?thesis using store_fold_failed [OF ok fold_failed(1)] by simp
  next
    case (decided cur lid y1 decision w2)
    from store_fold_state [OF ok decided(1)] have f: "system_ok s hist query state y1" "prefix (hist (world y)) (hist (world y1))"
      by (auto intro: prefix_order.trans)
    have g: "prefix (hist (world y1)) (hist w2)" using grows decided(2) unfolding decider_grows_def by blast
    show ?thesis using decided(3,4) sys [OF f(1) g] prefix_order.trans [OF f(2) g] by auto
  next
    case (wrote cur lid y1 events w2 candidates w3)
    let ?subj = "CommandSubject cmd"
    from store_fold_state [OF ok wrote(1)] obtain snapshot where f: "prefix (hist (world y)) snapshot"
      "prefix snapshot (hist (world y1))" "ReplayStored state (subject_events ?subj snapshot) = (cur, None)"
      "lid = last_id (subject_events ?subj snapshot)" "system_ok s hist query state y1" by blast
    have g: "prefix (hist (world y1)) (hist w2)" using grows wrote(2) unfolding decider_grows_def by blast
    obtain r0 where w: "WriteEvents (storeClient s) w2 candidates (resolvePreconditions ?subj declared lid) = (r0, w3)"
      and r0: "\<And>written. r = Inr written \<Longrightarrow> r0 = Inr written"
      using wrote(4) by (auto simp: store_write_def split: prod.splits sum.splits)
    have w3: "prefix (hist w2) (hist w3)" using laws_write_grows [OF laws w] .
    have "\<exists>before after. hist w3 = before @ written @ after \<and> prefix (hist (world y)) before
        \<and> decided_on_log s decider state cmd before written"
      if "r = Inr written" "list_ex IsOnStateRead declared" for written
    proof -
      from laws_write [OF laws] w r0 [OF that(1)] obtain before after where
        b: "prefix (hist w2) before" "hist w3 = before @ written @ after" "list_all2 recorded_as candidates written"
          "\<And>p. Some p \<in> set (resolvePreconditions ?subj declared lid) \<Longrightarrow> pre_holds query before p" by blast
      have grown: "prefix snapshot before" using f(2) g b(1) prefix_order.trans by blast
      have "log_ok before" using laws_log_ok [OF laws, of w3] log_ok_prefix [of "hist w3" before] b(2) by simp
      then have "subject_events ?subj before = subject_events ?subj snapshot"
        using onStateRead_unchanged [OF that(2) _ grown] b(4) f(4) by blast
      then have "decided_on_log s decider state cmd before written"
        using prefix_decided [OF _ wrote(2,3) b(3)] f(3) by simp
      moreover have "prefix (hist (world y)) before" using f(1) grown prefix_order.trans by blast
      ultimately show ?thesis using b(2) by blast
    qed
    moreover have "prefix (hist (world y1)) (hist w3)" using g w3 prefix_order.trans by blast
    moreover have "prefix (hist (world y)) (hist (world y1))" using f(1,2) prefix_order.trans by blast
    ultimately show ?thesis using wrote(5) sys [OF f(5)] by (auto intro: prefix_order.trans)
  qed
qed

section \<open>Attempts\<close>

text \<open>A failure after which \<open>Execute\<close> decides again: a conflict that may come from the state it read.\<close>

definition retryable :: "'w Store \<Rightarrow> precondition list \<Rightarrow> goerr \<Rightarrow> ('w, 's) sys \<Rightarrow> bool" where
  "retryable s declared err y \<longleftrightarrow>
     errors_Is err ErrConflict \<and> ctx_Err (storeClient s) (world y) = None
     \<and> (case violatedPrecondition err declared of (violated, isNamed) \<Rightarrow> isNamed \<longrightarrow> IsOnStateRead violated)"

inductive attempts ::
  "'w Store \<Rightarrow> ('w, 'p command, 's) Decider \<Rightarrow> 's State \<Rightarrow> 'p command \<Rightarrow> precondition list \<Rightarrow>
   nat \<Rightarrow> ('w, 's) sys \<Rightarrow> goerr + event list \<Rightarrow> ('w, 's) sys \<Rightarrow> bool"
  for s decider state cmd declared where
  final: "executeOnce s decider state cmd declared y = Ret (r, y') \<Longrightarrow> attempts s decider state cmd declared 1 y r y'"
| again: "executeOnce s decider state cmd declared y = Ret (Inl err, y1) \<Longrightarrow> retryable s declared err y1 \<Longrightarrow>
     attempts s decider state cmd declared n y1 r y' \<Longrightarrow> attempts s decider state cmd declared (Suc n) y r y'"

lemma execute_loop_attempts:
  "execute_loop s decider state cmd declared remaining y = Ret (r, y') \<Longrightarrow>
     \<exists>n. attempts s decider state cmd declared n y r y' \<and> n \<le> Suc remaining
        \<and> (\<forall>err. r = Inl err \<and> retryable s declared err y' \<longrightarrow> n = Suc remaining)"
proof (induction remaining arbitrary: y)
  case 0
  then obtain r1 y1 where once: "executeOnce s decider state cmd declared y = Ret (r1, y1)"
    by (auto simp: execute_loop.simps [of s decider state cmd declared 0] go_bind_eq_Ret)
  then have "r1 = r \<and> y1 = y'" using 0
    by (auto simp: execute_loop.simps [of s decider state cmd declared 0] split: sum.splits)
  then show ?case using attempts.final [OF once] by (intro exI [of _ 1]) simp
next
  case (Suc m)
  note step = execute_loop.simps [of s decider state cmd declared "Suc m" y]
  obtain r1 y1 where once: "executeOnce s decider state cmd declared y = Ret (r1, y1)"
    using Suc.prems by (auto simp: step go_bind_eq_Ret)
  show ?case
  proof (cases "\<exists>err. r1 = Inl err \<and> retryable s declared err y1")
    case True
    then obtain err where err: "r1 = Inl err" "retryable s declared err y1" by blast
    then have "execute_loop s decider state cmd declared m y1 = Ret (r, y')"
      using Suc.prems once by (auto simp: step retryable_def split: prod.splits if_splits)
    from Suc.IH [OF this] obtain n where n: "attempts s decider state cmd declared n y1 r y'" "n \<le> Suc m"
      "\<forall>err. r = Inl err \<and> retryable s declared err y' \<longrightarrow> n = Suc m" by blast
    then show ?thesis using attempts.again [OF once [unfolded err(1)] err(2) n(1)] by (intro exI [of _ "Suc n"]) simp
  next
    case False
    then have "r = r1 \<and> y' = y1"
      using Suc.prems once by (auto simp: step retryable_def split: prod.splits if_splits sum.splits)
    then show ?thesis using attempts.final [OF once] False by (intro exI [of _ 1]) auto
  qed
qed

lemma attempts_safe:
  assumes "attempts s decider state cmd declared n y r y'"
    and "system_ok s hist query state y" and "decider_grows decider hist"
  shows "system_ok s hist query state y' \<and> prefix (hist (world y)) (hist (world y'))
    \<and> (\<forall>written. r = Inr written \<longrightarrow> written \<noteq> [] \<longrightarrow> list_ex IsOnStateRead declared \<longrightarrow>
         (\<exists>before after. hist (world y') = before @ written @ after \<and> prefix (hist (world y)) before
            \<and> decided_on_log s decider state cmd before written))"
  using assms
proof (induction rule: attempts.induct)
  case (final y r y')
  then show ?case using executeOnce_safe by blast
next
  case (again y err y1 n r y')
  have "system_ok s hist query state y1" "prefix (hist (world y)) (hist (world y1))"
    using executeOnce_safe [OF again.prems(1,2) again.hyps(1)] by blast+
  note here = this again.IH [OF this(1) again.prems(2)]
  from here(3) have rest: "system_ok s hist query state y'" "prefix (hist (world y1)) (hist (world y'))" by blast+
  have "\<exists>before after. hist (world y') = before @ written @ after \<and> prefix (hist (world y)) before
      \<and> decided_on_log s decider state cmd before written"
    if "r = Inr written" "written \<noteq> []" "list_ex IsOnStateRead declared" for written
    using here(3) that prefix_order.trans [OF here(2)] by blast
  then show ?case using rest prefix_order.trans [OF here(2) rest(2)] by blast
qed

lemma Execute_attempts_of:
  assumes "Execute s decider cmd y = Ret (r, y')" and "decider_State decider = Some state"
    and "checkPreconditions (CommandType cmd) (CommandPreconditions cmd) = Inr declared"
  shows "execute_loop s decider state cmd declared
    (nat (if list_ex IsOnStateRead declared then conflictRetries (settings s) else 0)) y = Ret (r, y')"
  using assms by (simp add: Execute_def Let_def)

section \<open>A database in memory\<close>

text \<open>
  A database that keeps the candidates it was given in a list and numbers them, which shows that
  the laws can hold. It takes no more events than there are revisions.
\<close>

definition record_event :: "nat \<Rightarrow> EventCandidate \<Rightarrow> event" where
  "record_event i c =
     \<lparr>Source = CandidateSource c, Subject = CandidateSubject c, Type = CandidateType c, ID = strconv_Itoa i, Time = 0,
      TraceParent = None, TraceState = None, Data = CandidateData c\<rparr>"

definition mem_hist :: "EventCandidate list \<Rightarrow> event list" where
  "mem_hist w = map (\<lambda>i. record_event i (w ! i)) [0..<min (length w) (2 ^ 63)]"

definition mem_written :: "EventCandidate list \<Rightarrow> EventCandidate list \<Rightarrow> event list" where
  "mem_written w candidates = map (\<lambda>i. record_event (length w + i) (candidates ! i)) [0..<length candidates]"

definition mem_conflict :: goerr where
  "mem_conflict = DBAPIError \<lparr>Status = 409, Code = CodePreconditionViolated, Description = [], Details = Some (Some 0),
     ErrorText = ''precondition violated''\<rparr>"

definition mem_client :: "EventCandidate list client" where
  "mem_client =
     \<lparr>ReadEvents = (\<lambda>w subj options. (map Inr (selected options subj (mem_hist w)), w)),
      WriteEvents = (\<lambda>w candidates pres.
        if length w + length candidates \<le> 2 ^ 63
           \<and> list_all (\<lambda>p. case p of None \<Rightarrow> True | Some q \<Rightarrow> pre_holds (\<lambda>_ _. False) (mem_hist w) q) pres
        then (Inr (mem_written w candidates), w @ candidates)
        else (Inl mem_conflict, w)),
      RegisterEventSchema = (\<lambda>w t j. (None, w)), ReadEventTypes = (\<lambda>w. ([], w)),
      VerifyHash = (\<lambda>e. None), VerifySignature = (\<lambda>e k. None), ctx_Err = (\<lambda>w. None),
      memory = (\<lambda>w. \<lparr>heapCells = [], heapArrays = [], heapMaps = []\<rparr>)\<rparr>"

lemma rank_record: "i < 2 ^ 63 \<Longrightarrow> rank (record_event i c) = int i" "i < 2 ^ 63 \<Longrightarrow> is_revision (ID (record_event i c))"
  by (simp_all add: rank_def record_event_def rev_rank_Itoa is_revision_Itoa)

lemma mem_hist_ok: "log_ok (mem_hist w)"
proof -
  let ?n = "min (length w) (2 ^ 63)"
  have "sorted_wrt (\<lambda>i j. rank (record_event i (w ! i)) < rank (record_event j (w ! j))) [0..<?n]"
    using sorted_wrt_upt [of 0 ?n] by (rule sorted_wrt_mono_rel [rotated]) (auto simp: rank_record)
  then show ?thesis
    by (auto simp: log_ok_def mem_hist_def sorted_wrt_map rank_record)
qed

lemma mem_hist_append:
  assumes "length w + length candidates \<le> 2 ^ 63"
  shows "mem_hist (w @ candidates) = mem_hist w @ mem_written w candidates"
proof -
  have n: "min (length (w @ candidates)) (2 ^ 63) = length w + length candidates" "min (length w) (2 ^ 63) = length w"
    using assms by auto
  have "map (\<lambda>i. record_event i ((w @ candidates) ! i)) [0..<length w + length candidates] =
      map (\<lambda>i. record_event i (w ! i)) [0..<length w] @ mem_written w candidates"
    by (rule nth_equalityI) (auto simp: mem_written_def nth_append)
  then show ?thesis unfolding mem_hist_def n .
qed

lemma mem_laws: "database_laws mem_client mem_hist (\<lambda>_ _. False)"
proof -
  have recorded: "list_all2 recorded_as candidates (mem_written w candidates)" for w candidates
    by (auto simp: list_all2_conv_all_nth mem_written_def recorded_as_def record_event_def)
  have "\<exists>before after. prefix (mem_hist w) before \<and> mem_hist w' = before @ written @ after
      \<and> list_all2 recorded_as candidates written \<and> (\<forall>p. Some p \<in> set pres \<longrightarrow> pre_holds (\<lambda>_ _. False) before p)"
    if "WriteEvents mem_client w candidates pres = (Inr written, w')" for w candidates pres written w'
    using that recorded mem_hist_append [of w candidates]
    by (intro exI [of _ "mem_hist w"] exI [of _ "[]"]) (auto simp: mem_client_def list_all_iff split: if_splits)
  moreover have "prefix (mem_hist w) (mem_hist w')" if "WriteEvents mem_client w candidates pres = (r, w')" for w candidates pres r w'
    using that mem_hist_append [of w candidates] by (auto simp: mem_client_def split: if_splits)
  moreover have "es = selected options subj (mem_hist w) \<and> w' = w"
    if "ReadEvents mem_client w subj options = (map Inr es, w')" for w subj options es w'
  proof -
    have "inj_on Inr (set es \<union> set (selected options subj (mem_hist w)) :: event set)" by simp
    then show ?thesis using that by (auto simp: mem_client_def dest: map_inj_on)
  qed
  moreover have "w' = w" if "ReadEvents mem_client w subj options = (items, w')" for w subj options items w'
    using that by (simp add: mem_client_def)
  ultimately show ?thesis unfolding database_laws_def using mem_hist_ok by blast
qed

text \<open>A store on it, a state that collects data, a decider that adds to it, and a command.\<close>

definition mem_store :: "EventCandidate list Store" where
  "mem_store = \<lparr>storeClient = mem_client, source = ''tests'', settings = default_settings\<lparr>conflictRetries := 2\<rparr>\<rparr>"

definition list_state :: "string State" where
  "list_state = sample_state\<lparr>evolve := [''added'' \<mapsto> (\<lambda>st data. (st @ data, None))]\<rparr>"

definition add_decider :: "(EventCandidate list, unit command, string) Decider" where
  "add_decider = \<lparr>dstate = Some list_state,
     ddecide = Some (\<lambda>w cmd st. (Inr [Some \<lparr>EventType = ''added'', Marshal = Inr (''1'' @ st), AppValue = StructV ''Added'' []\<rparr>], w))\<rparr>"

definition add_command :: "unit command" where
  "add_command = \<lparr>CommandType = ''Add'', CommandSubject = ''/list'', CommandPreconditions = [OnStateRead], CommandPayload = ()\<rparr>"

definition mem_sys :: "(EventCandidate list, string) sys" where
  "mem_sys = \<lparr>world = [], states = Some (newStateCache 4)\<rparr>"

lemma lru_new [simp]: "lru (newStateCache n) = []"
  by (simp add: lru_def newStateCache_def)

lemma all_entries_new: "sc.all_entries P (newStateCache n)"
  by (simp add: sc.all_entries_def cache_ok_new)

lemma mem_system_ok: "system_ok mem_store mem_hist (\<lambda>_ _. False) list_state mem_sys"
proof -
  have "cache_good list_state (mem_hist (world mem_sys)) (states mem_sys)"
    using all_entries_new by (simp add: cache_good_def mem_sys_def)
  moreover have "latest_ok list_state \<and> same_copy list_state"
    by (simp add: latest_ok_def same_copy_def list_state_def sample_state_def NewState_def copyOf_def)
  ultimately show ?thesis using mem_laws by (simp add: system_ok_def mem_store_def)
qed

lemma add_decider_grows: "decider_grows add_decider mem_hist"
  by (auto simp: decider_grows_def add_decider_def Decide_def)

lemmas mem_eval =
  Execute_def execute_loop.simps executeOnce_def store_fold_def fold_start_def fold_end_def Decide_def decider_State_def
  mem_store_def mem_client_def list_state_def sample_state_def NewState_def add_decider_def add_command_def mem_sys_def
  default_settings_def copyOfInitial_def copyOf_def isCopyable_def cache_get_def newStateCache_def mem_hist_def
  subject_events_def selected_def latest_candidates_def read_options_def boundAfter_def above_def since_latest_def prepare_def checkNotNil_def
  event_isNil_def isNil_def HasRule_def candidateFor_def store_write_def resolvePreconditions_def resolve_one_def
  checkPreconditions_def precondition_defs IsOnStateRead_def mem_written_def Let_def

lemma mem_execute:
  "Execute mem_store add_decider add_command mem_sys =
     Ret (Inr [record_event 0 \<lparr>CandidateSource = ''tests'', CandidateSubject = ''/list'', CandidateType = ''added'', CandidateData = ''1''\<rparr>],
       mem_sys\<lparr>world := [\<lparr>CandidateSource = ''tests'', CandidateSubject = ''/list'', CandidateType = ''added'', CandidateData = ''1''\<rparr>]\<rparr>)"
  by (simp add: mem_eval)

section \<open>Properties\<close>

text \<open>
  C1. Optimistic concurrency. On a database that behaves as documented, with any number of other
  writers at any moment, the events of a command that declares \<open>OnStateRead\<close> and succeeds stand in
  the log right after events that fold to exactly the state they were decided on: nothing was
  written to the subject in between. This holds with the state cache as without it, and on
  whichever attempt the command succeeded. Every event written is one the decider returned, in
  order, with a rule on the state of the decider.
\<close>

theorem Execute_decided_on_latest:
  assumes "Execute s decider cmd y = Ret (Inr written, y')" and "written \<noteq> []"
    and "decider_State decider = Some state" and "list_ex IsOnStateRead (CommandPreconditions cmd)"
    and "system_ok s hist query state y" and "decider_grows decider hist"
  shows "\<exists>before after. hist (world y') = before @ written @ after \<and> prefix (hist (world y)) before
    \<and> decided_on_log s decider state cmd before written"
proof -
  obtain declared where c: "checkPreconditions (CommandType cmd) (CommandPreconditions cmd) = Inr declared"
    using assms(1,3) by (cases "checkPreconditions (CommandType cmd) (CommandPreconditions cmd)") (auto simp: Execute_def)
  then have d: "declared = CommandPreconditions cmd" by (simp add: checkPreconditions_Inr)
  from execute_loop_attempts [OF Execute_attempts_of [OF assms(1,3) c]] obtain n where
    "attempts s decider state cmd declared n y (Inr written) y'" by blast
  from attempts_safe [OF this assms(5,6)] show ?thesis using assms(2,4) d by blast
qed

theorem Execute_decided_on_latest_witness:
  "\<exists>before after written y'. Execute mem_store add_decider add_command mem_sys = Ret (Inr written, y') \<and> written \<noteq> []
     \<and> mem_hist (world y') = before @ written @ after \<and> decided_on_log mem_store add_decider list_state add_command before written"
proof -
  let ?c = "\<lparr>CandidateSource = ''tests'', CandidateSubject = ''/list'', CandidateType = ''added'', CandidateData = ''1''\<rparr>"
  have "\<exists>before after. mem_hist (world (mem_sys\<lparr>world := [?c]\<rparr>)) = before @ [record_event 0 ?c] @ after
      \<and> prefix (mem_hist (world mem_sys)) before
      \<and> decided_on_log mem_store add_decider list_state add_command before [record_event 0 ?c]"
    by (rule Execute_decided_on_latest [OF mem_execute _ _ _ mem_system_ok add_decider_grows])
      (simp_all add: add_decider_def decider_State_def add_command_def precondition_defs IsOnStateRead_def)
  then show ?thesis using mem_execute by blast
qed

text \<open>
  C18. \<open>Execute\<close> decides at least once and at most once more than the store allows retries, and more
  than once only for a command that declares \<open>OnStateRead\<close>. Every attempt but the last failed with a
  conflict for which the database did not name another precondition, and before the context ended;
  and if \<open>Execute\<close> reports such a conflict, all retries are used up.
\<close>

theorem Execute_attempts:
  assumes "Execute s decider cmd y = Ret (r, y')" and "decider_State decider = Some state"
    and "checkPreconditions (CommandType cmd) (CommandPreconditions cmd) = Inr declared"
    and "conflictRetries (settings s) \<ge> 0"
  shows "\<exists>n. attempts s decider state cmd declared n y r y' \<and> 1 \<le> n
    \<and> int n \<le> 1 + (if list_ex IsOnStateRead declared then conflictRetries (settings s) else 0)
    \<and> (\<forall>err. r = Inl err \<and> retryable s declared err y' \<longrightarrow>
         int n = 1 + (if list_ex IsOnStateRead declared then conflictRetries (settings s) else 0))"
proof -
  let ?retries = "if list_ex IsOnStateRead declared then conflictRetries (settings s) else 0"
  from execute_loop_attempts [OF Execute_attempts_of [OF assms(1-3)]] obtain n where n:
    "attempts s decider state cmd declared n y r y'" "n \<le> Suc (nat ?retries)"
    "\<forall>err. r = Inl err \<and> retryable s declared err y' \<longrightarrow> n = Suc (nat ?retries)" by blast
  have one: "1 \<le> n" using n(1) by (cases rule: attempts.cases) simp_all
  have retries: "int (Suc (nat ?retries)) = 1 + ?retries" using assms(4) by (cases "list_ex IsOnStateRead declared") simp_all
  have "int n \<le> 1 + ?retries" using n(2) unfolding retries [symmetric] by (rule of_nat_mono)
  moreover have "int n = 1 + ?retries" if "r = Inl err" "retryable s declared err y'" for err
    unfolding retries [symmetric] using n(3) that by blast
  ultimately show ?thesis using n(1) one by blast
qed

theorem Execute_attempts_witness:
  "\<exists>n r y'. attempts mem_store add_decider list_state add_command [OnStateRead] n mem_sys r y' \<and> 1 \<le> n \<and> int n \<le> 3"
proof -
  have "checkPreconditions (CommandType add_command) (CommandPreconditions add_command) = Inr [OnStateRead]"
    by (simp add: add_command_def checkPreconditions_def precondition_defs)
  from Execute_attempts [OF mem_execute _ this, of list_state]
  have "\<exists>n. attempts mem_store add_decider list_state add_command [OnStateRead] n mem_sys
      (Inr [record_event 0 \<lparr>CandidateSource = ''tests'', CandidateSubject = ''/list'', CandidateType = ''added'', CandidateData = ''1''\<rparr>])
      (mem_sys\<lparr>world := [\<lparr>CandidateSource = ''tests'', CandidateSubject = ''/list'', CandidateType = ''added'', CandidateData = ''1''\<rparr>]\<rparr>)
      \<and> 1 \<le> n \<and> int n \<le> 3"
    by (auto simp: add_decider_def decider_State_def mem_store_def default_settings_def precondition_defs IsOnStateRead_def)
  then show ?thesis by blast
qed

text \<open>
  C2. A state that is read is never stale or partial. On a database that behaves as documented,
  \<open>Load\<close> that succeeds returns what \<open>ReplayStored\<close> makes of all events the subject has at some moment
  during the read, whether it starts from the beginning, from the latest event of a type, or from
  the state cache; and the cache stays good, so that the next read can rely on it as well.
\<close>

theorem Load_current_state:
  assumes "Load s state subj y = ((cur, None), y')" and "system_ok s hist query state y"
  shows "(\<exists>snapshot. prefix (hist (world y)) snapshot \<and> prefix snapshot (hist (world y'))
      \<and> ReplayStored state (subject_events subj snapshot) = (cur, None))
    \<and> system_ok s hist query state y'"
proof -
  obtain lid where "store_fold s subj state y = ((cur, lid, None), y')"
    using assms(1) by (auto simp: Load_def split: prod.splits)
  from store_fold_state [OF assms(2) this] show ?thesis by blast
qed

theorem Load_current_state_witness:
  "\<exists>y'. Load mem_store list_state ''/list'' mem_sys = (([], None), y') \<and> system_ok mem_store mem_hist (\<lambda>_ _. False) list_state y'"
proof -
  have "Load mem_store list_state ''/list'' mem_sys = (([], None), mem_sys)"
    by (simp add: Load_def mem_eval)
  then show ?thesis using Load_current_state [OF _ mem_system_ok] by blast
qed

end
