(* ===== verification/Projection.thy ===== *)
theory Projection
  imports Store_Safety
begin

text \<open>
  Projections (\<open>projection.go\<close>, \<open>projection_panic.go\<close>, \<open>projection_run.go\<close>, and \<open>Tracking\<close> of
  \<open>revision.go\<close>): the three kinds of projection behind one writer, driving a stream of events in
  batches, catching up, following the stream, and running in the background with reconnects and a
  status.

  The target of a projection is part of the world. A function of a projection gets the world and
  returns a result, which may be a panic, and the world afterwards. An iteration over events is the
  list of what it yields, as in the store.
\<close>

section \<open>The kinds of projections\<close>

type_synonym ('w, 'a) act = "'w \<Rightarrow> 'a go \<times> 'w"

record 'w Resumable =
  Checkpoint :: "('w, string \<times> goerr option) act"
  SaveCheckpoint :: "string \<Rightarrow> ('w, goerr option) act"

record 'w Tx =
  TxApply :: "event \<Rightarrow> ('w, goerr option) act"
  TxCommit :: "string \<Rightarrow> ('w, goerr option) act"
  TxRollback :: "('w, goerr option) act"

text \<open>
  \<open>CatchUpBatchSize\<close> is \<open>None\<close> for a projection that is not \<open>Batched\<close>, and \<open>GoValue\<close> is what
  \<open>isNil\<close> looks at.
\<close>

record 'w Transactional =
  TxCheckpoint :: "('w, string \<times> goerr option) act"
  Begin :: "('w, goerr + 'w Tx) act"
  TxBatchSize :: "int option"
  TxGoValue :: "rvalue option"

text \<open>The interfaces that a projection fulfils next to \<open>Apply\<close> are options.\<close>

record 'w Projection =
  Apply :: "event \<Rightarrow> ('w, goerr option) act"
  AsResumable :: "'w Resumable option"
  AsTransactional :: "'w Transactional option"
  CatchUpBatchSize :: "int option"
  GoValue :: "rvalue option"
  GoTypeName :: string

datatype Mode = ModeRebuild | ModeResumable

definition ModeOf :: "'w Projection \<Rightarrow> Mode" where
  "ModeOf p = (case AsResumable p of Some _ \<Rightarrow> ModeResumable | None \<Rightarrow> ModeRebuild)"

definition refuseTransactional :: "'w Projection \<Rightarrow> unit go" where
  "refuseTransactional p =
     (if AsTransactional p \<noteq> None then
        Panic (''architecturekit: '' @ GoTypeName p @ '' is transactional, start it with StartTransactionalProjection'')
      else Ret ())"

definition requireProjection :: "string \<Rightarrow> rvalue option \<Rightarrow> unit go" where
  "requireProjection function v =
     (if isNil v then Panic (''architecturekit: '' @ function @ '' needs a projection, not nil'') else Ret ())"

definition batchSizeOf :: "int option \<Rightarrow> int" where
  "batchSizeOf batched = (case batched of None \<Rightarrow> 1 | Some n \<Rightarrow> max n 1)"

section \<open>Writers\<close>

text \<open>The world, and what a writer remembers within a run.\<close>

record 'w wstate =
  target :: 'w
  lastApplied :: string
  openTx :: "'w Tx option"

record 'w projectionWriter =
  w_checkpoint :: "('w wstate, string \<times> goerr option) act"
  w_begin :: "('w wstate, goerr option) act"
  w_apply :: "event \<Rightarrow> ('w wstate, goerr option) act"
  w_commit :: "string \<Rightarrow> ('w wstate, goerr option) act"
  w_rollback :: "('w wstate, goerr option) act"

definition on_target :: "('w, 'a) act \<Rightarrow> ('w wstate, 'a) act" where
  "on_target f st = (case f (target st) of (r, w) \<Rightarrow> (r, st\<lparr>target := w\<rparr>))"

text \<open>\<open>recoverInto\<close>: a panic becomes an error that holds its value and the stack.\<close>

definition recoverInto :: "string \<Rightarrow> goerr option go \<Rightarrow> goerr option" where
  "recoverInto stack r = (case r of Ret err \<Rightarrow> err | Panic v \<Rightarrow> Some (PanicError v stack))"

text \<open>\<open>apply\<close> of \<open>rebuildWriter\<close> and of \<open>resumableWriter\<close>: it remembers the event that was applied.\<close>

definition remembering :: "'w Projection \<Rightarrow> event \<Rightarrow> ('w wstate, goerr option) act" where
  "remembering p event st =
     (case on_target (Apply p event) st of
        (Ret None, st') \<Rightarrow> (Ret None, st'\<lparr>lastApplied := ID event\<rparr>)
      | (r, st') \<Rightarrow> (r, st'))"

definition rebuildWriter :: "'w Projection \<Rightarrow> 'w projectionWriter" where
  "rebuildWriter p =
     \<lparr>w_checkpoint = (\<lambda>st. (Ret (lastApplied st, None), st)),
      w_begin = (\<lambda>st. (Ret None, st)),
      w_apply = remembering p,
      w_commit = (\<lambda>_ st. (Ret None, st)),
      w_rollback = (\<lambda>st. (Ret None, st))\<rparr>"

definition resumableWriter :: "'w Projection \<Rightarrow> 'w Resumable \<Rightarrow> 'w projectionWriter" where
  "resumableWriter p r =
     \<lparr>w_checkpoint = (\<lambda>st. if lastApplied st \<noteq> [] then (Ret (lastApplied st, None), st) else on_target (Checkpoint r) st),
      w_begin = (\<lambda>st. (Ret None, st)),
      w_apply = remembering p,
      w_commit = (\<lambda>lastEventID. on_target (SaveCheckpoint r lastEventID)),
      w_rollback = (\<lambda>st. (Ret None, st))\<rparr>"

text \<open>Calling a function of a transaction that is nil is a nil dereference.\<close>

definition nil_dereference :: string where
  "nil_dereference = ''runtime error: invalid memory address or nil pointer dereference''"

definition tx_begin :: "'w Transactional \<Rightarrow> ('w wstate, goerr option) act" where
  "tx_begin t st =
     (case on_target (Begin t) st of
        (Ret (Inr tx), st') \<Rightarrow> (Ret None, st'\<lparr>openTx := Some tx\<rparr>)
      | (Ret (Inl err), st') \<Rightarrow> (Ret (Some err), st')
      | (Panic v, st') \<Rightarrow> (Panic v, st'))"

definition tx_apply :: "event \<Rightarrow> ('w wstate, goerr option) act" where
  "tx_apply event st =
     (case openTx st of None \<Rightarrow> (Panic nil_dereference, st) | Some tx \<Rightarrow> on_target (TxApply tx event) st)"

definition tx_commit :: "string \<Rightarrow> ('w wstate, goerr option) act" where
  "tx_commit lastEventID st =
     (case openTx st of
        None \<Rightarrow> (Panic nil_dereference, st)
      | Some tx \<Rightarrow>
          (case on_target (TxCommit tx lastEventID) st of
             (Ret err, st') \<Rightarrow> (Ret err, st'\<lparr>openTx := None\<rparr>)
           | (Panic v, st') \<Rightarrow> (Panic v, st')))"

definition tx_rollback :: "string \<Rightarrow> ('w wstate, goerr option) act" where
  "tx_rollback stack st =
     (case openTx st of
        None \<Rightarrow> (Ret None, st)
      | Some tx \<Rightarrow>
          (case on_target (TxRollback tx) st of
             (Ret err, st') \<Rightarrow> (Ret err, st'\<lparr>openTx := None\<rparr>)
           | (Panic v, st') \<Rightarrow> (Ret (recoverInto stack (Panic v)), st')))"

definition transactionalWriter :: "string \<Rightarrow> 'w Transactional \<Rightarrow> 'w projectionWriter" where
  "transactionalWriter stack t =
     \<lparr>w_checkpoint = on_target (TxCheckpoint t), w_begin = tx_begin t, w_apply = tx_apply,
      w_commit = tx_commit, w_rollback = tx_rollback stack\<rparr>"

definition writerFor :: "'w Projection \<Rightarrow> 'w projectionWriter" where
  "writerFor p = (case AsResumable p of Some r \<Rightarrow> resumableWriter p r | None \<Rightarrow> rebuildWriter p)"

section \<open>The status of a run\<close>

datatype Phase = PhaseCatchingUp | PhaseLive | PhaseReconnecting | PhaseStopped

record ProjectionStatus =
  StatusPhase :: Phase
  Since :: int
  StatusErr :: "goerr option"
  Attempts :: int
  StatusRevision :: string
  HasCaughtUp :: bool

text \<open>The two channels count how often they were closed; closing one twice would panic.\<close>

record ProjectionRun =
  runName :: string
  runSubject :: string
  caughtUpClosed :: nat
  doneClosed :: nat
  runStatus :: ProjectionStatus
  runErr :: "goerr option"

definition caughtUpNow :: "int \<Rightarrow> ProjectionRun \<Rightarrow> ProjectionRun" where
  "caughtUpNow now r =
     r\<lparr>runStatus := (runStatus r)\<lparr>StatusPhase := PhaseLive, Since := now, StatusErr := None, Attempts := 0, HasCaughtUp := True\<rparr>,
       caughtUpClosed := (if caughtUpClosed r = 0 then 1 else caughtUpClosed r)\<rparr>"

definition disrupted :: "int \<Rightarrow> goerr option \<Rightarrow> ProjectionRun \<Rightarrow> ProjectionRun" where
  "disrupted now err r =
     (let st = (if StatusPhase (runStatus r) \<noteq> PhaseReconnecting
                then (runStatus r)\<lparr>StatusPhase := PhaseReconnecting, Since := now, Attempts := 0\<rparr> else runStatus r) in
      r\<lparr>runStatus := st\<lparr>StatusErr := err, Attempts := Attempts st + 1\<rparr>\<rparr>)"

definition committed :: "string \<Rightarrow> ProjectionRun option \<Rightarrow> ProjectionRun option" where
  "committed eventID progress =
     map_option (\<lambda>r. r\<lparr>runStatus := (runStatus r)\<lparr>StatusRevision := eventID\<rparr>\<rparr>) progress"

definition run_stop :: "int \<Rightarrow> goerr option \<Rightarrow> ProjectionRun \<Rightarrow> ProjectionRun" where
  "run_stop now err r =
     r\<lparr>runStatus := (runStatus r)\<lparr>StatusPhase := PhaseStopped, Since := now, StatusErr := err, Attempts := 0\<rparr>,
       runErr := err, doneClosed := doneClosed r + 1\<rparr>"

section \<open>Driving a writer\<close>

text \<open>What the runtime provides: the stream of the database, the clock, a timer, and the stack of a panic.\<close>

record observe_options =
  ObserveRecursive :: bool
  ObserveLowerBound :: "bound option"

text \<open>\<open>timer\<close> waits for a duration, and tells whether the context ended first.\<close>

record 'w runtime =
  ObserveEvents :: "'w \<Rightarrow> string \<Rightarrow> observe_options \<Rightarrow> (goerr + event) list \<times> 'w"
  now :: "'w \<Rightarrow> int"
  timer :: "int \<Rightarrow> 'w \<Rightarrow> bool \<times> 'w"
  debugStack :: string

definition applyTo :: "string \<Rightarrow> 'w projectionWriter \<Rightarrow> event \<Rightarrow> 'w wstate \<Rightarrow> goerr option \<times> 'w wstate" where
  "applyTo stack wr event st =
     (case w_apply wr event st of
        (r, st') \<Rightarrow> (map_option (ApplyFailure (ID event)) (recoverInto stack r), st'))"

text \<open>A rollback that a failure causes is reported next to it, never instead of it.\<close>

definition after_rollback ::
  "'w projectionWriter \<Rightarrow> string \<Rightarrow> goerr \<Rightarrow> 'w wstate \<Rightarrow> (string \<times> goerr option) go \<times> 'w wstate" where
  "after_rollback wr lastEventID err st =
     (case w_rollback wr st of
        (Ret err', st') \<Rightarrow> (Ret (lastEventID, errors_Join [Some err, err']), st')
      | (Panic v, st') \<Rightarrow> (Panic v, st'))"

text \<open>
  The loop of \<open>drive\<close> over what the stream yields, with its variables \<open>lastEventID\<close>, \<open>inBatch\<close> and
  \<open>open\<close>, and what \<open>drive\<close> does after the loop.
\<close>

fun drive_loop ::
  "string \<Rightarrow> ('w \<Rightarrow> goerr option) \<Rightarrow> (event \<Rightarrow> goerr option) \<Rightarrow> int \<Rightarrow> 'w projectionWriter \<Rightarrow> (goerr + event) list \<Rightarrow>
   string \<Rightarrow> int \<Rightarrow> bool \<Rightarrow> 'w wstate \<times> ProjectionRun option \<Rightarrow>
   (string \<times> goerr option) go \<times> 'w wstate \<times> ProjectionRun option" where
  "drive_loop stack ctxErr check batchSize wr [] lastEventID inBatch isOpen (st, progress) =
     (let ended = (\<lambda>st progress. (Ret (lastEventID, map_option (\<lambda>e. contextEnded e ''reading events'') (ctxErr (target st))), st, progress)) in
      if isOpen then
        (case w_commit wr lastEventID st of
           (Panic v, st') \<Rightarrow> (Panic v, st', progress)
         | (Ret (Some err), st') \<Rightarrow> (Ret (lastEventID, Some err), st', progress)
         | (Ret None, st') \<Rightarrow> ended st' (committed lastEventID progress))
      else ended st progress)"
| "drive_loop stack ctxErr check batchSize wr (Inl err # items) lastEventID inBatch isOpen (st, progress) =
     (let failure = readFailure (ctxErr (target st)) err ''reading events'' in
      if isOpen then (case after_rollback wr lastEventID failure st of (r, st') \<Rightarrow> (r, st', progress))
      else (Ret (lastEventID, Some failure), st, progress))"
| "drive_loop stack ctxErr check batchSize wr (Inr event # items) lastEventID inBatch isOpen (st, progress) =
     (case check event of
        Some err \<Rightarrow>
          if isOpen then (case after_rollback wr lastEventID err st of (r, st') \<Rightarrow> (r, st', progress))
          else (Ret (lastEventID, Some err), st, progress)
      | None \<Rightarrow>
          (case (if isOpen then (Ret None, st) else w_begin wr st) of
             (Panic v, st1) \<Rightarrow> (Panic v, st1, progress)
           | (Ret (Some err), st1) \<Rightarrow> (Ret (lastEventID, Some err), st1, progress)
           | (Ret None, st1) \<Rightarrow>
               (case applyTo stack wr event st1 of
                  (Some err, st2) \<Rightarrow> (case after_rollback wr lastEventID err st2 of (r, st') \<Rightarrow> (r, st', progress))
                | (None, st2) \<Rightarrow>
                    if inBatch + 1 < batchSize then
                      drive_loop stack ctxErr check batchSize wr items (ID event) (inBatch + 1) True (st2, progress)
                    else
                      (case w_commit wr (ID event) st2 of
                         (Panic v, st3) \<Rightarrow> (Panic v, st3, progress)
                       | (Ret (Some err), st3) \<Rightarrow> (Ret (ID event, Some err), st3, progress)
                       | (Ret None, st3) \<Rightarrow>
                           drive_loop stack ctxErr check batchSize wr items (ID event) 0 False
                             (st3, committed (ID event) progress)))))"

definition drive ::
  "'w runtime \<Rightarrow> 'w Store \<Rightarrow> 'w projectionWriter \<Rightarrow> (goerr + event) list \<Rightarrow> int \<Rightarrow> 'w wstate \<times> ProjectionRun option \<Rightarrow>
   (string \<times> goerr option) go \<times> 'w wstate \<times> ProjectionRun option" where
  "drive rt s wr events batchSize sp =
     drive_loop (debugStack rt) (ctx_Err (storeClient s)) (verify s) batchSize wr events [] 0 False sp"

definition catchUp ::
  "'w runtime \<Rightarrow> 'w Store \<Rightarrow> subjects \<Rightarrow> 'w projectionWriter \<Rightarrow> int \<Rightarrow> 'w wstate \<times> ProjectionRun option \<Rightarrow>
   (string \<times> goerr option) go \<times> 'w wstate \<times> ProjectionRun option" where
  "catchUp rt s subs wr catchUpSize sp =
     (case w_checkpoint wr (fst sp) of
        (Panic v, st) \<Rightarrow> (Panic v, st, snd sp)
      | (Ret (_, Some err), st) \<Rightarrow> (Ret ([], Some err), st, snd sp)
      | (Ret (checkpoint, None), st) \<Rightarrow>
          (let (items, w) = ReadEvents (storeClient s) (target st) (rootSubject subs)
                 \<lparr>Recursive = isRecursive subs, Order = OrderChronological, LowerBound = boundAfter checkpoint,
                  UpperBound = None, LatestEvent = None\<rparr> in
           case drive rt s wr items catchUpSize (st\<lparr>target := w\<rparr>, snd sp) of
             (Ret (lastEventID, None), sp') \<Rightarrow> (Ret (if lastEventID = [] then checkpoint else lastEventID, None), sp')
           | (r, sp') \<Rightarrow> (r, sp')))"

text \<open>\<open>follow\<close> returns how long it followed the stream live.\<close>

definition follow ::
  "'w runtime \<Rightarrow> 'w Store \<Rightarrow> subjects \<Rightarrow> 'w projectionWriter \<Rightarrow> int \<Rightarrow> 'w wstate \<times> ProjectionRun \<Rightarrow>
   (int \<times> goerr option) go \<times> 'w wstate \<times> ProjectionRun" where
  "follow rt s subs wr catchUpSize sp =
     (case catchUp rt s subs wr catchUpSize (fst sp, Some (snd sp)) of
        (Panic v, st, progress) \<Rightarrow> (Panic v, st, the progress)
      | (Ret (_, Some err), st, progress) \<Rightarrow> (Ret (0, Some err), st, the progress)
      | (Ret (lastEventID, None), st, progress) \<Rightarrow>
          (let caughtUpAt = now rt (target st);
               (items, w) = ObserveEvents rt (target st) (rootSubject subs)
                 \<lparr>ObserveRecursive = isRecursive subs, ObserveLowerBound = boundAfter lastEventID\<rparr> in
           case drive rt s wr items 1 (st\<lparr>target := w\<rparr>, Some (caughtUpNow caughtUpAt (the progress))) of
             (Panic v, st', progress') \<Rightarrow> (Panic v, st', the progress')
           | (Ret (_, err), st', progress') \<Rightarrow> (Ret (now rt (target st') - caughtUpAt, err), st', the progress')))"

section \<open>Catching up once\<close>

definition new_state :: "'w \<Rightarrow> 'w wstate" where
  "new_state w = \<lparr>target = w, lastApplied = [], openTx = None\<rparr>"

definition catchUpOnce ::
  "'w runtime \<Rightarrow> 'w Store \<Rightarrow> subjects \<Rightarrow> 'w projectionWriter \<Rightarrow> int option \<Rightarrow> 'w \<Rightarrow> goerr option \<times> 'w" where
  "catchUpOnce rt s subs wr batched w =
     (case catchUp rt s subs wr (batchSizeOf batched) (new_state w, None) of
        (Ret (_, err), st, _) \<Rightarrow> (err, target st)
      | (Panic v, st, _) \<Rightarrow> (recoverInto (debugStack rt) (Panic v), target st))"

definition CatchUpProjection ::
  "'w runtime \<Rightarrow> 'w Store \<Rightarrow> subjects \<Rightarrow> 'w Projection \<Rightarrow> (projection_settings \<Rightarrow> projection_settings go) option list \<Rightarrow>
   'w \<Rightarrow> (goerr option \<times> 'w) go" where
  "CatchUpProjection rt s subs p options w =
     go_bind (requireSubjects subs) (\<lambda>_.
       go_bind (requireProjection ''CatchUpProjection'' (GoValue p)) (\<lambda>_.
         go_bind (refuseTransactional p) (\<lambda>_.
           go_bind (projectionSettingsOf ''CatchUpProjection'' options) (\<lambda>_.
             Ret (catchUpOnce rt s subs (writerFor p) (CatchUpBatchSize p) w)))))"

definition CatchUpTransactionalProjection ::
  "'w runtime \<Rightarrow> 'w Store \<Rightarrow> subjects \<Rightarrow> 'w Transactional \<Rightarrow> (projection_settings \<Rightarrow> projection_settings go) option list \<Rightarrow>
   'w \<Rightarrow> (goerr option \<times> 'w) go" where
  "CatchUpTransactionalProjection rt s subs t options w =
     go_bind (requireSubjects subs) (\<lambda>_.
       go_bind (requireProjection ''CatchUpTransactionalProjection'' (TxGoValue t)) (\<lambda>_.
         go_bind (projectionSettingsOf ''CatchUpTransactionalProjection'' options) (\<lambda>_.
           Ret (catchUpOnce rt s subs (transactionalWriter (debugStack rt) t) (TxBatchSize t) w))))"

section \<open>Running\<close>

text \<open>A duration is a signed 64-bit number of nanoseconds, so doubling it may wrap around.\<close>

definition int64 :: "int \<Rightarrow> int" where
  "int64 n = (n + 2 ^ 63) mod 2 ^ 64 - 2 ^ 63"

definition is_panic :: "goerr \<Rightarrow> unit option" where
  "is_panic err = (case err of PanicError _ _ \<Rightarrow> Some () | _ \<Rightarrow> None)"

definition hasPanicked :: "goerr option \<Rightarrow> bool" where
  "hasPanicked err = (case err of None \<Rightarrow> False | Some e \<Rightarrow> errors_As is_panic e \<noteq> None)"

definition ends_run :: "goerr option \<Rightarrow> bool" where
  "ends_run err = (case err of None \<Rightarrow> False | Some e \<Rightarrow> hasPanicked (Some e) \<or> \<not> errors_Is e ErrTransient)"

text \<open>
  One round of the loop of \<open>run\<close>: it ends the run with an error or nil, or goes on with a delay and
  an attempt.
\<close>

datatype round_result = Ended "goerr option" | Again int int

definition observe ::
  "'w Store \<Rightarrow> Reconnect \<Rightarrow> 'w wstate \<Rightarrow> unit go \<times> 'w wstate" where
  "observe s reconnect st =
     (case reconnectObserver (settings s) of
        None \<Rightarrow> (Ret (), st)
      | Some f \<Rightarrow> (case f (target st) reconnect of Ret w \<Rightarrow> (Ret (), st\<lparr>target := w\<rparr>) | Panic v \<Rightarrow> (Panic v, st)))"

text \<open>The part of a round after a session that ended with \<open>err\<close>, from the report of the disruption on.\<close>

definition reconnect_round ::
  "'w runtime \<Rightarrow> 'w Store \<Rightarrow> subjects \<Rightarrow> 'w projectionWriter \<Rightarrow> int \<Rightarrow> int \<Rightarrow> string \<Rightarrow> int \<Rightarrow> goerr option \<Rightarrow>
   'w wstate \<times> ProjectionRun \<Rightarrow> round_result \<times> 'w wstate \<times> ProjectionRun" where
  "reconnect_round rt s subs wr delay attempt checkpointBefore liveFor err sp =
     (let progress = disrupted (now rt (target (fst sp))) err (snd sp) in
      case w_checkpoint wr (fst sp) of
        (Panic v, st) \<Rightarrow> (Ended (Some (PanicError v (debugStack rt))), st, progress)
      | (Ret (checkpointAfter, _), st) \<Rightarrow>
          (let fresh = checkpointAfter \<noteq> checkpointBefore \<or> liveFor > reconnectInitialDelay (settings s);
               delay' = (if fresh then reconnectInitialDelay (settings s) else delay);
               attempt' = (if fresh then 0 else attempt) + 1 in
           case observe s \<lparr>ReconnectProjection = runName progress, ReconnectSubject = rootSubject subs, ReconnectErr = err,
                           ReconnectDelay = delay', ReconnectAttempt = attempt'\<rparr> st of
             (Panic v, st') \<Rightarrow> (Ended (Some (PanicError v (debugStack rt))), st', progress)
           | (Ret _, st') \<Rightarrow>
               (case timer rt delay' (target st') of
                  (True, w) \<Rightarrow> (Ended None, st'\<lparr>target := w\<rparr>, progress)
                | (False, w) \<Rightarrow>
                    (Again (min (int64 (2 * delay')) (reconnectMaxDelay (settings s))) attempt', st'\<lparr>target := w\<rparr>, progress))))"

definition run_round ::
  "'w runtime \<Rightarrow> 'w Store \<Rightarrow> subjects \<Rightarrow> 'w projectionWriter \<Rightarrow> int \<Rightarrow> int \<Rightarrow> int \<Rightarrow> 'w wstate \<times> ProjectionRun \<Rightarrow>
   round_result \<times> 'w wstate \<times> ProjectionRun" where
  "run_round rt s subs wr catchUpSize delay attempt sp =
     (case w_checkpoint wr (fst sp) of
        (Panic v, st) \<Rightarrow> (Ended (Some (PanicError v (debugStack rt))), st, snd sp)
      | (Ret (checkpointBefore, _), st) \<Rightarrow>
          (case follow rt s subs wr catchUpSize (st, snd sp) of
             (Panic v, sp') \<Rightarrow> (Ended (Some (PanicError v (debugStack rt))), sp')
           | (Ret (liveFor, err), sp') \<Rightarrow>
               if ctx_Err (storeClient s) (target (fst sp')) \<noteq> None then (Ended None, sp')
               else if ends_run err then (Ended err, sp')
               else reconnect_round rt s subs wr delay attempt checkpointBefore liveFor err sp'))"

text \<open>
  The loop of \<open>run\<close> for at most \<open>n\<close> rounds: what it ended with, or \<open>None\<close> if it still runs. A run
  that never ends is what all numbers of rounds show.
\<close>

fun run_loop ::
  "'w runtime \<Rightarrow> 'w Store \<Rightarrow> subjects \<Rightarrow> 'w projectionWriter \<Rightarrow> int \<Rightarrow> nat \<Rightarrow> int \<Rightarrow> int \<Rightarrow> 'w wstate \<times> ProjectionRun \<Rightarrow>
   goerr option option \<times> 'w wstate \<times> ProjectionRun" where
  "run_loop rt s subs wr catchUpSize 0 delay attempt sp = (None, sp)"
| "run_loop rt s subs wr catchUpSize (Suc n) delay attempt sp =
     (case run_round rt s subs wr catchUpSize delay attempt sp of
        (Ended err, sp') \<Rightarrow> (Some err, sp')
      | (Again delay' attempt', sp') \<Rightarrow> run_loop rt s subs wr catchUpSize n delay' attempt' sp')"

definition run ::
  "'w runtime \<Rightarrow> 'w Store \<Rightarrow> subjects \<Rightarrow> 'w projectionWriter \<Rightarrow> int option \<Rightarrow> nat \<Rightarrow> 'w wstate \<times> ProjectionRun \<Rightarrow>
   goerr option option \<times> 'w wstate \<times> ProjectionRun" where
  "run rt s subs wr batched n sp =
     run_loop rt s subs wr (batchSizeOf batched) n (reconnectInitialDelay (settings s)) 0 sp"

text \<open>
  \<open>start\<close> returns the run at once; the goroutine reports to it. Its state is what it is after at most
  \<open>n\<close> rounds.
\<close>

definition start :: "projection_settings \<Rightarrow> subjects \<Rightarrow> int \<Rightarrow> ProjectionRun" where
  "start name subs startedAt =
     \<lparr>runName = name, runSubject = rootSubject subs, caughtUpClosed = 0, doneClosed = 0,
      runStatus = \<lparr>StatusPhase = PhaseCatchingUp, Since = startedAt, StatusErr = None, Attempts = 0, StatusRevision = [], HasCaughtUp = False\<rparr>,
      runErr = None\<rparr>"

definition in_background ::
  "'w runtime \<Rightarrow> 'w Store \<Rightarrow> subjects \<Rightarrow> 'w projectionWriter \<Rightarrow> int option \<Rightarrow> projection_settings \<Rightarrow> 'w \<Rightarrow> nat \<Rightarrow>
   'w wstate \<times> ProjectionRun" where
  "in_background rt s subs wr batched name w n =
     (case run rt s subs wr batched n (new_state w, start name subs (now rt w)) of
        (None, sp) \<Rightarrow> sp
      | (Some err, st, progress) \<Rightarrow> (st, run_stop (now rt (target st)) err progress))"

definition StartProjection ::
  "'w runtime \<Rightarrow> 'w Store \<Rightarrow> subjects \<Rightarrow> 'w Projection \<Rightarrow> (projection_settings \<Rightarrow> projection_settings go) option list \<Rightarrow>
   'w \<Rightarrow> (nat \<Rightarrow> 'w wstate \<times> ProjectionRun) go" where
  "StartProjection rt s subs p options w =
     go_bind (requireSubjects subs) (\<lambda>_.
       go_bind (requireProjection ''StartProjection'' (GoValue p)) (\<lambda>_.
         go_bind (refuseTransactional p) (\<lambda>_.
           go_bind (projectionSettingsOf ''StartProjection'' options) (\<lambda>name.
             Ret (in_background rt s subs (writerFor p) (CatchUpBatchSize p) name w)))))"

definition StartTransactionalProjection ::
  "'w runtime \<Rightarrow> 'w Store \<Rightarrow> subjects \<Rightarrow> 'w Transactional \<Rightarrow> (projection_settings \<Rightarrow> projection_settings go) option list \<Rightarrow>
   'w \<Rightarrow> (nat \<Rightarrow> 'w wstate \<times> ProjectionRun) go" where
  "StartTransactionalProjection rt s subs t options w =
     go_bind (requireSubjects subs) (\<lambda>_.
       go_bind (requireProjection ''StartTransactionalProjection'' (TxGoValue t)) (\<lambda>_.
         go_bind (projectionSettingsOf ''StartTransactionalProjection'' options) (\<lambda>name.
           Ret (in_background rt s subs (transactionalWriter (debugStack rt) t) (TxBatchSize t) name w))))"

section \<open>Waiting for runs\<close>

definition title :: "ProjectionRun \<Rightarrow> string" where
  "title r =
     (if runName r = [] then ''projection of '' @ strconv_Quote (runSubject r) else ''projection '' @ strconv_Quote (runName r))"

definition named :: "ProjectionRun \<Rightarrow> goerr \<Rightarrow> goerr" where
  "named r err = Errorf [Lit (title r @ '': ''), W err]"

text \<open>The loop of \<open>caughtUpVerdict\<close>, with its variables \<open>hasEveryRunCaughtUp\<close> and \<open>stopped\<close>.\<close>

fun verdict_loop :: "bool \<Rightarrow> ProjectionRun option \<Rightarrow> ProjectionRun list \<Rightarrow> goerr + bool \<times> ProjectionRun option" where
  "verdict_loop every stopped [] = Inr (every, stopped)"
| "verdict_loop every stopped (r # rs) =
     (let status = runStatus r in
      if HasCaughtUp status then verdict_loop every stopped rs
      else if StatusPhase status \<noteq> PhaseStopped then verdict_loop False stopped rs
      else (case StatusErr status of
              Some err \<Rightarrow> Inl (named r err)
            | None \<Rightarrow> verdict_loop False (if stopped = None then Some r else stopped) rs))"

definition caughtUpVerdict :: "goerr option \<Rightarrow> ProjectionRun list \<Rightarrow> bool \<times> goerr option" where
  "caughtUpVerdict ctxErr runs =
     (case verdict_loop True None runs of
        Inl err \<Rightarrow> (True, Some err)
      | Inr (every, stopped) \<Rightarrow>
          if every then (True, None)
          else (case ctxErr of
                  Some err \<Rightarrow> (True, Some err)
                | None \<Rightarrow>
                    (case stopped of
                       Some r \<Rightarrow> (True, Some (Errorf [Lit (''architecturekit: the '' @ title r @ '' stopped before it caught up: ''), W (Sentinel ContextCanceled)]))
                     | None \<Rightarrow> (False, None))))"

text \<open>\<open>WaitCaughtUp\<close>, given what it finds each time around its loop; \<open>None\<close> while it still waits.\<close>

fun wait_loop :: "(goerr option \<times> ProjectionRun list) list \<Rightarrow> goerr option option" where
  "wait_loop [] = None"
| "wait_loop ((ctxErr, runs) # later) =
     (case caughtUpVerdict ctxErr runs of (True, err) \<Rightarrow> Some err | (False, _) \<Rightarrow> wait_loop later)"

fun check_runs :: "nat \<Rightarrow> ProjectionRun option list \<Rightarrow> unit go" where
  "check_runs i [] = Ret ()"
| "check_runs i (None # runs) = Panic (''architecturekit: projection '' @ strconv_Itoa i @ '' has no run'')"
| "check_runs i (Some r # runs) = check_runs (i + 1) runs"

definition WaitCaughtUp :: "ProjectionRun option list \<Rightarrow> (goerr option \<times> ProjectionRun list) list \<Rightarrow> goerr option option go" where
  "WaitCaughtUp runs found = go_bind (check_runs 0 runs) (\<lambda>_. Ret (wait_loop found))"

section \<open>Tracking\<close>

text \<open>A sink is what \<open>Seen\<close> of a view does to the world, or \<open>None\<close> if it is nil.\<close>

fun check_sinks :: "nat \<Rightarrow> ('w \<Rightarrow> string \<Rightarrow> 'w) option list \<Rightarrow> unit go" where
  "check_sinks i [] = Ret ()"
| "check_sinks i (None # sinks) =
     Panic (''architecturekit: Tracking needs views to record the events in, but view '' @ strconv_Itoa i @ '' is nil'')"
| "check_sinks i (Some f # sinks) = check_sinks (i + 1) sinks"

definition tracked_apply ::
  "'w Projection \<Rightarrow> ('w \<Rightarrow> string \<Rightarrow> 'w) option list \<Rightarrow> event \<Rightarrow> ('w, goerr option) act" where
  "tracked_apply p sinks event w =
     (case Apply p event w of
        (Ret None, w') \<Rightarrow> (Ret None, foldl (\<lambda>w sink. (the sink) w (ID event)) w' sinks)
      | (r, w') \<Rightarrow> (r, w'))"

text \<open>The value \<open>Tracking\<close> returns is a pointer to the wrapper, at the address \<open>addr\<close>.\<close>

definition Tracking :: "nat \<Rightarrow> 'w Projection \<Rightarrow> ('w \<Rightarrow> string \<Rightarrow> 'w) option list \<Rightarrow> 'w Projection go" where
  "Tracking addr p sinks =
     (if isNil (GoValue p) then Panic ''architecturekit: Tracking needs a projection, not nil''
      else go_bind (refuseTransactional p) (\<lambda>_.
        if sinks = [] then Panic ''architecturekit: Tracking needs at least one view to record the events in''
        else go_bind (check_sinks 0 sinks) (\<lambda>_.
          let name = (if AsResumable p = None then ''*architecturekit.trackedProjection'' else ''*architecturekit.trackedResumable'') in
          Ret \<lparr>Apply = tracked_apply p sinks, AsResumable = AsResumable p, AsTransactional = None,
               CatchUpBatchSize = Some (batchSizeOf (CatchUpBatchSize p)),
               GoValue = Some (PointerV name (Some addr)), GoTypeName = name\<rparr>)))"

end
