(* ===== verification/In_Memory_View.thy ===== *)
theory In_Memory_View
  imports Read_Options "HOL-Library.AList"
begin

text \<open>
  The view in memory (\<open>in_memory_view.go\<close>, with \<open>Outcome\<close> of \<open>projection.go\<close> and
  \<open>partOf\<close> of \<open>typed_projection.go\<close>): items by key, the order of insertion with its gaps, revisions per item,
  and secondary indexes. A change is a function on items; what it shares with readers is not
  represented. Each operation runs under the lock of the view, so it is one step. The abstract
  view is the list of its live entries in the order of insertion.
\<close>

section \<open>Outcomes and applied events\<close>

datatype Outcome = Applied | Missing | AlreadyApplied | Added

text \<open>The part of an event in a context, \<open>None\<close> for a context without one.\<close>

type_synonym part_ctx = "int option"

definition withPart :: "part_ctx \<Rightarrow> int \<Rightarrow> part_ctx" where
  "withPart ctx part = Some part"

definition partOf :: "part_ctx \<Rightarrow> int" where
  "partOf ctx = (case ctx of Some part \<Rightarrow> part | None \<Rightarrow> 0)"

record appliedEvent =
  aid :: string
  anumber :: "64 word"
  apart :: int

definition appliedEventOf :: "part_ctx \<Rightarrow> string \<Rightarrow> goerr + appliedEvent" where
  "appliedEventOf ctx eventID =
     (case ParseRevision eventID of
        Inl err \<Rightarrow>
          Inl (Errorf [W (Sentinel ErrPermanent), Lit '': '', W (Sentinel ErrNotARevision),
            Lit ('': an operation on a view needs the ID of the event it applies, not '' @ strconv_Quote eventID)])
      | Inr number \<Rightarrow> Inr \<lparr>aid = eventID, anumber = number, apart = partOf ctx\<rparr>)"

section \<open>The view\<close>

record 'i inMemoryEntry =
  item :: 'i
  erevision :: "64 word"
  epart :: int
  position :: nat

definition isNewerThan :: "appliedEvent \<Rightarrow> 'i inMemoryEntry \<Rightarrow> bool" where
  "isNewerThan event entry =
     (if anumber event = erevision entry then apart event > epart entry else anumber event > erevision entry)"

text \<open>An index: a map from values to sets of keys, of which none is empty.\<close>

record ('k, 'i, 'v) InMemoryIndex =
  valueOf :: "'i \<Rightarrow> 'v"
  ikeys :: "'v \<rightharpoonup> 'k set"

text \<open>\<open>revisionIn\<close> sets the field whose address the function of the option returns.\<close>

record ('i) inMemoryViewOptions =
  orevisionIn :: "('i \<Rightarrow> string \<Rightarrow> 'i) option"
  oclone :: "('i \<Rightarrow> 'i) option"

record ('k, 'i, 'v) InMemoryView =
  keyOf :: "'i \<Rightarrow> 'k"
  revisionIn :: "('i \<Rightarrow> string \<Rightarrow> 'i) option"
  vclone :: "('i \<Rightarrow> 'i) option"
  ventries :: "'k \<rightharpoonup> 'i inMemoryEntry"
  vorder :: "'k list"
  vindexes :: "('k, 'i, 'v) InMemoryIndex list"
  vrevision :: string
  vchanged :: nat

definition RevisionIn ::
  "('i \<Rightarrow> string \<Rightarrow> 'i) option \<Rightarrow> ('i inMemoryViewOptions \<Rightarrow> 'i inMemoryViewOptions go) go" where
  "RevisionIn field =
     (if field = None then Panic ''architecturekit: RevisionIn needs a function, not nil''
      else Ret (\<lambda>options.
        if orevisionIn options \<noteq> None then Panic ''architecturekit: RevisionIn is given twice''
        else Ret (options\<lparr>orevisionIn := field\<rparr>)))"

definition CloneWith ::
  "('i \<Rightarrow> 'i) option \<Rightarrow> ('i inMemoryViewOptions \<Rightarrow> 'i inMemoryViewOptions go) go" where
  "CloneWith f =
     (if f = None then Panic ''architecturekit: CloneWith needs a function, not nil''
      else Ret (\<lambda>options.
        if oclone options \<noteq> None then Panic ''architecturekit: CloneWith is given twice''
        else Ret (options\<lparr>oclone := f\<rparr>)))"

definition NewInMemoryView ::
  "('i \<Rightarrow> 'k) option \<Rightarrow> ('i inMemoryViewOptions \<Rightarrow> 'i inMemoryViewOptions go) option list \<Rightarrow> ('k, 'i, 'v) InMemoryView go" where
  "NewInMemoryView f options =
     (case f of
        None \<Rightarrow> Panic ''architecturekit: NewInMemoryView needs a function that returns the key of an item, not nil''
      | Some key \<Rightarrow>
          go_bind (applyOptions ''NewInMemoryView'' \<lparr>orevisionIn = None, oclone = None\<rparr> options) (\<lambda>configured.
            Ret \<lparr>keyOf = key, revisionIn = orevisionIn configured, vclone = oclone configured, ventries = Map.empty,
                 vorder = [], vindexes = [], vrevision = [], vchanged = 0\<rparr>))"

section \<open>Revision\<close>

definition view_Revision :: "('k, 'i, 'v) InMemoryView \<Rightarrow> string" where
  "view_Revision v = vrevision v"

text \<open>Closing the channel and making a new one is counted in \<open>vchanged\<close>.\<close>

definition Seen :: "string \<Rightarrow> ('k, 'i, 'v) InMemoryView \<Rightarrow> ('k, 'i, 'v) InMemoryView" where
  "Seen eventID v =
     (case CompareRevisions eventID (vrevision v) of
        Inl _ \<Rightarrow> v
      | Inr newer \<Rightarrow> if newer \<le> 0 then v else v\<lparr>vrevision := eventID, vchanged := vchanged v + 1\<rparr>)"

text \<open>
  \<open>WaitFor\<close>, given what it finds each time around its loop: the revision of the view, and the
  error of the context if that ends before the revision changes. The result is \<open>None\<close> while it
  still waits.
\<close>

fun WaitFor :: "string \<Rightarrow> (string \<times> goerr option) list \<Rightarrow> goerr option option" where
  "WaitFor revision [] = None"
| "WaitFor revision ((current, ended) # later) =
     (case CompareRevisions current revision of
        Inl err \<Rightarrow> Some (Some err)
      | Inr reached \<Rightarrow>
          if reached \<ge> 0 then Some None
          else (case ended of Some err \<Rightarrow> Some (Some err) | None \<Rightarrow> WaitFor revision later))"

section \<open>Reading\<close>

definition Get :: "('k, 'i, 'v) InMemoryView \<Rightarrow> 'k \<Rightarrow> 'i option" where
  "Get v key = map_option item (ventries v key)"

text \<open>The positions of the order from \<open>p\<close> on, and the entries that are live at them.\<close>

fun live_from :: "('k \<rightharpoonup> 'i inMemoryEntry) \<Rightarrow> nat \<Rightarrow> 'k list \<Rightarrow> ('k \<times> 'i inMemoryEntry) list" where
  "live_from es p [] = []"
| "live_from es p (key # keys) =
     (case es key of
        Some entry \<Rightarrow> if position entry = p then (key, entry) # live_from es (p + 1) keys else live_from es (p + 1) keys
      | None \<Rightarrow> live_from es (p + 1) keys)"

definition All :: "('k, 'i, 'v) InMemoryView \<Rightarrow> 'i list" where
  "All v = map (item \<circ> snd) (live_from (ventries v) 0 (vorder v))"

definition keysWhere :: "('k, 'i, 'v) InMemoryView \<Rightarrow> ('i \<Rightarrow> bool) \<Rightarrow> 'k list" where
  "keysWhere v match = map fst (filter (\<lambda>(key, entry). match (item entry)) (live_from (ventries v) 0 (vorder v)))"

section \<open>Indexes\<close>

definition index_add :: "('k, 'i, 'v) InMemoryIndex \<Rightarrow> 'k \<Rightarrow> 'i \<Rightarrow> ('k, 'i, 'v) InMemoryIndex" where
  "index_add x key i =
     (let value = valueOf x i; keys = (case ikeys x value of Some ks \<Rightarrow> ks | None \<Rightarrow> {}) in
      x\<lparr>ikeys := (ikeys x)(value \<mapsto> insert key keys)\<rparr>)"

definition index_remove :: "('k, 'i, 'v) InMemoryIndex \<Rightarrow> 'k \<Rightarrow> 'i \<Rightarrow> ('k, 'i, 'v) InMemoryIndex" where
  "index_remove x key i =
     (let value = valueOf x i in
      case ikeys x value of
        None \<Rightarrow> x
      | Some ks \<Rightarrow>
          (let ks' = ks - {key} in
           if ks' = {} then x\<lparr>ikeys := (ikeys x)(value := None)\<rparr> else x\<lparr>ikeys := (ikeys x)(value \<mapsto> ks')\<rparr>))"

section \<open>Changing\<close>

definition with_revision :: "('k, 'i, 'v) InMemoryView \<Rightarrow> 'i \<Rightarrow> string \<Rightarrow> 'i" where
  "with_revision v i eventID = (case revisionIn v of Some setField \<Rightarrow> setField i eventID | None \<Rightarrow> i)"

definition view_add :: "'k \<Rightarrow> 'i \<Rightarrow> appliedEvent \<Rightarrow> ('k, 'i, 'v) InMemoryView \<Rightarrow> ('k, 'i, 'v) InMemoryView" where
  "view_add key i0 event v =
     (let i = with_revision v i0 (aid event) in
      v\<lparr>ventries := (ventries v)(key \<mapsto> \<lparr>item = i, erevision = anumber event, epart = apart event, position = length (vorder v)\<rparr>),
        vorder := vorder v @ [key], vindexes := map (\<lambda>x. index_add x key i) (vindexes v)\<rparr>)"

definition view_change ::
  "('k \<Rightarrow> string) \<Rightarrow> 'k \<Rightarrow> appliedEvent \<Rightarrow> ('i \<Rightarrow> 'i) \<Rightarrow> ('k, 'i, 'v) InMemoryView \<Rightarrow> (goerr + Outcome) \<times> ('k, 'i, 'v) InMemoryView" where
  "view_change showKey key event change v =
     (case ventries v key of
        None \<Rightarrow> (Inr Missing, v)
      | Some entry \<Rightarrow>
          if \<not> isNewerThan event entry then (Inr AlreadyApplied, v)
          else
            (let changed0 = change (case vclone v of Some f \<Rightarrow> f (item entry) | None \<Rightarrow> item entry);
                 newKey = keyOf v changed0 in
             if newKey \<noteq> key then
               (Inl (Errorf [W (Sentinel ErrPermanent),
                  Lit ('': event '' @ aid event @ '' changes the key of an item from '' @ showKey key @ '' to '' @ showKey newKey)]), v)
             else
               (let changed = with_revision v changed0 (aid event) in
                (Inr Applied,
                 v\<lparr>ventries := (ventries v)(key \<mapsto> entry\<lparr>item := changed, erevision := anumber event, epart := apart event\<rparr>),
                   vindexes := map (\<lambda>x. index_add (index_remove x key (item entry)) key changed) (vindexes v)\<rparr>))))"

fun changeAll ::
  "('k \<Rightarrow> string) \<Rightarrow> int \<Rightarrow> 'k list \<Rightarrow> appliedEvent \<Rightarrow> ('i \<Rightarrow> 'i) \<Rightarrow> ('k, 'i, 'v) InMemoryView \<Rightarrow>
   (int \<times> goerr option) \<times> ('k, 'i, 'v) InMemoryView" where
  "changeAll showKey changed [] event change v = ((changed, None), v)"
| "changeAll showKey changed (key # keys) event change v =
     (case view_change showKey key event change v of
        (Inl err, v') \<Rightarrow> ((changed, Some err), v')
      | (Inr outcome, v') \<Rightarrow>
          changeAll showKey (if outcome = Applied then changed + 1 else changed) keys event change v')"

text \<open>Dropping the keys of deleted items from the order, from position \<open>p\<close> of the old order on.\<close>

fun compact_loop ::
  "('k \<rightharpoonup> 'i inMemoryEntry) \<Rightarrow> 'k list \<Rightarrow> nat \<Rightarrow> 'k list \<Rightarrow> ('k \<rightharpoonup> 'i inMemoryEntry) \<times> 'k list" where
  "compact_loop es ord p [] = (es, ord)"
| "compact_loop es ord p (key # keys) =
     (case es key of
        Some entry \<Rightarrow>
          if position entry = p then compact_loop (es(key \<mapsto> entry\<lparr>position := length ord\<rparr>)) (ord @ [key]) (p + 1) keys
          else compact_loop es ord (p + 1) keys
      | None \<Rightarrow> compact_loop es ord (p + 1) keys)"

definition compact :: "('k, 'i, 'v) InMemoryView \<Rightarrow> ('k, 'i, 'v) InMemoryView" where
  "compact v =
     (if length (vorder v) < 2 * card (dom (ventries v)) + 16 then v
      else (let (es, ord) = compact_loop (ventries v) [] 0 (vorder v) in v\<lparr>ventries := es, vorder := ord\<rparr>))"

definition view_delete :: "'k \<Rightarrow> appliedEvent \<Rightarrow> ('k, 'i, 'v) InMemoryView \<Rightarrow> Outcome \<times> ('k, 'i, 'v) InMemoryView" where
  "view_delete key event v =
     (case ventries v key of
        None \<Rightarrow> (Missing, v)
      | Some entry \<Rightarrow>
          if \<not> isNewerThan event entry then (AlreadyApplied, v)
          else (Applied, compact (v\<lparr>vindexes := map (\<lambda>x. index_remove x key (item entry)) (vindexes v),
                                    ventries := (ventries v)(key := None)\<rparr>)))"

fun deleteAll ::
  "int \<Rightarrow> 'k list \<Rightarrow> appliedEvent \<Rightarrow> ('k, 'i, 'v) InMemoryView \<Rightarrow> int \<times> ('k, 'i, 'v) InMemoryView" where
  "deleteAll removed [] event v = (removed, v)"
| "deleteAll removed (key # keys) event v =
     (case view_delete key event v of
        (outcome, v') \<Rightarrow> deleteAll (if outcome = Applied then removed + 1 else removed) keys event v')"

section \<open>The operations of the view\<close>

definition Insert ::
  "('k \<Rightarrow> string) \<Rightarrow> part_ctx \<Rightarrow> string \<Rightarrow> 'i \<Rightarrow> ('k, 'i, 'v) InMemoryView \<Rightarrow> (goerr + Outcome) \<times> ('k, 'i, 'v) InMemoryView" where
  "Insert showKey ctx eventID i v =
     (case appliedEventOf ctx eventID of
        Inl err \<Rightarrow> (Inl err, v)
      | Inr event \<Rightarrow>
          (let key = keyOf v i in
           case ventries v key of
             Some entry \<Rightarrow>
               if \<not> isNewerThan event entry then (Inr AlreadyApplied, v)
               else (Inl (Errorf [W (Sentinel ErrPermanent),
                  Lit ('': event '' @ aid event @ '' inserts an item with the key '' @ showKey key @ '', which is already taken'')]), v)
           | None \<Rightarrow> (Inr Added, view_add key i event v)))"

text \<open>\<open>zero\<close> is the zero value of the item type.\<close>

definition Upsert ::
  "('k \<Rightarrow> string) \<Rightarrow> 'i \<Rightarrow> part_ctx \<Rightarrow> 'k \<Rightarrow> string \<Rightarrow> ('i \<Rightarrow> 'i) \<Rightarrow> ('k, 'i, 'v) InMemoryView \<Rightarrow>
   (goerr + Outcome) \<times> ('k, 'i, 'v) InMemoryView" where
  "Upsert showKey zero ctx key eventID change v =
     (case appliedEventOf ctx eventID of
        Inl err \<Rightarrow> (Inl err, v)
      | Inr event \<Rightarrow>
          if ventries v key \<noteq> None then view_change showKey key event change v
          else
            (let i = change zero; itemKey = keyOf v i in
             if itemKey \<noteq> key then
               (Inl (Errorf [W (Sentinel ErrPermanent),
                  Lit ('': event '' @ aid event @ '' upserts an item with the key '' @ showKey itemKey @ '' under the key '' @ showKey key)]), v)
             else (Inr Added, view_add key i event v)))"

definition Update ::
  "('k \<Rightarrow> string) \<Rightarrow> part_ctx \<Rightarrow> 'k \<Rightarrow> string \<Rightarrow> ('i \<Rightarrow> 'i) \<Rightarrow> ('k, 'i, 'v) InMemoryView \<Rightarrow>
   (goerr + Outcome) \<times> ('k, 'i, 'v) InMemoryView" where
  "Update showKey ctx key eventID change v =
     (case appliedEventOf ctx eventID of
        Inl err \<Rightarrow> (Inl err, v) | Inr event \<Rightarrow> view_change showKey key event change v)"

definition Delete ::
  "part_ctx \<Rightarrow> 'k \<Rightarrow> string \<Rightarrow> ('k, 'i, 'v) InMemoryView \<Rightarrow> (goerr + Outcome) \<times> ('k, 'i, 'v) InMemoryView" where
  "Delete ctx key eventID v =
     (case appliedEventOf ctx eventID of
        Inl err \<Rightarrow> (Inl err, v)
      | Inr event \<Rightarrow> (case view_delete key event v of (outcome, v') \<Rightarrow> (Inr outcome, v')))"

definition UpdateWhere ::
  "('k \<Rightarrow> string) \<Rightarrow> part_ctx \<Rightarrow> ('i \<Rightarrow> bool) \<Rightarrow> string \<Rightarrow> ('i \<Rightarrow> 'i) \<Rightarrow> ('k, 'i, 'v) InMemoryView \<Rightarrow>
   (int \<times> goerr option) \<times> ('k, 'i, 'v) InMemoryView" where
  "UpdateWhere showKey ctx match eventID change v =
     (case appliedEventOf ctx eventID of
        Inl err \<Rightarrow> ((0, Some err), v) | Inr event \<Rightarrow> changeAll showKey 0 (keysWhere v match) event change v)"

definition DeleteWhere ::
  "part_ctx \<Rightarrow> ('i \<Rightarrow> bool) \<Rightarrow> string \<Rightarrow> ('k, 'i, 'v) InMemoryView \<Rightarrow> (int \<times> goerr option) \<times> ('k, 'i, 'v) InMemoryView" where
  "DeleteWhere ctx match eventID v =
     (case appliedEventOf ctx eventID of
        Inl err \<Rightarrow> ((0, Some err), v)
      | Inr event \<Rightarrow> (case deleteAll 0 (keysWhere v match) event v of (removed, v') \<Rightarrow> ((removed, None), v')))"

text \<open>
  \<open>Index\<close> returns the new index, which is the last one of the view. Its loop adds the entry of
  every key of the order.
\<close>

definition Index :: "('i \<Rightarrow> 'v) option \<Rightarrow> ('k, 'i, 'v) InMemoryView \<Rightarrow> ('k, 'i, 'v) InMemoryView go" where
  "Index f v =
     (case f of
        None \<Rightarrow> Panic ''architecturekit: Index needs a function, not nil''
      | Some g \<Rightarrow>
          Ret (v\<lparr>vindexes := vindexes v @
            [foldl (\<lambda>x key. case ventries v key of Some entry \<Rightarrow> index_add x key (item entry) | None \<Rightarrow> x)
               \<lparr>valueOf = g, ikeys = Map.empty\<rparr> (vorder v)]\<rparr>))"

text \<open>
  The keys of an index for a value, sorted by their position in the view. Go ranges over a map in
  any order: \<open>ranging\<close> is the order it takes.
\<close>

definition keysOf :: "('k set \<Rightarrow> 'k list) \<Rightarrow> ('k, 'i, 'v) InMemoryView \<Rightarrow> ('k, 'i, 'v) InMemoryIndex \<Rightarrow> 'v \<Rightarrow> 'k list" where
  "keysOf ranging v x value =
     sort_key (\<lambda>key. position (the (ventries v key)))
       (ranging (case ikeys x value of Some ks \<Rightarrow> ks | None \<Rightarrow> {}))"

definition Lookup :: "('k set \<Rightarrow> 'k list) \<Rightarrow> ('k, 'i, 'v) InMemoryView \<Rightarrow> ('k, 'i, 'v) InMemoryIndex \<Rightarrow> 'v \<Rightarrow> 'i list" where
  "Lookup ranging v x value = map (\<lambda>key. item (the (ventries v key))) (keysOf ranging v x value)"

definition index_Update ::
  "('k set \<Rightarrow> 'k list) \<Rightarrow> ('k \<Rightarrow> string) \<Rightarrow> part_ctx \<Rightarrow> ('k, 'i, 'v) InMemoryIndex \<Rightarrow> 'v \<Rightarrow> string \<Rightarrow> ('i \<Rightarrow> 'i) \<Rightarrow>
   ('k, 'i, 'v) InMemoryView \<Rightarrow> (int \<times> goerr option) \<times> ('k, 'i, 'v) InMemoryView" where
  "index_Update ranging showKey ctx x value eventID change v =
     (case appliedEventOf ctx eventID of
        Inl err \<Rightarrow> ((0, Some err), v)
      | Inr event \<Rightarrow> changeAll showKey 0 (keysOf ranging v x value) event change v)"

definition index_Delete ::
  "('k set \<Rightarrow> 'k list) \<Rightarrow> part_ctx \<Rightarrow> ('k, 'i, 'v) InMemoryIndex \<Rightarrow> 'v \<Rightarrow> string \<Rightarrow> ('k, 'i, 'v) InMemoryView \<Rightarrow>
   (int \<times> goerr option) \<times> ('k, 'i, 'v) InMemoryView" where
  "index_Delete ranging ctx x value eventID v =
     (case appliedEventOf ctx eventID of
        Inl err \<Rightarrow> ((0, Some err), v)
      | Inr event \<Rightarrow> (case deleteAll 0 (keysOf ranging v x value) event v of (removed, v') \<Rightarrow> ((removed, None), v')))"

section \<open>The live entries in the order of insertion\<close>

definition live :: "('k \<rightharpoonup> 'i inMemoryEntry) \<Rightarrow> nat \<times> 'k \<Rightarrow> bool" where
  "live es = (\<lambda>(p, k). case es k of Some e \<Rightarrow> position e = p | None \<Rightarrow> False)"

lemma live_from_enumerate:
  "live_from es p ks = map (\<lambda>(j, k). (k, the (es k))) (filter (live es) (enumerate p ks))"
  by (induction ks arbitrary: p) (auto simp: live_def split: option.split)

lemma live_from_append:
  "live_from es p (ks @ ks') = live_from es p ks @ live_from es (p + length ks) ks'"
  by (simp add: live_from_enumerate enumerate_append_eq)

lemma live_from_cong:
  assumes "\<And>j k. (j, k) \<in> set (enumerate p ks) \<Longrightarrow> live es (j, k) = live es' (j, k)"
    and "\<And>j k. (j, k) \<in> set (enumerate p ks) \<Longrightarrow> live es (j, k) \<Longrightarrow> es k = es' k"
  shows "live_from es p ks = live_from es' p ks"
  unfolding live_from_enumerate using assms by (intro map_cong filter_cong) (auto split: prod.split)

lemma live_from_mem:
  "(k, e) \<in> set (live_from es p ks) \<longleftrightarrow> es k = Some e \<and> p \<le> position e \<and> position e < p + length ks \<and> ks ! (position e - p) = k"
  by (auto simp: live_from_enumerate live_def in_set_enumerate_eq image_iff split: option.splits)

lemma distinct_live_from: "distinct (map fst (live_from es p ks))"
proof (induction ks arbitrary: p)
  case (Cons k ks)
  have "k \<notin> fst ` set (live_from es (Suc p) ks)" if "es k = Some e" "position e = p" for e
    using that by (auto simp: live_from_mem)
  then show ?case using Cons by (auto split: option.splits)
qed simp

lemma live_from_delete: "live_from (es(key := None)) p ks = AList.delete key (live_from es p ks)"
  by (induction ks arbitrary: p) (auto simp: AList.delete_eq split: option.splits)

lemma live_from_change:
  assumes "es key = Some e" "position e' = position e"
  shows "live_from (es(key \<mapsto> e')) p ks = map (\<lambda>(k, d). (k, if k = key then e' else d)) (live_from es p ks)"
  using assms by (induction ks arbitrary: p) (auto split: option.splits)

lemma live_from_add:
  assumes "es key = None"
  shows "live_from (es(key \<mapsto> \<lparr>item = i, erevision = r, epart = q, position = p + length ks\<rparr>)) p (ks @ [key]) =
    live_from es p ks @ [(key, \<lparr>item = i, erevision = r, epart = q, position = p + length ks\<rparr>)]"
proof -
  have "live_from (es(key \<mapsto> \<lparr>item = i, erevision = r, epart = q, position = p + length ks\<rparr>)) p ks = live_from es p ks"
    using assms by (intro live_from_cong) (auto simp: live_def in_set_enumerate_eq split: if_splits)
  then show ?thesis by (simp add: live_from_append)
qed

section \<open>The indexes as an interface\<close>

text \<open>
  The contract of \<open>inMemoryIndexer\<close>: what an index stands for is a map from keys to items, and the
  view adds an item under a free key and removes the item a key has.
\<close>

locale indexer =
  fixes add :: "'x \<Rightarrow> 'k \<Rightarrow> 'i \<Rightarrow> 'x"
    and remove :: "'x \<Rightarrow> 'k \<Rightarrow> 'i \<Rightarrow> 'x"
    and follows :: "('k \<rightharpoonup> 'i) \<Rightarrow> 'x \<Rightarrow> bool"
  assumes follows_add: "\<lbrakk>follows m x; m k = None\<rbrakk> \<Longrightarrow> follows (m(k \<mapsto> i)) (add x k i)"
    and follows_remove: "\<lbrakk>follows m x; m k = Some i\<rbrakk> \<Longrightarrow> follows (m(k := None)) (remove x k i)"
    and add_again: "\<lbrakk>follows m x; m k = Some i\<rbrakk> \<Longrightarrow> add x k i = x"
begin

lemma follows_change:
  assumes "follows m x" "m k = Some i"
  shows "follows (m(k \<mapsto> j)) (add (remove x k i) k j)"
  using follows_add [OF follows_remove [OF assms], of k j] by simp

lemma all_add:
  assumes "list_all (follows m) xs" "m k = None"
  shows "list_all (follows (m(k \<mapsto> i))) (map (\<lambda>x. add x k i) xs)"
  using assms by (auto simp: list_all_iff intro: follows_add)

lemma all_remove:
  assumes "list_all (follows m) xs" "m k = Some i"
  shows "list_all (follows (m(k := None))) (map (\<lambda>x. remove x k i) xs)"
  using assms by (auto simp: list_all_iff intro: follows_remove)

lemma all_change:
  assumes "list_all (follows m) xs" "m k = Some i"
  shows "list_all (follows (m(k \<mapsto> j))) (map (\<lambda>x. add (remove x k i) k j) xs)"
  using assms by (auto simp: list_all_iff intro: follows_change)

lemma follows_fill:
  assumes "follows (m |` A) x"
  shows "follows (m |` (A \<union> set ks))
    (foldl (\<lambda>x k. case m k of Some i \<Rightarrow> add x k i | None \<Rightarrow> x) x ks)"
  using assms
proof (induction ks arbitrary: A x)
  case (Cons k ks)
  have "follows (m |` insert k A) (case m k of Some i \<Rightarrow> add x k i | None \<Rightarrow> x)"
  proof (cases "m k")
    case None
    then have "m |` insert k A = m |` A" by (auto simp: restrict_map_def)
    then show ?thesis using None Cons.prems by simp
  next
    case (Some i)
    then show ?thesis
    proof (cases "k \<in> A")
      case True
      then have "insert k A = A" by auto
      then show ?thesis using Some True Cons.prems add_again [OF Cons.prems, of k i] by simp
    next
      case False
      then have "m |` insert k A = (m |` A)(k \<mapsto> i)" using Some by (auto simp: restrict_map_def)
      then show ?thesis using Some False follows_add [OF Cons.prems, of k i] by simp
    qed
  qed
  from Cons.IH [OF this] show ?case by simp
qed simp

end

text \<open>What the view hands to its indexes, and what an index holds: for each value, the keys of the items with it.\<close>

definition keys_with :: "('k \<rightharpoonup> 'i) \<Rightarrow> ('i \<Rightarrow> 'v) \<Rightarrow> 'v \<Rightarrow> 'k set" where
  "keys_with m f value = {k. \<exists>i. m k = Some i \<and> f i = value}"

definition index_follows :: "('k \<rightharpoonup> 'i) \<Rightarrow> ('k, 'i, 'v) InMemoryIndex \<Rightarrow> bool" where
  "index_follows m x \<longleftrightarrow>
     ikeys x = (\<lambda>value. if keys_with m (valueOf x) value = {} then None else Some (keys_with m (valueOf x) value))"

lemma valueOf_index [simp]:
  "valueOf (index_add x k i) = valueOf x" "valueOf (index_remove x k i) = valueOf x"
  by (simp_all add: index_add_def index_remove_def Let_def split: option.split)

lemma keys_with_add:
  "m k = None \<Longrightarrow> keys_with (m(k \<mapsto> i)) f value = (if f i = value then insert k (keys_with m f value) else keys_with m f value)"
  by (auto simp: keys_with_def)

lemma keys_with_remove:
  "keys_with (m(k := None)) f value = keys_with m f value - {k}"
  by (auto simp: keys_with_def)

lemma keys_with_other:
  "\<lbrakk>m k = Some i; f i \<noteq> value\<rbrakk> \<Longrightarrow> keys_with m f value - {k} = keys_with m f value"
  by (auto simp: keys_with_def)

lemma keys_with_mem: "m k = Some i \<Longrightarrow> k \<in> keys_with m f (f i)"
  by (auto simp: keys_with_def)

lemma index_follows_add:
  assumes "index_follows m x" "m k = None"
  shows "index_follows (m(k \<mapsto> i)) (index_add x k i)"
proof -
  have "ikeys (index_add x k i) u =
      (if keys_with (m(k \<mapsto> i)) (valueOf x) u = {} then None else Some (keys_with (m(k \<mapsto> i)) (valueOf x) u))" for u
    using assms by (auto simp: index_follows_def index_add_def Let_def keys_with_add [of m k, OF assms(2)])
  then show ?thesis by (simp add: index_follows_def fun_eq_iff)
qed

lemma index_follows_remove:
  assumes "index_follows m x" "m k = Some i"
  shows "index_follows (m(k := None)) (index_remove x k i)"
proof -
  have "ikeys (index_remove x k i) u =
      (if keys_with m (valueOf x) u - {k} = {} then None else Some (keys_with m (valueOf x) u - {k}))" for u
    using assms(1) keys_with_mem [of m k i "valueOf x", OF assms(2)] keys_with_other [of m k i "valueOf x" u, OF assms(2)]
    by (auto simp: index_follows_def index_remove_def Let_def)
  then show ?thesis by (simp add: index_follows_def fun_eq_iff keys_with_remove)
qed

lemma index_add_again:
  assumes "index_follows m x" "m k = Some i"
  shows "index_add x k i = x"
proof -
  have "ikeys x (valueOf x i) = Some (keys_with m (valueOf x) (valueOf x i))"
    using assms keys_with_mem [of m k i "valueOf x", OF assms(2)] by (auto simp: index_follows_def)
  moreover have "insert k (keys_with m (valueOf x) (valueOf x i)) = keys_with m (valueOf x) (valueOf x i)"
    using keys_with_mem [of m k i "valueOf x", OF assms(2)] by auto
  ultimately show ?thesis by (simp add: index_add_def Let_def fun_upd_idem)
qed

interpretation ix: indexer index_add index_remove index_follows
  by unfold_locales (simp_all add: index_follows_add index_follows_remove index_add_again)

section \<open>Compaction\<close>

definition renumber :: "nat \<Rightarrow> ('k \<times> 'i inMemoryEntry) list \<Rightarrow> ('k \<times> 'i inMemoryEntry) list" where
  "renumber p es = map (\<lambda>(j, k, e). (k, e\<lparr>position := j\<rparr>)) (enumerate p es)"

lemma renumber_simps [simp]:
  "renumber p [] = []"
  "renumber p ((k, e) # es) = (k, e\<lparr>position := p\<rparr>) # renumber (Suc p) es"
  by (simp_all add: renumber_def)

lemma fst_renumber [simp]: "map fst (renumber p es) = map fst es"
  by (induction es arbitrary: p) auto

lemma fst_set_renumber [simp]: "fst ` set (renumber p es) = fst ` set es"
  using fst_renumber [of p es] by (metis list.set_map)

lemma compact_loop_live:
  assumes "length ks \<le> p"
  shows "compact_loop es ks p keys =
    (es ++ map_of (renumber (length ks) (live_from es p keys)), ks @ map fst (live_from es p keys))"
  using assms
proof (induction keys arbitrary: es ks p)
  case (Cons key keys)
  show ?case
  proof (cases "live es (p, key)")
    case True
    then obtain e where e: "es key = Some e" "position e = p" by (auto simp: live_def split: option.splits)
    let ?e = "e\<lparr>position := length ks\<rparr>" and ?rest = "live_from es (Suc p) keys"
    have same: "live_from (es(key \<mapsto> ?e)) (Suc p) keys = ?rest"
      using e Cons.prems by (intro live_from_cong) (auto simp: live_def in_set_enumerate_eq split: if_splits)
    have "key \<notin> dom (map_of (renumber (Suc (length ks)) ?rest))"
      using e by (auto simp: dom_map_of_conv_image_fst live_from_mem)
    then have "es(key \<mapsto> ?e) ++ map_of (renumber (Suc (length ks)) ?rest) =
        es ++ map_of (renumber (length ks) (live_from es p (key # keys)))"
      using e by (simp add: map_add_upd_left)
    moreover have "compact_loop (es(key \<mapsto> ?e)) (ks @ [key]) (Suc p) keys =
        (es(key \<mapsto> ?e) ++ map_of (renumber (Suc (length ks)) ?rest), ks @ key # map fst ?rest)"
      using Cons.prems same by (subst Cons.IH) simp_all
    ultimately show ?thesis using e by (simp del: map_of.simps)
  next
    case False
    then have "compact_loop es ks p (key # keys) = compact_loop es ks (p + 1) keys"
      and "live_from es p (key # keys) = live_from es (p + 1) keys"
      by (auto simp: live_def split: option.splits)
    then show ?thesis using Cons.IH [of ks "p + 1" es] Cons.prems by simp
  qed
qed simp

lemma live_from_renumbered:
  assumes "distinct (map fst es)"
  shows "live_from (m ++ map_of (renumber p es)) p (map fst es) = renumber p es"
  using assms
proof (induction es arbitrary: m p)
  case (Cons ke es)
  obtain k e where ke: "ke = (k, e)" by (cases ke)
  have "k \<notin> fst ` set (renumber (Suc p) es)" using Cons.prems ke by simp
  then have upd: "m ++ map_of (renumber p (ke # es)) = m(k \<mapsto> e\<lparr>position := p\<rparr>) ++ map_of (renumber (Suc p) es)"
    using ke by (simp add: map_add_upd_left dom_map_of_conv_image_fst)
  define m' where "m' = m ++ map_of (renumber p (ke # es))"
  have "m' k = Some (e\<lparr>position := p\<rparr>)" using ke by (simp add: m'_def)
  moreover have "live_from m' (Suc p) (map fst es) = renumber (Suc p) es"
    unfolding m'_def upd using Cons.prems by (subst Cons.IH) simp_all
  ultimately have "live_from m' p (map fst (ke # es)) = renumber p (ke # es)" using ke by simp
  then show ?case by (simp only: m'_def)
qed simp

lemma live_from_compact_loop:
  assumes "compact_loop es [] 0 keys = (es', ks)"
  shows "live_from es' 0 ks = renumber 0 (live_from es 0 keys)"
    and "ks = map fst (live_from es 0 keys)"
    and "es' = es ++ map_of (renumber 0 (live_from es 0 keys))"
  using assms live_from_renumbered [OF distinct_live_from, of es 0 es 0 keys] by (simp_all add: compact_loop_live)

section \<open>The invariant\<close>

definition items_of :: "('k \<rightharpoonup> 'i inMemoryEntry) \<Rightarrow> 'k \<rightharpoonup> 'i" where
  "items_of es = (\<lambda>k. map_option item (es k))"

definition placed :: "'k list \<Rightarrow> ('k \<rightharpoonup> 'i inMemoryEntry) \<Rightarrow> bool" where
  "placed ks es \<longleftrightarrow> (\<forall>k e. es k = Some e \<longrightarrow> position e < length ks \<and> ks ! position e = k)"

text \<open>
  Every entry lies at its own position, the gaps stay within the bound of \<open>compact\<close>, and every index
  holds exactly the keys of the items.
\<close>

definition view_ok :: "('k, 'i, 'v) InMemoryView \<Rightarrow> bool" where
  "view_ok v \<longleftrightarrow> finite (dom (ventries v)) \<and> placed (vorder v) (ventries v)
     \<and> length (vorder v) < 2 * card (dom (ventries v)) + 16
     \<and> list_all (index_follows (items_of (ventries v))) (vindexes v)"

lemma view_okD:
  assumes "view_ok v"
  shows "finite (dom (ventries v))" "placed (vorder v) (ventries v)"
    "length (vorder v) < 2 * card (dom (ventries v)) + 16"
    "list_all (index_follows (items_of (ventries v))) (vindexes v)"
  using assms by (auto simp: view_ok_def)

lemma items_of_upd [simp]:
  "items_of (es(k \<mapsto> e)) = (items_of es)(k \<mapsto> item e)" "items_of (es(k := None)) = (items_of es)(k := None)"
  by (auto simp: items_of_def)

lemma placed_live: "placed ks es \<Longrightarrow> (k, e) \<in> set (live_from es 0 ks) \<longleftrightarrow> es k = Some e"
  by (auto simp: placed_def live_from_mem)

lemma map_of_live: "placed ks es \<Longrightarrow> map_of (live_from es 0 ks) k = es k"
  using placed_live [of ks es k] map_of_eq_Some_iff [OF distinct_live_from, of es 0 ks k]
  by (cases "es k"; cases "map_of (live_from es 0 ks) k") auto

lemma placed_keys: "placed ks es \<Longrightarrow> fst ` set (live_from es 0 ks) = dom es"
  using placed_live [of ks es] by (force simp: image_iff)

lemma length_live:
  assumes "placed ks es"
  shows "length (live_from es 0 ks) = card (dom es)"
  using placed_keys [OF assms] distinct_card [OF distinct_live_from, of es 0 ks] by simp

lemma placed_add:
  assumes "placed ks es" "position e = length ks"
  shows "placed (ks @ [k]) (es(k \<mapsto> e))"
  using assms by (auto simp: placed_def nth_append less_Suc_eq)

lemma placed_change: "\<lbrakk>placed ks es; es k = Some e; position e' = position e\<rbrakk> \<Longrightarrow> placed ks (es(k \<mapsto> e'))"
  by (auto simp: placed_def)

lemma placed_delete: "placed ks es \<Longrightarrow> placed ks (es(k := None))"
  by (auto simp: placed_def)

lemma length_renumber [simp]: "length (renumber p es) = length es"
  by (simp add: renumber_def)

lemma nth_renumber: "j < length es \<Longrightarrow> renumber p es ! j = (fst (es ! j), (snd (es ! j))\<lparr>position := p + j\<rparr>)"
  by (simp add: renumber_def nth_enumerate_eq split: prod.split)

lemma renumber_mem:
  assumes "(k, e) \<in> set (renumber p es)"
  shows "\<exists>j < length es. fst (es ! j) = k \<and> position e = p + j"
  using assms by (auto simp: in_set_conv_nth nth_renumber)

lemma map_of_renumber: "map_option item (map_of (renumber p es) k) = map_option item (map_of es k)"
  by (induction es arbitrary: p) auto

lemma compact_loop_placed:
  assumes "placed keys es" "compact_loop es [] 0 keys = (es', ks)"
  shows "placed ks es'" "items_of es' = items_of es" "dom es' = dom es" "length ks = card (dom es)"
proof -
  let ?L = "live_from es 0 keys"
  note loop = live_from_compact_loop [OF assms(2)]
  have es': "es' k = map_of (renumber 0 ?L) k" for k
    using map_of_live [OF assms(1), of k] loop(3) map_of_renumber [of 0 ?L k]
    by (cases "map_of (renumber 0 ?L) k") (auto simp: map_add_def)
  show "placed ks es'"
    using loop(2) by (auto simp: placed_def es' dest!: map_of_SomeD renumber_mem)
  show items: "items_of es' = items_of es"
    by (simp add: items_of_def es' map_of_renumber map_of_live [OF assms(1)])
  show "dom es' = dom es"
    using arg_cong [OF items, of dom] by (simp add: items_of_def dom_def)
  show "length ks = card (dom es)" using loop(2) length_live [OF assms(1)] by simp
qed

end
