(* ===== verification/View_Contents.thy ===== *)
theory View_Contents
  imports In_Memory_View
begin

text \<open>
  What the view in memory promises: its contents are a list of keys, each with its item and the event
  that changed it last, in the order of insertion. Adding appends to the list, changing replaces in
  place, and deleting removes. The map of entries, the order with its gaps, the compaction and the
  indexes implement that list, for every sequence of operations.
\<close>

section \<open>The abstract contents\<close>

type_synonym ('k, 'i) contents = "('k \<times> 'i \<times> 64 word \<times> int) list"

definition row_of :: "'i inMemoryEntry \<Rightarrow> 'i \<times> 64 word \<times> int" where
  "row_of e = (item e, erevision e, epart e)"

definition rows :: "('k, 'i, 'v) InMemoryView \<Rightarrow> ('k, 'i) contents" where
  "rows v = map (\<lambda>(k, e). (k, row_of e)) (live_from (ventries v) 0 (vorder v))"

definition spec_newer :: "appliedEvent \<Rightarrow> 'i \<times> 64 word \<times> int \<Rightarrow> bool" where
  "spec_newer event r =
     (case r of (i, number, part) \<Rightarrow> number < anumber event \<or> number = anumber event \<and> part < apart event)"

definition spec_put :: "('k, 'i, 'v) InMemoryView \<Rightarrow> 'k \<Rightarrow> 'i \<Rightarrow> appliedEvent \<Rightarrow> ('k, 'i) contents \<Rightarrow> ('k, 'i) contents" where
  "spec_put c key i event rs = AList.update key (with_revision c i (aid event), anumber event, apart event) rs"

definition changed_item :: "('k, 'i, 'v) InMemoryView \<Rightarrow> ('i \<Rightarrow> 'i) \<Rightarrow> 'i \<Rightarrow> 'i" where
  "changed_item c change i = change (case vclone c of Some f \<Rightarrow> f i | None \<Rightarrow> i)"

definition spec_change ::
  "('k \<Rightarrow> string) \<Rightarrow> ('k, 'i, 'v) InMemoryView \<Rightarrow> 'k \<Rightarrow> appliedEvent \<Rightarrow> ('i \<Rightarrow> 'i) \<Rightarrow> ('k, 'i) contents \<Rightarrow>
   (goerr + Outcome) \<times> ('k, 'i) contents" where
  "spec_change showKey c key event change rs =
     (case map_of rs key of
        None \<Rightarrow> (Inr Missing, rs)
      | Some r \<Rightarrow>
          if \<not> spec_newer event r then (Inr AlreadyApplied, rs)
          else if keyOf c (changed_item c change (fst r)) \<noteq> key then
            (Inl (Errorf [W (Sentinel ErrPermanent),
               Lit ('': event '' @ aid event @ '' changes the key of an item from '' @ showKey key @ '' to '' @
                    showKey (keyOf c (changed_item c change (fst r))))]), rs)
          else (Inr Applied, spec_put c key (changed_item c change (fst r)) event rs))"

definition spec_delete :: "'k \<Rightarrow> appliedEvent \<Rightarrow> ('k, 'i) contents \<Rightarrow> Outcome \<times> ('k, 'i) contents" where
  "spec_delete key event rs =
     (case map_of rs key of
        None \<Rightarrow> (Missing, rs)
      | Some r \<Rightarrow> if spec_newer event r then (Applied, AList.delete key rs) else (AlreadyApplied, rs))"

definition spec_insert ::
  "('k \<Rightarrow> string) \<Rightarrow> ('k, 'i, 'v) InMemoryView \<Rightarrow> appliedEvent \<Rightarrow> 'i \<Rightarrow> ('k, 'i) contents \<Rightarrow>
   (goerr + Outcome) \<times> ('k, 'i) contents" where
  "spec_insert showKey c event i rs =
     (case map_of rs (keyOf c i) of
        None \<Rightarrow> (Inr Added, spec_put c (keyOf c i) i event rs)
      | Some r \<Rightarrow>
          if spec_newer event r then
            (Inl (Errorf [W (Sentinel ErrPermanent),
               Lit ('': event '' @ aid event @ '' inserts an item with the key '' @ showKey (keyOf c i) @ '', which is already taken'')]), rs)
          else (Inr AlreadyApplied, rs))"

definition spec_upsert ::
  "('k \<Rightarrow> string) \<Rightarrow> 'i \<Rightarrow> ('k, 'i, 'v) InMemoryView \<Rightarrow> 'k \<Rightarrow> appliedEvent \<Rightarrow> ('i \<Rightarrow> 'i) \<Rightarrow> ('k, 'i) contents \<Rightarrow>
   (goerr + Outcome) \<times> ('k, 'i) contents" where
  "spec_upsert showKey zero c key event change rs =
     (if map_of rs key \<noteq> None then spec_change showKey c key event change rs
      else if keyOf c (change zero) \<noteq> key then
        (Inl (Errorf [W (Sentinel ErrPermanent),
           Lit ('': event '' @ aid event @ '' upserts an item with the key '' @ showKey (keyOf c (change zero)) @
                '' under the key '' @ showKey key)]), rs)
      else (Inr Added, spec_put c key (change zero) event rs))"

fun spec_change_all ::
  "('k \<Rightarrow> string) \<Rightarrow> ('k, 'i, 'v) InMemoryView \<Rightarrow> int \<Rightarrow> 'k list \<Rightarrow> appliedEvent \<Rightarrow> ('i \<Rightarrow> 'i) \<Rightarrow> ('k, 'i) contents \<Rightarrow>
   (int \<times> goerr option) \<times> ('k, 'i) contents" where
  "spec_change_all showKey c n [] event change rs = ((n, None), rs)"
| "spec_change_all showKey c n (key # keys) event change rs =
     (case spec_change showKey c key event change rs of
        (Inl err, rs') \<Rightarrow> ((n, Some err), rs')
      | (Inr outcome, rs') \<Rightarrow> spec_change_all showKey c (if outcome = Applied then n + 1 else n) keys event change rs')"

definition spec_delete_where :: "('i \<Rightarrow> bool) \<Rightarrow> appliedEvent \<Rightarrow> ('k, 'i) contents \<Rightarrow> (int \<times> goerr option) \<times> ('k, 'i) contents" where
  "spec_delete_where match event rs =
     ((int (length (filter (\<lambda>(k, r). match (fst r) \<and> spec_newer event r) rs)), None),
      filter (\<lambda>(k, r). \<not> (match (fst r) \<and> spec_newer event r)) rs)"

definition keys_matching :: "('i \<Rightarrow> bool) \<Rightarrow> ('k, 'i) contents \<Rightarrow> 'k list" where
  "keys_matching match rs = map fst (filter (\<lambda>(k, r). match (fst r)) rs)"

section \<open>The view and its contents\<close>

definition same_config :: "('k, 'i, 'v) InMemoryView \<Rightarrow> ('k, 'i, 'v) InMemoryView \<Rightarrow> bool" where
  "same_config c v \<longleftrightarrow> keyOf v = keyOf c \<and> revisionIn v = revisionIn c \<and> vclone v = vclone c"

text \<open>The relation between the configuration of a view, the view, and its contents.\<close>

definition holds_rows :: "('k, 'i, 'v) InMemoryView \<Rightarrow> ('k, 'i, 'v) InMemoryView \<Rightarrow> ('k, 'i) contents \<Rightarrow> bool" where
  "holds_rows c v rs \<longleftrightarrow> view_ok v \<and> same_config c v \<and> rs = rows v"

lemma isNewerThan_row: "isNewerThan event e = spec_newer event (row_of e)"
  by (auto simp: isNewerThan_def spec_newer_def row_of_def)

lemma map_of_rows: "placed (vorder v) (ventries v) \<Longrightarrow> map_of (rows v) k = map_option row_of (ventries v k)"
  by (simp add: rows_def map_of_map map_of_live comp_def)

lemma distinct_rows: "distinct (map fst (rows v))"
proof -
  have "map fst (rows v) = map fst (live_from (ventries v) 0 (vorder v))" by (auto simp: rows_def)
  then show ?thesis by (simp add: distinct_live_from)
qed

lemma AList_update_absent: "map_of rs k = None \<Longrightarrow> AList.update k r rs = rs @ [(k, r)]"
  by (induction rs) (auto split: if_splits)

lemma AList_update_present:
  "\<lbrakk>distinct (map fst rs); map_of rs k = Some r0\<rbrakk> \<Longrightarrow> AList.update k r rs = map (\<lambda>(k', r'). (k', if k' = k then r else r')) rs"
proof (induction rs)
  case (Cons kr rs)
  have "map (\<lambda>(k', r'). (k', if k' = k then r else r')) rs = rs" if "k \<notin> fst ` set rs"
    using that by (intro map_idI) force
  then show ?case using Cons by (cases kr) (auto split: if_splits)
qed simp

lemma holds_rowsD:
  assumes "holds_rows c v rs"
  shows "view_ok v" "keyOf v = keyOf c" "revisionIn v = revisionIn c" "vclone v = vclone c" "rs = rows v"
    "map_of rs k = map_option row_of (ventries v k)" "distinct (map fst rs)"
  using assms by (auto simp: holds_rows_def same_config_def map_of_rows distinct_rows dest: view_okD(2))

lemma items_of_at: "items_of es k = map_option item (es k)"
  by (simp add: items_of_def)

lemma holds_add:
  assumes "holds_rows c v rs" "ventries v key = None"
  shows "holds_rows c (view_add key i event v) (spec_put c key i event rs)"
proof -
  note ok = view_okD [OF holds_rowsD(1) [OF assms(1)]]
  have "map_of rs key = None" using holds_rowsD(6) [OF assms(1), of key] assms(2) by simp
  then have "spec_put c key i event rs = rows (view_add key i event v)"
    using assms holds_rowsD(5) [OF assms(1)] holds_rowsD(3) [OF assms(1)]
      live_from_add [of "ventries v" key _ _ _ 0 "vorder v"]
    by (simp add: spec_put_def AList_update_absent rows_def view_add_def Let_def row_of_def with_revision_def)
  moreover have "view_ok (view_add key i event v)"
    using ok assms(2) ix.all_add [OF ok(4), of key "with_revision v i (aid event)"]
    by (simp add: view_ok_def view_add_def Let_def items_of_at placed_add card_insert_if domIff)
  ultimately show ?thesis
    using assms(1) by (simp add: holds_rows_def same_config_def view_add_def Let_def)
qed

lemma dom_upd_present: "es k = Some e \<Longrightarrow> dom (es(k \<mapsto> e')) = dom es"
  by (auto split: if_splits)

lemma holds_change:
  assumes "holds_rows c v rs"
  shows "rel_prod (=) (holds_rows c) (view_change showKey key event change v) (spec_change showKey c key event change rs)"
proof (cases "ventries v key")
  case None
  then show ?thesis
    using assms holds_rowsD(6) [OF assms, of key] by (simp add: view_change_def spec_change_def)
next
  case (Some e)
  note D = holds_rowsD [OF assms] and ok = view_okD [OF holds_rowsD(1) [OF assms]]
  have at_key: "map_of rs key = Some (row_of e)" using D(6) [of key] Some by simp
  let ?new = "changed_item c change (item e)"
  let ?i = "with_revision v ?new (aid event)"
  let ?e = "e\<lparr>item := ?i, erevision := anumber event, epart := apart event\<rparr>"
  let ?v = "v\<lparr>ventries := (ventries v)(key \<mapsto> ?e),
              vindexes := map (\<lambda>x. index_add (index_remove x key (item e)) key ?i) (vindexes v)\<rparr>"
  have "spec_put c key ?new event rs = rows ?v"
    using D(3,5) at_key Some AList_update_present [OF D(7) at_key] live_from_change [of "ventries v" key e ?e, OF Some]
    by (auto simp: spec_put_def rows_def row_of_def with_revision_def)
  moreover have "view_ok ?v"
    using ok Some ix.all_change [OF ok(4), of key "item e" ?i] dom_upd_present [of "ventries v" key e ?e, OF Some]
    by (simp add: view_ok_def items_of_at placed_change)
  ultimately have "holds_rows c ?v (spec_put c key ?new event rs)"
    using assms by (simp add: holds_rows_def same_config_def)
  then show ?thesis
    using assms Some at_key D(2,4)
    by (simp add: view_change_def spec_change_def isNewerThan_row changed_item_def Let_def row_of_def [of e])
qed

lemma rows_renumber: "map (\<lambda>(k, e). (k, row_of e)) (renumber p es) = map (\<lambda>(k, e). (k, row_of e)) es"
  by (induction es arbitrary: p) (auto simp: row_of_def)

lemma compact_ok:
  assumes "finite (dom (ventries v))" "placed (vorder v) (ventries v)"
    "list_all (index_follows (items_of (ventries v))) (vindexes v)"
  shows "view_ok (compact v)" "rows (compact v) = rows v" "same_config c (compact v) = same_config c v"
proof -
  obtain es ks where loop: "compact_loop (ventries v) [] 0 (vorder v) = (es, ks)" by fastforce
  note placed = compact_loop_placed [OF assms(2) loop] and live = live_from_compact_loop [OF loop]
  show "view_ok (compact v)" using assms placed loop by (simp add: view_ok_def compact_def)
  show "rows (compact v) = rows v" using loop live(1) by (simp add: rows_def compact_def rows_renumber)
  show "same_config c (compact v) = same_config c v" using loop by (simp add: same_config_def compact_def)
qed

lemma AList_delete_rows:
  "AList.delete k (map (\<lambda>(k, e). (k, row_of e)) es) = map (\<lambda>(k, e). (k, row_of e)) (AList.delete k es)"
  by (induction es) auto

lemma holds_delete:
  assumes "holds_rows c v rs"
  shows "rel_prod (=) (holds_rows c) (view_delete key event v) (spec_delete key event rs)"
proof (cases "ventries v key")
  case None
  then show ?thesis
    using assms holds_rowsD(6) [OF assms, of key] by (simp add: view_delete_def spec_delete_def)
next
  case (Some e)
  note D = holds_rowsD [OF assms] and ok = view_okD [OF holds_rowsD(1) [OF assms]]
  let ?v = "v\<lparr>vindexes := map (\<lambda>x. index_remove x key (item e)) (vindexes v), ventries := (ventries v)(key := None)\<rparr>"
  have rows: "rows ?v = AList.delete key rs"
    using D(5) by (simp add: rows_def live_from_delete AList_delete_rows)
  have "finite (dom (ventries ?v))" "placed (vorder ?v) (ventries ?v)"
    "list_all (index_follows (items_of (ventries ?v))) (vindexes ?v)"
    using ok Some ix.all_remove [OF ok(4), of key "item e"] by (simp_all add: placed_delete items_of_at)
  from compact_ok [OF this] have "holds_rows c (compact ?v) (AList.delete key rs)"
    using rows assms by (simp add: holds_rows_def same_config_def)
  then show ?thesis
    using assms Some D(6) [of key] by (simp add: view_delete_def spec_delete_def isNewerThan_row)
qed

lemma holds_change_all:
  assumes "holds_rows c v rs"
  shows "rel_prod (=) (holds_rows c) (changeAll showKey n keys event change v) (spec_change_all showKey c n keys event change rs)"
  using assms
proof (induction keys arbitrary: n v rs)
  case (Cons key keys)
  obtain r v' where v': "view_change showKey key event change v = (r, v')" by fastforce
  obtain rs' where rs': "spec_change showKey c key event change rs = (r, rs')" "holds_rows c v' rs'"
    using holds_change [OF Cons.prems, of showKey key event change] v' by (auto elim: rel_prod.cases)
  then show ?case using Cons.IH v' by (cases r) simp_all
qed simp

lemma keysWhere_rows: "keysWhere v match = keys_matching match (rows v)"
  by (simp add: keysWhere_def keys_matching_def rows_def filter_map comp_def row_of_def case_prod_unfold)

lemma All_rows: "All v = map (fst \<circ> snd) (rows v)"
  by (auto simp: All_def rows_def row_of_def)

fun spec_delete_all :: "int \<Rightarrow> 'k list \<Rightarrow> appliedEvent \<Rightarrow> ('k, 'i) contents \<Rightarrow> int \<times> ('k, 'i) contents" where
  "spec_delete_all n [] event rs = (n, rs)"
| "spec_delete_all n (key # keys) event rs =
     (case spec_delete key event rs of
        (outcome, rs') \<Rightarrow> spec_delete_all (if outcome = Applied then n + 1 else n) keys event rs')"

lemma holds_delete_all:
  assumes "holds_rows c v rs"
  shows "rel_prod (=) (holds_rows c) (deleteAll n keys event v) (spec_delete_all n keys event rs)"
  using assms
proof (induction keys arbitrary: n v rs)
  case (Cons key keys)
  obtain r v' where v': "view_delete key event v = (r, v')" by fastforce
  obtain rs' where "spec_delete key event rs = (r, rs')" "holds_rows c v' rs'"
    using holds_delete [OF Cons.prems, of key event] v' by (auto elim: rel_prod.cases)
  then show ?case using Cons.IH v' by simp
qed simp

lemma delete_as_filter: "AList.delete k rs = filter (\<lambda>(k', r). k' \<noteq> k) rs"
  by (induction rs) auto

lemma filter_one_key:
  assumes "distinct (map fst rs)" "map_of rs k = Some r"
  shows "filter (\<lambda>(k', r'). k' = k \<and> P r') rs = (if P r then [(k, r)] else [])"
  using assms
proof (induction rs)
  case (Cons kr rs)
  have "filter (\<lambda>(k', r'). k' = k \<and> P r') rs = []" if "k \<notin> fst ` set rs"
    using that by (force simp: filter_empty_conv)
  then show ?case using Cons by (cases kr) (auto split: if_splits)
qed simp

lemma length_filter_split:
  assumes "\<And>x. x \<in> set xs \<Longrightarrow> \<not> (P x \<and> Q x)"
  shows "length (filter (\<lambda>x. P x \<or> Q x) xs) = length (filter P xs) + length (filter Q xs)"
  using assms by (induction xs) auto

lemma spec_delete_all_filter:
  assumes "distinct (map fst rs)" "distinct keys"
  shows "spec_delete_all n keys event rs =
    (n + int (length (filter (\<lambda>(k, r). k \<in> set keys \<and> spec_newer event r) rs)),
     filter (\<lambda>(k, r). \<not> (k \<in> set keys \<and> spec_newer event r)) rs)"
  using assms
proof (induction keys arbitrary: n rs)
  case (Cons key keys)
  let ?rs = "filter (\<lambda>(k, r). \<not> (k = key \<and> spec_newer event r)) rs"
  let ?one = "filter (\<lambda>(k, r). k = key \<and> spec_newer event r) rs"
  have step: "spec_delete_all n (key # keys) event rs = spec_delete_all (n + int (length ?one)) keys event ?rs"
  proof (cases "map_of rs key")
    case None
    then have "?one = []" "?rs = rs" by (force simp: filter_empty_conv filter_id_conv map_of_eq_None_iff)+
    then show ?thesis using None by (simp add: spec_delete_def)
  next
    case (Some r)
    have mem: "r' = r" if "(key, r') \<in> set rs" for r'
      using that Some Cons.prems(1) by (metis eq_key_imp_eq_value map_of_SomeD)
    have "?rs = (if spec_newer event r then AList.delete key rs else rs)"
      using mem by (auto simp: delete_as_filter filter_id_conv intro!: filter_cong)
    moreover have "?one = (if spec_newer event r then [(key, r)] else [])"
      by (rule filter_one_key [OF Cons.prems(1) Some])
    ultimately show ?thesis using Some by (simp add: spec_delete_def)
  qed
  have "distinct (map fst ?rs)" using Cons.prems(1) by (rule distinct_map_filter)
  note IH = Cons.IH [OF this, of "n + int (length ?one)"]
  have disj: "filter (\<lambda>(k, r). k \<in> set (key # keys) \<and> spec_newer event r) rs =
      filter (\<lambda>x. (case x of (k, r) \<Rightarrow> k = key \<and> spec_newer event r) \<or> (case x of (k, r) \<Rightarrow> k \<in> set keys \<and> spec_newer event r)) rs"
    by (rule filter_cong) auto
  have rest: "filter (\<lambda>(k, r). k \<in> set keys \<and> spec_newer event r) ?rs = filter (\<lambda>(k, r). k \<in> set keys \<and> spec_newer event r) rs"
    using Cons.prems(2) by (auto simp: intro!: filter_cong)
  have "length (filter (\<lambda>(k, r). k \<in> set (key # keys) \<and> spec_newer event r) rs) =
      length ?one + length (filter (\<lambda>(k, r). k \<in> set keys \<and> spec_newer event r) rs)"
    unfolding disj by (rule length_filter_split) (use Cons.prems(2) in auto)
  moreover have "filter (\<lambda>(k, r). \<not> (k \<in> set keys \<and> spec_newer event r)) ?rs =
      filter (\<lambda>(k, r). \<not> (k \<in> set (key # keys) \<and> spec_newer event r)) rs"
    by (auto intro!: filter_cong)
  ultimately show ?case using step IH rest Cons.prems(2) by simp
qed simp

lemma keys_matching_mem:
  assumes "distinct (map fst rs)" "(k, r) \<in> set rs"
  shows "k \<in> set (keys_matching match rs) \<longleftrightarrow> match (fst r)"
proof
  assume "k \<in> set (keys_matching match rs)"
  then obtain r' where "(k, r') \<in> set rs" "match (fst r')" by (auto simp: keys_matching_def)
  then show "match (fst r)" using eq_key_imp_eq_value [OF assms(1) assms(2)] by blast
next
  assume "match (fst r)"
  then show "k \<in> set (keys_matching match rs)" using assms(2) by (force simp: keys_matching_def)
qed

lemma distinct_keys_matching: "distinct (map fst rs) \<Longrightarrow> distinct (keys_matching match rs)"
  by (simp add: keys_matching_def distinct_map_filter)

lemma spec_delete_all_where:
  assumes "distinct (map fst rs)"
  shows "spec_delete_all 0 (keys_matching match rs) event rs =
    (case spec_delete_where match event rs of ((n, err), rs') \<Rightarrow> (n, rs'))"
proof -
  let ?P = "\<lambda>(k, r). k \<in> set (keys_matching match rs) \<and> spec_newer event r"
  let ?Q = "\<lambda>(k, r). match (fst r) \<and> spec_newer event r"
  have PQ: "?P x = ?Q x" if "x \<in> set rs" for x
    using that keys_matching_mem [OF assms, of "fst x" "snd x" match] by (simp add: case_prod_unfold)
  have "filter ?P rs = filter ?Q rs" "filter (\<lambda>x. \<not> ?P x) rs = filter (\<lambda>x. \<not> ?Q x) rs"
    using PQ by (metis (no_types, lifting) filter_cong)+
  then show ?thesis
    using spec_delete_all_filter [OF assms distinct_keys_matching [OF assms], of 0 match event]
    by (simp add: spec_delete_where_def case_prod_unfold)
qed

section \<open>Sequences of operations\<close>

datatype ('k, 'i, 'v) view_op =
  OpInsert 'i
| OpUpsert 'k "'i \<Rightarrow> 'i"
| OpUpdate 'k "'i \<Rightarrow> 'i"
| OpDelete 'k
| OpUpdateWhere "'i \<Rightarrow> bool" "'i \<Rightarrow> 'i"
| OpDeleteWhere "'i \<Rightarrow> bool"
| OpSeen
| OpIndex "'i \<Rightarrow> 'v"

datatype op_result = One "goerr + Outcome" | Many int "goerr option" | Done

text \<open>An operation of a handler, with the part and the ID of the event that the handler is given.\<close>

fun run_op ::
  "('k \<Rightarrow> string) \<Rightarrow> 'i \<Rightarrow> part_ctx \<Rightarrow> string \<Rightarrow> ('k, 'i, 'v) view_op \<Rightarrow> ('k, 'i, 'v) InMemoryView \<Rightarrow>
   op_result \<times> ('k, 'i, 'v) InMemoryView" where
  "run_op showKey zero ctx i (OpInsert x) v = map_prod One (\<lambda>v. v) (Insert showKey ctx i x v)"
| "run_op showKey zero ctx i (OpUpsert k f) v = map_prod One (\<lambda>v. v) (Upsert showKey zero ctx k i f v)"
| "run_op showKey zero ctx i (OpUpdate k f) v = map_prod One (\<lambda>v. v) (Update showKey ctx k i f v)"
| "run_op showKey zero ctx i (OpDelete k) v = map_prod One (\<lambda>v. v) (Delete ctx k i v)"
| "run_op showKey zero ctx i (OpUpdateWhere p f) v = map_prod (case_prod Many) (\<lambda>v. v) (UpdateWhere showKey ctx p i f v)"
| "run_op showKey zero ctx i (OpDeleteWhere p) v = map_prod (case_prod Many) (\<lambda>v. v) (DeleteWhere ctx p i v)"
| "run_op showKey zero ctx i OpSeen v = (Done, Seen i v)"
| "run_op showKey zero ctx i (OpIndex f) v = (Done, case Index (Some f) v of Ret v' \<Rightarrow> v' | Panic _ \<Rightarrow> v)"

fun spec_event ::
  "('k \<Rightarrow> string) \<Rightarrow> 'i \<Rightarrow> ('k, 'i, 'v) InMemoryView \<Rightarrow> appliedEvent \<Rightarrow> ('k, 'i, 'v) view_op \<Rightarrow> ('k, 'i) contents \<Rightarrow>
   op_result \<times> ('k, 'i) contents" where
  "spec_event showKey zero c e (OpInsert x) rs = map_prod One (\<lambda>rs. rs) (spec_insert showKey c e x rs)"
| "spec_event showKey zero c e (OpUpsert k f) rs = map_prod One (\<lambda>rs. rs) (spec_upsert showKey zero c k e f rs)"
| "spec_event showKey zero c e (OpUpdate k f) rs = map_prod One (\<lambda>rs. rs) (spec_change showKey c k e f rs)"
| "spec_event showKey zero c e (OpDelete k) rs = map_prod (One \<circ> Inr) (\<lambda>rs. rs) (spec_delete k e rs)"
| "spec_event showKey zero c e (OpUpdateWhere p f) rs =
     map_prod (case_prod Many) (\<lambda>rs. rs) (spec_change_all showKey c 0 (keys_matching p rs) e f rs)"
| "spec_event showKey zero c e (OpDeleteWhere p) rs = map_prod (case_prod Many) (\<lambda>rs. rs) (spec_delete_where p e rs)"
| "spec_event showKey zero c e OpSeen rs = (Done, rs)"
| "spec_event showKey zero c e (OpIndex f) rs = (Done, rs)"

fun op_error :: "('k, 'i, 'v) view_op \<Rightarrow> goerr \<Rightarrow> op_result" where
  "op_error (OpUpdateWhere p f) err = Many 0 (Some err)"
| "op_error (OpDeleteWhere p) err = Many 0 (Some err)"
| "op_error OpSeen err = Done"
| "op_error (OpIndex f) err = Done"
| "op_error _ err = One (Inl err)"

definition spec_op ::
  "('k \<Rightarrow> string) \<Rightarrow> 'i \<Rightarrow> ('k, 'i, 'v) InMemoryView \<Rightarrow> part_ctx \<Rightarrow> string \<Rightarrow> ('k, 'i, 'v) view_op \<Rightarrow> ('k, 'i) contents \<Rightarrow>
   op_result \<times> ('k, 'i) contents" where
  "spec_op showKey zero c ctx i oper rs =
     (case appliedEventOf ctx i of
        Inl err \<Rightarrow> (op_error oper err, rs) | Inr event \<Rightarrow> spec_event showKey zero c event oper rs)"

text \<open>A run of the view, and of its abstract contents, with the results of all operations.\<close>

fun run_ops where
  "run_ops showKey zero [] v = ([], v)"
| "run_ops showKey zero ((ctx, i, oper) # opers) v =
     (case run_op showKey zero ctx i oper v of
        (r, v') \<Rightarrow> map_prod (Cons r) (\<lambda>v. v) (run_ops showKey zero opers v'))"

fun spec_ops where
  "spec_ops showKey zero c [] rs = ([], rs)"
| "spec_ops showKey zero c ((ctx, i, oper) # opers) rs =
     (case spec_op showKey zero c ctx i oper rs of
        (r, rs') \<Rightarrow> map_prod (Cons r) (\<lambda>rs. rs) (spec_ops showKey zero c opers rs'))"

lemma rel_prod_map [simp]:
  "rel_prod (=) R (map_prod f (\<lambda>x. x) p) (map_prod g (\<lambda>x. x) q) \<longleftrightarrow> f (fst p) = g (fst q) \<and> R (snd p) (snd q)"
  by (cases p; cases q) simp

lemma rel_prodD: "rel_prod (=) R p q \<Longrightarrow> fst p = fst q \<and> R (snd p) (snd q)"
  by (cases p; cases q) simp

lemma holds_Seen: "holds_rows c v rs \<Longrightarrow> holds_rows c (Seen i v) rs"
  by (simp add: holds_rows_def Seen_def view_ok_def same_config_def rows_def split: sum.split)

lemma holds_Index:
  assumes "holds_rows c v rs"
  shows "holds_rows c (case Index (Some f) v of Ret v' \<Rightarrow> v' | Panic _ \<Rightarrow> v) rs"
proof -
  note ok = view_okD [OF holds_rowsD(1) [OF assms]]
  let ?m = "items_of (ventries v)" and ?x = "\<lparr>valueOf = f, ikeys = Map.empty\<rparr>"
  let ?fill = "foldl (\<lambda>x key. case ventries v key of Some e \<Rightarrow> index_add x key (item e) | None \<Rightarrow> x) ?x (vorder v)"
  have "dom ?m \<subseteq> set (vorder v)" using ok(2) by (force simp: placed_def items_of_def)
  then have "?m k = None" if "k \<notin> set (vorder v)" for k using that by (meson domIff subsetD)
  then have "?m |` ({} \<union> set (vorder v)) = ?m" by (simp add: restrict_map_def fun_eq_iff)
  moreover have "index_follows (?m |` {}) ?x" by (simp add: index_follows_def keys_with_def)
  moreover have "?fill = foldl (\<lambda>x k. case ?m k of Some i \<Rightarrow> index_add x k i | None \<Rightarrow> x) ?x (vorder v)"
    by (rule arg_cong [where f = "\<lambda>g. foldl g ?x (vorder v)"]) (auto simp: items_of_def fun_eq_iff split: option.split)
  ultimately have "index_follows ?m ?fill"
    using ix.follows_fill [of ?m "{}" ?x "vorder v"] by (simp only:)
  then show ?thesis
    using assms by (simp add: Index_def holds_rows_def view_ok_def same_config_def rows_def)
qed

lemma holds_op:
  assumes "holds_rows c v rs"
  shows "rel_prod (=) (holds_rows c) (run_op showKey zero ctx i oper v) (spec_op showKey zero c ctx i oper rs)"
proof (cases "appliedEventOf ctx i")
  case (Inl err)
  then show ?thesis
    using assms Inl holds_Seen [OF assms, of i] holds_Index [OF assms]
    by (cases oper) (simp_all add: spec_op_def Insert_def Upsert_def Update_def Delete_def UpdateWhere_def DeleteWhere_def)
next
  case (Inr event)
  note D = holds_rowsD [OF assms]
  have at: "map_of rs k = map_option row_of (ventries v k)" for k by (rule holds_rowsD(6) [OF assms])
  note change = rel_prodD [OF holds_change [OF assms, of showKey _ event]]
    and change_all = rel_prodD [OF holds_change_all [OF assms, of showKey 0 _ event]]
    and delete = rel_prodD [OF holds_delete [OF assms, of _ event]]
    and delete_all = rel_prodD [OF holds_delete_all [OF assms, of 0 _ event]]
  show ?thesis
  proof (cases oper)
    case (OpInsert x)
    then show ?thesis
      using assms Inr at [of "keyOf c x"] holds_add [OF assms, of "keyOf c x" x event] D(2)
      by (cases "ventries v (keyOf c x)") (simp_all add: spec_op_def Insert_def spec_insert_def isNewerThan_row Let_def)
  next
    case (OpUpsert k f)
    then show ?thesis
      using assms Inr at [of k] change [of k f] holds_add [OF assms, of k "f zero" event] D(2)
      by (cases "ventries v k") (simp_all add: spec_op_def Upsert_def spec_upsert_def Let_def)
  next
    case (OpUpdate k f)
    then show ?thesis using Inr change [of k f] by (simp add: spec_op_def Update_def)
  next
    case (OpDelete k)
    then show ?thesis using Inr delete [of k]
      by (cases "spec_delete k event rs"; cases "view_delete k event v") (simp add: spec_op_def Delete_def)
  next
    case (OpUpdateWhere p f)
    then show ?thesis
      using Inr change_all [of "keys_matching p rs" f] D(5) by (simp add: spec_op_def UpdateWhere_def keysWhere_rows)
  next
    case (OpDeleteWhere p)
    then show ?thesis
      using Inr delete_all [of "keys_matching p rs"] D(5) spec_delete_all_where [OF D(7), of p event]
      by (simp add: spec_op_def DeleteWhere_def keysWhere_rows case_prod_unfold spec_delete_where_def)
  next
    case OpSeen
    then show ?thesis using Inr holds_Seen [OF assms, of i] by (simp add: spec_op_def)
  next
    case (OpIndex f)
    then show ?thesis using Inr holds_Index [OF assms, of f] by (simp add: spec_op_def)
  qed
qed

lemma holds_ops:
  assumes "holds_rows c v rs"
  shows "rel_prod (=) (holds_rows c) (run_ops showKey zero opers v) (spec_ops showKey zero c opers rs)"
  using assms
proof (induction showKey zero opers v arbitrary: rs rule: run_ops.induct)
  case (2 showKey zero ctx i oper opers v)
  obtain r v' where v': "run_op showKey zero ctx i oper v = (r, v')" by fastforce
  obtain rs' where "spec_op showKey zero c ctx i oper rs = (r, rs')" "holds_rows c v' rs'"
    using holds_op [OF 2(2), of showKey zero ctx i oper] v' by (auto elim: rel_prod.cases)
  then show ?case using rel_prodD [OF 2(1) [OF v' [symmetric]]] v' by simp
qed simp

lemma holds_new:
  assumes "NewInMemoryView f options = Ret v"
  shows "holds_rows v v []"
  using assms
  by (auto simp: NewInMemoryView_def holds_rows_def view_ok_def same_config_def rows_def placed_def
      go_bind_eq_Ret split: option.splits)

section \<open>Indexes find what a scan finds\<close>

lemma sorted_live: "sorted (map (position \<circ> snd) (live_from es p ks))"
proof (induction ks arbitrary: p)
  case (Cons k ks)
  have "p \<le> position e" if "(k', e) \<in> set (live_from es (Suc p) ks)" for k' e
    using that by (auto simp: live_from_mem)
  then show ?case using Cons [of "Suc p"] by (auto split: option.split)
qed simp

lemma sort_key_unique:
  assumes "sorted (map f ys)" "set ys = set xs" "distinct xs" "distinct ys" "inj_on f (set xs)"
  shows "sort_key f xs = ys"
proof -
  have "distinct (map f (sort_key f xs))" "distinct (map f ys)" using assms by (simp_all add: distinct_map)
  then have "map f (sort_key f xs) = map f ys"
    using assms(1,2) by (intro sorted_distinct_set_unique) simp_all
  then show ?thesis using assms(2,5) by (intro map_inj_on [of f]) simp_all
qed

lemma placed_inj: "placed ks es \<Longrightarrow> inj_on (\<lambda>k. position (the (es k))) (dom es)"
  by (rule inj_on_inverseI [where g = "(!) ks"]) (auto simp: placed_def)

lemma keysOf_keysWhere:
  assumes "view_ok v" "x \<in> set (vindexes v)"
    and ranging: "\<And>S. finite S \<Longrightarrow> set (ranging S) = S \<and> distinct (ranging S)"
  shows "keysOf ranging v x u = keysWhere v (\<lambda>i. valueOf x i = u)"
proof -
  note ok = view_okD [OF assms(1)]
  let ?es = "ventries v" and ?L = "live_from (ventries v) 0 (vorder v)"
  let ?K = "keys_with (items_of ?es) (valueOf x) u" and ?pos = "\<lambda>k. position (the (ventries v k))"
  let ?F = "filter (\<lambda>(k, e). valueOf x (item e) = u) ?L"
  have "index_follows (items_of ?es) x" using ok(4) assms(2) by (auto simp: list_all_iff)
  then have K: "(case ikeys x u of Some ks \<Rightarrow> ks | None \<Rightarrow> {}) = ?K" by (simp add: index_follows_def)
  have sub: "?K \<subseteq> dom ?es" by (auto simp: keys_with_def items_of_def)
  have set_F: "fst ` set ?F = ?K"
    using placed_live [OF ok(2)] by (force simp: keys_with_def items_of_def)
  have "map ?pos (map fst ?F) = map (position \<circ> snd) ?F"
    using placed_live [OF ok(2)] by (auto simp: )
  then have "sorted (map ?pos (map fst ?F))" by (simp only: sorted_filter [OF sorted_live])
  moreover have "distinct (map fst ?F)" by (rule distinct_map_filter [OF distinct_live_from])
  moreover have "set (ranging ?K) = ?K" "distinct (ranging ?K)"
    using ranging finite_subset [OF sub ok(1)] by auto
  ultimately have "sort_key ?pos (ranging ?K) = map fst ?F"
    using set_F inj_on_subset [OF placed_inj [OF ok(2)] sub] by (intro sort_key_unique) simp_all
  then show ?thesis by (simp add: keysOf_def K keysWhere_def)
qed

lemma items_keysWhere:
  assumes "view_ok v"
  shows "map (\<lambda>k. item (the (ventries v k))) (keysWhere v match) = filter match (All v)"
proof -
  have "map (\<lambda>k. item (the (ventries v k))) (keysWhere v match) =
      map (item \<circ> snd) (filter (\<lambda>(k, e). match (item e)) (live_from (ventries v) 0 (vorder v)))"
    using placed_live [OF view_okD(2) [OF assms]] by (auto simp: keysWhere_def)
  then show ?thesis by (simp add: All_def filter_map comp_def case_prod_unfold)
qed

text \<open>A view that a program can have: some operations have run on a new view.\<close>

definition reached :: "('k, 'i, 'v) InMemoryView \<Rightarrow> ('k, 'i, 'v) InMemoryView \<Rightarrow> bool" where
  "reached c v \<longleftrightarrow> (\<exists>f options showKey zero opers rs.
     NewInMemoryView f options = Ret c \<and> run_ops showKey zero opers c = (rs, v))"

lemma reached_holds:
  assumes "reached c v"
  shows "holds_rows c v (rows v)"
proof -
  obtain f options showKey zero opers rs where new: "NewInMemoryView f options = Ret c"
    and run: "run_ops showKey zero opers c = (rs, v)"
    using assms by (auto simp: reached_def)
  have "holds_rows c v (snd (spec_ops showKey zero c opers []))"
    using rel_prodD [OF holds_ops [OF holds_new [OF new], of showKey zero opers]] run by simp
  then show ?thesis by (simp add: holds_rows_def)
qed

section \<open>Every item has a key of its own\<close>

definition keyed_rows :: "('i \<Rightarrow> 'k) \<Rightarrow> ('k, 'i) contents \<Rightarrow> bool" where
  "keyed_rows f rs \<longleftrightarrow> (\<forall>(k, r) \<in> set rs. f (fst r) = k)"

lemma set_AList_update: "set (AList.update k r rs) \<subseteq> insert (k, r) (set rs)"
  by (induction rs) auto

lemma keyed_put:
  assumes "\<And>i s. keyOf c (with_revision c i s) = keyOf c i" "keyOf c i = k" "keyed_rows (keyOf c) rs"
  shows "keyed_rows (keyOf c) (spec_put c k i e rs)"
  using assms set_AList_update [of k "(with_revision c i (aid e), anumber e, apart e)" rs]
  by (auto simp: keyed_rows_def spec_put_def)

lemma keyed_change:
  assumes "\<And>i s. keyOf c (with_revision c i s) = keyOf c i" "keyed_rows (keyOf c) rs"
  shows "keyed_rows (keyOf c) (snd (spec_change showKey c k e f rs))"
  using assms keyed_put [OF assms(1) _ assms(2)] by (auto simp: spec_change_def split: option.split)

lemma keyed_change_all:
  assumes "\<And>i s. keyOf c (with_revision c i s) = keyOf c i" "keyed_rows (keyOf c) rs"
  shows "keyed_rows (keyOf c) (snd (spec_change_all showKey c n ks e f rs))"
  using assms(2)
proof (induction ks arbitrary: n rs)
  case (Cons k ks)
  obtain r rs' where rs': "spec_change showKey c k e f rs = (r, rs')" by fastforce
  then have "keyed_rows (keyOf c) rs'" using keyed_change [OF assms(1) Cons.prems, of showKey k e f] by simp
  then show ?case using Cons.IH rs' by (cases r) simp_all
qed simp

lemma keyed_filter: "keyed_rows f rs \<Longrightarrow> keyed_rows f (filter P rs)"
  by (auto simp: keyed_rows_def)

lemma keyed_op:
  assumes "\<And>i s. keyOf c (with_revision c i s) = keyOf c i" "keyed_rows (keyOf c) rs"
  shows "keyed_rows (keyOf c) (snd (spec_op showKey zero c ctx i oper rs))"
proof (cases "appliedEventOf ctx i")
  case (Inr e)
  show ?thesis
    using keyed_put [OF assms(1) _ assms(2)] keyed_change [OF assms] keyed_change_all [OF assms]
      keyed_filter [OF assms(2)] assms(2) Inr
    by (cases oper)
      (auto simp: spec_op_def spec_insert_def spec_upsert_def spec_delete_def spec_delete_where_def
        delete_as_filter split: option.split)
qed (simp add: spec_op_def assms(2))

lemma keyed_ops:
  assumes "\<And>i s. keyOf c (with_revision c i s) = keyOf c i" "keyed_rows (keyOf c) rs"
  shows "keyed_rows (keyOf c) (snd (spec_ops showKey zero c opers rs))"
  using assms(2)
proof (induction opers arbitrary: rs)
  case (Cons step opers)
  obtain ctx i oper where step: "step = (ctx, i, oper)" by (cases step)
  obtain r rs' where rs': "spec_op showKey zero c ctx i oper rs = (r, rs')" by fastforce
  then have "keyed_rows (keyOf c) rs'" using keyed_op [OF assms(1) Cons.prems, of showKey zero ctx i oper] by simp
  then show ?case using Cons.IH step rs' by simp
qed simp

section \<open>Applying an event twice\<close>

definition settled :: "('k, 'i, 'v) InMemoryView \<Rightarrow> appliedEvent \<Rightarrow> 'k \<Rightarrow> bool" where
  "settled v e k \<longleftrightarrow> (\<forall>entry. ventries v k = Some entry \<longrightarrow> \<not> isNewerThan e entry)"

lemma settled_change:
  "settled v e k \<Longrightarrow> view_change showKey k e f v = (Inr (if ventries v k = None then Missing else AlreadyApplied), v)"
  by (auto simp: settled_def view_change_def split: option.split)

lemma settled_delete:
  "settled v e k \<Longrightarrow> view_delete k e v = (if ventries v k = None then Missing else AlreadyApplied, v)"
  by (auto simp: settled_def view_delete_def split: option.split)

lemma change_settles:
  assumes "view_change showKey k e f v = (Inr outcome, v')"
  shows "settled v' e k" "k' \<noteq> k \<Longrightarrow> ventries v' k' = ventries v k'"
proof -
  consider (same) "v' = v" "settled v e k"
    | (changed) d where "ventries v' = (ventries v)(k \<mapsto> d)" "erevision d = anumber e" "epart d = apart e"
  proof (cases "settled v e k")
    case True
    then show ?thesis using same assms settled_change [OF True, of showKey f] by simp
  next
    case False
    then obtain d where d: "ventries v k = Some d" "isNewerThan e d" by (auto simp: settled_def)
    let ?d = "d\<lparr>item := with_revision v (changed_item v f (item d)) (aid e), erevision := anumber e, epart := apart e\<rparr>"
    have v': "fst (view_change showKey k e f v) = Inr outcome" "v' = snd (view_change showKey k e f v)"
      using assms by simp_all
    have "ventries v' = (ventries v)(k \<mapsto> ?d)"
      unfolding v'(2) using d v'(1) by (auto simp: view_change_def changed_item_def Let_def split: if_splits)
    then show ?thesis by (rule changed) simp_all
  qed
  then show "settled v' e k" "k' \<noteq> k \<Longrightarrow> ventries v' k' = ventries v k'"
    by (cases; simp add: settled_def isNewerThan_def)+
qed

lemma changeAll_settled: "list_all (settled v e) ks \<Longrightarrow> changeAll showKey n ks e f v = ((n, None), v)"
  by (induction ks) (simp_all add: settled_change)

lemma changeAll_settles:
  assumes "changeAll showKey n ks e f v = ((m, None), v')"
  shows "(\<forall>k. k \<in> set ks \<or> settled v e k \<longrightarrow> settled v' e k) \<and> (\<forall>k. k \<notin> set ks \<longrightarrow> ventries v' k = ventries v k)"
  using assms
proof (induction ks arbitrary: n v)
  case (Cons k ks)
  obtain r w where w: "view_change showKey k e f v = (r, w)" by fastforce
  then obtain outcome where r: "r = Inr outcome" using Cons.prems by (cases r) auto
  note one = change_settles [OF w [unfolded r]]
  have "settled w e k'" if "k' = k \<or> settled v e k'" for k'
    using that one by (cases "k' = k") (auto simp: settled_def)
  moreover have "changeAll showKey (if outcome = Applied then n + 1 else n) ks e f w = ((m, None), v')"
    using Cons.prems w r by simp
  note Cons.IH [OF this]
  moreover have "k' = k \<or> ventries w k' = ventries v k'" for k' using one(2) by blast
  ultimately show ?case unfolding list.set by (metis insert_iff)
qed simp

lemma deleteAll_settled: "list_all (settled v e) ks \<Longrightarrow> deleteAll n ks e v = (n, v)"
  by (induction ks) (simp_all add: settled_delete)

lemma keysWhere_mem:
  "placed (vorder v) (ventries v) \<Longrightarrow> k \<in> set (keysWhere v p) \<longleftrightarrow> (\<exists>e. ventries v k = Some e \<and> p (item e))"
  by (auto simp: keysWhere_def placed_live image_iff)

lemma UpdateWhere_twice:
  assumes "view_ok v" "view_ok v'" "changeAll showKey 0 (keysWhere v p) e f v = ((n, None), v')"
  shows "changeAll showKey 0 (keysWhere v' p) e f v' = ((0, None), v')"
proof (rule changeAll_settled)
  note ok = view_okD(2) [OF assms(1)] view_okD(2) [OF assms(2)]
  note after = changeAll_settles [OF assms(3)]
  show "list_all (settled v' e) (keysWhere v' p)"
    unfolding list_all_iff
  proof
    fix k assume "k \<in> set (keysWhere v' p)"
    then have "k \<in> set (keysWhere v p) \<or> ventries v' k \<noteq> ventries v k"
      using keysWhere_mem [OF ok(1), of k p] keysWhere_mem [OF ok(2), of k p] by auto
    then show "settled v' e k" using after by blast
  qed
qed

lemma DeleteWhere_twice:
  assumes "holds_rows c v rs" "deleteAll 0 (keysWhere v p) e v = (n, v')"
  shows "deleteAll 0 (keysWhere v' p) e v' = (0, v')"
proof (rule deleteAll_settled)
  have "holds_rows c v' (snd (spec_delete_where p e rs))"
    using rel_prodD [OF holds_delete_all [OF assms(1), of 0 "keysWhere v p" e]] assms(2)
      spec_delete_all_where [OF holds_rowsD(7) [OF assms(1)], of p e] holds_rowsD(5) [OF assms(1)]
    by (simp add: keysWhere_rows case_prod_unfold)
  then have rows: "rows v' = filter (\<lambda>(k, r). \<not> (p (fst r) \<and> spec_newer e r)) rs" and ok: "view_ok v'"
    by (auto simp: holds_rows_def spec_delete_where_def)
  show "list_all (settled v' e) (keysWhere v' p)"
    unfolding list_all_iff
  proof
    fix k assume "k \<in> set (keysWhere v' p)"
    then obtain d where d: "ventries v' k = Some d" "p (item d)"
      using keysWhere_mem [OF view_okD(2) [OF ok]] by auto
    then have "(k, row_of d) \<in> set (rows v')" using map_of_rows [OF view_okD(2) [OF ok], of k] map_of_SomeD by force
    then have "\<not> spec_newer e (row_of d)" using rows d by (auto simp: row_of_def)
    then show "settled v' e k" using d by (simp add: settled_def isNewerThan_row)
  qed
qed

lemma delete_settles:
  assumes "holds_rows c v rs" "view_delete k e v = (outcome, v')"
  shows "settled v' e k"
proof -
  have v': "holds_rows c v' (snd (spec_delete k e rs))"
    using rel_prodD [OF holds_delete [OF assms(1), of k e]] assms(2) by simp
  have "map_of (snd (spec_delete k e rs)) k = Some r \<Longrightarrow> \<not> spec_newer e r" for r
    by (auto simp: spec_delete_def delete_conv' split: option.splits if_splits)
  then show ?thesis using holds_rowsD(6) [OF v', of k] by (auto simp: settled_def isNewerThan_row)
qed

lemma add_settles: "settled (view_add k i e v) e k"
  by (simp add: settled_def view_add_def Let_def isNewerThan_def)

fun no_error :: "op_result \<Rightarrow> bool" where
  "no_error (One r) = (\<not> isl r)"
| "no_error (Many n err) = (err = None)"
| "no_error Done = True"

fun nothing_done :: "op_result \<Rightarrow> bool" where
  "nothing_done (One r) = (r = Inr AlreadyApplied \<or> r = Inr Missing)"
| "nothing_done (Many n err) = (n = 0 \<and> err = None)"
| "nothing_done Done = True"

lemma no_error_One: "\<lbrakk>map_prod One (\<lambda>v. v) p = (r, v'); no_error r\<rbrakk> \<Longrightarrow> \<exists>out. p = (Inr out, v')"
  by (cases p; cases "fst p") auto

lemma no_error_Many: "\<lbrakk>map_prod (case_prod Many) (\<lambda>v. v) p = (r, v'); no_error r\<rbrakk> \<Longrightarrow> \<exists>n. p = ((n, None), v')"
  by (cases p; cases "fst p") auto

lemma change_twice:
  assumes "view_change showKey k e f v = (Inr outcome, v')"
  shows "\<exists>r. view_change showKey k e f v' = (Inr r, v') \<and> r \<in> {AlreadyApplied, Missing}"
  using settled_change [OF change_settles(1) [OF assms], of showKey f] by auto

lemma config_add [simp]: "keyOf (view_add k i e v) = keyOf v"
  by (simp add: view_add_def Let_def)

lemma present_add: "\<exists>d. ventries (view_add k i e v) k = Some d"
  by (simp add: view_add_def Let_def)

lemma Insert_twice:
  assumes "Insert showKey ctx i x v = (Inr outcome, v')"
  shows "Insert showKey ctx i x v' = (Inr AlreadyApplied, v')"
proof -
  obtain e where e: "appliedEventOf ctx i = Inr e" using assms by (auto simp: Insert_def split: sum.splits)
  show ?thesis
  proof (cases "ventries v (keyOf v x)")
    case None
    then have v': "v' = view_add (keyOf v x) x e v" using assms e by (simp add: Insert_def)
    then obtain d where "ventries v' (keyOf v' x) = Some d" "\<not> isNewerThan e d"
      using add_settles [of "keyOf v x" x e v] present_add [of "keyOf v x" x e v] by (auto simp: settled_def)
    then show ?thesis using e by (simp add: Insert_def)
  next
    case (Some d)
    then show ?thesis using assms e by (auto simp: Insert_def split: if_splits)
  qed
qed

lemma Upsert_twice:
  assumes "Upsert showKey zero ctx k i f v = (Inr outcome, v')"
  shows "\<exists>r. Upsert showKey zero ctx k i f v' = (Inr r, v') \<and> r \<in> {AlreadyApplied, Missing}"
proof -
  obtain e where e: "appliedEventOf ctx i = Inr e" using assms by (auto simp: Upsert_def split: sum.splits)
  show ?thesis
  proof (cases "ventries v k")
    case None
    then have v': "v' = view_add k (f zero) e v" using assms e by (auto simp: Upsert_def Let_def split: if_splits)
    then show ?thesis
      using e settled_change [OF add_settles, of showKey k e f "f zero" v] present_add [of k "f zero" e v]
      by (auto simp: Upsert_def)
  next
    case (Some d)
    then have v': "view_change showKey k e f v = (Inr outcome, v')" using assms e by (simp add: Upsert_def)
    have "ventries v' k \<noteq> None"
      using Some v' by (auto simp: view_change_def Let_def split: if_splits)
    then show ?thesis using change_twice [OF v'] e by (auto simp: Upsert_def)
  qed
qed

lemma Seen_twice: "Seen i (Seen i v) = Seen i v"
proof (cases "\<exists>c. CompareRevisions i (vrevision v) = Inr c \<and> c > 0")
  case True
  then have "vrevision (Seen i v) = i" by (auto simp: Seen_def)
  moreover have "CompareRevisions i i = Inr c \<longrightarrow> c \<le> 0" for c
    by (auto simp: CompareRevisions_def cmp_Compare_def split: sum.splits)
  ultimately show ?thesis
    by (subst Seen_def) (auto split: sum.split)
next
  case False
  then have "Seen i v = v" by (auto simp: Seen_def split: sum.split)
  then show ?thesis by simp
qed

section \<open>Properties of the view in memory\<close>

text \<open>
  C4. The view in memory implements an insertion-ordered list of items. For every configuration and
  every sequence of \<open>Insert\<close>, \<open>Upsert\<close>, \<open>Update\<close>, \<open>Delete\<close>, \<open>UpdateWhere\<close>, \<open>DeleteWhere\<close>, \<open>Seen\<close>
  and \<open>Index\<close> on a new view, the operations report exactly what they report on the list, errors
  included, and afterwards \<open>All\<close> and \<open>Get\<close> return what the list holds, in its order.
\<close>

theorem view_refines_list:
  assumes "NewInMemoryView f options = Ret c" and "run_ops showKey zero opers c = (results, v)"
  shows "\<exists>contents. spec_ops showKey zero c opers [] = (results, contents)
    \<and> All v = map (fst \<circ> snd) contents \<and> Get v key = map_option fst (map_of contents key)"
proof -
  have sim: "rel_prod (=) (holds_rows c) (results, v) (spec_ops showKey zero c opers [])"
    using holds_ops [OF holds_new [OF assms(1)], of showKey zero opers] assms(2) by simp
  then obtain contents where contents: "spec_ops showKey zero c opers [] = (results, contents)" "holds_rows c v contents"
    by (auto elim: rel_prod.cases)
  then show ?thesis
    using holds_rowsD(5) [OF contents(2)] holds_rowsD(6) [OF contents(2), of key]
    by (auto simp: All_rows Get_def row_of_def option.map_comp comp_def)
qed

text \<open>A view of numbers under their last digit, with an index by parity.\<close>

definition digit_view :: "(nat, nat, bool) InMemoryView" where
  "digit_view = \<lparr>keyOf = (\<lambda>n. n mod 10), revisionIn = None, vclone = None, ventries = Map.empty, vorder = [],
     vindexes = [], vrevision = [], vchanged = 0\<rparr>"

lemma digit_view_new: "NewInMemoryView (Some (\<lambda>n. n mod 10)) [] = Ret digit_view"
  by (simp add: NewInMemoryView_def digit_view_def)

definition digit_ops :: "(part_ctx \<times> string \<times> (nat, nat, bool) view_op) list" where
  "digit_ops = [(None, ''0'', OpIndex even), (None, ''1'', OpInsert 12), (None, ''2'', OpInsert 25),
     (None, ''3'', OpDelete 2), (None, ''4'', OpUpdate 5 ((+) 10))]"

theorem view_refines_list_witness:
  "case run_ops (\<lambda>_. ''k'') 0 digit_ops digit_view of (results, v) \<Rightarrow>
     results = [Done, One (Inr Added), One (Inr Added), One (Inr Applied), One (Inr Applied)] \<and> All v = [35]"
proof -
  obtain results v where run: "run_ops (\<lambda>_. ''k'') 0 digit_ops digit_view = (results, v)" by fastforce
  have "spec_ops (\<lambda>_. ''k'') 0 digit_view digit_ops [] =
      ([Done, One (Inr Added), One (Inr Added), One (Inr Applied), One (Inr Applied)], [(5, 35, 4, 0)])"
    by (simp add: digit_ops_def spec_op_def appliedEventOf_def rev_eval partOf_def spec_insert_def spec_put_def
        spec_delete_def spec_change_def spec_newer_def changed_item_def digit_view_def with_revision_def)
  then show ?thesis using view_refines_list [OF digit_view_new run, of 5] run by auto
qed

text \<open>
  C7. However a view was filled and indexed, every item lies under its own key, no two items share a
  key, every index holds exactly the keys of the items with each of its values, and the order of
  insertion, with the gaps that deleting leaves, is shorter than twice the number of items plus 16.
  The field that \<open>RevisionIn\<close> sets must not be part of the key.
\<close>

theorem view_invariant:
  assumes "NewInMemoryView f options = Ret c" and "run_ops showKey zero opers c = (results, v)"
    and "\<And>i eventID. keyOf c (with_revision c i eventID) = keyOf c i"
  shows "(\<forall>key i. Get v key = Some i \<longrightarrow> keyOf v i = key) \<and> distinct (map (keyOf v) (All v))
    \<and> (\<forall>x \<in> set (vindexes v). \<forall>u. case ikeys x u of
          Some keys \<Rightarrow> keys \<noteq> {} \<and> keys = {key. \<exists>i. Get v key = Some i \<and> valueOf x i = u}
        | None \<Rightarrow> \<not> (\<exists>key i. Get v key = Some i \<and> valueOf x i = u))
    \<and> length (vorder v) < 2 * length (All v) + 16"
proof -
  have sim: "holds_rows c v (snd (spec_ops showKey zero c opers []))"
    using rel_prodD [OF holds_ops [OF holds_new [OF assms(1)], of showKey zero opers]] assms(2) by simp
  note D = holds_rowsD [OF sim] and ok = view_okD [OF holds_rowsD(1) [OF sim]]
  have keyed: "keyed_rows (keyOf v) (rows v)"
    using keyed_ops [OF assms(3), of "[]" showKey zero opers] D(2,5) by (simp add: keyed_rows_def)
  have "Get v key = Some i \<longrightarrow> keyOf v i = key" for key i
    using keyed map_of_rows [OF ok(2), of key] by (force simp: Get_def keyed_rows_def row_of_def dest!: map_of_SomeD)
  moreover have "map (keyOf v) (All v) = map fst (rows v)"
    using keyed by (auto simp: All_rows keyed_rows_def)
  moreover have "length (All v) = card (dom (ventries v))" by (simp add: All_def length_live [OF ok(2)])
  moreover have "case ikeys x u of
        Some keys \<Rightarrow> keys \<noteq> {} \<and> keys = {key. \<exists>i. Get v key = Some i \<and> valueOf x i = u}
      | None \<Rightarrow> \<not> (\<exists>key i. Get v key = Some i \<and> valueOf x i = u)" if "x \<in> set (vindexes v)" for x u
    using ok(4) that by (auto simp: list_all_iff index_follows_def keys_with_def items_of_def Get_def)
  ultimately show ?thesis using distinct_rows [of v] ok(3) by simp
qed

theorem view_invariant_witness:
  "case run_ops (\<lambda>_. ''k'') 0 digit_ops digit_view of (results, v) \<Rightarrow> length (vorder v) < 2 * length (All v) + 16"
proof -
  obtain results v where run: "run_ops (\<lambda>_. ''k'') 0 digit_ops digit_view = (results, v)" by fastforce
  show ?thesis using view_invariant [OF digit_view_new run] run by (simp add: digit_view_def with_revision_def)
qed

text \<open>
  C37. An index finds what a scan finds, in whatever order Go ranges over its sets of keys: \<open>Lookup\<close>
  returns the items with the value in the order of the view, and \<open>Update\<close> and \<open>Delete\<close> of the index
  do to the view, and report, exactly what \<open>UpdateWhere\<close> and \<open>DeleteWhere\<close> do for that value.
\<close>

theorem index_agrees_with_scan:
  assumes "NewInMemoryView f options = Ret c" and "run_ops showKey zero opers c = (results, v)"
    and "x \<in> set (vindexes v)"
    and "\<And>S. finite S \<Longrightarrow> set (ranging S) = S \<and> distinct (ranging S)"
  shows "Lookup ranging v x u = filter (\<lambda>i. valueOf x i = u) (All v)
    \<and> index_Update ranging showKey ctx x u eventID change v = UpdateWhere showKey ctx (\<lambda>i. valueOf x i = u) eventID change v
    \<and> index_Delete ranging ctx x u eventID v = DeleteWhere ctx (\<lambda>i. valueOf x i = u) eventID v"
proof -
  have "holds_rows c v (snd (spec_ops showKey zero c opers []))"
    using rel_prodD [OF holds_ops [OF holds_new [OF assms(1)], of showKey zero opers]] assms(2) by simp
  then have ok: "view_ok v" by (rule holds_rowsD(1))
  have keys: "keysOf ranging v x u = keysWhere v (\<lambda>i. valueOf x i = u)"
    by (rule keysOf_keysWhere [OF ok assms(3)]) (rule assms(4))
  show ?thesis
    unfolding Lookup_def index_Update_def index_Delete_def UpdateWhere_def DeleteWhere_def keys items_keysWhere [OF ok]
    by simp
qed

theorem index_agrees_with_scan_witness:
  "case run_ops (\<lambda>_. ''k'') 0 digit_ops digit_view of (results, v) \<Rightarrow>
     vindexes v \<noteq> [] \<and> Lookup sorted_list_of_set v (hd (vindexes v)) True = filter (\<lambda>i. valueOf (hd (vindexes v)) i) (All v)"
proof -
  obtain results v where run: "run_ops (\<lambda>_. ''k'') 0 digit_ops digit_view = (results, v)" by fastforce
  have "vindexes (snd (run_ops (\<lambda>_. ''k'') 0 digit_ops digit_view)) \<noteq> []"
    by (simp add: digit_ops_def Index_def Insert_def Delete_def Update_def view_add_def view_delete_def view_change_def
        compact_def appliedEventOf_def rev_eval partOf_def digit_view_def with_revision_def isNewerThan_def Let_def)
  then have "vindexes v \<noteq> []" using run by simp
  then show ?thesis
    using index_agrees_with_scan [OF digit_view_new run, of "hd (vindexes v)" sorted_list_of_set True] run by simp
qed

text \<open>
  Applying an event a second time changes nothing. If an operation of a handler succeeds, then
  the same operation for the same part of the same event leaves the view as it is, down to the order
  and the indexes, and reports that it did nothing: the event was applied already, the item is
  missing, or no item was changed.
\<close>

theorem apply_twice:
  assumes "NewInMemoryView f options = Ret c" and "run_ops showKey zero opers c = (results, v)"
    and "run_op showKey zero ctx eventID oper v = (r, v')" and "no_error r" and "\<And>g. oper \<noteq> OpIndex g"
  shows "\<exists>r'. run_op showKey zero ctx eventID oper v' = (r', v') \<and> nothing_done r'"
proof -
  have sim: "holds_rows c v (snd (spec_ops showKey zero c opers []))"
    using rel_prodD [OF holds_ops [OF holds_new [OF assms(1)], of showKey zero opers]] assms(2) by simp
  have ok: "view_ok v" "view_ok v'"
    using holds_rowsD(1) [OF sim] rel_prodD [OF holds_op [OF sim, of showKey zero ctx eventID oper]] assms(3)
    by (auto dest: holds_rowsD(1))
  show ?thesis
  proof (cases oper)
    case (OpInsert x)
    then obtain out where "Insert showKey ctx eventID x v = (Inr out, v')" using assms(3,4) no_error_One by fastforce
    from Insert_twice [OF this] show ?thesis using OpInsert by auto
  next
    case (OpUpsert k g)
    then obtain out where "Upsert showKey zero ctx k eventID g v = (Inr out, v')" using assms(3,4) no_error_One by fastforce
    from Upsert_twice [OF this] show ?thesis using OpUpsert by auto
  next
    case (OpUpdate k g)
    then obtain out where "Update showKey ctx k eventID g v = (Inr out, v')" using assms(3,4) no_error_One by fastforce
    then obtain e where "appliedEventOf ctx eventID = Inr e" "view_change showKey k e g v = (Inr out, v')"
      by (auto simp: Update_def split: sum.splits)
    then show ?thesis using change_twice [of showKey k e g v out v'] OpUpdate by (auto simp: Update_def)
  next
    case (OpDelete k)
    then obtain out where "Delete ctx k eventID v = (Inr out, v')" using assms(3,4) no_error_One by fastforce
    then obtain e where "appliedEventOf ctx eventID = Inr e" "view_delete k e v = (out, v')"
      by (auto simp: Delete_def split: sum.splits prod.splits)
    then show ?thesis using settled_delete [OF delete_settles [OF sim]] OpDelete by (simp add: Delete_def)
  next
    case (OpUpdateWhere p g)
    then obtain n where "UpdateWhere showKey ctx p eventID g v = ((n, None), v')" using assms(3,4) no_error_Many by fastforce
    then obtain e where "appliedEventOf ctx eventID = Inr e" "changeAll showKey 0 (keysWhere v p) e g v = ((n, None), v')"
      by (auto simp: UpdateWhere_def split: sum.splits)
    then show ?thesis using UpdateWhere_twice [OF ok] OpUpdateWhere by (simp add: UpdateWhere_def)
  next
    case (OpDeleteWhere p)
    then obtain n where "DeleteWhere ctx p eventID v = ((n, None), v')" using assms(3,4) no_error_Many by fastforce
    then obtain e where "appliedEventOf ctx eventID = Inr e" "deleteAll 0 (keysWhere v p) e v = (n, v')"
      by (auto simp: DeleteWhere_def split: sum.splits prod.splits)
    then show ?thesis using DeleteWhere_twice [OF sim] OpDeleteWhere by (simp add: DeleteWhere_def)
  next
    case OpSeen
    then show ?thesis using assms(3) Seen_twice [of eventID v] by auto
  next
    case (OpIndex g)
    then show ?thesis using assms(5) by blast
  qed
qed

theorem apply_twice_witness:
  "case run_op (\<lambda>_. ''k'') 0 (Some 0) ''7'' (OpInsert 12) digit_view of (r, v) \<Rightarrow>
     r = One (Inr Added) \<and> snd (run_op (\<lambda>_. ''k'') 0 (Some 0) ''7'' (OpInsert 12) v) = v"
proof -
  obtain r v where run: "run_op (\<lambda>_. ''k'') 0 (Some 0) ''7'' (OpInsert 12) digit_view = (r, v)" by fastforce
  have "r = fst (run_op (\<lambda>_. ''k'') 0 (Some 0) ''7'' (OpInsert 12) digit_view)" by (simp only: run fst_conv)
  also have "\<dots> = One (Inr Added)" by (simp add: Insert_def appliedEventOf_def rev_eval digit_view_def)
  finally have "r = One (Inr Added)" .
  moreover from this obtain r' where "run_op (\<lambda>_. ''k'') 0 (Some 0) ''7'' (OpInsert 12) v = (r', v)"
    using apply_twice [OF digit_view_new _ run, where opers = "[]" and results = "[]"] by auto
  ultimately show ?thesis using run by (simp only: prod.case snd_conv)
qed

end
