(* ===== verification/Typed_Projection.thy ===== *)
theory Typed_Projection
  imports Projection View_Contents
begin

text \<open>
  Typed projections (\<open>typed_projection.go\<close>): handlers per event type that get the decoded event and its
  position among the events that an upcaster split the stored one into, and what that position is for:
  the composition of upcasters, a typed projection and a view, in which a stored event may be applied
  again.
\<close>

section \<open>Envelopes and handlers\<close>

record 'e Envelope =
  EnvelopeID :: string
  EnvelopeTime :: int
  EnvelopeSource :: string
  EnvelopeSubject :: string
  EnvelopeType :: string
  EnvelopeTraceParent :: "string option"
  EnvelopeTraceState :: "string option"
  EnvelopeData :: 'e

type_synonym 'w handler = "part_ctx \<Rightarrow> event \<Rightarrow> ('w, goerr option) act"

record 'w TypedProjection =
  handlers :: "string \<rightharpoonup> 'w handler"
  typed_upcasters :: "Upcasters option"

definition NewTypedProjection :: "'w TypedProjection" where
  "NewTypedProjection = \<lparr>handlers = Map.empty, typed_upcasters = None\<rparr>"

definition Decode :: "'e event_class \<Rightarrow> event \<Rightarrow> (goerr + 'e Envelope) go" where
  "Decode c event =
     go_bind (eventTypeOf c ''Decode'') (\<lambda>eventType.
       if Type event \<noteq> eventType then
         Ret (Inl (Errorf [W (Sentinel ErrPermanent), Lit ('': event '' @ ID event @ '' is of type '' @
           strconv_Quote (Type event) @ '', not '' @ strconv_Quote eventType)]))
       else
         (case Unmarshal c (Data event) of
            Inl err \<Rightarrow> Ret (Inl (Errorf [W (Sentinel ErrPermanent), Lit ('': decoding event '' @ ID event @ '' of type '' @
              strconv_Quote (Type event) @ '': '' @ err)]))
          | Inr data \<Rightarrow> Ret (Inr \<lparr>EnvelopeID = ID event, EnvelopeTime = Time event, EnvelopeSource = Source event,
              EnvelopeSubject = Subject event, EnvelopeType = Type event, EnvelopeTraceParent = TraceParent event,
              EnvelopeTraceState = TraceState event, EnvelopeData = data\<rparr>)))"

text \<open>The function that \<open>On\<close> registers.\<close>

definition on_handler :: "'e event_class \<Rightarrow> (part_ctx \<Rightarrow> 'e Envelope \<Rightarrow> ('w, goerr option) act) \<Rightarrow> 'w handler" where
  "on_handler c handle ctx event w =
     (case Decode c event of
        Panic s \<Rightarrow> (Panic s, w)
      | Ret (Inl err) \<Rightarrow> (Ret (Some err), w)
      | Ret (Inr envelope) \<Rightarrow> handle ctx envelope w)"

definition On ::
  "'e event_class \<Rightarrow> 'w TypedProjection \<Rightarrow> (part_ctx \<Rightarrow> 'e Envelope \<Rightarrow> ('w, goerr option) act) option \<Rightarrow> 'w TypedProjection go" where
  "On c p handle =
     (case handle of
        None \<Rightarrow> Panic ''architecturekit: On needs a function, not nil''
      | Some f \<Rightarrow>
          go_bind (eventTypeOf c ''On'') (\<lambda>eventType.
            if handlers p eventType \<noteq> None then
              Panic (''architecturekit: event type '' @ strconv_Quote eventType @ '' already has a handler on this projection'')
            else Ret (p\<lparr>handlers := (handlers p)(eventType \<mapsto> on_handler c f)\<rparr>)))"

definition typed_UpcastWith :: "'w TypedProjection \<Rightarrow> Upcasters option \<Rightarrow> 'w TypedProjection go" where
  "typed_UpcastWith p u =
     (if u = None then Panic ''architecturekit: UpcastWith needs a set of upcasters, not nil''
      else if typed_upcasters p \<noteq> None then Panic ''architecturekit: this projection already has a set of upcasters''
      else Ret (p\<lparr>typed_upcasters := u\<rparr>))"

fun typed_loop :: "'w TypedProjection \<Rightarrow> part_ctx \<Rightarrow> int \<Rightarrow> event list \<Rightarrow> ('w, goerr option) act" where
  "typed_loop p ctx part [] w = (Ret None, w)"
| "typed_loop p ctx part (event # events) w =
     (case handlers p (Type event) of
        None \<Rightarrow> typed_loop p ctx (part + 1) events w
      | Some handle \<Rightarrow>
          (case handle (withPart ctx part) event w of
             (Ret None, w') \<Rightarrow> typed_loop p ctx (part + 1) events w'
           | (r, w') \<Rightarrow> (r, w')))"

definition typed_Apply :: "'w TypedProjection \<Rightarrow> part_ctx \<Rightarrow> event \<Rightarrow> ('w, goerr option) act" where
  "typed_Apply p ctx event w =
     (case upcast_apply (typed_upcasters p) event of
        Inl err \<Rightarrow> (Ret (Some err), w)
      | Inr upcasted \<Rightarrow> typed_loop p ctx 0 upcasted w)"

section \<open>Handlers that change a view\<close>

text \<open>What a handler makes of an operation: its error, if it has one.\<close>

fun op_err :: "op_result \<Rightarrow> goerr option" where
  "op_err (One (Inl err)) = Some err"
| "op_err (One (Inr outcome)) = None"
| "op_err (Many n err) = err"
| "op_err Done = None"

lemma op_err_None: "op_err r = None \<longleftrightarrow> no_error r"
  by (cases r rule: op_err.cases) auto

text \<open>Some operations for an event, one after the other, up to the first error.\<close>

fun play ::
  "('k \<Rightarrow> string) \<Rightarrow> 'i \<Rightarrow> string \<Rightarrow> (part_ctx \<times> ('k, 'i, 'v) view_op) list \<Rightarrow> ('k, 'i, 'v) InMemoryView \<Rightarrow>
   goerr option \<times> ('k, 'i, 'v) InMemoryView" where
  "play showKey zero i [] v = (None, v)"
| "play showKey zero i ((ctx, oper) # steps) v =
     (case run_op showKey zero ctx i oper v of
        (r, v') \<Rightarrow> (case op_err r of Some err \<Rightarrow> (Some err, v') | None \<Rightarrow> play showKey zero i steps v'))"

lemma play_append:
  "play showKey zero i (xs @ ys) v =
     (case play showKey zero i xs v of (None, v') \<Rightarrow> play showKey zero i ys v' | (Some err, v') \<Rightarrow> (Some err, v'))"
  by (induction showKey zero i xs v rule: play.induct) (auto split: prod.splits option.splits)

text \<open>A handler that decodes its event into operations on the view, and hands its context on to them.\<close>

definition view_handler ::
  "('k \<Rightarrow> string) \<Rightarrow> 'i \<Rightarrow> (event \<Rightarrow> goerr + ('k, 'i, 'v) view_op list) \<Rightarrow> ('k, 'i, 'v) InMemoryView handler" where
  "view_handler showKey zero opers ctx event v =
     (case opers event of
        Inl err \<Rightarrow> (Ret (Some err), v)
      | Inr os \<Rightarrow> map_prod Ret (\<lambda>v. v) (play showKey zero (ID event) (map (Pair ctx) os) v))"

text \<open>A handler that \<open>On\<close> registers is one if the function it is given applies operations to the view.\<close>

lemma on_handler_view:
  assumes "ClassKind c = ConcreteKind"
  shows "on_handler c (\<lambda>ctx envelope v. map_prod Ret (\<lambda>v. v) (play showKey zero (EnvelopeID envelope) (map (Pair ctx) (f (EnvelopeData envelope))) v)) =
    view_handler showKey zero (\<lambda>event. case Decode c event of Ret (Inr envelope) \<Rightarrow> Inr (f (EnvelopeData envelope))
      | Ret (Inl err) \<Rightarrow> Inl err | Panic _ \<Rightarrow> Inr [])"
  using assms
  by (intro ext) (auto simp: on_handler_def view_handler_def Decode_def eventTypeOf_def split: sum.split)

text \<open>The operations that the events of one stored event amount to, with the part of each.\<close>

fun steps_of ::
  "'w TypedProjection \<Rightarrow> (string \<Rightarrow> event \<Rightarrow> goerr + ('k, 'i, 'v) view_op list) \<Rightarrow> part_ctx \<Rightarrow> int \<Rightarrow> event list \<Rightarrow>
   (part_ctx \<times> ('k, 'i, 'v) view_op) list" where
  "steps_of p opers ctx part [] = []"
| "steps_of p opers ctx part (event # events) =
     (if handlers p (Type event) = None then []
      else (case opers (Type event) event of Inl _ \<Rightarrow> [] | Inr os \<Rightarrow> map (Pair (withPart ctx part)) os))
     @ steps_of p opers ctx (part + 1) events"

lemma typed_loop_play:
  assumes "\<And>t h. handlers p t = Some h \<Longrightarrow> h = view_handler showKey zero (opers t)" "\<forall>e \<in> set events. ID e = i"
    and "typed_loop p ctx part events v0 = (Ret None, v0')"
  shows "typed_loop p ctx part events v = map_prod Ret (\<lambda>v. v) (play showKey zero i (steps_of p opers ctx part events) v)"
  using assms(2,3)
proof (induction events arbitrary: part v v0)
  case (Cons e events)
  show ?case
  proof (cases "handlers p (Type e)")
    case None
    then show ?thesis using Cons by simp
  next
    case (Some h)
    then have h: "h = view_handler showKey zero (opers (Type e))" using assms(1) by blast
    then obtain os where os: "opers (Type e) e = Inr os"
      using Cons.prems(2) Some by (cases "opers (Type e) e") (simp_all add: view_handler_def)
    obtain r0 v1 where first: "play showKey zero i (map (Pair (withPart ctx part)) os) v0 = (r0, v1)" by fastforce
    then have "typed_loop p ctx (part + 1) events v1 = (Ret None, v0')"
      using Cons.prems Some h os by (cases r0) (simp_all add: view_handler_def)
    then have IH: "typed_loop p ctx (part + 1) events w =
        map_prod Ret (\<lambda>v. v) (play showKey zero i (steps_of p opers ctx (part + 1) events) w)" for w
      using Cons.IH Cons.prems(1) by simp
    obtain r v2 where "play showKey zero i (map (Pair (withPart ctx part)) os) v = (r, v2)" by fastforce
    then show ?thesis
      using Some h os IH Cons.prems(1) by (cases r) (simp_all add: view_handler_def play_append)
  qed
qed simp

section \<open>Operations that are done\<close>

fun is_add :: "('k, 'i, 'v) view_op \<Rightarrow> bool" where
  "is_add (OpInsert x) = True"
| "is_add (OpUpsert k f) = True"
| "is_add _ = False"

fun is_delete :: "('k, 'i, 'v) view_op \<Rightarrow> bool" where
  "is_delete (OpDelete k) = True"
| "is_delete (OpDeleteWhere p) = True"
| "is_delete _ = False"

definition settled_at :: "appliedEvent \<Rightarrow> ('k, 'i) contents \<Rightarrow> 'k \<Rightarrow> bool" where
  "settled_at e rs k \<longleftrightarrow> (\<forall>r. map_of rs k = Some r \<longrightarrow> \<not> spec_newer e r)"

text \<open>The contents are what they are after an operation for an event, so that it changes nothing if it is repeated.\<close>

fun done_op :: "('k, 'i, 'v) InMemoryView \<Rightarrow> appliedEvent \<Rightarrow> ('k, 'i, 'v) view_op \<Rightarrow> ('k, 'i) contents \<Rightarrow> bool" where
  "done_op c e (OpInsert x) rs \<longleftrightarrow> settled_at e rs (keyOf c x) \<and> map_of rs (keyOf c x) \<noteq> None"
| "done_op c e (OpUpsert k f) rs \<longleftrightarrow> settled_at e rs k \<and> map_of rs k \<noteq> None"
| "done_op c e (OpUpdate k f) rs \<longleftrightarrow> settled_at e rs k"
| "done_op c e (OpDelete k) rs \<longleftrightarrow> settled_at e rs k"
| "done_op c e (OpUpdateWhere p f) rs \<longleftrightarrow> (\<forall>k r. map_of rs k = Some r \<and> p (fst r) \<longrightarrow> \<not> spec_newer e r)"
| "done_op c e (OpDeleteWhere p) rs \<longleftrightarrow> (\<forall>k r. map_of rs k = Some r \<and> p (fst r) \<longrightarrow> \<not> spec_newer e r)"
| "done_op c e OpSeen rs \<longleftrightarrow> True"
| "done_op c e (OpIndex f) rs \<longleftrightarrow> True"

lemma keys_matching_map_of:
  "distinct (map fst rs) \<Longrightarrow> k \<in> set (keys_matching p rs) \<longleftrightarrow> (\<exists>r. map_of rs k = Some r \<and> p (fst r))"
  by (force simp: keys_matching_def)

lemma map_of_spec_put [simp]:
  "map_of (spec_put c k i e rs) = (map_of rs)(k \<mapsto> (with_revision c i (aid e), anumber e, apart e))"
  by (simp add: spec_put_def update_conv')

lemma change_settled: "settled_at e rs k \<Longrightarrow> \<exists>out. spec_change showKey c k e f rs = (Inr out, rs)"
  by (auto simp: settled_at_def spec_change_def split: option.split)

lemma change_all_settled:
  "list_all (settled_at e rs) ks \<Longrightarrow> \<exists>m. spec_change_all showKey c n ks e f rs = ((m, None), rs)"
proof (induction ks arbitrary: n)
  case (Cons k ks)
  then obtain out where "spec_change showKey c k e f rs = (Inr out, rs)" using change_settled by fastforce
  then show ?case using Cons by simp
qed simp

lemma done_op_repeat:
  assumes "done_op c e oper rs" "distinct (map fst rs)"
  shows "\<exists>r. spec_event showKey zero c e oper rs = (r, rs) \<and> no_error r"
proof (cases oper)
  case (OpInsert x)
  then show ?thesis using assms by (auto simp: spec_insert_def settled_at_def)
next
  case (OpUpsert k f)
  then obtain out where "spec_change showKey c k e f rs = (Inr out, rs)" using assms change_settled [of e rs k] by fastforce
  then show ?thesis using assms OpUpsert by (auto simp: spec_upsert_def)
next
  case (OpUpdate k f)
  then obtain out where "spec_change showKey c k e f rs = (Inr out, rs)" using assms change_settled [of e rs k] by fastforce
  then show ?thesis using OpUpdate by simp
next
  case (OpDelete k)
  then show ?thesis using assms by (auto simp: spec_delete_def settled_at_def split: option.split)
next
  case (OpUpdateWhere p f)
  have "list_all (settled_at e rs) (keys_matching p rs)"
    using assms OpUpdateWhere by (auto simp: list_all_iff keys_matching_map_of settled_at_def)
  then obtain m where "spec_change_all showKey c 0 (keys_matching p rs) e f rs = ((m, None), rs)"
    using change_all_settled by blast
  then show ?thesis using OpUpdateWhere by simp
next
  case (OpDeleteWhere p)
  have "\<not> (p (fst r) \<and> spec_newer e r)" if "(k, r) \<in> set rs" for k r
    using assms OpDeleteWhere that by (cases r) auto
  then have "filter (\<lambda>(k, r). \<not> (p (fst r) \<and> spec_newer e r)) rs = rs" by (intro filter_True) auto
  then show ?thesis using OpDeleteWhere by (simp add: spec_delete_where_def)
qed auto

text \<open>What a successful operation does to a row.\<close>

definition touched :: "appliedEvent \<Rightarrow> bool \<Rightarrow> ('k, 'i) contents \<Rightarrow> ('k, 'i) contents \<Rightarrow> 'k \<Rightarrow> bool" where
  "touched e deletes rs rs' k \<longleftrightarrow>
     map_of rs' k = map_of rs k \<or> (\<exists>i. map_of rs' k = Some (i, anumber e, apart e)) \<or> deletes \<and> map_of rs' k = None"

lemma spec_newer_self [simp]: "\<not> spec_newer e (i, anumber e, apart e)"
  by (simp add: spec_newer_def)

lemma change_touches:
  "spec_change showKey c k e f rs = (Inr out, rs') \<Longrightarrow>
     settled_at e rs' k \<and> touched e False rs rs' k' \<and> (k' \<noteq> k \<longrightarrow> map_of rs' k' = map_of rs k') \<and> (map_of rs k \<noteq> None \<longrightarrow> map_of rs' k \<noteq> None)"
  by (auto simp: spec_change_def touched_def settled_at_def split: option.splits if_splits)

lemma touched_settled: "settled_at e rs k \<Longrightarrow> touched e d rs rs' k \<Longrightarrow> settled_at e rs' k"
  by (auto simp: settled_at_def touched_def)

lemma touched_trans: "touched e False rs rs1 k \<Longrightarrow> touched e False rs1 rs2 k \<Longrightarrow> touched e False rs rs2 k"
  by (auto simp: touched_def)

lemma change_all_touches:
  "spec_change_all showKey c n ks e f rs = ((m, None), rs') \<Longrightarrow>
     touched e False rs rs' k \<and> (k \<in> set ks \<longrightarrow> settled_at e rs' k) \<and> (k \<notin> set ks \<longrightarrow> map_of rs' k = map_of rs k)"
proof (induction ks arbitrary: n rs)
  case (Cons k0 ks)
  obtain r rs1 where one: "spec_change showKey c k0 e f rs = (r, rs1)" by fastforce
  with Cons.prems obtain out where r: "r = Inr out" by (cases r) auto
  note first = change_touches [OF one [unfolded r], of k]
  have "spec_change_all showKey c (if out = Applied then n + 1 else n) ks e f rs1 = ((m, None), rs')"
    using Cons.prems one r by simp
  note rest = Cons.IH [OF this]
  show ?case
    using first rest touched_trans [of e rs rs1 k rs'] touched_settled [of e rs1 k False rs'] by (cases "k = k0") auto
qed (simp add: touched_def)

lemma map_of_filter_rows:
  "distinct (map fst rs) \<Longrightarrow> map_of (filter (\<lambda>(k, r). Q k r) rs) k = (case map_of rs k of Some r \<Rightarrow> if Q k r then Some r else None | None \<Rightarrow> None)"
proof (induction rs)
  case (Cons kr rs)
  have "map_of rs (fst kr) = None" using Cons.prems by (simp add: map_of_eq_None_iff)
  then show ?case using Cons by (cases kr) (auto split: option.split)
qed simp

lemma op_touches:
  assumes "spec_event showKey zero c e oper rs = (r, rs')" "no_error r" "distinct (map fst rs)"
  shows "done_op c e oper rs' \<and> touched e (is_delete oper) rs rs' k"
proof (cases oper)
  case (OpInsert x)
  then show ?thesis
    using assms by (auto simp: spec_insert_def touched_def settled_at_def split: option.splits if_splits)
next
  case (OpUpsert k0 f)
  show ?thesis
  proof (cases "map_of rs k0")
    case None
    then show ?thesis using assms OpUpsert by (auto simp: spec_upsert_def touched_def settled_at_def split: if_splits)
  next
    case (Some row)
    then obtain out where "spec_change showKey c k0 e f rs = (Inr out, rs')"
      using assms OpUpsert no_error_One by (fastforce simp: spec_upsert_def)
    from change_touches [OF this, of k] show ?thesis using OpUpsert Some by simp
  qed
next
  case (OpUpdate k0 f)
  then obtain out where "spec_change showKey c k0 e f rs = (Inr out, rs')" using assms no_error_One by fastforce
  from change_touches [OF this, of k] show ?thesis using OpUpdate by simp
next
  case (OpDelete k0)
  then have "rs' = snd (spec_delete k0 e rs)" using assms(1) by (cases "spec_delete k0 e rs") simp
  then show ?thesis
    using OpDelete by (auto simp: spec_delete_def touched_def settled_at_def delete_conv' split: option.splits)
next
  case (OpUpdateWhere p f)
  then obtain m where m: "spec_change_all showKey c 0 (keys_matching p rs) e f rs = ((m, None), rs')"
    using assms no_error_Many by fastforce
  note all = change_all_touches [OF m]
  have "\<not> spec_newer e row" if "map_of rs' k1 = Some row" "p (fst row)" for k1 row
  proof (cases "k1 \<in> set (keys_matching p rs)")
    case True
    then show ?thesis using all [of k1] that by (simp add: settled_at_def)
  next
    case False
    then show ?thesis using all [of k1] that keys_matching_map_of [OF assms(3), of k1 p] by metis
  qed
  then have "\<forall>k1 row. map_of rs' k1 = Some row \<and> p (fst row) \<longrightarrow> \<not> spec_newer e row" by blast
  then show ?thesis using all [of k] unfolding OpUpdateWhere done_op.simps is_delete.simps by blast
next
  case (OpDeleteWhere p)
  then have rs': "rs' = filter (\<lambda>(k, r). \<not> (p (fst r) \<and> spec_newer e r)) rs"
    using assms(1) by (simp add: spec_delete_where_def)
  show ?thesis
    using OpDeleteWhere unfolding rs'
    by (auto simp: touched_def map_of_filter_rows [OF assms(3)] split: option.split if_splits)
next
  case OpSeen
  then show ?thesis using assms by (simp add: touched_def)
next
  case (OpIndex f)
  then show ?thesis using assms by (simp add: touched_def)
qed

lemma done_op_kept:
  assumes "done_op c e0 oper0 rs" "\<And>k. touched e d rs rs' k" "anumber e0 = anumber e" "apart e0 \<le> apart e" "\<not> (is_add oper0 \<and> d)"
  shows "done_op c e0 oper0 rs'"
proof -
  have fresh: "\<not> spec_newer e0 (i, anumber e, apart e)" for i using assms(3,4) by (simp add: spec_newer_def)
  have row: "map_of rs' k = Some r \<Longrightarrow> map_of rs k = Some r \<or> \<not> spec_newer e0 r" for k r
    using assms(2) [of k] fresh unfolding touched_def by (metis option.inject option.distinct(1))
  have kept: "settled_at e0 rs k \<Longrightarrow> settled_at e0 rs' k" for k
    using row unfolding settled_at_def by blast
  have present: "map_of rs k \<noteq> None \<Longrightarrow> \<not> d \<Longrightarrow> map_of rs' k \<noteq> None" for k
    using assms(2) [of k] by (auto simp: touched_def)
  show ?thesis
    using assms(1,5) kept present row by (cases oper0) (auto, blast+)
qed

text \<open>The same for an operation with the part of its context and the ID of its event, which may be no revision.\<close>

definition done_step :: "('k, 'i, 'v) InMemoryView \<Rightarrow> string \<Rightarrow> part_ctx \<times> ('k, 'i, 'v) view_op \<Rightarrow> ('k, 'i) contents \<Rightarrow> bool" where
  "done_step c i step rs =
     (case appliedEventOf (fst step) i of
        Inl err \<Rightarrow> no_error (op_error (snd step) err) | Inr e \<Rightarrow> done_op c e (snd step) rs)"

text \<open>The order in which two operations for a stored event may run so that both are done afterwards.\<close>

definition in_order :: "part_ctx \<times> ('k, 'i, 'v) view_op \<Rightarrow> part_ctx \<times> ('k, 'i, 'v) view_op \<Rightarrow> bool" where
  "in_order a b \<longleftrightarrow> partOf (fst a) \<le> partOf (fst b) \<and> \<not> (is_add (snd a) \<and> is_delete (snd b))"

lemma appliedEventOf_cases:
  obtains (invalid) "\<And>ctx. \<exists>err. appliedEventOf ctx i = Inl err"
  | (valid) number where "\<And>ctx. appliedEventOf ctx i = Inr \<lparr>aid = i, anumber = number, apart = partOf ctx\<rparr>"
  by (cases "ParseRevision i") (auto simp: appliedEventOf_def)

lemma step_done:
  assumes "spec_op showKey zero c ctx i oper rs = (r, rs')" "no_error r" "distinct (map fst rs)"
  shows "done_step c i (ctx, oper) rs'"
    and "done_step c i step rs \<Longrightarrow> in_order step (ctx, oper) \<Longrightarrow> done_step c i step rs'"
proof -
  have "done_step c i (ctx, oper) rs' \<and> (done_step c i step rs \<longrightarrow> in_order step (ctx, oper) \<longrightarrow> done_step c i step rs')"
  proof (cases rule: appliedEventOf_cases [of i])
    case invalid
    then obtain err err' where "appliedEventOf ctx i = Inl err" "appliedEventOf (fst step) i = Inl err'" by blast
    then show ?thesis using assms by (simp add: spec_op_def done_step_def)
  next
    case (valid number)
    let ?e = "\<lambda>ctx. \<lparr>aid = i, anumber = number, apart = partOf ctx\<rparr>"
    have one: "spec_event showKey zero c (?e ctx) oper rs = (r, rs')" using assms(1) valid by (simp add: spec_op_def)
    note D = op_touches [OF one assms(2,3)]
    have "done_op c (?e (fst step)) (snd step) rs'"
      if "done_op c (?e (fst step)) (snd step) rs" "in_order step (ctx, oper)"
      by (rule done_op_kept [OF that(1), of "?e ctx" "is_delete oper"]) (use D that(2) in \<open>auto simp: in_order_def\<close>)
    then show ?thesis using D valid by (simp add: done_step_def)
  qed
  then show "done_step c i (ctx, oper) rs'" "done_step c i step rs \<Longrightarrow> in_order step (ctx, oper) \<Longrightarrow> done_step c i step rs'"
    by blast+
qed

lemma step_repeat:
  assumes "done_step c i (ctx, oper) rs" "holds_rows c v rs"
  shows "\<exists>r v'. run_op showKey zero ctx i oper v = (r, v') \<and> op_err r = None \<and> holds_rows c v' rs"
proof -
  obtain r where r: "spec_op showKey zero c ctx i oper rs = (r, rs)" "no_error r"
    using assms(1) done_op_repeat [OF _ holds_rowsD(7) [OF assms(2)]]
    by (fastforce simp: done_step_def spec_op_def split: sum.splits)
  obtain r' v' where "run_op showKey zero ctx i oper v = (r', v')" by fastforce
  then show ?thesis
    using rel_prodD [OF holds_op [OF assms(2), of showKey zero ctx i oper]] r by (simp add: op_err_None)
qed

lemma play_repeat:
  "\<lbrakk>\<forall>step \<in> set steps. done_step c i step rs; holds_rows c v rs\<rbrakk> \<Longrightarrow>
     \<exists>v'. play showKey zero i steps v = (None, v') \<and> holds_rows c v' rs"
proof (induction steps arbitrary: v)
  case (Cons step steps)
  obtain ctx oper where step: "step = (ctx, oper)" by fastforce
  then obtain r v' where one: "run_op showKey zero ctx i oper v = (r, v')" "op_err r = None" "holds_rows c v' rs"
    using step_repeat [of c i ctx oper rs v showKey zero] Cons.prems by auto
  then show ?case using Cons step by simp
qed simp

lemma play_done:
  "\<lbrakk>play showKey zero i steps v = (None, v'); holds_rows c v rs; sorted_wrt in_order steps;
    \<forall>step \<in> set before. done_step c i step rs \<and> list_all (in_order step) steps\<rbrakk> \<Longrightarrow>
     \<exists>rs'. holds_rows c v' rs' \<and> (\<forall>step \<in> set before \<union> set steps. done_step c i step rs')"
proof (induction steps arbitrary: v rs before)
  case (Cons step steps)
  obtain ctx oper where step: "step = (ctx, oper)" by fastforce
  obtain r v1 where one: "run_op showKey zero ctx i oper v = (r, v1)" by fastforce
  then have r: "op_err r = None" and rest: "play showKey zero i steps v1 = (None, v')"
    using Cons.prems(1) step by (auto split: option.splits)
  obtain rs1 where rs1: "spec_op showKey zero c ctx i oper rs = (r, rs1)" "holds_rows c v1 rs1"
    using holds_op [OF Cons.prems(2), of showKey zero ctx i oper] one by (auto elim: rel_prod.cases)
  note after = step_done [OF rs1(1) r [unfolded op_err_None] holds_rowsD(7) [OF Cons.prems(2)]]
  have "\<forall>s \<in> set (step # before). done_step c i s rs1 \<and> list_all (in_order s) steps"
    using after Cons.prems(3,4) step by (auto simp: list_all_iff)
  from Cons.IH [OF rest rs1(2) _ this] Cons.prems(3) show ?case by auto
qed auto

lemma steps_of_part: "step \<in> set (steps_of p opers ctx part events) \<Longrightarrow> part \<le> partOf (fst step)"
proof (induction events arbitrary: part)
  case (Cons e events)
  then consider os where "step \<in> set (map (Pair (withPart ctx part)) os)" | "step \<in> set (steps_of p opers ctx (part + 1) events)"
    by (auto split: if_splits sum.splits)
  then show ?case
  proof cases
    case 1
    then show ?thesis by (auto simp: withPart_def partOf_def)
  next
    case 2
    then show ?thesis using Cons.IH [of "part + 1"] by simp
  qed
qed simp

lemma steps_of_parts: "sorted_wrt (\<lambda>a b. partOf (fst a) \<le> partOf (fst b)) (steps_of p opers ctx part events)"
proof (induction events arbitrary: part)
  case (Cons e events)
  have "sorted_wrt (\<lambda>a b. partOf (fst a) \<le> partOf (fst b)) (map (Pair (withPart ctx part)) os)" for os
    by (simp add: sorted_wrt_map)
  moreover have "part \<le> partOf (fst step)" if "step \<in> set (steps_of p opers ctx (part + 1) events)" for step
    using steps_of_part [OF that] by simp
  ultimately show ?case
    using Cons.IH [of "part + 1"] by (auto simp: sorted_wrt_append withPart_def partOf_def split: sum.split)
qed simp

lemma sorted_wrt_conj: "sorted_wrt (\<lambda>a b. P a b \<and> Q a b) xs \<longleftrightarrow> sorted_wrt P xs \<and> sorted_wrt Q xs"
  by (induction xs) auto

lemma Get_rows: "holds_rows c v rs \<Longrightarrow> Get v key = map_option fst (map_of rs key)"
  by (simp add: holds_rowsD(6) [of c v rs] Get_def row_of_def option.map_comp comp_def)

section \<open>Properties\<close>

text \<open>
  C10. Applying a stored event again changes nothing, even if upcasters split it into several events.
  Take a view with any history, and a typed projection whose handlers decode their event into
  operations on the view and hand on their context. If \<open>Apply\<close> succeeds for a stored event, then \<open>Apply\<close>
  for the same event succeeds again and leaves all items, and their order, as they are, as long as no
  later operation for the event deletes after an earlier one has inserted or upserted.
\<close>

theorem typed_apply_again:
  assumes "NewInMemoryView f options = Ret c" and "run_ops showKey zero history c = (results, v)"
    and "\<And>t h. handlers p t = Some h \<Longrightarrow> h = view_handler showKey zero (opers t)"
    and "upcast_apply (typed_upcasters p) event = Inr events" and "\<forall>e \<in> set events. ID e = ID event"
    and "sorted_wrt (\<lambda>a b. \<not> (is_add (snd a) \<and> is_delete (snd b))) (steps_of p opers ctx 0 events)"
    and "typed_Apply p ctx event v = (Ret None, v')"
  shows "\<exists>v''. typed_Apply p ctx event v' = (Ret None, v'') \<and> All v'' = All v' \<and> Get v'' key = Get v' key"
proof -
  let ?steps = "steps_of p opers ctx 0 events"
  have loop: "typed_loop p ctx 0 events v = (Ret None, v')" using assms(4,7) by (simp add: typed_Apply_def)
  have played: "typed_loop p ctx 0 events w = map_prod Ret (\<lambda>v. v) (play showKey zero (ID event) ?steps w)" for w
    by (rule typed_loop_play [OF _ assms(5) loop]) (rule assms(3))
  have order: "sorted_wrt in_order ?steps"
    using assms(6) steps_of_parts [of p opers ctx 0 events] unfolding in_order_def by (simp add: sorted_wrt_conj)
  obtain rs where "holds_rows c v rs"
    using holds_ops [OF holds_new [OF assms(1)], of showKey zero history] assms(2) by (auto elim: rel_prod.cases)
  moreover have "play showKey zero (ID event) ?steps v = (None, v')"
    using played [of v] loop by (cases "play showKey zero (ID event) ?steps v") simp
  ultimately have "\<exists>rs'. holds_rows c v' rs' \<and> (\<forall>step \<in> set [] \<union> set ?steps. done_step c (ID event) step rs')"
    using order by (intro play_done) simp_all
  then obtain rs' where rs': "holds_rows c v' rs'" "\<forall>step \<in> set ?steps. done_step c (ID event) step rs'"
    unfolding list.set Un_empty_left by blast
  then obtain v'' where again: "play showKey zero (ID event) ?steps v' = (None, v'')" "holds_rows c v'' rs'"
    using play_repeat [of ?steps c "ID event" rs' v' showKey zero] by blast
  have "Get v'' key = Get v' key" using Get_rows again(2) rs'(1) by metis
  moreover have "rows v'' = rows v'" using holds_rowsD(5) again(2) rs'(1) by metis
  ultimately show ?thesis using played [of v'] again(1) assms(4) by (simp add: typed_Apply_def All_rows)
qed

text \<open>An upcaster that splits an event into two, and handlers that apply an operation for each.\<close>

definition splitting :: Upcasters where
  "splitting = \<lparr>byType = [''moved'' \<mapsto> (\<lambda>e. Inr [e\<lparr>Type := ''left''\<rparr>, e\<lparr>Type := ''arrived''\<rparr>])]\<rparr>"

definition two_opers :: "(nat, nat, bool) view_op \<Rightarrow> (nat, nat, bool) view_op \<Rightarrow> string \<Rightarrow> event \<Rightarrow> goerr + (nat, nat, bool) view_op list" where
  "two_opers a b t e = Inr (if t = ''left'' then [a] else [b])"

definition two_handlers :: "(nat, nat, bool) view_op \<Rightarrow> (nat, nat, bool) view_op \<Rightarrow> (nat, nat, bool) InMemoryView TypedProjection" where
  "two_handlers a b = \<lparr>handlers = (\<lambda>t. if t = ''left'' \<or> t = ''arrived'' then Some (view_handler (\<lambda>_. ''k'') 0 (two_opers a b t)) else None),
     typed_upcasters = Some splitting\<rparr>"

definition moved :: event where
  "moved = (sample_event ''7'')\<lparr>Type := ''moved''\<rparr>"

lemma moved_upcasted: "upcast_apply (Some splitting) moved = Inr [moved\<lparr>Type := ''left''\<rparr>, moved\<lparr>Type := ''arrived''\<rparr>]"
  by (simp add: upcast_apply_def applyWithBudget.simps maxUpcastSteps_def splitting_def moved_def)

lemma moved_ID [simp]: "ID moved = ''7''"
  by (simp add: moved_def sample_event_def)

lemmas typed_eval = typed_Apply_def two_handlers_def moved_upcasted view_handler_def two_opers_def
  withPart_def partOf_def appliedEventOf_def rev_eval digit_view_def Insert_def Upsert_def Update_def DeleteWhere_def keysWhere_def
  view_add_def view_change_def view_delete_def compact_def isNewerThan_def with_revision_def All_def Let_def

theorem typed_apply_again_witness:
  "case typed_Apply (two_handlers (OpInsert 12) (OpUpdate 2 ((+) 10))) None moved digit_view of
     (r, v) \<Rightarrow> All v = [22] \<and> (\<exists>v'. typed_Apply (two_handlers (OpInsert 12) (OpUpdate 2 ((+) 10))) None moved v = (Ret None, v') \<and> All v' = [22])"
proof -
  let ?p = "two_handlers (OpInsert 12) (OpUpdate 2 ((+) 10))"
  obtain r v where run: "typed_Apply ?p None moved digit_view = (r, v)" by fastforce
  have "fst (typed_Apply ?p None moved digit_view) = Ret None \<and> All (snd (typed_Apply ?p None moved digit_view)) = [22]"
    by (simp add: typed_eval)
  then have rv: "r = Ret None" "All v = [22]" using run by simp_all
  have "\<exists>v'. typed_Apply ?p None moved v = (Ret None, v') \<and> All v' = All v \<and> Get v' 0 = Get v 0"
  proof (rule typed_apply_again [where opers = "two_opers (OpInsert 12) (OpUpdate 2 ((+) 10))" and history = "[]" and results = "[]"])
    show "upcast_apply (typed_upcasters ?p) moved = Inr [moved\<lparr>Type := ''left''\<rparr>, moved\<lparr>Type := ''arrived''\<rparr>]"
      by (simp add: two_handlers_def moved_upcasted)
    show "typed_Apply ?p None moved digit_view = (Ret None, v)" using run rv by simp
    show "h = view_handler (\<lambda>_. ''k'') 0 (two_opers (OpInsert 12) (OpUpdate 2 ((+) 10)) t)" if "handlers ?p t = Some h" for t h
      using that by (simp add: two_handlers_def split: if_splits)
  qed (auto intro: digit_view_new simp: two_handlers_def two_opers_def)
  then show ?thesis using run rv by auto
qed

text \<open>
  Without the condition on deleting, it does not hold: an event whose first part upserts an item and whose
  second part deletes it by a condition creates the item anew, from the zero value, when it is applied
  again.
\<close>

lemma typed_apply_again_after_delete:
  "\<exists>v v' v''. Insert (\<lambda>_. ''k'') None ''6'' 12 digit_view = (Inr Added, v)
     \<and> typed_Apply (two_handlers (OpUpsert 2 (\<lambda>n. if n = 0 then 2 else n)) (OpDeleteWhere (\<lambda>n. n > 5))) None moved v = (Ret None, v') \<and> All v' = []
     \<and> typed_Apply (two_handlers (OpUpsert 2 (\<lambda>n. if n = 0 then 2 else n)) (OpDeleteWhere (\<lambda>n. n > 5))) None moved v' = (Ret None, v'') \<and> All v'' = [2]"
  by (simp add: typed_eval)

end
