(* ===== verification/Query.thy ===== *)
theory Query
  imports Errors
begin

text \<open>
  The package \<open>query\<close> (\<open>query/query.go\<close>): filtering, projecting, ordering and paging over a sequence,
  and turning a sequence into a result. A sequence is the list of what it would yield, each element an
  item or an error; a step that stops reads no further, so it does not look at the rest of the list.
\<close>

type_synonym 'i seq = "(goerr + 'i) list"

section \<open>Steps\<close>

fun Where :: "'i seq \<Rightarrow> ('i \<Rightarrow> bool) \<Rightarrow> 'i seq" where
  "Where [] keep = []"
| "Where (Inl err # items) keep = [Inl err]"
| "Where (Inr i # items) keep = (if \<not> keep i then Where items keep else Inr i # Where items keep)"

fun Select :: "'i seq \<Rightarrow> ('i \<Rightarrow> 'r) \<Rightarrow> 'r seq" where
  "Select [] convert = []"
| "Select (Inl err # items) convert = [Inl err]"
| "Select (Inr i # items) convert = Inr (convert i) # Select items convert"

fun collect_loop :: "'i list \<Rightarrow> 'i seq \<Rightarrow> goerr + 'i list" where
  "collect_loop collected [] = Inr collected"
| "collect_loop collected (Inl err # items) = Inl err"
| "collect_loop collected (Inr i # items) = collect_loop (collected @ [i]) items"

definition Collect_seq :: "'i seq \<Rightarrow> goerr + 'i list" where
  "Collect_seq items = collect_loop [] items"

text \<open>
  \<open>slices.SortStableFunc\<close>: an element goes before the first one that the comparison does not put before
  it. For a comparison that is a total preorder, every stable sort returns the same list.
\<close>

fun insert_stable :: "('i \<Rightarrow> 'i \<Rightarrow> int) \<Rightarrow> 'i \<Rightarrow> 'i list \<Rightarrow> 'i list" where
  "insert_stable compare x [] = [x]"
| "insert_stable compare x (y # ys) = (if compare x y \<le> 0 then x # y # ys else y # insert_stable compare x ys)"

definition SortStableFunc :: "'i list \<Rightarrow> ('i \<Rightarrow> 'i \<Rightarrow> int) \<Rightarrow> 'i list" where
  "SortStableFunc items compare = foldr (insert_stable compare) items []"

definition compare_keys :: "'k::linorder \<Rightarrow> 'k \<Rightarrow> int" where
  "compare_keys a b = (if a < b then -1 else if b < a then 1 else 0)"

definition OrderByFunc :: "'i seq \<Rightarrow> ('i \<Rightarrow> 'i \<Rightarrow> int) \<Rightarrow> 'i seq" where
  "OrderByFunc items compare =
     (case Collect_seq items of Inl err \<Rightarrow> [Inl err] | Inr xs \<Rightarrow> map Inr (SortStableFunc xs compare))"

definition OrderBy :: "'i seq \<Rightarrow> ('i \<Rightarrow> 'k::linorder) \<Rightarrow> 'i seq" where
  "OrderBy items key = OrderByFunc items (\<lambda>left right. compare_keys (key left) (key right))"

definition OrderByDescending :: "'i seq \<Rightarrow> ('i \<Rightarrow> 'k::linorder) \<Rightarrow> 'i seq" where
  "OrderByDescending items key = OrderByFunc items (\<lambda>left right. compare_keys (key right) (key left))"

fun Skip :: "'i seq \<Rightarrow> int \<Rightarrow> 'i seq" where
  "Skip [] remaining = []"
| "Skip (Inl err # items) remaining = [Inl err]"
| "Skip (Inr i # items) remaining = (if remaining > 0 then Skip items (remaining - 1) else Inr i # Skip items remaining)"

fun take_loop :: "int \<Rightarrow> 'i seq \<Rightarrow> 'i seq" where
  "take_loop remaining [] = []"
| "take_loop remaining (Inl err # items) = [Inl err]"
| "take_loop remaining (Inr i # items) = Inr i # (if remaining - 1 = 0 then [] else take_loop (remaining - 1) items)"

definition Take :: "'i seq \<Rightarrow> int \<Rightarrow> 'i seq" where
  "Take items count = (if count \<le> 0 then [] else take_loop count items)"

section \<open>Results\<close>

fun First :: "'i seq \<Rightarrow> goerr + 'i option" where
  "First [] = Inr None"
| "First (Inl err # items) = Inl err"
| "First (Inr i # items) = Inr (Some i)"

text \<open>The variables \<open>found\<close> and \<open>seen\<close> of \<open>Single\<close> are one option.\<close>

fun single_loop :: "'i option \<Rightarrow> 'i seq \<Rightarrow> goerr + 'i" where
  "single_loop found [] = (case found of None \<Rightarrow> Inl (Sentinel ErrNoItems) | Some i \<Rightarrow> Inr i)"
| "single_loop found (Inl err # items) = Inl err"
| "single_loop found (Inr i # items) = (if found \<noteq> None then Inl (Sentinel ErrTooManyItems) else single_loop (Some i) items)"

definition Single :: "'i seq \<Rightarrow> goerr + 'i" where
  "Single items = single_loop None items"

fun count_loop :: "int \<Rightarrow> 'i seq \<Rightarrow> goerr + int" where
  "count_loop n [] = Inr n"
| "count_loop n (Inl err # items) = Inl err"
| "count_loop n (Inr i # items) = count_loop (n + 1) items"

definition Count :: "'i seq \<Rightarrow> goerr + int" where
  "Count items = count_loop 0 items"

fun Any_seq :: "'i seq \<Rightarrow> ('i \<Rightarrow> bool) \<Rightarrow> goerr + bool" where
  "Any_seq [] match = Inr False"
| "Any_seq (Inl err # items) match = Inl err"
| "Any_seq (Inr i # items) match = (if match i then Inr True else Any_seq items match)"

section \<open>Sequences that end or fail\<close>

text \<open>Every sequence, as far as it is read, is a list of items that ends, or that ends with an error.\<close>

lemma seq_cases:
  obtains (ended) xs where "items = map Inr xs" | (failed) xs err rest where "items = map Inr xs @ Inl err # rest"
proof (induction items arbitrary: thesis)
  case Nil
  then show ?case by (metis list.simps(8))
next
  case (Cons x items)
  show ?case
  proof (cases x)
    case (Inl err)
    then show ?thesis using Cons.prems(2) [of "[]"] by simp
  next
    case (Inr i)
    show ?thesis
    proof (rule Cons.IH)
      fix xs assume "items = map Inr xs"
      then show ?thesis using Cons.prems(1) [of "i # xs"] Inr by simp
    next
      fix xs err rest assume "items = map Inr xs @ Inl err # rest"
      then show ?thesis using Cons.prems(2) [of "i # xs"] Inr by simp
    qed
  qed
qed

named_theorems seq_simps \<open>what the steps and results of a query do on both kinds of sequences\<close>

lemma collect_loop_seq:
  "collect_loop ys (map Inr xs) = Inr (ys @ xs)" "collect_loop ys (map Inr xs @ Inl err # rest) = Inl err"
  by (induction xs arbitrary: ys) auto

lemma Collect_seq_simps [seq_simps]: "Collect_seq (map Inr xs) = Inr xs" "Collect_seq (map Inr xs @ Inl err # rest) = Inl err"
  "Collect_seq [Inl err] = Inl err" "Collect_seq [] = Inr []"
  by (simp_all add: Collect_seq_def collect_loop_seq)

lemma Where_simps [seq_simps]:
  "Where (map Inr xs) p = map Inr (filter p xs)"
  "Where (map Inr xs @ Inl err # rest) p = map Inr (filter p xs) @ [Inl err]"
  by (induction xs) auto

lemma Select_simps [seq_simps]:
  "Select (map Inr xs) f = map Inr (map f xs)"
  "Select (map Inr xs @ Inl err # rest) f = map Inr (map f xs) @ [Inl err]"
  by (induction xs) auto

lemma Skip_simps [seq_simps]: "Skip (map Inr xs) n = map Inr (drop (nat n) xs)" "Skip [Inl err] n = [Inl err]"
proof -
  show "Skip (map Inr xs) n = map Inr (drop (nat n) xs)"
  proof (induction xs arbitrary: n)
    case (Cons x xs)
    show ?case
    proof (cases "n > 0")
      case True
      then have "nat n = Suc (nat (n - 1))" by simp
      then show ?thesis using Cons [of "n - 1"] True by simp
    next
      case False
      then show ?thesis using Cons [of n] by simp
    qed
  qed simp
qed simp

lemma take_loop_map: "n > 0 \<Longrightarrow> take_loop n (map Inr xs) = map Inr (take (nat n) xs)"
proof (induction xs arbitrary: n)
  case (Cons x xs)
  then have "nat n = Suc (nat (n - 1))" by simp
  then show ?case using Cons by (cases "n = 1") auto
qed simp

lemma Take_simps [seq_simps]:
  "Take (map Inr xs) n = map Inr (take (nat n) xs)" "Take [Inl err] n = (if n \<le> 0 then [] else [Inl err])"
  by (simp_all add: Take_def take_loop_map)

lemma insert_stable_insort: "insert_stable (\<lambda>l r. compare_keys (key l) (key r)) x ys = insort_key key x ys"
  by (induction ys) (auto simp: compare_keys_def)

lemma SortStableFunc_sort_key: "SortStableFunc xs (\<lambda>l r. compare_keys (key l) (key r)) = sort_key key xs"
proof -
  have "insert_stable (\<lambda>l r. compare_keys (key l) (key r)) = insort_key key"
    by (intro ext) (rule insert_stable_insort)
  then show ?thesis by (simp add: SortStableFunc_def sort_key_def)
qed

lemma OrderBy_simps [seq_simps]:
  "OrderBy (map Inr xs) key = map Inr (sort_key key xs)" "OrderBy (map Inr xs @ Inl err # rest) key = [Inl err]"
  by (simp_all add: OrderBy_def OrderByFunc_def Collect_seq_simps SortStableFunc_sort_key)

lemma count_loop_seq: "count_loop n (map Inr xs) = Inr (n + int (length xs))" "count_loop n (map Inr xs @ Inl err # rest) = Inl err"
  by (induction xs arbitrary: n) auto

lemma Count_simps [seq_simps]: "Count (map Inr xs) = Inr (int (length xs))" "Count (map Inr xs @ Inl err # rest) = Inl err"
  by (simp_all add: Count_def count_loop_seq)

lemma Any_simps [seq_simps]:
  "Any_seq (map Inr xs) p = Inr (\<exists>x \<in> set xs. p x)"
  "Any_seq (map Inr xs @ Inl err # rest) p = (if \<exists>x \<in> set xs. p x then Inr True else Inl err)"
  by (induction xs) auto

lemma Any_seq_before: "\<not> list_ex p xs \<Longrightarrow> Any_seq (map Inr xs @ rest) p = Any_seq rest p"
  by (induction xs) auto

lemma Any_seq_found: "Any_seq items p = Inr True \<Longrightarrow> \<exists>xs x rest. items = map Inr xs @ Inr x # rest \<and> p x \<and> \<not> list_ex p xs"
proof (induction items p rule: Any_seq.induct)
  case (3 i items p)
  show ?case
  proof (cases "p i")
    case True
    then show ?thesis by (intro exI [of _ "[]"] exI [of _ i] exI [of _ items]) simp
  next
    case False
    then obtain xs x rest where "items = map Inr xs @ Inr x # rest" "p x" "\<not> list_ex p xs" using 3 by auto
    then show ?thesis using False by (intro exI [of _ "i # xs"] exI [of _ x] exI [of _ rest]) simp
  qed
qed simp_all

lemma Any_seq_none: "Any_seq items p = Inr False \<longleftrightarrow> (\<exists>xs. items = map Inr xs \<and> \<not> list_ex p xs)"
proof (cases rule: seq_cases [of items])
  case (ended xs)
  then show ?thesis by (auto simp: seq_simps list_ex_iff inj_map_eq_map)
next
  case (failed xs err rest)
  have "items \<noteq> map Inr ys" for ys using failed by (auto dest!: arg_cong [where f = set])
  then show ?thesis using failed by (simp add: seq_simps)
qed

lemma Single_simps [seq_simps]:
  "Single (map Inr xs) = (case xs of [] \<Rightarrow> Inl (Sentinel ErrNoItems) | [x] \<Rightarrow> Inr x | _ \<Rightarrow> Inl (Sentinel ErrTooManyItems))"
  "Single (map Inr xs @ Inl err # rest) = (case xs of x # y # _ \<Rightarrow> Inl (Sentinel ErrTooManyItems) | _ \<Rightarrow> Inl err)"
  by (auto simp: Single_def split: list.split)

lemma First_simps [seq_simps]:
  "First (map Inr xs) = Inr (case xs of [] \<Rightarrow> None | x # _ \<Rightarrow> Some x)"
  "First (map Inr xs @ Inl err # rest) = (case xs of [] \<Rightarrow> Inl err | x # _ \<Rightarrow> Inr (Some x))"
  by (auto split: list.split)

section \<open>Properties\<close>

text \<open>
  C40. A query that filters, orders, pages and projects returns exactly the page of the sorted, matching
  items, with items of equal keys in the order of the view. If reading the view fails, the query
  returns that error and never a part of the result, unless it asks for no items at all.
\<close>

theorem query_pipeline:
  "Collect_seq (Select (Take (Skip (OrderBy (Where items match) key) from) count) convert) =
     (case Collect_seq items of
        Inr xs \<Rightarrow> Inr (map convert (take (nat count) (drop (nat from) (sort_key key (filter match xs)))))
      | Inl err \<Rightarrow> if count \<le> 0 then Inr [] else Inl err)"
proof (cases rule: seq_cases [of items])
  case (ended xs)
  then show ?thesis by (simp add: seq_simps del: map_map)
next
  case (failed xs err rest)
  then show ?thesis by (simp add: seq_simps)
qed

text \<open>
  The results of a query on every sequence. \<open>Single\<close> returns an item exactly if the sequence is that
  one item and ends; \<open>Count\<close> counts all items or fails; \<open>Any\<close> and \<open>First\<close> need no more than they read:
  they are not changed by whatever comes after the item that decides.
\<close>

theorem query_results:
  "(Single items = Inr i \<longleftrightarrow> items = [Inr i]) \<and> (Count items = Inr n \<longleftrightarrow> (\<exists>xs. items = map Inr xs \<and> n = int (length xs)))
   \<and> (Any_seq items match = Inr True \<longleftrightarrow> (\<exists>xs x rest. items = map Inr xs @ Inr x # rest \<and> match x \<and> \<not> list_ex match xs))
   \<and> (Any_seq items match = Inr False \<longleftrightarrow> (\<exists>xs. items = map Inr xs \<and> \<not> list_ex match xs))
   \<and> (First items = Inr (Some i) \<longleftrightarrow> (\<exists>rest. items = Inr i # rest))"
proof -
  have "Single items = Inr i \<longleftrightarrow> items = [Inr i]"
    by (cases rule: seq_cases [of items]) (auto simp: seq_simps split: list.splits)
  moreover have "Count items = Inr n \<longleftrightarrow> (\<exists>xs. items = map Inr xs \<and> n = int (length xs))"
  proof (cases rule: seq_cases [of items])
    case (failed xs err rest)
    have "items \<noteq> map Inr ys" for ys using failed by (auto dest!: arg_cong [where f = set])
    then show ?thesis using failed by (simp add: seq_simps)
  qed (auto simp: seq_simps inj_map_eq_map)
  moreover have "Any_seq items match = Inr True \<longleftrightarrow> (\<exists>xs x rest. items = map Inr xs @ Inr x # rest \<and> match x \<and> \<not> list_ex match xs)"
    using Any_seq_found [of items match] by (auto simp: Any_seq_before)
  moreover note Any_seq_none [of items match]
  moreover have "First items = Inr (Some i) \<longleftrightarrow> (\<exists>rest. items = Inr i # rest)"
    by (cases items rule: First.cases) auto
  ultimately show ?thesis by blast
qed

end
