(* ===== verification/Http_Errors.thy ===== *)
theory Http_Errors
  imports Query
begin

text \<open>
  How the package \<open>httpapi\<close> answers errors (\<open>httpapi/httpapi.go\<close>): the status of an error, the errors
  that come from before a command or a query has run, and what the caller is told while the rest is
  logged.
\<close>

section \<open>The status of an error\<close>

definition statusClientClosedRequest :: int where
  "statusClientClosedRequest = 499"

definition StatusFor :: "goerr option \<Rightarrow> int" where
  "StatusFor err =
     (case err of
        None \<Rightarrow> 200
      | Some err \<Rightarrow>
          if errors_Is err ErrUnauthorized then 401
          else if errors_Is err ErrForbidden then 403
          else if errors_Is err ErrTooLarge then 413
          else if errors_Is err ErrUnsupportedMediaType then 415
          else if errors_Is err ErrMalformed then 400
          else if errors_Is err ErrNotFound \<or> errors_Is err ErrNoItems then 404
          else if errors_Is err ErrDomain then 422
          else if errors_Is err ErrOutcomeUnknown then 500
          else if errors_Is err ErrNotCaughtUp then 500
          else if errors_Is err ErrConflict then 409
          else if errors_Is err ErrTransient then 503
          else if errors_Is err ContextCanceled then statusClientClosedRequest
          else if errors_Is err ContextDeadlineExceeded then 503
          else if errors_Is err ErrPermanent then 500
          else if errors_Is err ErrNotARevision \<or> errors_Is err ErrEmptyRange then 400
          else 500)"

section \<open>Errors from before a command or a query has run\<close>

definition hasCategory :: "goerr \<Rightarrow> bool" where
  "hasCategory err \<longleftrightarrow> StatusFor (Some err) \<noteq> 500 \<or> errors_Is err ErrPermanent \<or> errors_Is err ErrOutcomeUnknown
     \<or> errors_Is err ErrNotCaughtUp"

definition beforeRunning :: "goerr \<Rightarrow> goerr" where
  "beforeRunning err =
     (if \<not> errors_Is err ErrOutcomeUnknown \<and> \<not> errors_Is err ErrNotCaughtUp then err else NotRun err)"

definition notRun :: "goerr \<Rightarrow> unit option" where
  "notRun err = (case err of NotRun _ \<Rightarrow> Some () | _ \<Rightarrow> None)"

definition isBeforeRunning :: "goerr \<Rightarrow> bool" where
  "isBeforeRunning err \<longleftrightarrow> errors_As notRun err \<noteq> None"

definition categorise :: "goerr \<Rightarrow> goerr" where
  "categorise err =
     (if hasCategory err then beforeRunning err else Errorf [W (Sentinel ErrMalformed), Lit '': '', W err])"

section \<open>What is told and what is logged\<close>

text \<open>
  What the logger of the API gets: the message is the constructor, with the method and the route of the
  request, the status, the error, and the value of a panic.
\<close>

datatype http_log =
  InternalFailure string string int goerr "string option"
| RequestRefused string string int goerr
| IncompleteAnswer string string goerr "goerr option"

text \<open>A request: what the package reads of \<open>http.Request\<close>. \<open>Header.Get\<close> returns \<open>[]\<close> for a header that is not given.\<close>

datatype read_end = ReadEOF | ReadTooLarge int | ReadFails goerr

record http_request =
  Method :: string
  Pattern :: string
  URLPath :: string
  URLRawQuery :: string
  Host :: string
  Headers :: "string \<Rightarrow> string list"
  Body :: "(string \<times> read_end) option"

definition Header_Get :: "http_request \<Rightarrow> string \<Rightarrow> string" where
  "Header_Get r name = (case Headers r name of [] \<Rightarrow> [] | v # _ \<Rightarrow> v)"

definition http_panic :: "goerr \<Rightarrow> string option" where
  "http_panic err = (case err of HttpPanicError v \<Rightarrow> Some v | _ \<Rightarrow> None)"

definition logFailure :: "http_request \<Rightarrow> int \<Rightarrow> goerr \<Rightarrow> http_log" where
  "logFailure r status err = InternalFailure (Method r) (Pattern r) status err (errors_As http_panic err)"

definition logRefusal :: "http_request \<Rightarrow> int \<Rightarrow> goerr \<Rightarrow> http_log" where
  "logRefusal r status err = RequestRefused (Method r) (Pattern r) status err"

definition logIncomplete :: "http_request \<Rightarrow> goerr \<Rightarrow> goerr option \<Rightarrow> http_log" where
  "logIncomplete r err dropped = IncompleteAnswer (Method r) (Pattern r) err dropped"

definition explain :: "http_request \<Rightarrow> int \<Rightarrow> goerr \<Rightarrow> string \<times> http_log list" where
  "explain r status err =
     (if status = 500 \<and> errors_Is err ErrOutcomeUnknown \<and> \<not> isBeforeRunning err then
        (''outcome unknown: the request may have succeeded'', [logFailure r status err])
      else if status = 500 \<and> errors_Is err ErrNotCaughtUp \<and> \<not> isBeforeRunning err then
        (''the request succeeded, but its result is not visible yet'', [logFailure r status err])
      else if status \<ge> 500 then (''internal server error'', [logFailure r status err])
      else if status = 401 then (''unauthorized'', [logRefusal r status err])
      else if status = 409 then (''conflict: the data has changed since it was read'', [logRefusal r status err])
      else if status = statusClientClosedRequest then (''request canceled'', [])
      else if status = 404 \<and> \<not> errors_Is err ErrNotFound then (''not found'', [logRefusal r status err])
      else (error_text err, []))"

section \<open>Panics\<close>

text \<open>
  A panic with \<open>http.ErrAbortHandler\<close>, which \<open>net/http\<close> expects to abort the response, is one with the
  text of that error. Every other panic becomes an error.
\<close>

definition ErrAbortHandler :: string where
  "ErrAbortHandler = ''net/http: abort Handler''"

definition panicked :: "string \<Rightarrow> goerr go" where
  "panicked v = (if v = ErrAbortHandler then Panic v else Ret (HttpPanicError v))"

text \<open>A function with \<open>recoverInto\<close> deferred, whose results besides the error are \<open>zero\<close> after a panic.\<close>

definition recovered :: "'a \<Rightarrow> ('a \<times> goerr option) go \<Rightarrow> ('a \<times> goerr option) go" where
  "recovered zero m =
     (case m of Ret r \<Rightarrow> Ret r | Panic v \<Rightarrow> go_bind (panicked v) (\<lambda>failure. Ret (zero, Some failure)))"

section \<open>Lemmas\<close>

lemmas status_cases = StatusFor_def statusClientClosedRequest_def

lemma errors_Is_beforeRunning [simp]: "errors_Is (beforeRunning err) t = errors_Is err t"
  by (simp add: beforeRunning_def)

lemma StatusFor_beforeRunning [simp]: "StatusFor (Some (beforeRunning err)) = StatusFor (Some err)"
  by (simp add: StatusFor_def)

lemma hasCategory_beforeRunning [simp]: "hasCategory (beforeRunning err) = hasCategory err"
  by (simp add: hasCategory_def)

lemma beforeRunning_marked:
  "errors_Is err ErrOutcomeUnknown \<or> errors_Is err ErrNotCaughtUp \<Longrightarrow> isBeforeRunning (beforeRunning err)"
  by (auto simp: beforeRunning_def isBeforeRunning_def notRun_def)

lemma isBeforeRunning_wrapped: "isBeforeRunning err \<Longrightarrow> isBeforeRunning (Errorf [W (Sentinel s), Lit t, W err])"
  by (auto simp: isBeforeRunning_def notRun_def)

text \<open>An error without a category gets its status from the sentinel that is wrapped around it.\<close>

lemma no_category:
  assumes "\<not> hasCategory err" and "s \<in> {ErrUnauthorized, ErrForbidden, ErrTooLarge, ErrUnsupportedMediaType, ErrMalformed,
    ErrNotFound, ErrNoItems, ErrDomain, ErrOutcomeUnknown, ErrNotCaughtUp, ErrConflict, ErrTransient, ContextCanceled,
    ContextDeadlineExceeded, ErrPermanent, ErrNotARevision, ErrEmptyRange}"
  shows "\<not> errors_Is err s"
  using assms by (auto simp: hasCategory_def status_cases split: if_splits)

lemma StatusFor_malformed: "\<not> hasCategory err \<Longrightarrow> StatusFor (Some (Errorf [W (Sentinel ErrMalformed), Lit t, W err])) = 400"
  using no_category [of err] by (simp add: status_cases sentinel_Is_def)

lemma StatusFor_unauthorized: "StatusFor (Some (Errorf [W (Sentinel ErrUnauthorized), Lit t, W err])) = 401"
  by (simp add: status_cases sentinel_Is_def)

lemma StatusFor_values:
  "StatusFor (Some err) \<in> {400, 401, 403, 404, 409, 413, 415, 422, 499, 500, 503}"
  by (simp add: status_cases)

lemma StatusFor_HttpPanic [simp]: "StatusFor (Some (HttpPanicError v)) = 500"
  by (simp add: status_cases)

section \<open>Properties\<close>

text \<open>
  What a caller learns of an error, by its status. The text of an error reaches the caller only for
  a refusal the caller can do something about: 400, 403, 404 of the application, 413, 415 and 422.
  Every other answer has one of seven fixed texts and names no internals, and its error is logged, with
  the status, the method and the route, except for a request that was canceled.
\<close>

theorem explain_tells:
  "case explain r (StatusFor (Some err)) err of
     (message, logged) \<Rightarrow>
       if StatusFor (Some err) \<in> {400, 403, 413, 415, 422} \<or> StatusFor (Some err) = 404 \<and> errors_Is err ErrNotFound
       then message = error_text err \<and> logged = []
       else message \<in> {''outcome unknown: the request may have succeeded'', ''the request succeeded, but its result is not visible yet'',
           ''internal server error'', ''unauthorized'', ''conflict: the data has changed since it was read'', ''request canceled'', ''not found''}
         \<and> (if StatusFor (Some err) = 499 then logged = []
            else if StatusFor (Some err) \<ge> 500 then logged = [logFailure r (StatusFor (Some err)) err]
            else logged = [logRefusal r (StatusFor (Some err)) err])"
  using StatusFor_values [of err] by (auto simp: explain_def statusClientClosedRequest_def)

text \<open>
  C15. An answer never invites a caller to repeat a write that may have happened. Whatever else an error
  wraps, a write whose outcome is unknown, or whose view did not catch up, is answered with a status
  that neither asks to try again (409 and 503) nor goes unlogged (499). If the answer is 500, it says
  that the request may have succeeded, or has, exactly if the command has begun: an error from
  determining the user or from building the command, which \<open>UserOf\<close> and \<open>categorise\<close> mark, is answered
  as an internal failure instead.
\<close>

theorem uncertain_writes_answered:
  assumes "errors_Is err ErrOutcomeUnknown \<or> errors_Is err ErrNotCaughtUp"
  shows "StatusFor (Some err) \<notin> {409, 499, 503}
    \<and> StatusFor (Some (categorise err)) = StatusFor (Some err)
    \<and> fst (explain r 500 (categorise err)) = ''internal server error''
    \<and> (isBeforeRunning err \<or> fst (explain r 500 err) =
        (if errors_Is err ErrOutcomeUnknown then ''outcome unknown: the request may have succeeded''
         else ''the request succeeded, but its result is not visible yet''))"
proof -
  have cat: "hasCategory err" using assms by (auto simp: hasCategory_def)
  then have "categorise err = beforeRunning err" by (simp add: categorise_def)
  moreover have "fst (explain r 500 (beforeRunning err)) = ''internal server error''"
    using beforeRunning_marked [OF assms] by (simp add: explain_def)
  moreover have "StatusFor (Some err) \<notin> {409, 499, 503}" using assms by (auto simp: status_cases)
  ultimately show ?thesis using assms by (auto simp: explain_def)
qed

definition lost_write :: goerr where
  "lost_write = Errorf [W (Sentinel ErrOutcomeUnknown), Lit '': writing: '', W (Sentinel ContextCanceled)]"

definition sample_request :: http_request where
  "sample_request = \<lparr>Method = ''POST'', Pattern = ''POST /api/books'', URLPath = ''/api/books'', URLRawQuery = [], Host = ''kit'',
     Headers = (\<lambda>_. []), Body = Some (''{}'', ReadEOF)\<rparr>"

theorem uncertain_writes_answered_witness:
  "StatusFor (Some lost_write) \<notin> {409, 499, 503} \<and> errors_Is lost_write ContextCanceled
   \<and> fst (explain sample_request 500 lost_write) = ''outcome unknown: the request may have succeeded''"
proof -
  have wraps: "errors_Is lost_write ErrOutcomeUnknown" "errors_Is lost_write ContextCanceled" "\<not> isBeforeRunning lost_write"
    by (simp_all add: lost_write_def sentinel_Is_def isBeforeRunning_def notRun_def)
  then show ?thesis using uncertain_writes_answered [of lost_write sample_request] by auto
qed

end
