(* ===== verification/Http_Tags.thy ===== *)
theory Http_Tags
  imports Http_Errors In_Memory_View
begin

text \<open>
  Revisions and entity tags over HTTP (\<open>httpapi/revision.go\<close>): waiting for the revision a request asks
  for, the tag of an answer, the list of tags in \<open>If-None-Match\<close>, and the answer that says that nothing
  has changed. How a query is spelled out (\<open>httpapi/spell_out.go\<close>) is the parameter \<open>spellOut\<close>, which
  returns what it writes, or \<open>None\<close> if it can not spell out the query.
\<close>

section \<open>Responses\<close>

datatype http_body = EmptyBody | MessageBody string | ResultBody string

record response =
  RespStatus :: int
  RespContentType :: string
  RespCacheControl :: string
  RespRevision :: "string option"
  RespETag :: "string option"
  RespBody :: http_body

definition HeaderWaitFor :: string where
  "HeaderWaitFor = ''Wait-For-Revision''"

text \<open>\<open>writeRevision\<close> sets headers; none of them is removed.\<close>

definition writeRevision :: "string \<Rightarrow> string \<Rightarrow> response \<Rightarrow> response" where
  "writeRevision revision tag w =
     (if revision = [] then w
      else
        (let w = w\<lparr>RespCacheControl := ''private, no-cache'', RespRevision := Some revision\<rparr> in
         if tag \<noteq> [] then w\<lparr>RespETag := Some tag\<rparr> else w))"

section \<open>Waiting for a revision\<close>

text \<open>
  \<open>view\<close> is the function \<open>WaitFor\<close> of the view, and \<open>waitingErr wait\<close> what the context with the timeout
  returns for \<open>Err\<close> in the world after the view has returned.
\<close>

definition Await :: "(int \<Rightarrow> 'w \<Rightarrow> goerr option) \<Rightarrow> http_request \<Rightarrow> 'w wait_for \<Rightarrow> int \<Rightarrow> 'w \<Rightarrow> goerr option \<times> 'w" where
  "Await waitingErr r view wait w =
     (let wanted = Header_Get r HeaderWaitFor in
      if wanted = [] then (None, w)
      else
        (case ParseRevision wanted of
           Inl err \<Rightarrow> (Some (Errorf [W (Sentinel ErrMalformed), Lit '': '', W err]), w)
         | Inr _ \<Rightarrow>
             (case view w wanted of
                (None, w') \<Rightarrow> (None, w')
              | (Some err, w') \<Rightarrow> if waitingErr wait w' = None then (Some err, w') else (None, w'))))"

section \<open>Tags\<close>

definition fnv_step :: "64 word \<Rightarrow> char \<Rightarrow> 64 word" where
  "fnv_step h c = (xor h (of_nat (of_char c))) * 1099511628211"

definition fnv64a :: "string \<Rightarrow> 64 word" where
  "fnv64a s = foldl fnv_step 14695981039346656037 s"

fun hex_text :: "nat \<Rightarrow> string" where
  "hex_text n = (if n < 16 then [hex_digit n] else hex_text (n div 16) @ [hex_digit (n mod 16)])"

declare hex_text.simps [simp del]

text \<open>What \<open>etagOf\<close> writes into the hash.\<close>

definition resource_of :: "('q \<Rightarrow> string option) \<Rightarrow> http_request \<Rightarrow> 'q \<Rightarrow> (http_request \<Rightarrow> string) option \<Rightarrow> string option" where
  "resource_of spellOut r query varies =
     (case spellOut query of
        None \<Rightarrow> None
      | Some spelled \<Rightarrow>
          Some (URLPath r @ ''?'' @ URLRawQuery r @ [CHR 0x00] @ spelled @
            (case varies of None \<Rightarrow> [] | Some f \<Rightarrow> CHR 0x00 # f r)))"

definition etagOf :: "('q \<Rightarrow> string option) \<Rightarrow> http_request \<Rightarrow> string \<Rightarrow> 'q \<Rightarrow> (http_request \<Rightarrow> string) option \<Rightarrow> string" where
  "etagOf spellOut r revision query varies =
     (if revision = [] then []
      else
        (case resource_of spellOut r query varies of
           None \<Rightarrow> []
         | Some resource \<Rightarrow> CHR 0x22 # revision @ ''-'' @ hex_text (unat (fnv64a resource)) @ [CHR 0x22]))"

definition tag_space :: string where
  "tag_space = [CHR '' '', CHR 0x09, CHR '','']"

text \<open>The rest of the list after the first tag gets shorter each time, so the loop ends.\<close>

lemma Cut_shorter:
  assumes "strings_Cut s c = (a, rest, True)"
  shows "length rest < length s"
proof -
  have "rest = tl (dropWhile (\<lambda>x. x \<noteq> c) s)" "s \<noteq> []"
    using assms by (auto simp: strings_Cut_def split: if_splits)
  then show ?thesis using length_dropWhile_le [of "\<lambda>x. x \<noteq> c" s] by (cases s) (simp_all del: dropWhile.simps)
qed

lemma next_shorter:
  assumes "strings_CutPrefix (strings_TrimPrefix (strings_TrimLeft list cs) w) q = (quoted, True)"
    and "strings_Cut quoted c = (opaque, rest, True)"
  shows "length rest < length list"
proof -
  have "length quoted \<le> length (strings_TrimPrefix (strings_TrimLeft list cs) w)"
    using assms(1) by (auto simp: strings_CutPrefix_def split: if_splits)
  also have "\<dots> \<le> length (strings_TrimLeft list cs)" by (simp add: strings_TrimPrefix_def)
  also have "\<dots> \<le> length list" by (simp add: strings_TrimLeft_def length_dropWhile_le)
  finally show ?thesis using Cut_shorter [OF assms(2)] by simp
qed

function holdsTag_loop :: "string \<Rightarrow> string \<Rightarrow> bool" where
  "holdsTag_loop tag list =
     (let list = strings_TrimLeft list tag_space in
      if strings_HasPrefix list ''*'' then True
      else
        (case strings_CutPrefix (strings_TrimPrefix list ''W/'') [CHR 0x22] of (quoted, isQuoted) \<Rightarrow>
         case strings_Cut quoted (CHR 0x22) of (opaque, rest, isClosed) \<Rightarrow>
           if \<not> isQuoted \<or> \<not> isClosed then False
           else if CHR 0x22 # opaque @ [CHR 0x22] = tag then True
           else holdsTag_loop tag rest))"
  by pat_completeness auto
termination
  by (relation "measure (length \<circ> snd)") (auto intro!: next_shorter [OF sym sym])

declare holdsTag_loop.simps [simp del]

definition holdsTag :: "http_request \<Rightarrow> string \<Rightarrow> bool" where
  "holdsTag r tag = holdsTag_loop tag (strings_Join (Headers r ''If-None-Match'') '','')"

definition serveUnchanged :: "response \<Rightarrow> http_request \<Rightarrow> string \<Rightarrow> string \<Rightarrow> response option" where
  "serveUnchanged w r revision tag =
     (if tag = [] \<or> \<not> holdsTag r tag then None
      else Some ((writeRevision revision tag w)\<lparr>RespStatus := 304\<rparr>))"

section \<open>Reading the list of tags\<close>

text \<open>A tag as a header names it, weak or not, after some spaces and commas.\<close>

definition quoted_tag :: "string \<Rightarrow> string" where
  "quoted_tag opaque = CHR 0x22 # opaque @ [CHR 0x22]"

fun tag_entry :: "string \<times> bool \<times> string \<Rightarrow> string" where
  "tag_entry (sep, weak, opaque) = sep @ (if weak then ''W/'' else []) @ quoted_tag opaque"

fun entry_ok :: "string \<times> bool \<times> string \<Rightarrow> bool" where
  "entry_ok (sep, weak, opaque) \<longleftrightarrow> set sep \<subseteq> set tag_space \<and> CHR 0x22 \<notin> set opaque"

text \<open>A line of the header: entries, and spaces and commas after them.\<close>

definition tag_line :: "(string \<times> bool \<times> string) list \<times> string \<Rightarrow> string" where
  "tag_line line = concat (map tag_entry (fst line)) @ snd line"

definition line_ok :: "(string \<times> bool \<times> string) list \<times> string \<Rightarrow> bool" where
  "line_ok line \<longleftrightarrow> list_all entry_ok (fst line) \<and> set (snd line) \<subseteq> set tag_space"

lemma TrimLeft_append: "set sep \<subseteq> set cs \<Longrightarrow> strings_TrimLeft (sep @ s) cs = strings_TrimLeft s cs"
  by (induction sep) (auto simp: strings_TrimLeft_def)

lemma holdsTag_loop_blank: "set sep \<subseteq> set tag_space \<Longrightarrow> holdsTag_loop tag (sep @ s) = holdsTag_loop tag s"
  by (subst (1 2) holdsTag_loop.simps) (simp only: TrimLeft_append)

lemma holdsTag_loop_Nil: "\<not> holdsTag_loop tag []"
  by (subst holdsTag_loop.simps) (simp add: go_simps)

lemma Cut_quote: "CHR 0x22 \<notin> set opaque \<Longrightarrow> strings_Cut (opaque @ CHR 0x22 # rest) (CHR 0x22) = (opaque, rest, True)"
  by (induction opaque) (auto simp: strings_Cut_def)

lemma holdsTag_loop_tag:
  assumes "CHR 0x22 \<notin> set opaque"
  shows "holdsTag_loop tag ((if weak then ''W/'' else []) @ quoted_tag opaque @ rest) \<longleftrightarrow> quoted_tag opaque = tag \<or> holdsTag_loop tag rest"
  by (subst holdsTag_loop.simps)
    (use Cut_quote [OF assms, of rest] in \<open>simp add: strings_TrimLeft_def strings_HasPrefix_def strings_TrimPrefix_def
      strings_CutPrefix_def tag_space_def quoted_tag_def\<close>)

lemma holdsTag_loop_entry:
  "entry_ok (sep, weak, opaque) \<Longrightarrow>
     holdsTag_loop tag (tag_entry (sep, weak, opaque) @ rest) \<longleftrightarrow> quoted_tag opaque = tag \<or> holdsTag_loop tag rest"
  using holdsTag_loop_blank [of sep tag] holdsTag_loop_tag [of opaque tag weak rest] by simp

lemma holdsTag_loop_entries:
  "list_all entry_ok entries \<Longrightarrow>
     holdsTag_loop tag (concat (map tag_entry entries) @ rest) \<longleftrightarrow>
       (\<exists>(sep, weak, opaque) \<in> set entries. quoted_tag opaque = tag) \<or> holdsTag_loop tag rest"
  by (induction entries) (auto simp: holdsTag_loop_entry simp del: tag_entry.simps entry_ok.simps)

lemma holdsTag_loop_line:
  assumes "line_ok line"
  shows "holdsTag_loop tag (tag_line line @ rest) \<longleftrightarrow>
    (\<exists>(sep, weak, opaque) \<in> set (fst line). quoted_tag opaque = tag) \<or> holdsTag_loop tag rest"
  using assms holdsTag_loop_entries [of "fst line" tag "snd line @ rest"] holdsTag_loop_blank [of "snd line" tag rest]
  by (simp add: tag_line_def line_ok_def)

lemma holdsTag_loop_lines:
  "list_all line_ok lines \<Longrightarrow>
     holdsTag_loop tag (strings_Join (map tag_line lines) '','') \<longleftrightarrow>
       (\<exists>line \<in> set lines. \<exists>(sep, weak, opaque) \<in> set (fst line). quoted_tag opaque = tag)"
proof (induction lines rule: induct_list012)
  case 1
  then show ?case by (simp add: holdsTag_loop_Nil)
next
  case (2 line)
  then show ?case using holdsTag_loop_line [of line tag "[]"] by (simp add: holdsTag_loop_Nil)
next
  case (3 line line' lines)
  then show ?case
    using holdsTag_loop_line [of line tag "'','' @ strings_Join (map tag_line (line' # lines)) '',''"]
      holdsTag_loop_blank [of "'',''" tag] by (simp add: tag_space_def)
qed

section \<open>What a tag says\<close>

lemma hex_digit_inj: "a < 16 \<Longrightarrow> b < 16 \<Longrightarrow> hex_digit a = hex_digit b \<longleftrightarrow> a = b"
  by (auto simp: hex_digit_def split: if_splits dest!: arg_cong [where f = "of_char :: char \<Rightarrow> nat"])

lemma hex_digit_chars: "a < 16 \<Longrightarrow> hex_digit a \<noteq> CHR ''-'' \<and> hex_digit a \<noteq> CHR 0x22"
  by (auto simp: hex_digit_def split: if_splits dest!: arg_cong [where f = "of_char :: char \<Rightarrow> nat"])

lemma hex_text_chars: "c \<in> set (hex_text n) \<Longrightarrow> c \<noteq> CHR ''-'' \<and> c \<noteq> CHR 0x22"
proof (induction n rule: hex_text.induct)
  case (1 n)
  then show ?case by (cases "n < 16") (auto simp: hex_text.simps [of n] hex_digit_chars)
qed

lemma hex_text_inj: "hex_text a = hex_text b \<Longrightarrow> a = b"
proof (induction a arbitrary: b rule: hex_text.induct)
  case (1 a)
  have nonempty: "hex_text n \<noteq> []" for n by (subst hex_text.simps) simp
  show ?case
  proof (cases "a < 16"; cases "b < 16")
    assume "\<not> a < 16" "\<not> b < 16"
    then have "hex_text (a div 16) = hex_text (b div 16)" "a mod 16 = b mod 16"
      using "1.prems" hex_digit_inj by (simp_all add: hex_text.simps [of a] hex_text.simps [of b])
    then show ?thesis using 1(1) [of "b div 16"] \<open>\<not> a < 16\<close> by (metis div_mod_decomp)
  qed (use "1.prems" nonempty nonempty [symmetric] hex_digit_inj in \<open>auto simp: hex_text.simps [of a] hex_text.simps [of b]\<close>)
qed

lemma first_split: "\<lbrakk>xs @ c # ys = xs' @ c # ys'; c \<notin> set xs; c \<notin> set xs'\<rbrakk> \<Longrightarrow> xs = xs' \<and> ys = ys'"
proof (induction xs arbitrary: xs')
  case Nil
  then show ?case by (cases xs') auto
next
  case (Cons x xs)
  then show ?case by (cases xs') auto
qed

lemma last_split: "\<lbrakk>xs @ c # ys = xs' @ c # ys'; c \<notin> set ys; c \<notin> set ys'\<rbrakk> \<Longrightarrow> xs = xs' \<and> ys = ys'"
proof -
  assume eq: "xs @ c # ys = xs' @ c # ys'" and notin: "c \<notin> set ys" "c \<notin> set ys'"
  have "rev ys @ c # rev xs = rev ys' @ c # rev xs'" using arg_cong [OF eq, of rev] by simp
  from first_split [OF this] show ?thesis using notin by simp
qed

text \<open>A tag tells the revision, and the hash of the resource, the query and what it varies with.\<close>

lemma etagOf_tells:
  assumes "etagOf spellOut r revision query varies \<noteq> []"
    and "etagOf spellOut r revision query varies = etagOf spellOut r' revision' query' varies'"
  obtains resource resource' where "revision = revision'"
    "resource_of spellOut r query varies = Some resource" "resource_of spellOut r' query' varies' = Some resource'"
    "fnv64a resource = fnv64a resource'"
proof -
  obtain resource where one: "revision \<noteq> []" "resource_of spellOut r query varies = Some resource"
    using assms(1) by (auto simp: etagOf_def split: if_splits option.splits)
  moreover obtain resource' where two: "revision' \<noteq> []" "resource_of spellOut r' query' varies' = Some resource'"
    using assms by (auto simp: etagOf_def split: if_splits option.splits)
  ultimately have "(revision @ CHR ''-'' # hex_text (unat (fnv64a resource))) @ [CHR 0x22] =
      (revision' @ CHR ''-'' # hex_text (unat (fnv64a resource'))) @ [CHR 0x22]"
    using assms(2) by (simp add: etagOf_def)
  then have "revision @ CHR ''-'' # hex_text (unat (fnv64a resource)) = revision' @ CHR ''-'' # hex_text (unat (fnv64a resource'))"
    by (simp only: append_same_eq)
  from last_split [OF this] have "revision = revision'" "hex_text (unat (fnv64a resource)) = hex_text (unat (fnv64a resource'))"
    using hex_text_chars by blast+
  then have "revision = revision'" "fnv64a resource = fnv64a resource'"
    using hex_text_inj by (auto simp: word_unat_eq_iff)
  with one(2) two(2) show ?thesis using that by blast
qed

lemma etagOf_quoted:
  assumes "etagOf spellOut r revision query varies \<noteq> []" "CHR 0x22 \<notin> set revision"
  obtains opaque where "etagOf spellOut r revision query varies = quoted_tag opaque" "CHR 0x22 \<notin> set opaque"
proof -
  obtain resource where "etagOf spellOut r revision query varies = quoted_tag (revision @ ''-'' @ hex_text (unat (fnv64a resource)))"
    using assms(1) by (auto simp: etagOf_def quoted_tag_def split: if_splits option.splits)
  moreover have "CHR 0x22 \<notin> set (revision @ ''-'' @ hex_text n)" for n using assms(2) hex_text_chars by auto
  ultimately show ?thesis using that by blast
qed

lemma WaitFor_reached: "WaitFor revision found = Some None \<Longrightarrow> \<exists>(current, ended) \<in> set found. rev_valid current \<and> rev_rank revision \<le> rev_rank current"
proof (induction revision found rule: WaitFor.induct)
  case (2 revision current ended later)
  show ?case
  proof (cases "CompareRevisions current revision")
    case (Inr c)
    show ?thesis
    proof (cases "c \<ge> 0")
      case True
      then show ?thesis using Inr rev_order.cmp_nonneg [OF Inr] rev_order.cmp_Inr_iff [of current revision c] by auto
    next
      case False
      then show ?thesis using 2 Inr by (auto split: option.splits)
    qed
  qed (use 2 in simp)
qed simp

lemma RevisionOf_covers: "e \<in> set events \<Longrightarrow> is_revision (ID e) \<Longrightarrow> rev_rank (ID e) \<le> rev_rank (RevisionOf events)"
  using rev_order.foldl_advance_upper [of "[]" "ID e" "map ID events"] by (simp add: RevisionOf_eq rev_valid_def)

section \<open>Properties\<close>

text \<open>
  \<open>If-None-Match\<close> is read as HTTP has it. For every list of tags, weak or not, with any spaces and
  commas between them and spread over any number of lines, a request holds a tag exactly if one of the
  listed tags is that tag. Reading the list always ends.
\<close>

theorem holdsTag_listed:
  assumes "Headers r ''If-None-Match'' = map tag_line lines" and "list_all line_ok lines"
  shows "holdsTag r tag \<longleftrightarrow> (\<exists>line \<in> set lines. \<exists>(sep, weak, opaque) \<in> set (fst line). tag = quoted_tag opaque)"
  using holdsTag_loop_lines [OF assms(2), of tag] assms(1) by (auto simp: holdsTag_def)

theorem holdsTag_listed_witness:
  "holdsTag (sample_request\<lparr>Headers := (\<lambda>_. [tag_line ([([], True, ''1-a'')], '' ''), tag_line ([('','', False, ''2-b,c'')], [])])\<rparr>) (quoted_tag ''2-b,c'')"
  using holdsTag_listed [of "sample_request\<lparr>Headers := (\<lambda>_. [tag_line ([([], True, ''1-a'')], '' ''), tag_line ([('','', False, ''2-b,c'')], [])])\<rparr>"
      "[([([], True, ''1-a'')], '' ''), ([('','', False, ''2-b,c'')], [])]" "quoted_tag ''2-b,c''"]
  by (simp add: line_ok_def tag_space_def)

text \<open>
  C17. A caller reads its own writes. If a request names the revision that \<open>RevisionOf\<close> computed for
  some written events, and \<open>Await\<close> on a view in memory returns nil before the time is over, then the
  view has seen a revision that is at least as high as that of every one of these events.
\<close>

theorem Await_own_writes:
  assumes "Header_Get r HeaderWaitFor = RevisionOf written" and "Await waitingErr r view wait w = (None, w')"
    and "waitingErr wait w' = None" and "e \<in> set written" and "is_revision (ID e)"
    and "WaitFor (RevisionOf written) found = Some result" and "view w (RevisionOf written) = (result, w1)"
  shows "\<exists>(current, ended) \<in> set found. rev_valid current \<and> rev_rank (ID e) \<le> rev_rank current"
proof -
  have covers: "rev_rank (ID e) \<le> rev_rank (RevisionOf written)" by (rule RevisionOf_covers [OF assms(4,5)])
  have "0 \<le> rev_rank (ID e)" using assms(5) by (auto elim: is_revisionE)
  with covers have set: "RevisionOf written \<noteq> []" by auto
  have "result = None"
    using assms(1-3) set assms(7)
    by (auto simp: Await_def Let_def split: sum.splits option.splits if_splits)
  with assms(6) obtain current ended where "(current, ended) \<in> set found" "rev_valid current" "rev_rank (RevisionOf written) \<le> rev_rank current"
    using WaitFor_reached by blast
  then show ?thesis using covers by (intro bexI [of _ "(current, ended)"]) auto
qed

theorem Await_own_writes_witness:
  "\<exists>(current, ended) \<in> set [(''6'', None :: goerr option), (''8'', None)]. rev_valid current \<and> rev_rank (ID (sample_event ''7'')) \<le> rev_rank current"
proof -
  let ?r = "sample_request\<lparr>Headers := (\<lambda>h. if h = HeaderWaitFor then [''7''] else [])\<rparr>"
  let ?found = "[(''6'', None :: goerr option), (''8'', None)]"
  let ?view = "\<lambda>w :: unit. \<lambda>wanted :: string. (None :: goerr option, w)"
  have revision: "RevisionOf [sample_event ''7''] = ''7''" by (simp add: rev_eval sample_event_def)
  have "WaitFor ''7'' ?found = Some None" by (simp add: rev_eval)
  moreover have "Await (\<lambda>_ _. None) ?r ?view 5 () = (None, ())" by (simp add: Await_def Header_Get_def rev_eval)
  moreover have "Header_Get ?r HeaderWaitFor = ''7''" by (simp add: Header_Get_def)
  moreover have "is_revision (ID (sample_event ''7''))" by (simp add: rev_eval sample_event_def)
  ultimately show ?thesis
    using Await_own_writes [of ?r "[sample_event ''7'']" "\<lambda>_ _. None" ?view 5 "()" "()" "sample_event ''7''" ?found None "()"]
    unfolding revision by simp
qed

end
