(* ===== verification/Http_Requests.thy ===== *)
theory Http_Requests
  imports Http_Tags Projection
begin

text \<open>
  From a request to a command or a query (\<open>httpapi/httpapi.go\<close>): the media type, the origin of a request
  without a body, reading the body, determining the user, and \<open>build\<close>, which puts them together.

  What the package asks of the standard library is the record \<open>http_lib\<close>: the media type that
  \<open>mime.ParseMediaType\<close> returns, if it can, the host that \<open>url.Parse\<close> finds in an origin, and the decoding
  and encoding of JSON objects. Decoding a body is a property of its type, the record \<open>body_class\<close>:
  \<open>KindOf\<close> is what \<open>kindOf\<close> of \<open>httpapi/decoding.go\<close> returns for it, \<open>UnmarshalStrict\<close> decodes with the rules
  of \<open>strictJSON\<close>, and \<open>Describe\<close> is \<open>describeDecoding\<close>, which finds the words for a failure.
\<close>

record http_lib =
  ParseMediaType :: "string \<Rightarrow> string option"
  OriginHost :: "string \<Rightarrow> string option"
  DecodeObject :: "string \<Rightarrow> (string \<rightharpoonup> string) option"
  EncodeObject :: "(string \<rightharpoonup> string) \<Rightarrow> string"
  DurationText :: "int \<Rightarrow> string"

record 'b body_class =
  TakesNoBody :: bool
  ZeroBody :: 'b
  KindOf :: "string option"
  UnmarshalStrict :: "string \<Rightarrow> goerr + 'b"
  Describe :: "string \<Rightarrow> goerr \<Rightarrow> goerr"

section \<open>The media type and the origin\<close>

definition requireJSON :: "http_lib \<Rightarrow> http_request \<Rightarrow> goerr option" where
  "requireJSON lib r =
     (let given = Header_Get r ''Content-Type'' in
      if given = [] then Some (Errorf [W (Sentinel ErrUnsupportedMediaType), Lit '': Content-Type is required''])
      else
        (case ParseMediaType lib given of
           None \<Rightarrow> Some (Errorf [W (Sentinel ErrUnsupportedMediaType), Lit ('': '' @ strconv_Quote given @ '' could not be parsed'')])
         | Some mediaType \<Rightarrow>
             if mediaType \<noteq> ''application/json'' then
               Some (Errorf [W (Sentinel ErrUnsupportedMediaType), Lit ('': '' @ strconv_Quote mediaType @ '' is not application/json'')])
             else None))"

text \<open>The check of \<open>http.CrossOriginProtection\<close> without trusted origins; true is a request that passes.\<close>

definition safeMethods :: "string list" where
  "safeMethods = [''GET'', ''HEAD'', ''OPTIONS'']"

definition crossOrigin_Check :: "http_lib \<Rightarrow> http_request \<Rightarrow> bool" where
  "crossOrigin_Check lib r =
     (if List.member safeMethods (Method r) then True
      else if Header_Get r ''Sec-Fetch-Site'' \<noteq> [] then
        Header_Get r ''Sec-Fetch-Site'' = ''same-origin'' \<or> Header_Get r ''Sec-Fetch-Site'' = ''none''
      else if Header_Get r ''Origin'' = [] then True
      else OriginHost lib (Header_Get r ''Origin'') = Some (Host r))"

section \<open>The body\<close>

definition MaxRequestBody :: nat where
  "MaxRequestBody = 2 ^ 20"

definition too_large :: "string \<Rightarrow> goerr" where
  "too_large limit = Errorf [W (Sentinel ErrTooLarge), Lit ('': at most '' @ limit @ '' bytes are read'')]"

text \<open>
  \<open>io.ReadAll\<close> of a reader that is limited to one byte more than the maximum: the error of the reader, if
  it has one, comes after its bytes, so it is not met if there are more of them than that.
\<close>

definition readBody :: "http_request \<Rightarrow> (goerr + string) go" where
  "readBody r =
     (case Body r of
        None \<Rightarrow> Panic nil_dereference
      | Some (bytes, ended) \<Rightarrow>
          if length bytes > MaxRequestBody then Ret (Inl (too_large (strconv_Itoa MaxRequestBody)))
          else
            (case ended of
               ReadTooLarge limit \<Rightarrow> Ret (Inl (too_large (strconv_Itoa (nat limit))))
             | ReadFails err \<Rightarrow>
                 Ret (Inl (Errorf [W (Sentinel ErrMalformed), Lit '': '', W (DecodeFailure ''the body could not be read'' [err])]))
             | ReadEOF \<Rightarrow> Ret (Inr bytes)))"

definition json_space :: string where
  "json_space = [CHR '' '', CHR 0x09, CHR 0x0D, CHR 0x0A]"

definition bytes_Trim :: "string \<Rightarrow> string \<Rightarrow> string" where
  "bytes_Trim s cs = rev (dropWhile (\<lambda>c. List.member cs c) (rev (dropWhile (\<lambda>c. List.member cs c) s)))"

definition refuseNull :: "'b body_class \<Rightarrow> string \<Rightarrow> goerr option" where
  "refuseNull c body =
     (if bytes_Trim body json_space \<noteq> ''null'' then None
      else (case KindOf c of None \<Rightarrow> None | Some expected \<Rightarrow> Some (DecodeFailure (''the body must be '' @ expected) [])))"

definition decodeStrictly :: "'b body_class \<Rightarrow> string \<Rightarrow> goerr + 'b" where
  "decodeStrictly c body = (case UnmarshalStrict c body of Inr v \<Rightarrow> Inr v | Inl err \<Rightarrow> Inl (Describe c body err))"

text \<open>What decoding strictly into a pointer to a struct without fields accepts, and does not leave nil: the object without members.\<close>

definition is_empty_object :: "string \<Rightarrow> bool" where
  "is_empty_object body =
     (case bytes_Trim body json_space of
        [] \<Rightarrow> False
      | c # rest \<Rightarrow> c = CHR 0x7B \<and> bytes_Trim rest json_space = [CHR 0x7D])"

definition requireNoBody :: "http_lib \<Rightarrow> http_request \<Rightarrow> goerr option go" where
  "requireNoBody lib r =
     (if \<not> crossOrigin_Check lib r then
        Ret (Some (Errorf [W (Sentinel ErrForbidden), Lit '': a request without a body is not accepted from another origin'']))
      else if Body r = None then Ret None
      else
        go_bind (readBody r) (\<lambda>read.
          case read of
            Inl err \<Rightarrow> Ret (Some err)
          | Inr body \<Rightarrow>
              if body = [] \<or> is_empty_object body then Ret None
              else Ret (Some (Errorf [W (Sentinel ErrMalformed), Lit '': this route takes no body, so the body has to be empty, or {}'']))))"

definition BodyOf :: "http_lib \<Rightarrow> 'b body_class \<Rightarrow> http_request \<Rightarrow> (goerr + 'b) go" where
  "BodyOf lib c r =
     (if TakesNoBody c then
        go_bind (requireNoBody lib r) (\<lambda>refused. case refused of Some err \<Rightarrow> Ret (Inl err) | None \<Rightarrow> Ret (Inr (ZeroBody c)))
      else
        (case requireJSON lib r of
           Some err \<Rightarrow> Ret (Inl err)
         | None \<Rightarrow>
             go_bind (readBody r) (\<lambda>read.
               case read of
                 Inl err \<Rightarrow> Ret (Inl err)
               | Inr body \<Rightarrow>
                   (case refuseNull c body of
                      Some err \<Rightarrow> Ret (Inl (Errorf [W (Sentinel ErrMalformed), Lit '': '', W err]))
                    | None \<Rightarrow>
                        (case decodeStrictly c body of
                           Inl err \<Rightarrow> Ret (Inl (Errorf [W (Sentinel ErrMalformed), Lit '': '', W err]))
                         | Inr decoded \<Rightarrow> Ret (Inr decoded))))))"

section \<open>The API and its user\<close>

text \<open>An API; the logger is a number that stands for it. The state \<open>'y\<close> is what the functions of the application work on.\<close>

record ('w, 'y, 'u) API =
  apiStore :: "'w Store option"
  userFrom :: "http_request \<Rightarrow> ('y, goerr + 'u) act"
  apiLogger :: "nat option"

definition WithLogger :: "nat option \<Rightarrow> (nat option \<Rightarrow> nat option go) go" where
  "WithLogger logger =
     (if logger = None then Panic ''architecturekit/httpapi: WithLogger needs a logger, not nil'' else Ret (\<lambda>_. Ret logger))"

fun http_applyOptions :: "string \<Rightarrow> 's \<Rightarrow> ('s \<Rightarrow> 's go) option list \<Rightarrow> 's go" where
  "http_applyOptions function st [] = Ret st"
| "http_applyOptions function st (None # options) =
     Panic (''architecturekit/httpapi: '' @ function @ '' got a nil option'')"
| "http_applyOptions function st (Some option # options) =
     go_bind (option st) (\<lambda>st'. http_applyOptions function st' options)"

definition newAPI ::
  "string \<Rightarrow> 'w Store option \<Rightarrow> (http_request \<Rightarrow> ('y, goerr + 'u) act) \<Rightarrow> (nat option \<Rightarrow> nat option go) option list \<Rightarrow> ('w, 'y, 'u) API go" where
  "newAPI function store user options =
     go_bind (http_applyOptions function None options) (\<lambda>logger.
       Ret \<lparr>apiStore = store, userFrom = user, apiLogger = logger\<rparr>)"

definition NewAPI ::
  "'w Store option \<Rightarrow> (http_request \<Rightarrow> ('y, goerr + 'u) act) option \<Rightarrow> (nat option \<Rightarrow> nat option go) option list \<Rightarrow> ('w, 'y, 'u) API go" where
  "NewAPI store user options =
     (case user of
        None \<Rightarrow> Panic ''architecturekit/httpapi: NewAPI needs a function that determines the user, not nil''
      | Some f \<Rightarrow> newAPI ''NewAPI'' store f options)"

definition NewPublicAPI :: "'w Store option \<Rightarrow> (nat option \<Rightarrow> nat option go) option list \<Rightarrow> ('w, 'y, unit) API go" where
  "NewPublicAPI store options = newAPI ''NewPublicAPI'' store (\<lambda>r y. (Ret (Inr ()), y)) options"

definition act_bind :: "('y, 'a) act \<Rightarrow> ('a \<Rightarrow> ('y, 'b) act) \<Rightarrow> ('y, 'b) act" where
  "act_bind m f y = (case m y of (Ret a, y') \<Rightarrow> f a y' | (Panic v, y') \<Rightarrow> (Panic v, y'))"

definition UserOf :: "http_request \<Rightarrow> ('w, 'y, 'u) API \<Rightarrow> ('y, goerr + 'u) act" where
  "UserOf r api =
     act_bind (userFrom api r) (\<lambda>result y.
       case result of
         Inr user \<Rightarrow> (Ret (Inr user), y)
       | Inl err \<Rightarrow>
           (Ret (Inl (if hasCategory err then beforeRunning err
                      else Errorf [W (Sentinel ErrUnauthorized), Lit '': '', W err])), y))"

definition build ::
  "http_lib \<Rightarrow> 'b body_class \<Rightarrow> http_request \<Rightarrow> ('w, 'y, 'u) API \<Rightarrow> (http_request \<Rightarrow> 'b \<Rightarrow> 'u \<Rightarrow> ('y, goerr + 'c) act) \<Rightarrow>
   ('y, goerr + 'c) act" where
  "build lib c r api to =
     act_bind (UserOf r api) (\<lambda>result y.
       case result of
         Inl err \<Rightarrow> (Ret (Inl err), y)
       | Inr user \<Rightarrow>
           (case BodyOf lib c r of
              Panic v \<Rightarrow> (Panic v, y)
            | Ret (Inl err) \<Rightarrow> (Ret (Inl err), y)
            | Ret (Inr request) \<Rightarrow>
                act_bind (to r request user) (\<lambda>built y.
                  case built of Inl err \<Rightarrow> (Ret (Inl (categorise err)), y) | Inr made \<Rightarrow> (Ret (Inr made), y)) y))"

section \<open>Lemmas\<close>

lemma act_bind_eq: "act_bind m f y = (case m y of (Ret a, y') \<Rightarrow> f a y' | (Panic v, y') \<Rightarrow> (Panic v, y'))"
  by (simp add: act_bind_def)

lemma requireJSON_Some: "requireJSON lib r = Some err \<Longrightarrow> StatusFor (Some err) = 415"
  by (auto simp: requireJSON_def Let_def status_cases sentinel_Is_def split: if_splits option.splits)

lemma readBody_bound: "readBody r = Ret (Inr body) \<Longrightarrow> length body \<le> MaxRequestBody"
  by (auto simp: readBody_def split: if_splits option.splits read_end.splits)

text \<open>A request that another origin sends is refused by a route that takes no body.\<close>

lemma BodyOf_foreign:
  assumes "TakesNoBody c" "\<not> crossOrigin_Check lib r"
  shows "\<exists>err. BodyOf lib c r = Ret (Inl err) \<and> StatusFor (Some err) = 403"
  using assms by (auto simp: BodyOf_def requireNoBody_def status_cases sentinel_Is_def)

lemma BodyOf_not_JSON:
  assumes "\<not> TakesNoBody c" "\<And>t. ParseMediaType lib (Header_Get r ''Content-Type'') = Some t \<Longrightarrow> t \<noteq> ''application/json''"
  shows "\<exists>err. BodyOf lib c r = Ret (Inl err) \<and> StatusFor (Some err) = 415"
proof -
  have "requireJSON lib r \<noteq> None"
    using assms(2) by (simp add: requireJSON_def Let_def split: option.split)
  then obtain err where "requireJSON lib r = Some err" by blast
  then show ?thesis using assms(1) requireJSON_Some by (auto simp: BodyOf_def)
qed

end
