(* ===== verification/Http_Routes.thy ===== *)
theory Http_Routes
  imports Http_Requests
begin

text \<open>
  Commands and queries over HTTP (\<open>httpapi/httpapi.go\<close>, \<open>httpapi/query.go\<close>, \<open>answerRevisioned\<close> of
  \<open>httpapi/revision.go\<close>): handling a command, asking a query, the routes that answer them, and the answers.

  A value that is answered is what \<open>jsonv2.Marshal\<close> makes of it: encoded text, the text of an error, or a
  panic. A handler returns its response and what it logs. It gets the state that the store and the
  functions of the application work on, and returns it.
\<close>

type_synonym marshalled = "(string + string) go"

type_synonym 'y http_handler = "http_request \<Rightarrow> ('y, response \<times> http_log list) act"

section \<open>Answers\<close>

definition encodeResult :: "marshalled \<Rightarrow> (goerr + string) go" where
  "encodeResult result =
     (case result of
        Panic v \<Rightarrow> go_bind (panicked v) (\<lambda>failure. Ret (Inl failure))
      | Ret (Inl err) \<Rightarrow> Ret (Inl (Errorf [Lit (''httpapi: encoding the result: '' @ err)]))
      | Ret (Inr encoded) \<Rightarrow> Ret (Inr (encoded @ [CHR 0x0A])))"

definition no_answer :: response where
  "no_answer = \<lparr>RespStatus = 200, RespContentType = [], RespCacheControl = [], RespRevision = None, RespETag = None, RespBody = EmptyBody\<rparr>"

definition json_answer :: response where
  "json_answer = no_answer\<lparr>RespContentType := ''application/json'', RespCacheControl := ''no-store''\<rparr>"

definition respond_failure :: "http_request \<Rightarrow> goerr \<Rightarrow> response \<times> http_log list" where
  "respond_failure r err =
     (let status = StatusFor (Some err); (message, logged) = explain r status err in
      (json_answer\<lparr>RespStatus := status, RespBody := MessageBody message\<rparr>, logged))"

definition respondResultAt ::
  "http_request \<Rightarrow> string \<Rightarrow> string \<Rightarrow> marshalled \<Rightarrow> goerr option \<Rightarrow> (response \<times> http_log list) go" where
  "respondResultAt r revision tag result err =
     (case err of
        Some err \<Rightarrow> Ret (respond_failure r err)
      | None \<Rightarrow>
          go_bind (encodeResult result) (\<lambda>encoded.
            case encoded of
              Inl err \<Rightarrow> Ret (respond_failure r err)
            | Inr body \<Rightarrow> Ret ((writeRevision revision tag json_answer)\<lparr>RespStatus := 200, RespBody := ResultBody body\<rparr>, [])))"

definition respondResult :: "http_request \<Rightarrow> marshalled \<Rightarrow> goerr option \<Rightarrow> (response \<times> http_log list) go" where
  "respondResult r result err = respondResultAt r [] [] result err"

text \<open>The revision is written as a JSON string, next to the fields; \<open>maps.Copy\<close> lets the fields win.\<close>

definition respond :: "http_lib \<Rightarrow> http_request \<Rightarrow> event list \<Rightarrow> (string \<rightharpoonup> string) \<Rightarrow> goerr option \<Rightarrow> (response \<times> http_log list) go" where
  "respond lib r written extra err =
     respondResult r (Ret (Inr (EncodeObject lib ([''revision'' \<mapsto> strconv_Quote (RevisionOf written)] ++ extra)))) err"

definition needs_api :: string where
  "needs_api = ''architecturekit/httpapi: answering needs the API, not nil''"

definition Respond ::
  "http_lib \<Rightarrow> http_request \<Rightarrow> ('w, 'y, 'u) API option \<Rightarrow> event list \<Rightarrow> goerr option \<Rightarrow> (response \<times> http_log list) go" where
  "Respond lib r api written err = (if api = None then Panic needs_api else respond lib r written Map.empty err)"

definition RespondResult ::
  "http_request \<Rightarrow> ('w, 'y, 'u) API option \<Rightarrow> marshalled \<Rightarrow> goerr option \<Rightarrow> (response \<times> http_log list) go" where
  "RespondResult r api result err = (if api = None then Panic needs_api else respondResult r result err)"

definition RespondError ::
  "http_request \<Rightarrow> ('w, 'y, 'u) API option \<Rightarrow> goerr option \<Rightarrow> (response \<times> http_log list) go" where
  "RespondError r api err =
     (if api = None then Panic needs_api
      else if err = None then Panic ''architecturekit/httpapi: RespondError needs an error, not nil''
      else respondResult r (Ret (Inr ''{}'')) err)"

definition answerPanic :: "http_request \<Rightarrow> ('y, response \<times> http_log list) act \<Rightarrow> ('y, response \<times> http_log list) act" where
  "answerPanic r m y =
     (case m y of
        (Ret answered, y') \<Rightarrow> (Ret answered, y')
      | (Panic v, y') \<Rightarrow> (go_bind (panicked v) (\<lambda>failure. respondResult r (Ret (Inr ''{}'')) (Some failure)), y'))"

section \<open>Commands\<close>

text \<open>\<open>HandledCommand\<close> is \<open>None\<close> for the zero command, which \<open>Handle\<close> returns if there is none.\<close>

record 'c Handled =
  HandledCommand :: "'c option"
  HandledEvents :: "event list"

definition nothing_handled :: "'c Handled" where
  "nothing_handled = \<lparr>HandledCommand = None, HandledEvents = []\<rparr>"

definition execute_command ::
  "('w, ('w, 's) sys, 'u) API \<Rightarrow> ('w, 'p command, 's) Decider \<Rightarrow> 'p command \<Rightarrow> (('w, 's) sys, 'p command Handled \<times> goerr option) act" where
  "execute_command api decider cmd y =
     (let handled = \<lparr>HandledCommand = Some cmd, HandledEvents = []\<rparr> in
      case apiStore api of
        None \<Rightarrow> (Ret (handled, Some (Sentinel ErrNoStore)), y)
      | Some s \<Rightarrow>
          (case Execute s decider cmd y of
             Panic v \<Rightarrow> (recovered handled (Panic v), y)
           | Ret (Inl err, y') \<Rightarrow> (Ret (handled, Some err), y')
           | Ret (Inr written, y') \<Rightarrow> (Ret (handled\<lparr>HandledEvents := written\<rparr>, None), y')))"

definition Handle ::
  "http_lib \<Rightarrow> 'b body_class \<Rightarrow> http_request \<Rightarrow> ('w, ('w, 's) sys, 'u) API option \<Rightarrow>
   (http_request \<Rightarrow> 'b \<Rightarrow> 'u \<Rightarrow> (('w, 's) sys, goerr + 'p command) act) option \<Rightarrow> ('w, 'p command, 's) Decider \<Rightarrow>
   (('w, 's) sys, 'p command Handled \<times> goerr option) act" where
  "Handle lib c r api toCommand decider y =
     (case api of
        None \<Rightarrow> (recovered nothing_handled (Panic ''architecturekit/httpapi: Handle needs the API, not nil''), y)
      | Some api \<Rightarrow>
          (case toCommand of
             None \<Rightarrow> (recovered nothing_handled (Panic ''architecturekit/httpapi: Handle needs a function that turns the request into a command, not nil''), y)
           | Some to \<Rightarrow>
               if decider_State decider = None then
                 (recovered nothing_handled (Panic ''architecturekit/httpapi: Handle needs a decider made with NewDecider, not the zero Decider''), y)
               else
                 (case build lib c r api to y of
                    (Panic v, y') \<Rightarrow> (recovered nothing_handled (Panic v), y')
                  | (Ret (Inl err), y') \<Rightarrow> (Ret (nothing_handled, Some err), y')
                  | (Ret (Inr cmd), y') \<Rightarrow> execute_command api decider cmd y')))"

text \<open>The function of \<open>Adding\<close> returns what its value encodes to, and an error.\<close>

type_synonym ('y, 'c) adding = "'c Handled \<Rightarrow> ('y, marshalled \<times> goerr option) act"

definition Adding :: "('y, 'c) adding option \<Rightarrow> (('y, 'c) adding option \<Rightarrow> ('y, 'c) adding option go) go" where
  "Adding extra =
     (if extra = None then Panic ''architecturekit/httpapi: Adding needs a function, not nil''
      else Ret (\<lambda>given.
        if given \<noteq> None then Panic ''architecturekit/httpapi: Adding is given twice'' else Ret extra))"

definition fieldsOf :: "http_lib \<Rightarrow> marshalled \<Rightarrow> (goerr + (string \<rightharpoonup> string)) go" where
  "fieldsOf lib value =
     (case value of
        Panic v \<Rightarrow> go_bind (panicked v) (\<lambda>failure. Ret (Inl failure))
      | Ret (Inl err) \<Rightarrow> Ret (Inl (Errorf [Lit (''httpapi: encoding the fields of the answer: '' @ err)]))
      | Ret (Inr encoded) \<Rightarrow>
          (case DecodeObject lib encoded of
             None \<Rightarrow> Ret (Inl (Errorf [Lit (''httpapi: the fields of the answer must encode to a JSON object, not '' @ encoded)]))
           | Some extra \<Rightarrow>
               if extra ''revision'' \<noteq> None then
                 Ret (Inl (Errorf [Lit ''httpapi: the fields of the answer must not contain a revision, which the kit adds itself'']))
               else Ret (Inr extra)))"

definition fieldsFor ::
  "http_lib \<Rightarrow> http_request \<Rightarrow> 'c Handled \<Rightarrow> ('y, 'c) adding \<Rightarrow> ('y, ((string \<rightharpoonup> string) \<times> goerr option) \<times> http_log list) act" where
  "fieldsFor lib r handled f =
     act_bind (f handled) (\<lambda>(value, failure) y.
       (go_bind (fieldsOf lib value) (\<lambda>result.
          case failure of
            Some e \<Rightarrow>
              (case result of
                 Inl err \<Rightarrow> Ret ((Map.empty, None), [logIncomplete r e (Some err)])
               | Inr extra \<Rightarrow> Ret ((extra, None), [logIncomplete r e None]))
          | None \<Rightarrow>
              (case result of Inl err \<Rightarrow> Ret ((Map.empty, Some err), []) | Inr extra \<Rightarrow> Ret ((extra, None), []))), y))"

definition methodOf :: "string \<Rightarrow> string" where
  "methodOf pattern =
     (if strings_ContainsAny pattern [CHR '' '', CHR 0x09]
      then takeWhile (\<lambda>c. \<not> List.member [CHR '' '', CHR 0x09] c) pattern else [])"

definition MethodQuery :: string where
  "MethodQuery = ''QUERY''"

text \<open>The handler that \<open>Route\<close> gives to the mux.\<close>

definition route_handler ::
  "http_lib \<Rightarrow> 'b body_class \<Rightarrow> ('w, ('w, 's) sys, 'u) API \<Rightarrow>
   (http_request \<Rightarrow> 'b \<Rightarrow> 'u \<Rightarrow> (('w, 's) sys, goerr + 'p command) act) \<Rightarrow> ('w, 'p command, 's) Decider \<Rightarrow>
   (('w, 's) sys, 'p command) adding option \<Rightarrow> ('w, 's) sys http_handler" where
  "route_handler lib c api to decider adds r =
     answerPanic r
       (act_bind (Handle lib c r (Some api) (Some to) decider) (\<lambda>(handled, err).
          act_bind
            (case (err, adds) of
               (None, Some f) \<Rightarrow> fieldsFor lib r handled f
             | _ \<Rightarrow> (\<lambda>y. (Ret ((Map.empty, err), []), y)))
            (\<lambda>((extra, err), logged) y.
               (go_bind (respond lib r (HandledEvents handled) extra err) (\<lambda>(w, told). Ret (w, logged @ told)), y))))"

definition Route ::
  "http_lib \<Rightarrow> 'b body_class \<Rightarrow> ('w, ('w, 's) sys, 'u) API option \<Rightarrow> string \<Rightarrow>
   (http_request \<Rightarrow> 'b \<Rightarrow> 'u \<Rightarrow> (('w, 's) sys, goerr + 'p command) act) option \<Rightarrow> ('w, 'p command, 's) Decider \<Rightarrow>
   ((('w, 's) sys, 'p command) adding option \<Rightarrow> (('w, 's) sys, 'p command) adding option go) option list \<Rightarrow>
   ('w, 's) sys http_handler go" where
  "Route lib c api pattern toCommand decider options =
     (case api of
        None \<Rightarrow> Panic ''architecturekit/httpapi: Route needs the API, not nil''
      | Some api \<Rightarrow>
          (case toCommand of
             None \<Rightarrow> Panic ''architecturekit/httpapi: Route needs a function that turns the request into a command, not nil''
           | Some to \<Rightarrow>
               if decider_State decider = None then
                 Panic ''architecturekit/httpapi: Route needs a decider made with NewDecider, not the zero Decider''
               else if methodOf pattern = [] then
                 Panic (''architecturekit/httpapi: Route needs a pattern that names a method, such as POST, not '' @ strconv_Quote pattern @
                   '', which accepts every method, GET included'')
               else if List.member (safeMethods @ [MethodQuery]) (methodOf pattern) then
                 Panic (''architecturekit/httpapi: Route needs a pattern whose method may change something, such as POST, not '' @
                   strconv_Quote pattern @ '', since '' @ methodOf pattern @ '' must not change anything'')
               else
                 go_bind (http_applyOptions ''Route'' None options) (\<lambda>adds.
                   Ret (route_handler lib c api to decider adds))))"

section \<open>Queries\<close>

text \<open>A query is answered with a result, which is what it encodes to, and an error.\<close>

type_synonym ('y, 'q) answer = "'q \<Rightarrow> ('y, marshalled \<times> goerr option) act"

definition Ask ::
  "http_lib \<Rightarrow> 'b body_class \<Rightarrow> http_request \<Rightarrow> ('w, 'y, 'u) API option \<Rightarrow>
   (http_request \<Rightarrow> 'b \<Rightarrow> 'u \<Rightarrow> ('y, goerr + 'q) act) option \<Rightarrow> ('y, 'q) answer option \<Rightarrow> ('y, marshalled \<times> goerr option) act" where
  "Ask lib c r api toQuery answer y =
     (let zero = Ret (Inr ''null'') in
      case api of
        None \<Rightarrow> (recovered zero (Panic ''architecturekit/httpapi: Ask needs the API, not nil''), y)
      | Some api \<Rightarrow>
          (case toQuery of
             None \<Rightarrow> (recovered zero (Panic ''architecturekit/httpapi: Ask needs a function that turns the request into a query, not nil''), y)
           | Some to \<Rightarrow>
               (case answer of
                  None \<Rightarrow> (recovered zero (Panic ''architecturekit/httpapi: Ask needs a function that answers the query, not nil''), y)
                | Some f \<Rightarrow>
                    (case build lib c r api to y of
                       (Panic v, y') \<Rightarrow> (recovered zero (Panic v), y')
                     | (Ret (Inl err), y') \<Rightarrow> (Ret (zero, Some err), y')
                     | (Ret (Inr query), y') \<Rightarrow> (case f query y' of (result, y'') \<Rightarrow> (recovered zero result, y''))))))"

text \<open>A view that a query can wait for; \<open>ViewValue\<close> is what \<open>isNil\<close> looks at.\<close>

record 'y revisioned_view =
  ViewWaitFor :: "'y wait_for"
  ViewRevision :: "('y, string \<times> goerr option) act"
  ViewValue :: "rvalue option"

record 'y querySettings =
  qview :: "'y revisioned_view option"
  qwait :: int
  isTagged :: bool
  qvaries :: "(http_request \<Rightarrow> string) option"

definition givenTogether :: string where
  "givenTogether = ''architecturekit/httpapi: Awaiting is given along with Revisioned, which waits as well''"

definition Revisioned :: "http_lib \<Rightarrow> 'y revisioned_view \<Rightarrow> int \<Rightarrow> ('y querySettings \<Rightarrow> 'y querySettings go) go" where
  "Revisioned lib view wait =
     (if isNil (ViewValue view) then Panic ''architecturekit/httpapi: Revisioned needs a view, not nil''
      else if wait < 0 then Panic (''architecturekit/httpapi: Revisioned needs a wait that is not negative, not '' @ DurationText lib wait)
      else Ret (\<lambda>st.
        if qview st \<noteq> None \<and> isTagged st then Panic ''architecturekit/httpapi: Revisioned is given twice''
        else if qview st \<noteq> None then Panic givenTogether
        else Ret (st\<lparr>qview := Some view, qwait := wait, isTagged := True\<rparr>)))"

definition Awaiting :: "http_lib \<Rightarrow> 'y revisioned_view \<Rightarrow> int \<Rightarrow> ('y querySettings \<Rightarrow> 'y querySettings go) go" where
  "Awaiting lib view wait =
     (if isNil (ViewValue view) then Panic ''architecturekit/httpapi: Awaiting needs a view, not nil''
      else if wait < 0 then Panic (''architecturekit/httpapi: Awaiting needs a wait that is not negative, not '' @ DurationText lib wait)
      else Ret (\<lambda>st.
        if qview st \<noteq> None \<and> \<not> isTagged st then Panic ''architecturekit/httpapi: Awaiting is given twice''
        else if qview st \<noteq> None then Panic givenTogether
        else Ret (st\<lparr>qview := Some view, qwait := wait\<rparr>)))"

definition Varying :: "(http_request \<Rightarrow> string) option \<Rightarrow> ('y querySettings \<Rightarrow> 'y querySettings go) go" where
  "Varying varies =
     (if varies = None then Panic ''architecturekit/httpapi: Varying needs a function, not nil''
      else Ret (\<lambda>st.
        if qvaries st \<noteq> None then Panic ''architecturekit/httpapi: Varying is given twice''
        else Ret (st\<lparr>qvaries := varies\<rparr>)))"

text \<open>\<open>answerRevisioned\<close> in three steps: once the revision is read, once waiting is over, and from the start.\<close>

definition answer_tagged ::
  "('q \<Rightarrow> string option) \<Rightarrow> ('y, 'q) answer \<Rightarrow> 'y querySettings \<Rightarrow> http_request \<Rightarrow> 'q \<Rightarrow> string \<Rightarrow> ('y, response \<times> http_log list) act" where
  "answer_tagged spellOut answer st r query revision y =
     (let tag = etagOf spellOut r revision query (qvaries st) in
      case serveUnchanged no_answer r revision tag of
        Some unchanged \<Rightarrow> (Ret (unchanged, []), y)
      | None \<Rightarrow> act_bind (answer query) (\<lambda>(result, err) y. (respondResultAt r revision tag result err, y)) y)"

definition answer_awaited ::
  "('q \<Rightarrow> string option) \<Rightarrow> ('y, 'q) answer \<Rightarrow> 'y revisioned_view \<Rightarrow> 'y querySettings \<Rightarrow> http_request \<Rightarrow> 'q \<Rightarrow>
   ('y, response \<times> http_log list) act" where
  "answer_awaited spellOut answer view st r query y =
     (if \<not> isTagged st then act_bind (answer query) (\<lambda>(result, err) y. (respondResult r result err, y)) y
      else
        act_bind (ViewRevision view) (\<lambda>(revision, failed) y.
          case failed of
            Some err \<Rightarrow> (respondResult r (Ret (Inr ''{}'')) (Some err), y)
          | None \<Rightarrow> answer_tagged spellOut answer st r query revision y) y)"

definition answerRevisioned ::
  "http_lib \<Rightarrow> (int \<Rightarrow> 'y \<Rightarrow> goerr option) \<Rightarrow> ('q \<Rightarrow> string option) \<Rightarrow> 'b body_class \<Rightarrow> ('w, 'y, 'u) API \<Rightarrow>
   (http_request \<Rightarrow> 'b \<Rightarrow> 'u \<Rightarrow> ('y, goerr + 'q) act) \<Rightarrow> ('y, 'q) answer \<Rightarrow> 'y revisioned_view \<Rightarrow> 'y querySettings \<Rightarrow> 'y http_handler" where
  "answerRevisioned lib waitingErr spellOut c api to answer view st r =
     answerPanic r
       (act_bind (build lib c r api to) (\<lambda>built y.
          case built of
            Inl err \<Rightarrow> (respondResult r (Ret (Inr ''{}'')) (Some err), y)
          | Inr query \<Rightarrow>
              (case Await waitingErr r (ViewWaitFor view) (qwait st) y of
                 (Some err, y1) \<Rightarrow> (respondResult r (Ret (Inr ''{}'')) (Some err), y1)
               | (None, y1) \<Rightarrow> answer_awaited spellOut answer view st r query y1)))"

definition Query_route ::
  "http_lib \<Rightarrow> (int \<Rightarrow> 'y \<Rightarrow> goerr option) \<Rightarrow> ('q \<Rightarrow> string option) \<Rightarrow> 'b body_class \<Rightarrow> ('w, 'y, 'u) API option \<Rightarrow> string \<Rightarrow>
   (http_request \<Rightarrow> 'b \<Rightarrow> 'u \<Rightarrow> ('y, goerr + 'q) act) option \<Rightarrow> ('y, 'q) answer option \<Rightarrow>
   ('y querySettings \<Rightarrow> 'y querySettings go) option list \<Rightarrow> 'y http_handler go" where
  "Query_route lib waitingErr spellOut c api pattern toQuery answer options =
     (case api of
        None \<Rightarrow> Panic ''architecturekit/httpapi: Query needs the API, not nil''
      | Some a \<Rightarrow>
          (case toQuery of
             None \<Rightarrow> Panic ''architecturekit/httpapi: Query needs a function that turns the request into a query, not nil''
           | Some to \<Rightarrow>
               (case answer of
                  None \<Rightarrow> Panic ''architecturekit/httpapi: Query needs a function that answers the query, not nil''
                | Some f \<Rightarrow>
                    if methodOf pattern = [] then
                      Panic (''architecturekit/httpapi: Query needs a pattern that names the method QUERY, not '' @ strconv_Quote pattern @
                        '', which accepts every method'')
                    else if methodOf pattern \<noteq> MethodQuery then
                      Panic (''architecturekit/httpapi: Query needs a pattern whose method is QUERY, not '' @ strconv_Quote pattern @
                        '', since a query is asked with QUERY rather than '' @ methodOf pattern)
                    else
                      go_bind (http_applyOptions ''Query'' \<lparr>qview = None, qwait = 0, isTagged = False, qvaries = None\<rparr> options) (\<lambda>st.
                        if qvaries st \<noteq> None \<and> \<not> isTagged st then
                          Panic ''architecturekit/httpapi: Varying needs Revisioned, since only a revisioned query has a tag''
                        else
                          (case qview st of
                             None \<Rightarrow>
                               Ret (\<lambda>r. answerPanic r (act_bind (Ask lib c r api toQuery answer) (\<lambda>(result, err) y.
                                 (respondResult r result err, y))))
                           | Some view \<Rightarrow> Ret (answerRevisioned lib waitingErr spellOut c a to f view st))))))"

section \<open>Lemmas\<close>

lemma respond_failure_status: "RespStatus (fst (respond_failure r err)) = StatusFor (Some err)"
  by (simp add: respond_failure_def Let_def split: prod.split)

lemma respondResult_Some [simp]: "respondResult r m (Some err) = Ret (respond_failure r err)"
  by (simp add: respondResult_def respondResultAt_def)

lemma respond_Some [simp]: "respond lib r written extra (Some err) = Ret (respond_failure r err)"
  by (simp add: respond_def)

lemma respond_None:
  "respond lib r written extra None =
     Ret (json_answer\<lparr>RespStatus := 200, RespBody := ResultBody (EncodeObject lib ([''revision'' \<mapsto> strconv_Quote (RevisionOf written)] ++ extra) @ [CHR 0x0A])\<rparr>, [])"
  by (simp add: respond_def respondResult_def respondResultAt_def encodeResult_def writeRevision_def)

lemma panicked_Panic: "panicked v = Panic v' \<longleftrightarrow> v = ErrAbortHandler \<and> v' = v"
  by (auto simp: panicked_def)

lemma answerPanic_Panic: "answerPanic r m y = (Panic v, y') \<Longrightarrow> v = ErrAbortHandler"
  by (auto simp: answerPanic_def panicked_def split: prod.splits go.splits if_splits)

lemma route_handler_unfold:
  assumes "Handle lib c r (Some api) (Some to) decider y = (Ret (handled, Some err), y')"
  shows "route_handler lib c api to decider adds r y = (Ret (respond_failure r err), y')"
  using assms by (simp add: route_handler_def answerPanic_def act_bind_def split: prod.split)

lemma Handle_build:
  assumes "decider_State decider \<noteq> None"
  shows "Handle lib c r (Some api) (Some to) decider y =
    (case build lib c r api to y of
       (Panic v, y') \<Rightarrow> (recovered nothing_handled (Panic v), y')
     | (Ret (Inl err), y') \<Rightarrow> (Ret (nothing_handled, Some err), y')
     | (Ret (Inr cmd), y') \<Rightarrow> execute_command api decider cmd y')"
  using assms by (auto simp: Handle_def)

lemma build_body_refused:
  assumes "userFrom api r y = (Ret (Inr user), y1)" "BodyOf lib c r = Ret (Inl err)"
  shows "build lib c r api to y = (Ret (Inl err), y1)"
  using assms by (simp add: build_def UserOf_def act_bind_def)

lemma Route_Ret:
  assumes "Route lib c api pattern toCommand decider options = Ret handler"
  obtains a to adds where "api = Some a" "toCommand = Some to" "decider_State decider \<noteq> None" "\<not> List.member safeMethods (methodOf pattern)"
    "handler = route_handler lib c a to decider adds" "http_applyOptions ''Route'' None options = Ret adds"
  using assms by (auto simp: Route_def go_bind_eq_Ret split: option.splits if_splits)

text \<open>A request that a browser sends from another origin, as its headers say.\<close>

definition foreign_origin :: "http_lib \<Rightarrow> http_request \<Rightarrow> bool" where
  "foreign_origin lib r \<longleftrightarrow>
     (if Header_Get r ''Sec-Fetch-Site'' \<noteq> [] then Header_Get r ''Sec-Fetch-Site'' \<notin> {''same-origin'', ''none''}
      else Header_Get r ''Origin'' \<noteq> [] \<and> OriginHost lib (Header_Get r ''Origin'') \<noteq> Some (Host r))"

text \<open>What keeps a body from being read: a foreign origin for a route without a body, or a media type that is not JSON.\<close>

definition refused_origin :: "http_lib \<Rightarrow> 'b body_class \<Rightarrow> http_request \<Rightarrow> bool" where
  "refused_origin lib c r \<longleftrightarrow>
     (if TakesNoBody c then foreign_origin lib r else ParseMediaType lib (Header_Get r ''Content-Type'') \<noteq> Some ''application/json'')"

lemma refused_origin_body:
  assumes "refused_origin lib c r" "\<not> List.member safeMethods (Method r)"
  shows "\<exists>err. BodyOf lib c r = Ret (Inl err) \<and> StatusFor (Some err) = (if TakesNoBody c then 403 else 415)"
proof (cases "TakesNoBody c")
  case True
  then have "\<not> crossOrigin_Check lib r"
    using assms by (auto simp: refused_origin_def foreign_origin_def crossOrigin_Check_def split: if_splits)
  then show ?thesis using BodyOf_foreign True by auto
next
  case False
  then show ?thesis using BodyOf_not_JSON [of c lib r] assms(1) by (auto simp: refused_origin_def)
qed

lemma respondResultAt_cases:
  assumes "respondResultAt r revision tag result err = Ret (w, logged)"
  shows "(\<exists>e. respond_failure r e = (w, logged)) \<or> err = None \<and> RespStatus w = 200"
proof (cases err)
  case None
  then obtain x where x: "encodeResult result = Ret x"
      "(case x of Inl e \<Rightarrow> Ret (respond_failure r e)
        | Inr body \<Rightarrow> Ret ((writeRevision revision tag json_answer)\<lparr>RespStatus := 200, RespBody := ResultBody body\<rparr>, [])) = Ret (w, logged)"
    using assms by (auto simp: respondResultAt_def go_bind_eq_Ret)
  then show ?thesis using None by (cases x) auto
next
  case (Some e)
  then have "respond_failure r e = (w, logged)" using assms by (simp add: respondResultAt_def)
  then show ?thesis by metis
qed

lemma respondResultAt_not_304:
  assumes "respondResultAt r revision tag result err = Ret (w, logged)"
  shows "RespStatus w \<noteq> 304"
proof -
  have "StatusFor (Some e) \<noteq> 304" for e using StatusFor_values [of e] by auto
  then show ?thesis
    using respondResultAt_cases [OF assms] respond_failure_status [of r] by (metis fst_conv numeral_eq_iff num.distinct(1,5) semiring_norm(87,88,89))
qed

lemma recovered_Ret: "recovered zero (Panic v) = Ret (x, e) \<Longrightarrow> x = zero \<and> e = Some (HttpPanicError v)"
  by (auto simp: recovered_def panicked_def split: if_splits)

lemma respond_failure_not_200: "RespStatus (fst (respond_failure r err)) \<noteq> 200"
  using StatusFor_values [of err] by (auto simp: respond_failure_status)

lemma act_bind_Ret:
  assumes "act_bind m f y = (Ret x, y')"
  obtains a y1 where "m y = (Ret a, y1)" "f a y1 = (Ret x, y')"
  using assms by (auto simp: act_bind_def split: prod.splits go.splits)

text \<open>What \<open>Handle\<close> returns for a command that was executed.\<close>

lemma Handle_executed:
  assumes "decider_State decider \<noteq> None"
  shows "Handle lib c r (Some api) (Some to) decider y = (Ret (handled, None), y') \<longleftrightarrow>
    (\<exists>cmd y1 s written. build lib c r api to y = (Ret (Inr cmd), y1) \<and> apiStore api = Some s
      \<and> Execute s decider cmd y1 = Ret (Inr written, y') \<and> handled = \<lparr>HandledCommand = Some cmd, HandledEvents = written\<rparr>)"
proof -
  obtain b y1 where b: "build lib c r api to y = (b, y1)" by fastforce
  consider (panic) v where "b = Panic v" | (failed) err where "b = Ret (Inl err)" | (built) cmd where "b = Ret (Inr cmd)"
    by (metis go.exhaust sum.exhaust)
  then show ?thesis
  proof cases
    case built
    then have handle: "Handle lib c r (Some api) (Some to) decider y = execute_command api decider cmd y1" using b assms by (simp add: Handle_build)
    show ?thesis
    proof (cases "apiStore api")
      case None
      then show ?thesis using b built handle by (simp add: execute_command_def)
    next
      case (Some s)
      then show ?thesis using b built handle
        by (cases "Execute s decider cmd y1") (auto simp: execute_command_def recovered_def go_bind_eq_Ret Let_def split: sum.splits prod.splits)
    qed
  qed (use b assms in \<open>auto simp: Handle_build recovered_def go_bind_eq_Ret\<close>)
qed

text \<open>
  What \<open>Adding\<close> adds to the answer, and what is logged. An error of its function leaves the answer incomplete,
  which is logged, and so is a value that can not be added then; without an error, such a value is a failure.
\<close>

definition added ::
  "http_lib \<Rightarrow> http_request \<Rightarrow> ('y, 'c) adding option \<Rightarrow> 'c Handled \<Rightarrow> 'y \<Rightarrow> (string \<rightharpoonup> string) \<Rightarrow> http_log list \<Rightarrow> 'y \<Rightarrow> bool" where
  "added lib r adds handled y extra logged y' \<longleftrightarrow>
     (case adds of
        None \<Rightarrow> extra = Map.empty \<and> logged = [] \<and> y' = y
      | Some f \<Rightarrow>
          (\<exists>value. f handled y = (Ret (value, None), y') \<and> fieldsOf lib value = Ret (Inr extra) \<and> logged = [])
          \<or> (\<exists>value e. f handled y = (Ret (value, Some e), y') \<and> fieldsOf lib value = Ret (Inr extra) \<and> logged = [logIncomplete r e None])
          \<or> (\<exists>value e err. f handled y = (Ret (value, Some e), y') \<and> fieldsOf lib value = Ret (Inl err) \<and> extra = Map.empty
               \<and> logged = [logIncomplete r e (Some err)]))"

lemma added_None [simp]: "added lib r None handled y extra logged y' \<longleftrightarrow> extra = Map.empty \<and> logged = [] \<and> y' = y"
  by (simp add: added_def)

lemma fieldsFor_added:
  "fieldsFor lib r handled f y = (Ret ((extra, None), logged), y') \<longleftrightarrow> added lib r (Some f) handled y extra logged y'"
proof -
  obtain x y1 where x: "f handled y = (x, y1)" by fastforce
  show ?thesis
  proof (cases x)
    case (Panic v)
    then show ?thesis using x by (simp add: fieldsFor_def act_bind_def added_def)
  next
    case (Ret pair)
    obtain "value" failure where pair: "pair = (value, failure)" by fastforce
    show ?thesis using x Ret pair
      by (cases failure; cases "fieldsOf lib value") (auto simp: fieldsFor_def act_bind_def added_def split: sum.splits)
  qed
qed

definition revision_answer :: "http_lib \<Rightarrow> event list \<Rightarrow> (string \<rightharpoonup> string) \<Rightarrow> response" where
  "revision_answer lib written extra =
     json_answer\<lparr>RespStatus := 200,
       RespBody := ResultBody (EncodeObject lib ([''revision'' \<mapsto> strconv_Quote (RevisionOf written)] ++ extra) @ [CHR 0x0A])\<rparr>"

text \<open>The handler of a route, from what \<open>Handle\<close> returns.\<close>

lemma answerPanic_200:
  assumes "answerPanic r m y = (Ret (w, logged), y')" "RespStatus w = 200"
  shows "m y = (Ret (w, logged), y')"
proof (cases "m y")
  case (Pair a y1)
  show ?thesis
  proof (cases a)
    case (Panic v)
    then show ?thesis
      using assms Pair respond_failure_not_200 [of r "HttpPanicError v"] by (auto simp: answerPanic_def panicked_def split: if_splits)
  qed (use assms Pair in \<open>simp add: answerPanic_def\<close>)
qed

lemma route_handler_200:
  "route_handler lib c api to decider adds r y = (Ret (w, logged), y') \<and> RespStatus w = 200 \<longleftrightarrow>
     (\<exists>handled y2 extra. Handle lib c r (Some api) (Some to) decider y = (Ret (handled, None), y2)
        \<and> added lib r adds handled y2 extra logged y' \<and> w = revision_answer lib (HandledEvents handled) extra)"
  (is "?lhs \<longleftrightarrow> ?rhs")
proof
  assume lhs: ?lhs
  then obtain handled err y2 extra err' logs where h: "Handle lib c r (Some api) (Some to) decider y = (Ret (handled, err), y2)"
    and fields: "(case (err, adds) of (None, Some f) \<Rightarrow> fieldsFor lib r handled f | _ \<Rightarrow> (\<lambda>y. (Ret ((Map.empty, err), []), y))) y2
      = (Ret ((extra, err'), logs), y')"
    and told: "go_bind (respond lib r (HandledEvents handled) extra err') (\<lambda>(w, told). Ret (w, logs @ told)) = Ret (w, logged)"
    by (auto simp: route_handler_def dest!: answerPanic_200 elim!: act_bind_Ret)
  have none: "err' = None"
    using told lhs respond_failure_not_200 [of r "the err'"] by (cases err') (auto split: prod.splits)
  then have w: "w = revision_answer lib (HandledEvents handled) extra" "logged = logs"
    using told by (simp_all add: respond_None revision_answer_def)
  have "err = None" using fields none by (cases err) auto
  moreover have "added lib r adds handled y2 extra logs y'"
    using fields none \<open>err = None\<close> by (cases adds) (auto simp: fieldsFor_added)
  ultimately show ?rhs using h w by blast
next
  assume ?rhs
  then obtain handled y2 extra where h: "Handle lib c r (Some api) (Some to) decider y = (Ret (handled, None), y2)"
    and add: "added lib r adds handled y2 extra logged y'" and w: "w = revision_answer lib (HandledEvents handled) extra" by blast
  have "(case (None :: goerr option, adds) of (None, Some f) \<Rightarrow> fieldsFor lib r handled f | _ \<Rightarrow> (\<lambda>y. (Ret ((Map.empty, None), []), y))) y2
      = (Ret ((extra, None), logged), y')"
    using add by (cases adds) (auto simp: fieldsFor_added)
  then show ?lhs using h w
    by (simp add: route_handler_def answerPanic_def act_bind_def respond_None revision_answer_def json_answer_def no_answer_def)
qed

text \<open>Where an answer of 304 comes from.\<close>

lemma respondResult_not_304: "respondResult r m err = Ret (w, logged) \<Longrightarrow> RespStatus w \<noteq> 304"
  unfolding respondResult_def by (rule respondResultAt_not_304)

lemma answerPanic_304:
  assumes "answerPanic r m y = (Ret (w, logged), y')" "RespStatus w = 304"
  shows "m y = (Ret (w, logged), y')"
proof (cases "m y")
  case (Pair a y1)
  show ?thesis
  proof (cases a)
    case (Panic v)
    then show ?thesis
      using assms Pair respond_failure_status [of r "HttpPanicError v"] by (auto simp: answerPanic_def panicked_def split: if_splits)
  qed (use assms Pair in \<open>simp add: answerPanic_def\<close>)
qed

lemma answer_not_304:
  assumes "act_bind m (\<lambda>(result, err) y. (respondResultAt r revision tag result err, y)) y = (Ret (w, logged), y')"
  shows "RespStatus w \<noteq> 304"
proof -
  obtain a y1 where a: "(\<lambda>(result, err) y. (respondResultAt r revision tag result err, y)) a y1 = (Ret (w, logged), y')"
    using assms by (rule act_bind_Ret)
  obtain result err where "a = (result, err)" by fastforce
  with a have "respondResultAt r revision tag result err = Ret (w, logged)" by simp
  then show ?thesis by (rule respondResultAt_not_304)
qed

lemma failure_not_304: "(respondResult r m (Some err), z) = (Ret (w, logged), y') \<Longrightarrow> RespStatus w \<noteq> 304"
  using respondResult_not_304 by blast

lemma answer_tagged_304:
  assumes "answer_tagged spellOut answer st r query revision y = (Ret (w, logged), y')" "RespStatus w = 304"
  shows "serveUnchanged no_answer r revision (etagOf spellOut r revision query (qvaries st)) = Some w \<and> y' = y"
proof (cases "serveUnchanged no_answer r revision (etagOf spellOut r revision query (qvaries st))")
  case None
  then have "act_bind (answer query) (\<lambda>(result, err) y. (respondResultAt r revision (etagOf spellOut r revision query (qvaries st)) result err, y)) y
      = (Ret (w, logged), y')"
    using assms(1) by (simp add: answer_tagged_def)
  from answer_not_304 [OF this] assms(2) show ?thesis by blast
next
  case (Some unchanged)
  then show ?thesis using assms(1) by (simp add: answer_tagged_def)
qed

lemma answer_awaited_304:
  assumes "answer_awaited spellOut answer view st r query y = (Ret (w, logged), y')" "RespStatus w = 304"
  shows "isTagged st \<and> (\<exists>revision. ViewRevision view y = (Ret (revision, None), y')
    \<and> serveUnchanged no_answer r revision (etagOf spellOut r revision query (qvaries st)) = Some w)"
proof (cases "isTagged st")
  case False
  then have "act_bind (answer query) (\<lambda>(result, err) y. (respondResultAt r [] [] result err, y)) y = (Ret (w, logged), y')"
    using assms(1) by (simp add: answer_awaited_def respondResult_def)
  from answer_not_304 [OF this] assms(2) show ?thesis by blast
next
  case True
  then have "act_bind (ViewRevision view) (\<lambda>(revision, failed) y.
      case failed of Some err \<Rightarrow> (respondResult r (Ret (Inr ''{}'')) (Some err), y)
      | None \<Rightarrow> answer_tagged spellOut answer st r query revision y) y = (Ret (w, logged), y')"
    using assms(1) by (simp add: answer_awaited_def)
  then obtain x y2 where view: "ViewRevision view y = (Ret x, y2)" and x: "(\<lambda>(revision, failed) y.
      case failed of Some err \<Rightarrow> (respondResult r (Ret (Inr ''{}'')) (Some err), y)
      | None \<Rightarrow> answer_tagged spellOut answer st r query revision y) x y2 = (Ret (w, logged), y')"
    by (rule act_bind_Ret)
  obtain revision failed where pair: "x = (revision, failed)" by fastforce
  with x have "failed = None" "answer_tagged spellOut answer st r query revision y2 = (Ret (w, logged), y')"
    using failure_not_304 assms(2) by (cases failed; auto simp del: respondResult_Some)+
  with answer_tagged_304 [OF this(2) assms(2)] view pair True show ?thesis by blast
qed

lemma answerRevisioned_304:
  assumes "answerRevisioned lib waitingErr spellOut c api to answer view st r y = (Ret (w, logged), y')" "RespStatus w = 304"
  shows "isTagged st \<and> (\<exists>query y0 y1 revision. build lib c r api to y = (Ret (Inr query), y0)
    \<and> Await waitingErr r (ViewWaitFor view) (qwait st) y0 = (None, y1) \<and> ViewRevision view y1 = (Ret (revision, None), y')
    \<and> serveUnchanged no_answer r revision (etagOf spellOut r revision query (qvaries st)) = Some w)"
proof -
  obtain result y0 where build: "build lib c r api to y = (Ret result, y0)" and rest: "(case result of
        Inl err \<Rightarrow> (respondResult r (Ret (Inr ''{}'')) (Some err), y0)
      | Inr query \<Rightarrow>
          (case Await waitingErr r (ViewWaitFor view) (qwait st) y0 of
             (Some err, y1) \<Rightarrow> (respondResult r (Ret (Inr ''{}'')) (Some err), y1)
           | (None, y1) \<Rightarrow> answer_awaited spellOut answer view st r query y1)) = (Ret (w, logged), y')"
    using answerPanic_304 [OF assms [unfolded answerRevisioned_def]] by (rule act_bind_Ret)
  obtain query where built: "result = Inr query"
    using rest failure_not_304 assms(2) by (cases result) (auto simp del: respondResult_Some)
  obtain awaited y1 where await: "Await waitingErr r (ViewWaitFor view) (qwait st) y0 = (awaited, y1)" by fastforce
  then have none: "awaited = None" using rest built failure_not_304 assms(2) by (cases awaited) (auto simp del: respondResult_Some)
  with rest built await have "answer_awaited spellOut answer view st r query y1 = (Ret (w, logged), y')" by simp
  from answer_awaited_304 [OF this assms(2)] show ?thesis using build built await none by blast
qed

definition no_settings :: "'y querySettings" where
  "no_settings = \<lparr>qview = None, qwait = 0, isTagged = False, qvaries = None\<rparr>"

text \<open>The handler that \<open>Query\<close> gives to the mux, by its settings.\<close>

lemma Query_Ret:
  assumes "Query_route lib waitingErr spellOut c api pattern toQuery answer options = Ret handler"
  obtains a to f st where "api = Some a" "toQuery = Some to" "answer = Some f" "http_applyOptions ''Query'' no_settings options = Ret st"
    "handler = (case qview st of
       None \<Rightarrow> (\<lambda>r. answerPanic r (act_bind (Ask lib c r api toQuery answer) (\<lambda>(result, err) y. (respondResult r result err, y))))
     | Some view \<Rightarrow> answerRevisioned lib waitingErr spellOut c a to f view st)"
proof -
  let ?asked = "\<lambda>r. answerPanic r (act_bind (Ask lib c r api toQuery answer) (\<lambda>(result, err) y. (respondResult r result err, y)))"
  have "api \<noteq> None" "toQuery \<noteq> None" "answer \<noteq> None" using assms by (auto simp: Query_route_def split: option.splits)
  then obtain a to f where some: "api = Some a" "toQuery = Some to" "answer = Some f" by blast
  let ?next = "\<lambda>st. if qvaries st \<noteq> None \<and> \<not> isTagged st
      then Panic ''architecturekit/httpapi: Varying needs Revisioned, since only a revisioned query has a tag''
      else (case qview st of None \<Rightarrow> Ret ?asked | Some view \<Rightarrow> Ret (answerRevisioned lib waitingErr spellOut c a to f view st))"
  have "methodOf pattern = MethodQuery" "MethodQuery \<noteq> []"
    using assms some by (simp_all add: Query_route_def MethodQuery_def split: if_splits)
  then have "go_bind (http_applyOptions ''Query'' no_settings options) ?next = Ret handler"
    using assms unfolding some by (simp add: Query_route_def no_settings_def)
  then obtain st where st: "http_applyOptions ''Query'' no_settings options = Ret st" "?next st = Ret handler" unfolding go_bind_eq_Ret by blast
  then have "(case qview st of None \<Rightarrow> Ret ?asked | Some view \<Rightarrow> Ret (answerRevisioned lib waitingErr spellOut c a to f view st)) = Ret handler"
    by (simp split: if_splits)
  then have "handler = (case qview st of None \<Rightarrow> ?asked | Some view \<Rightarrow> answerRevisioned lib waitingErr spellOut c a to f view st)"
    by (cases "qview st") auto
  then show ?thesis using that some st(1) by blast
qed

lemma answerRevisioned_panic:
  "answerRevisioned lib waitingErr spellOut c api to answer view st r y = (Panic v, y') \<Longrightarrow> v = ErrAbortHandler"
  unfolding answerRevisioned_def by (rule answerPanic_Panic)

lemma query_304:
  assumes "Query_route lib waitingErr spellOut c (Some a) pattern (Some to) answer options = Ret handler"
    and "handler r y = (Ret (w, logged), y')" "RespStatus w = 304"
  shows "\<exists>st view query y0 y1 revision. http_applyOptions ''Query'' no_settings options = Ret st \<and> qview st = Some view \<and> isTagged st
    \<and> build lib c r a to y = (Ret (Inr query), y0) \<and> Await waitingErr r (ViewWaitFor view) (qwait st) y0 = (None, y1)
    \<and> ViewRevision view y1 = (Ret (revision, None), y')
    \<and> serveUnchanged no_answer r revision (etagOf spellOut r revision query (qvaries st)) = Some w"
proof -
  from assms(1) obtain a' to' f st where some: "Some a = Some a'" "Some to = Some to'" "answer = Some f"
    and st: "http_applyOptions ''Query'' no_settings options = Ret st"
    and handler: "handler = (case qview st of
       None \<Rightarrow> (\<lambda>r. answerPanic r (act_bind (Ask lib c r (Some a) (Some to) answer) (\<lambda>(result, err) y. (respondResult r result err, y))))
     | Some view \<Rightarrow> answerRevisioned lib waitingErr spellOut c a' to' f view st)"
    by (rule Query_Ret)
  show ?thesis
  proof (cases "qview st")
    case None
    then have "answerPanic r (act_bind (Ask lib c r (Some a) (Some to) answer) (\<lambda>(result, err) y. (respondResult r result err, y))) y = (Ret (w, logged), y')"
      using assms(2) handler by simp
    from answerPanic_304 [OF this assms(3)] have "RespStatus w \<noteq> 304" unfolding respondResult_def by (rule answer_not_304)
    then show ?thesis using assms(3) by blast
  next
    case (Some view)
    then have "answerRevisioned lib waitingErr spellOut c a to f view st r y = (Ret (w, logged), y')" using assms(2) handler some by simp
    from answerRevisioned_304 [OF this assms(3)] show ?thesis using st Some by blast
  qed
qed

section \<open>Properties\<close>

text \<open>
  C9. No other site can have a browser execute a command. Take a route that \<open>Route\<close> accepts, and a request
  with the method of its pattern. If the route takes no body and the headers say that the request comes
  from another origin, or it takes a body and the request is not declared as JSON, which a form of
  another site can not do, then it is answered with 403 or 415, and nothing happens besides determining
  the user: no command is built and nothing is executed.
\<close>

theorem Route_refuses_other_sites:
  assumes "Route lib c api pattern toCommand decider options = Ret handler" and "Method r = methodOf pattern"
    and "refused_origin lib c r" and "api = Some a" and "userFrom a r y = (Ret (Inr user), y1)"
  shows "\<exists>w logged. handler r y = (Ret (w, logged), y1) \<and> RespStatus w = (if TakesNoBody c then 403 else 415)"
proof -
  obtain to adds where route: "decider_State decider \<noteq> None" "\<not> List.member safeMethods (methodOf pattern)"
      "handler = route_handler lib c a to decider adds"
    using assms(1,4) by (auto elim!: Route_Ret)
  obtain err where err: "BodyOf lib c r = Ret (Inl err)" "StatusFor (Some err) = (if TakesNoBody c then 403 else 415)"
    using refused_origin_body [OF assms(3)] route(2) assms(2) by auto
  have "Handle lib c r (Some a) (Some to) decider y = (Ret (nothing_handled, Some err), y1)"
    by (simp add: Handle_build [OF route(1)] build_body_refused [OF assms(5) err(1)])
  then have "handler r y = (Ret (respond_failure r err), y1)" unfolding route(3) by (rule route_handler_unfold)
  then show ?thesis using respond_failure_status [of r err] err(2) by (cases "respond_failure r err") simp
qed


text \<open>The example application: one user, a command without a body, and a library that parses nothing.\<close>

definition plain_lib :: http_lib where
  "plain_lib = \<lparr>ParseMediaType = (\<lambda>s. Some s), OriginHost = (\<lambda>s. None), DecodeObject = (\<lambda>s. None), EncodeObject = (\<lambda>m. ''{}''),
     DurationText = (\<lambda>d. ''5s'')\<rparr>"

definition no_body :: "unit body_class" where
  "no_body = \<lparr>TakesNoBody = True, ZeroBody = (), KindOf = None, UnmarshalStrict = (\<lambda>s. Inr ()), Describe = (\<lambda>s e. e)\<rparr>"

definition public_api :: "(EventCandidate list, (EventCandidate list, string) sys, unit) API" where
  "public_api = \<lparr>apiStore = Some mem_store, userFrom = (\<lambda>r y. (Ret (Inr ()), y)), apiLogger = None\<rparr>"

definition to_add :: "http_request \<Rightarrow> unit \<Rightarrow> unit \<Rightarrow> ((EventCandidate list, string) sys, goerr + unit command) act" where
  "to_add r body user y = (Ret (Inr add_command), y)"

lemma add_route:
  "Route plain_lib no_body (Some public_api) ''POST /list'' (Some to_add) add_decider [] =
     Ret (route_handler plain_lib no_body public_api to_add add_decider None)"
  by (simp add: Route_def methodOf_def strings_ContainsAny_def safeMethods_def MethodQuery_def add_decider_def decider_State_def)

definition cross_request :: http_request where
  "cross_request = sample_request\<lparr>Headers := (\<lambda>h. if h = ''Sec-Fetch-Site'' then [''cross-site''] else [])\<rparr>"

theorem Route_refuses_other_sites_witness:
  "\<exists>w logged. route_handler plain_lib no_body public_api to_add add_decider None cross_request mem_sys = (Ret (w, logged), mem_sys)
     \<and> RespStatus w = 403"
proof -
  have "refused_origin plain_lib no_body cross_request" "Method cross_request = methodOf ''POST /list''"
    by (simp_all add: refused_origin_def no_body_def foreign_origin_def cross_request_def Header_Get_def sample_request_def methodOf_def
        strings_ContainsAny_def)
  then show ?thesis
    using Route_refuses_other_sites [OF add_route, of cross_request public_api mem_sys "()" mem_sys]
    by (simp add: public_api_def no_body_def)
qed

text \<open>
  C12. A route answers 200 exactly if its command was executed and what \<open>Adding\<close> adds to the answer, if it is
  given, could be added. That is: the request was turned into a command, \<open>Execute\<close> returned without an
  error, and the function of \<open>Adding\<close> returned a value that can be added, or an error, which is then
  logged. The answer holds the revision of what \<open>Execute\<close> has written, and the added fields. Every other
  outcome, a panic included, is answered with another status: without \<open>Adding\<close>, an executed command is
  always answered with 200, and with it, a value that can not be added is answered otherwise although the
  command was executed.
\<close>

theorem Route_success:
  assumes "Route lib c (Some a) pattern (Some to) decider options = Ret handler" and "http_applyOptions ''Route'' None options = Ret adds"
  shows "handler r y = (Ret (w, logged), y') \<and> RespStatus w = 200 \<longleftrightarrow>
    (\<exists>cmd y1 s written y2 extra. build lib c r a to y = (Ret (Inr cmd), y1) \<and> apiStore a = Some s
      \<and> Execute s decider cmd y1 = Ret (Inr written, y2)
      \<and> added lib r adds \<lparr>HandledCommand = Some cmd, HandledEvents = written\<rparr> y2 extra logged y'
      \<and> w = revision_answer lib written extra)"
proof -
  have handler: "handler = route_handler lib c a to decider adds" and state: "decider_State decider \<noteq> None"
    using assms by (auto elim!: Route_Ret)
  show ?thesis unfolding handler route_handler_200 Handle_executed [OF state] by force
qed

lemma add_built: "build plain_lib no_body sample_request public_api to_add y = (Ret (Inr add_command), y)"
  by (simp add: build_def UserOf_def act_bind_def public_api_def BodyOf_def no_body_def requireNoBody_def crossOrigin_Check_def
      safeMethods_def Header_Get_def sample_request_def readBody_def MaxRequestBody_def is_empty_object_def bytes_Trim_def
      json_space_def to_add_def)

text \<open>An \<open>Adding\<close> that adds nothing but fails, so that the answer is incomplete.\<close>

definition failing_adding :: "((EventCandidate list, string) sys, unit command) adding" where
  "failing_adding handled y = (Ret (Ret (Inr ''{}''), Some (Sentinel ErrTransient)), y)"

definition adding_option :: "((EventCandidate list, string) sys, unit command) adding option \<Rightarrow>
    ((EventCandidate list, string) sys, unit command) adding option go" where
  "adding_option given = (if given \<noteq> None then Panic ''architecturekit/httpapi: Adding is given twice'' else Ret (Some failing_adding))"

lemma adding_route:
  "Route plain_lib no_body (Some public_api) ''POST /list'' (Some to_add) add_decider [Some adding_option] =
     Ret (route_handler plain_lib no_body public_api to_add add_decider (Some failing_adding))"
  "http_applyOptions ''Route'' None [Some adding_option] = Ret (Some failing_adding)"
  by (simp_all add: Route_def methodOf_def strings_ContainsAny_def safeMethods_def MethodQuery_def add_decider_def decider_State_def adding_option_def)

theorem Route_success_witness:
  "\<exists>w logged y'. route_handler plain_lib no_body public_api to_add add_decider (Some failing_adding) sample_request mem_sys = (Ret (w, logged), y')
     \<and> RespStatus w = 200 \<and> logged \<noteq> [] \<and> world y' \<noteq> []"
proof -
  obtain written y' where exec: "Execute mem_store add_decider add_command mem_sys = Ret (Inr written, y')" "world y' \<noteq> []"
    using mem_execute by fastforce
  have store: "apiStore public_api = Some mem_store" by (simp add: public_api_def)
  let ?handled = "\<lparr>HandledCommand = Some add_command, HandledEvents = written\<rparr>"
  let ?err = "Errorf [Lit (''httpapi: the fields of the answer must encode to a JSON object, not {}'')]"
  have "fieldsOf plain_lib (Ret (Inr ''{}'')) = Ret (Inl ?err)" by (simp add: fieldsOf_def plain_lib_def)
  then have add: "added plain_lib sample_request (Some failing_adding) ?handled y' Map.empty
      [logIncomplete sample_request (Sentinel ErrTransient) (Some ?err)] y'"
    by (simp add: added_def failing_adding_def)
  have "route_handler plain_lib no_body public_api to_add add_decider (Some failing_adding) sample_request mem_sys =
      (Ret (revision_answer plain_lib written Map.empty, [logIncomplete sample_request (Sentinel ErrTransient) (Some ?err)]), y')
      \<and> RespStatus (revision_answer plain_lib written Map.empty) = 200"
    unfolding Route_success [OF adding_route] using add_built [of mem_sys] store exec(1) add by blast
  then show ?thesis using exec(2) by blast
qed

section \<open>Panics\<close>

text \<open>The answer to a panic, and what is logged.\<close>

definition internal_error :: "http_request \<Rightarrow> string \<Rightarrow> response \<times> http_log list" where
  "internal_error r v =
     (json_answer\<lparr>RespStatus := 500, RespBody := MessageBody ''internal server error''\<rparr>,
      [InternalFailure (Method r) (Pattern r) 500 (HttpPanicError v) (Some v)])"

text \<open>
  Where a function of the application may panic while a route handles a request: determining the user,
  decoding the body and building the command, deciding and whatever else \<open>Execute\<close> calls, adding to the
  answer, and encoding what is added.
\<close>

inductive route_panics ::
  "http_lib \<Rightarrow> 'b body_class \<Rightarrow> ('w, ('w, 's) sys, 'u) API \<Rightarrow>
   (http_request \<Rightarrow> 'b \<Rightarrow> 'u \<Rightarrow> (('w, 's) sys, goerr + 'p command) act) \<Rightarrow> ('w, 'p command, 's) Decider \<Rightarrow>
   (('w, 's) sys, 'p command) adding option \<Rightarrow> http_request \<Rightarrow> ('w, 's) sys \<Rightarrow> string \<Rightarrow> ('w, 's) sys \<Rightarrow> bool"
  for lib c a to decider adds r y where
  building: "build lib c r a to y = (Panic v, y') \<Longrightarrow> route_panics lib c a to decider adds r y v y'"
| executing: "build lib c r a to y = (Ret (Inr cmd), y') \<Longrightarrow> apiStore a = Some s \<Longrightarrow> Execute s decider cmd y' = Panic v \<Longrightarrow>
    route_panics lib c a to decider adds r y v y'"
| adding: "Handle lib c r (Some a) (Some to) decider y = (Ret (handled, None), y1) \<Longrightarrow> adds = Some f \<Longrightarrow> f handled y1 = (Panic v, y') \<Longrightarrow>
    route_panics lib c a to decider adds r y v y'"
| encoding: "Handle lib c r (Some a) (Some to) decider y = (Ret (handled, None), y1) \<Longrightarrow> adds = Some f \<Longrightarrow>
    f handled y1 = (Ret (Panic v, None), y') \<Longrightarrow> route_panics lib c a to decider adds r y v y'"

text \<open>A query is asked once it is built, and, if it waits for a view, the view was awaited and is not unchanged.\<close>

definition asked ::
  "http_lib \<Rightarrow> (int \<Rightarrow> 'y \<Rightarrow> goerr option) \<Rightarrow> ('q \<Rightarrow> string option) \<Rightarrow> 'b body_class \<Rightarrow> ('w, 'y, 'u) API \<Rightarrow>
   (http_request \<Rightarrow> 'b \<Rightarrow> 'u \<Rightarrow> ('y, goerr + 'q) act) \<Rightarrow> 'y querySettings \<Rightarrow> http_request \<Rightarrow> 'y \<Rightarrow> 'q \<Rightarrow> 'y \<Rightarrow> bool" where
  "asked lib waitingErr spellOut c a to st r y query y' \<longleftrightarrow>
     (\<exists>y1. build lib c r a to y = (Ret (Inr query), y1)
        \<and> (case qview st of
             None \<Rightarrow> y' = y1
           | Some view \<Rightarrow>
               (\<exists>y2. Await waitingErr r (ViewWaitFor view) (qwait st) y1 = (None, y2)
                  \<and> (if isTagged st then
                       \<exists>revision. ViewRevision view y2 = (Ret (revision, None), y')
                         \<and> serveUnchanged no_answer r revision (etagOf spellOut r revision query (qvaries st)) = None
                     else y' = y2))))"

text \<open>Where it may panic while a query is handled: building it, reading the revision, answering it and encoding the result.\<close>

inductive query_panics ::
  "http_lib \<Rightarrow> (int \<Rightarrow> 'y \<Rightarrow> goerr option) \<Rightarrow> ('q \<Rightarrow> string option) \<Rightarrow> 'b body_class \<Rightarrow> ('w, 'y, 'u) API \<Rightarrow>
   (http_request \<Rightarrow> 'b \<Rightarrow> 'u \<Rightarrow> ('y, goerr + 'q) act) \<Rightarrow> ('y, 'q) answer \<Rightarrow> 'y querySettings \<Rightarrow> http_request \<Rightarrow> 'y \<Rightarrow> string \<Rightarrow> 'y \<Rightarrow> bool"
  for lib waitingErr spellOut c a to f st r y where
  q_building: "build lib c r a to y = (Panic v, y') \<Longrightarrow> query_panics lib waitingErr spellOut c a to f st r y v y'"
| q_revision: "build lib c r a to y = (Ret (Inr query), y1) \<Longrightarrow> qview st = Some view \<Longrightarrow> isTagged st \<Longrightarrow>
    Await waitingErr r (ViewWaitFor view) (qwait st) y1 = (None, y2) \<Longrightarrow> ViewRevision view y2 = (Panic v, y') \<Longrightarrow>
    query_panics lib waitingErr spellOut c a to f st r y v y'"
| q_answering: "asked lib waitingErr spellOut c a to st r y query y1 \<Longrightarrow> f query y1 = (Panic v, y') \<Longrightarrow>
    query_panics lib waitingErr spellOut c a to f st r y v y'"
| q_encoding: "asked lib waitingErr spellOut c a to st r y query y1 \<Longrightarrow> f query y1 = (Ret (Panic v, None), y') \<Longrightarrow>
    query_panics lib waitingErr spellOut c a to f st r y v y'"

lemma respond_panic: "respond_failure r (HttpPanicError v) = internal_error r v"
  by (simp add: internal_error_def respond_failure_def explain_def logFailure_def http_panic_def Let_def)

lemma answerPanic_answers:
  "m y = (Panic v, y') \<Longrightarrow> v \<noteq> ErrAbortHandler \<Longrightarrow> answerPanic r m y = (Ret (internal_error r v), y')"
  by (simp add: answerPanic_def panicked_def respond_panic)

lemma answerPanic_keeps: "m y = (Ret x, y') \<Longrightarrow> answerPanic r m y = (Ret x, y')"
  by (simp add: answerPanic_def)

lemma encode_panic:
  "v \<noteq> ErrAbortHandler \<Longrightarrow> respondResultAt r revision tag (Panic v) None = Ret (internal_error r v)"
  by (simp add: respondResultAt_def encodeResult_def panicked_def respond_panic)

lemma route_panics_answered:
  assumes "route_panics lib c a to decider adds r y v y'" and "v \<noteq> ErrAbortHandler" and "decider_State decider \<noteq> None"
  shows "route_handler lib c a to decider adds r y = (Ret (internal_error r v), y')"
  using assms
proof (cases rule: route_panics.cases)
  case building
  then have "Handle lib c r (Some a) (Some to) decider y = (Ret (nothing_handled, Some (HttpPanicError v)), y')"
    using assms(2,3) by (simp add: Handle_build recovered_def panicked_def)
  then show ?thesis using route_handler_unfold [of lib c r a to decider y] respond_panic by metis
next
  case (executing cmd s)
  then have "Handle lib c r (Some a) (Some to) decider y =
      (Ret (\<lparr>HandledCommand = Some cmd, HandledEvents = []\<rparr>, Some (HttpPanicError v)), y')"
    using assms(2,3) by (simp add: Handle_build execute_command_def recovered_def panicked_def Let_def)
  then show ?thesis using route_handler_unfold [of lib c r a to decider y] respond_panic by metis
next
  case (adding handled y1 f)
  then show ?thesis unfolding route_handler_def by (intro answerPanic_answers assms(2)) (simp add: act_bind_def fieldsFor_def)
next
  case (encoding handled y1 f)
  then have "fieldsFor lib r handled f y1 = (Ret ((Map.empty, Some (HttpPanicError v)), []), y')"
    using assms(2) by (simp add: fieldsFor_def act_bind_def fieldsOf_def panicked_def)
  then show ?thesis using encoding
    by (simp add: route_handler_def answerPanic_def act_bind_def respond_panic split: prod.split)
qed

lemma Ask_asked:
  assumes "build lib c r a to y = (Ret (Inr query), y1)"
  shows "Ask lib c r (Some a) (Some to) (Some f) y = (case f query y1 of (result, y2) \<Rightarrow> (recovered (Ret (Inr ''null'')) result, y2))"
  using assms by (simp add: Ask_def Let_def)

definition plain_query ::
  "http_lib \<Rightarrow> 'b body_class \<Rightarrow> ('w, 'y, 'u) API \<Rightarrow> (http_request \<Rightarrow> 'b \<Rightarrow> 'u \<Rightarrow> ('y, goerr + 'q) act) \<Rightarrow> ('y, 'q) answer \<Rightarrow> 'y http_handler" where
  "plain_query lib c a to f r =
     answerPanic r (act_bind (Ask lib c r (Some a) (Some to) (Some f)) (\<lambda>(result, err) y. (respondResult r result err, y)))"

lemma plain_query_panics:
  assumes "query_panics lib waitingErr spellOut c a to f st r y v y'" and "v \<noteq> ErrAbortHandler" and "qview st = None"
  shows "plain_query lib c a to f r y = (Ret (internal_error r v), y')"
  using assms
proof (cases rule: query_panics.cases)
  case q_building
  then have "Ask lib c r (Some a) (Some to) (Some f) y = (Ret (Ret (Inr ''null''), Some (HttpPanicError v)), y')"
    using assms(2) by (simp add: Ask_def Let_def recovered_def panicked_def)
  then show ?thesis by (simp add: plain_query_def answerPanic_def act_bind_def respond_panic)
next
  case (q_revision query y1 view y2)
  then show ?thesis using assms(3) by simp
next
  case (q_answering query y1)
  then have "Ask lib c r (Some a) (Some to) (Some f) y = (Ret (Ret (Inr ''null''), Some (HttpPanicError v)), y')"
    using assms(2,3) by (auto simp: asked_def Ask_asked recovered_def panicked_def)
  then show ?thesis by (simp add: plain_query_def answerPanic_def act_bind_def respond_panic)
next
  case (q_encoding query y1)
  then have "Ask lib c r (Some a) (Some to) (Some f) y = (Ret (Panic v, None), y')"
    using assms(2,3) by (auto simp: asked_def Ask_asked recovered_def)
  then show ?thesis using encode_panic [OF assms(2)] by (simp add: plain_query_def answerPanic_def act_bind_def respondResult_def)
qed

text \<open>What \<open>answerRevisioned\<close> does without \<open>answerPanic\<close>.\<close>

definition revisioned_steps ::
  "http_lib \<Rightarrow> (int \<Rightarrow> 'y \<Rightarrow> goerr option) \<Rightarrow> ('q \<Rightarrow> string option) \<Rightarrow> 'b body_class \<Rightarrow> ('w, 'y, 'u) API \<Rightarrow>
   (http_request \<Rightarrow> 'b \<Rightarrow> 'u \<Rightarrow> ('y, goerr + 'q) act) \<Rightarrow> ('y, 'q) answer \<Rightarrow> 'y revisioned_view \<Rightarrow> 'y querySettings \<Rightarrow> 'y http_handler" where
  "revisioned_steps lib waitingErr spellOut c api to answer view st r =
     act_bind (build lib c r api to) (\<lambda>built y.
       case built of
         Inl err \<Rightarrow> (respondResult r (Ret (Inr ''{}'')) (Some err), y)
       | Inr query \<Rightarrow>
           (case Await waitingErr r (ViewWaitFor view) (qwait st) y of
              (Some err, y1) \<Rightarrow> (respondResult r (Ret (Inr ''{}'')) (Some err), y1)
            | (None, y1) \<Rightarrow> answer_awaited spellOut answer view st r query y1))"

lemma revisioned_asked:
  assumes "asked lib waitingErr spellOut c a to st r y query y1" and "qview st = Some view"
  shows "\<exists>revision tag. revisioned_steps lib waitingErr spellOut c a to f view st r y =
    act_bind (f query) (\<lambda>(result, err) y. (respondResultAt r revision tag result err, y)) y1"
proof -
  obtain y0 y2 where built: "build lib c r a to y = (Ret (Inr query), y0)" "Await waitingErr r (ViewWaitFor view) (qwait st) y0 = (None, y2)"
    and rest: "if isTagged st then \<exists>revision. ViewRevision view y2 = (Ret (revision, None), y1)
        \<and> serveUnchanged no_answer r revision (etagOf spellOut r revision query (qvaries st)) = None else y1 = y2"
    using assms by (auto simp: asked_def)
  have steps: "revisioned_steps lib waitingErr spellOut c a to f view st r y = answer_awaited spellOut f view st r query y2"
    using built by (simp add: revisioned_steps_def act_bind_def)
  show ?thesis
  proof (cases "isTagged st")
    case True
    then obtain revision where "ViewRevision view y2 = (Ret (revision, None), y1)"
      "serveUnchanged no_answer r revision (etagOf spellOut r revision query (qvaries st)) = None" using rest by auto
    then have "answer_awaited spellOut f view st r query y2 =
        act_bind (f query) (\<lambda>(result, err) y. (respondResultAt r revision (etagOf spellOut r revision query (qvaries st)) result err, y)) y1"
      using True by (simp add: answer_awaited_def answer_tagged_def act_bind_def)
    then show ?thesis using steps by metis
  next
    case False
    then have "answer_awaited spellOut f view st r query y2 = act_bind (f query) (\<lambda>(result, err) y. (respondResultAt r [] [] result err, y)) y1"
      using rest by (simp add: answer_awaited_def respondResult_def)
    then show ?thesis using steps by metis
  qed
qed

lemma revisioned_panics:
  assumes "query_panics lib waitingErr spellOut c a to f st r y v y'" and "v \<noteq> ErrAbortHandler" and "qview st = Some view"
  shows "answerRevisioned lib waitingErr spellOut c a to f view st r y = (Ret (internal_error r v), y')"
proof -
  have answered: "answerRevisioned lib waitingErr spellOut c a to f view st r = answerPanic r (revisioned_steps lib waitingErr spellOut c a to f view st r)"
    by (simp only: answerRevisioned_def revisioned_steps_def)
  show ?thesis
    using assms(1)
  proof (cases rule: query_panics.cases)
    case q_building
    then show ?thesis unfolding answered by (intro answerPanic_answers assms(2)) (simp add: revisioned_steps_def act_bind_def)
  next
    case (q_revision query y1 view' y2)
    then show ?thesis using assms(3) unfolding answered
      by (intro answerPanic_answers assms(2)) (simp add: revisioned_steps_def act_bind_def answer_awaited_def)
  next
    case (q_answering query y1)
    then show ?thesis using revisioned_asked [OF q_answering(1) assms(3), of f] unfolding answered
      by (intro answerPanic_answers assms(2)) (auto simp: act_bind_def)
  next
    case (q_encoding query y1)
    then show ?thesis using revisioned_asked [OF q_encoding(1) assms(3), of f] encode_panic [OF assms(2)] unfolding answered
      by (intro answerPanic_keeps) (auto simp: act_bind_def)
  qed
qed

text \<open>
  C39. A panic while a request is handled is answered with 500 and a fixed text, and logged with its value:
  for a route, a panic while determining the user, decoding the body, building the command, executing it,
  adding to the answer, or encoding what is added without an error; for a query, with and without a view,
  while building it, reading the revision of the view, answering it, or encoding the result. No handler of
  a route or a query panics itself, except with \<open>http.ErrAbortHandler\<close>, which is passed on. If what is added
  comes with an error, a panic while encoding it is logged, and the answer is as in C12. Waiting for the view and
  the function of \<open>Varying\<close> are taken not to panic.
\<close>

theorem panics_answered:
  assumes "Route lib c (Some a) pattern (Some to) decider options = Ret handler" and "http_applyOptions ''Route'' None options = Ret adds"
    and "Query_route lib' waitingErr spellOut c' (Some a') pattern' (Some to') (Some f) options' = Ret handler'"
    and "http_applyOptions ''Query'' no_settings options' = Ret st"
  shows "(handler r y = (Panic v, y') \<longrightarrow> v = ErrAbortHandler) \<and> (handler' r z = (Panic v, z') \<longrightarrow> v = ErrAbortHandler)
    \<and> (route_panics lib c a to decider adds r y v y' \<longrightarrow> v \<noteq> ErrAbortHandler \<longrightarrow> handler r y = (Ret (internal_error r v), y'))
    \<and> (query_panics lib' waitingErr spellOut c' a' to' f st r z v z' \<longrightarrow> v \<noteq> ErrAbortHandler \<longrightarrow> handler' r z = (Ret (internal_error r v), z'))"
proof -
  have handler: "handler = route_handler lib c a to decider adds" and state: "decider_State decider \<noteq> None"
    using assms(1,2) by (auto elim!: Route_Ret)
  have handler': "handler' = (case qview st of None \<Rightarrow> plain_query lib' c' a' to' f
      | Some view \<Rightarrow> answerRevisioned lib' waitingErr spellOut c' a' to' f view st)"
    using assms(3,4) by (auto elim!: Query_Ret simp: plain_query_def [abs_def] split: option.split)
  have "v = ErrAbortHandler" if "handler r y = (Panic v, y')"
    using that unfolding handler route_handler_def by (rule answerPanic_Panic)
  moreover have "v = ErrAbortHandler" if "handler' r z = (Panic v, z')"
  proof (cases "qview st")
    case None
    then show ?thesis using that answerPanic_Panic unfolding handler' plain_query_def by fastforce
  next
    case (Some view)
    then show ?thesis using that answerRevisioned_panic unfolding handler' by fastforce
  qed
  moreover have "handler' r z = (Ret (internal_error r v), z')"
    if "query_panics lib' waitingErr spellOut c' a' to' f st r z v z'" "v \<noteq> ErrAbortHandler"
    using plain_query_panics [OF that] revisioned_panics [OF that] unfolding handler' by (cases "qview st") simp_all
  ultimately show ?thesis using route_panics_answered [OF _ _ state, of lib c a to adds r y v y'] unfolding handler by blast
qed

text \<open>A route whose command is executed before \<open>Adding\<close> panics, and a query whose answer panics.\<close>

definition panicking_adding :: "((EventCandidate list, string) sys, unit command) adding" where
  "panicking_adding handled y = (Panic ''boom'', y)"

definition panicking_option :: "((EventCandidate list, string) sys, unit command) adding option \<Rightarrow>
    ((EventCandidate list, string) sys, unit command) adding option go" where
  "panicking_option given = (if given \<noteq> None then Panic ''architecturekit/httpapi: Adding is given twice'' else Ret (Some panicking_adding))"

definition to_unit :: "http_request \<Rightarrow> unit \<Rightarrow> unit \<Rightarrow> ((EventCandidate list, string) sys, goerr + unit) act" where
  "to_unit r body user y = (Ret (Inr ()), y)"

definition panicking_answer :: "((EventCandidate list, string) sys, unit) answer" where
  "panicking_answer query y = (Panic ''boom'', y)"

lemma panicking_routes:
  "Route plain_lib no_body (Some public_api) ''POST /list'' (Some to_add) add_decider [Some panicking_option] =
     Ret (route_handler plain_lib no_body public_api to_add add_decider (Some panicking_adding))"
  "http_applyOptions ''Route'' None [Some panicking_option] = Ret (Some panicking_adding)"
  "Query_route plain_lib (\<lambda>_ _. None) (\<lambda>_. None) no_body (Some public_api) ''QUERY /list'' (Some to_unit) (Some panicking_answer) [] =
     Ret (plain_query plain_lib no_body public_api to_unit panicking_answer)"
  "http_applyOptions ''Query'' no_settings [] = Ret no_settings"
  by (simp_all add: Route_def Query_route_def methodOf_def strings_ContainsAny_def safeMethods_def MethodQuery_def add_decider_def
      decider_State_def panicking_option_def plain_query_def [abs_def])

theorem panics_answered_witness:
  "\<exists>y'. route_handler plain_lib no_body public_api to_add add_decider (Some panicking_adding) sample_request mem_sys =
       (Ret (internal_error sample_request ''boom''), y') \<and> world y' \<noteq> []
     \<and> plain_query plain_lib no_body public_api to_unit panicking_answer sample_request mem_sys = (Ret (internal_error sample_request ''boom''), mem_sys)"
proof -
  obtain written y' where exec: "Execute mem_store add_decider add_command mem_sys = Ret (Inr written, y')" "world y' \<noteq> []"
    using mem_execute by fastforce
  have state: "decider_State add_decider \<noteq> None" by (simp add: add_decider_def decider_State_def)
  have "Handle plain_lib no_body sample_request (Some public_api) (Some to_add) add_decider mem_sys =
      (Ret (\<lparr>HandledCommand = Some add_command, HandledEvents = written\<rparr>, None), y')"
    unfolding Handle_executed [OF state] using add_built exec(1) by (simp add: public_api_def)
  then have route: "route_panics plain_lib no_body public_api to_add add_decider (Some panicking_adding) sample_request mem_sys ''boom'' y'"
    by (rule route_panics.adding [OF _ refl]) (simp add: panicking_adding_def)
  have "build plain_lib no_body sample_request public_api to_unit mem_sys = (Ret (Inr ()), mem_sys)"
    by (simp add: build_def UserOf_def act_bind_def public_api_def BodyOf_def no_body_def requireNoBody_def crossOrigin_Check_def
        safeMethods_def Header_Get_def sample_request_def readBody_def MaxRequestBody_def is_empty_object_def bytes_Trim_def
        json_space_def to_unit_def)
  then have "asked plain_lib (\<lambda>_ _. None) (\<lambda>_. None) no_body public_api to_unit no_settings sample_request mem_sys () mem_sys"
    by (simp add: asked_def no_settings_def)
  then have query: "query_panics plain_lib (\<lambda>_ _. None) (\<lambda>_. None) no_body public_api to_unit panicking_answer no_settings sample_request mem_sys ''boom'' mem_sys"
    by (rule query_panics.q_answering) (simp add: panicking_answer_def)
  have "''boom'' \<noteq> ErrAbortHandler" by (simp add: ErrAbortHandler_def)
  then show ?thesis
    using panics_answered [OF panicking_routes, of sample_request mem_sys "''boom''" y' mem_sys mem_sys] route query exec(2) by blast
qed

text \<open>
  C13. A caller is told that nothing has changed only if nothing has. If a query is answered with 304 to a
  request that names a tag from an earlier answer, then the query is revisioned, and the view, asked once
  the request was built and awaited, said that it is at the revision that the tag was made for, which the
  answer repeats along with the tag; and the path, the query string, the query and what it varies with have
  the same hash as then. The answer has no body, and the query is not answered anew.
\<close>

theorem unchanged_only_if_unchanged:
  assumes "Query_route lib waitingErr spellOut c (Some a) pattern (Some to) answer options = Ret handler"
    and "handler r y = (Ret (w, logged), y')"
    and "RespStatus w = 304" and "Headers r ''If-None-Match'' = [etagOf spellOut r0 revision0 query0 varies0]"
    and "etagOf spellOut r0 revision0 query0 varies0 \<noteq> []" and "CHR 0x22 \<notin> set revision0"
  shows "RespRevision w = Some revision0 \<and> RespETag w = Some (etagOf spellOut r0 revision0 query0 varies0) \<and> RespBody w = EmptyBody
    \<and> (\<exists>st view query y0 y1 resource resource0. http_applyOptions ''Query'' no_settings options = Ret st \<and> qview st = Some view \<and> isTagged st
        \<and> build lib c r a to y = (Ret (Inr query), y0) \<and> Await waitingErr r (ViewWaitFor view) (qwait st) y0 = (None, y1)
        \<and> ViewRevision view y1 = (Ret (revision0, None), y')
        \<and> resource_of spellOut r query (qvaries st) = Some resource
        \<and> resource_of spellOut r0 query0 varies0 = Some resource0 \<and> fnv64a resource = fnv64a resource0)"
proof -
  obtain st view query y0 y1 revision where view: "http_applyOptions ''Query'' no_settings options = Ret st" "qview st = Some view" "isTagged st"
      "build lib c r a to y = (Ret (Inr query), y0)" "Await waitingErr r (ViewWaitFor view) (qwait st) y0 = (None, y1)"
      "ViewRevision view y1 = (Ret (revision, None), y')"
    and unchanged: "serveUnchanged no_answer r revision (etagOf spellOut r revision query (qvaries st)) = Some w"
    using query_304 [OF assms(1-3)] by blast
  let ?tag = "etagOf spellOut r revision query (qvaries st)"
  have tag: "?tag \<noteq> []" "holdsTag r ?tag" and w: "w = (writeRevision revision ?tag no_answer)\<lparr>RespStatus := 304\<rparr>"
    using unchanged by (auto simp: serveUnchanged_def split: if_splits)
  obtain opaque where opaque: "etagOf spellOut r0 revision0 query0 varies0 = quoted_tag opaque" "CHR 0x22 \<notin> set opaque"
    using etagOf_quoted [OF assms(5,6)] by blast
  have "holdsTag r ?tag \<longleftrightarrow> ?tag = quoted_tag opaque"
    using holdsTag_loop_lines [of "[([([], False, opaque)], [])]" ?tag] assms(4) opaque
    by (auto simp: holdsTag_def line_ok_def tag_line_def)
  then have same: "?tag = etagOf spellOut r0 revision0 query0 varies0" using tag opaque by simp
  obtain resource resource0 where told: "revision = revision0" "resource_of spellOut r query (qvaries st) = Some resource"
      "resource_of spellOut r0 query0 varies0 = Some resource0" "fnv64a resource = fnv64a resource0"
    using etagOf_tells [OF tag(1) same] by blast
  have "revision \<noteq> []" using tag(1) by (auto simp: etagOf_def)
  then have "RespRevision w = Some revision0 \<and> RespETag w = Some (etagOf spellOut r0 revision0 query0 varies0) \<and> RespBody w = EmptyBody"
    using w tag(1) same told(1) by (auto simp: writeRevision_def no_answer_def Let_def)
  then show ?thesis using view told by blast
qed

text \<open>A query over a view at revision 7, asked again with the tag of its answer.\<close>

definition spell_unit :: "unit \<Rightarrow> string option" where
  "spell_unit _ = Some ''q''"

definition seven_tag :: string where
  "seven_tag = etagOf spell_unit sample_request ''7'' () None"

definition query_request :: http_request where
  "query_request = sample_request\<lparr>Headers := (\<lambda>h. if h = ''If-None-Match'' then [seven_tag] else [])\<rparr>"

definition seven_view :: "unit revisioned_view" where
  "seven_view = \<lparr>ViewWaitFor = (\<lambda>w s. (None, w)), ViewRevision = (\<lambda>y. (Ret (''7'', None), y)), ViewValue = Some (StructV ''View'' [])\<rparr>"

definition seven_settings :: "unit querySettings" where
  "seven_settings = \<lparr>qview = Some seven_view, qwait = 5, isTagged = True, qvaries = None\<rparr>"

definition query_api :: "(unit, unit, unit) API" where
  "query_api = \<lparr>apiStore = None, userFrom = (\<lambda>r y. (Ret (Inr ()), y)), apiLogger = None\<rparr>"

definition seven_handler :: "unit http_handler" where
  "seven_handler = answerRevisioned plain_lib (\<lambda>_ _. None) spell_unit no_body query_api (\<lambda>r b u y. (Ret (Inr ()), y))
     (\<lambda>q y. (Ret (Ret (Inr ''1''), None), y)) seven_view seven_settings"

lemma seven_query:
  "Query_route plain_lib (\<lambda>_ _. None) spell_unit no_body (Some query_api) ''QUERY /list'' (Some (\<lambda>r b u y. (Ret (Inr ()), y)))
     (Some (\<lambda>q y. (Ret (Ret (Inr ''1''), None), y)))
     [Some (\<lambda>st. if qview st \<noteq> None \<and> isTagged st then Panic ''architecturekit/httpapi: Revisioned is given twice''
        else if qview st \<noteq> None then Panic givenTogether
        else Ret (st\<lparr>qview := Some seven_view, qwait := 5, isTagged := True\<rparr>))] = Ret seven_handler"
  by (simp add: Query_route_def methodOf_def strings_ContainsAny_def MethodQuery_def seven_handler_def seven_settings_def)

lemma seven_tag_held: "seven_tag \<noteq> []" "holdsTag query_request seven_tag"
proof -
  show set: "seven_tag \<noteq> []" by (simp add: seven_tag_def etagOf_def resource_of_def spell_unit_def)
  have "CHR 0x22 \<notin> set ''7''" by simp
  then obtain opaque where "seven_tag = quoted_tag opaque" "CHR 0x22 \<notin> set opaque"
    using etagOf_quoted [OF set [unfolded seven_tag_def]] unfolding seven_tag_def by metis
  then show "holdsTag query_request seven_tag"
    using holdsTag_loop_lines [of "[([([], False, opaque)], [])]" seven_tag]
    by (auto simp: holdsTag_def query_request_def line_ok_def tag_line_def)
qed

lemma seven_again: "\<exists>w. seven_handler query_request () = (Ret (w, []), ()) \<and> RespStatus w = 304"
proof -
  have tag: "etagOf spell_unit query_request ''7'' () None = seven_tag"
  proof -
    have "resource_of spell_unit query_request () None = resource_of spell_unit sample_request () None"
      by (simp add: resource_of_def query_request_def spell_unit_def)
    then show ?thesis by (simp only: seven_tag_def etagOf_def)
  qed
  have built: "build plain_lib no_body query_request query_api (\<lambda>r b u y. (Ret (Inr ()), y)) () = (Ret (Inr ()), ())"
    by (simp add: build_def UserOf_def act_bind_def query_api_def BodyOf_def no_body_def requireNoBody_def crossOrigin_Check_def
        safeMethods_def Header_Get_def query_request_def sample_request_def readBody_def MaxRequestBody_def is_empty_object_def
        bytes_Trim_def json_space_def)
  have await: "Await (\<lambda>_ _. None) query_request (ViewWaitFor seven_view) (qwait seven_settings) () = (None, ())"
    by (simp add: Await_def Header_Get_def query_request_def HeaderWaitFor_def)
  have "answer_awaited spell_unit (\<lambda>q y. (Ret (Ret (Inr ''1''), None), y)) seven_view seven_settings query_request () () =
      (Ret ((writeRevision ''7'' seven_tag no_answer)\<lparr>RespStatus := 304\<rparr>, []), ())"
    using seven_tag_held
    by (simp add: answer_awaited_def seven_settings_def seven_view_def act_bind_def answer_tagged_def tag serveUnchanged_def)
  then show ?thesis
    by (simp add: seven_handler_def answerRevisioned_def answerPanic_def act_bind_def built await)
qed

theorem unchanged_only_if_unchanged_witness:
  "\<exists>w. seven_handler query_request () = (Ret (w, []), ()) \<and> RespStatus w = 304 \<and> RespRevision w = Some ''7''
     \<and> ViewRevision seven_view () = (Ret (''7'', None), ())"
proof -
  obtain w where w: "seven_handler query_request () = (Ret (w, []), ())" "RespStatus w = 304" using seven_again by blast
  have "Headers query_request ''If-None-Match'' = [etagOf spell_unit sample_request ''7'' () None]"
    by (simp add: query_request_def seven_tag_def)
  moreover have "etagOf spell_unit sample_request ''7'' () None \<noteq> []" using seven_tag_held(1) by (simp add: seven_tag_def)
  ultimately have "RespRevision w = Some ''7''"
    using unchanged_only_if_unchanged [OF seven_query w] by simp
  with w show ?thesis by (simp add: seven_view_def)
qed

end
