(* ===== verification/Projection_Safety.thy ===== *)
theory Projection_Safety
  imports Projection
begin

text \<open>
  What a projection is promised: within a run, every event of its subjects is applied once, in order
  and without gaps, whatever fails in between, and after catching up, it has seen everything that was
  stored before. The contract of a writer is a locale, in which this is proved once; the three
  writers are its instances, each under what its kind of projection has to guarantee.
\<close>

section \<open>Streams of the database\<close>

definition in_subjects :: "subjects \<Rightarrow> event \<Rightarrow> bool" where
  "in_subjects subs e \<longleftrightarrow> Subject e = rootSubject subs \<or>
     isRecursive subs \<and> (rootSubject subs = ''/'' \<or> strings_HasPrefix (Subject e) (rootSubject subs @ ''/''))"

text \<open>The events an iteration yields before it fails.\<close>

fun events_of :: "(goerr + event) list \<Rightarrow> event list" where
  "events_of (Inr e # items) = e # events_of items"
| "events_of _ = []"

lemma events_of_map [simp]: "events_of (map Inr es) = es"
  by (induction es) auto

text \<open>
  The documented behaviour of the database and the runtime, for the subjects of a projection: a read
  and a stream after a bound yield events of the log after that bound, in order and without gaps; a
  read that does not fail yields all that were stored when it started; and nothing but the projection
  changes its target (\<open>calm\<close>), while the log only grows.
\<close>

definition stream_laws ::
  "'w runtime \<Rightarrow> 'w Store \<Rightarrow> subjects \<Rightarrow> ('w \<Rightarrow> event list) \<Rightarrow> ('w \<Rightarrow> 'w \<Rightarrow> bool) \<Rightarrow> bool" where
  "stream_laws rt s subs hist calm \<longleftrightarrow>
     (\<forall>w. log_ok (hist w))
     \<and> (\<forall>w options items w'. ReadEvents (storeClient s) w (rootSubject subs) options = (items, w') \<longrightarrow>
          Recursive options = isRecursive subs \<longrightarrow> Order options = OrderChronological \<longrightarrow> UpperBound options = None \<longrightarrow>
          LatestEvent options = None \<longrightarrow>
          calm w w' \<and> prefix (hist w) (hist w')
          \<and> prefix (events_of items) (filter (\<lambda>e. above (LowerBound options) (rank e)) (filter (in_subjects subs) (hist w')))
          \<and> (\<forall>es. items = map Inr es \<longrightarrow>
               prefix (filter (\<lambda>e. above (LowerBound options) (rank e)) (filter (in_subjects subs) (hist w))) es))
     \<and> (\<forall>w options items w'. ObserveEvents rt w (rootSubject subs) options = (items, w') \<longrightarrow>
          ObserveRecursive options = isRecursive subs \<longrightarrow>
          calm w w' \<and> prefix (hist w) (hist w')
          \<and> prefix (events_of items) (filter (\<lambda>e. above (ObserveLowerBound options) (rank e)) (filter (in_subjects subs) (hist w'))))
     \<and> (\<forall>d w b w'. timer rt d w = (b, w') \<longrightarrow> calm w w' \<and> prefix (hist w) (hist w'))
     \<and> (\<forall>f w r w'. reconnectObserver (settings s) = Some f \<longrightarrow> f w r = Ret w' \<longrightarrow> calm w w' \<and> prefix (hist w) (hist w'))"

lemma log_after:
  assumes "log_ok es" "prefix seen es" and "seen = [] \<or> lid = ID (last seen)"
  shows "filter (\<lambda>e. above (boundAfter (if seen = [] then [] else lid)) (rank e)) es = drop (length seen) es"
proof (cases "seen = []")
  case True
  then show ?thesis by (simp add: boundAfter_def above_def)
next
  case False
  obtain new where es: "es = seen @ new" using assms(2) by (auto simp: prefix_def)
  have "is_revision (ID (last seen))" using assms(1) False by (simp add: es log_ok_def)
  then have "lid \<noteq> []" using assms(3) False is_revision_not_Nil by auto
  moreover have "rank (last seen) < rank e" if "e \<in> set new" for e
    using assms(1) False that by (simp add: es log_ok_def sorted_wrt_append)
  moreover have "\<not> rank (last seen) < rank e" if "e \<in> set seen" for e
    using log_ok_last [OF log_ok_prefix [OF assms(1,2)] that] by simp
  ultimately show ?thesis
    using False assms(3) by (auto simp: es boundAfter_def above_def rank_def [symmetric] filter_id_conv filter_empty_conv)
qed

lemma prefix_filter: "prefix xs ys \<Longrightarrow> prefix (filter P xs) (filter P ys)"
  by (auto simp: prefix_def)

lemma log_ok_filter: "log_ok es \<Longrightarrow> log_ok (filter P es)"
  by (auto simp: log_ok_def sorted_wrt_filter)

lemma catchUp_result:
  assumes "(case (rd, st2, progress2) of
      (Ret (lastEventID, None), sp') \<Rightarrow> (Ret (if lastEventID = [] then c else lastEventID, None), sp')
    | (r, sp') \<Rightarrow> (r, sp')) = (r, st', progress')"
  shows "st' = st2 \<and> (\<forall>l. r = Ret (l, None) \<longrightarrow> (\<exists>l'. rd = Ret (l', None) \<and> l = (if l' = [] then c else l')))"
proof (cases "\<exists>l'. rd = Ret (l', None)")
  case True
  then obtain l' where rd: "rd = Ret (l', None)" by blast
  then have "r = Ret (if l' = [] then c else l', None)" "st' = st2" using assms by simp_all
  then show ?thesis using rd by simp
next
  case False
  then have "(rd, st2, progress2) = (r, st', progress')" using assms by (cases rd) (auto split: option.splits)
  then show ?thesis using False by auto
qed

text \<open>A session changes nothing of the status of a run but the revision.\<close>

definition only_revision :: "ProjectionRun option \<Rightarrow> ProjectionRun option \<Rightarrow> bool" where
  "only_revision p q \<longleftrightarrow> (\<exists>f. q = map_option (\<lambda>r. r\<lparr>runStatus := (runStatus r)\<lparr>StatusRevision := f r\<rparr>\<rparr>) p)"

lemma only_revision_refl [simp]: "only_revision p p"
  unfolding only_revision_def by (rule exI [of _ "\<lambda>r. StatusRevision (runStatus r)"]) (simp add: option.map_ident)

lemma only_revision_committed: "only_revision (committed eventID p) q \<Longrightarrow> only_revision p q"
  by (auto simp: only_revision_def committed_def option.map_comp comp_def)

lemma drive_loop_progress:
  "drive_loop stack ctxErr check batchSize wr items lid inBatch isOpen (st, progress) = (r, st', progress') \<Longrightarrow>
     only_revision progress progress'"
proof (induction items arbitrary: lid inBatch isOpen st progress)
  case Nil
  have "progress' = progress \<or> progress' = committed lid progress"
    using Nil by (auto simp: Let_def split: if_splits prod.splits go.splits option.splits)
  then show ?case using only_revision_committed [of lid progress "committed lid progress"] by auto
next
  case (Cons x items)
  consider err where "x = Inl err" | e err where "x = Inr e" "check e = Some err" | e where "x = Inr e" "check e = None"
    by (cases x; cases "check (projr x)") auto
  then show ?case
  proof cases
    case (3 e)
    obtain rb st1 where b: "(if isOpen then (Ret None, st) else w_begin wr st) = (rb, st1)" by fastforce
    obtain ra st2 where a: "applyTo stack wr e st1 = (ra, st2)" by fastforce
    obtain rc st3 where c: "w_commit wr (ID e) st2 = (rc, st3)" by fastforce
    show ?thesis
    proof (cases "rb = Ret None \<and> ra = None \<and> (inBatch + 1 < batchSize \<or> rc = Ret None)")
      case True
      then show ?thesis
        using Cons.prems Cons.IH [of "ID e" "inBatch + 1" True st2 progress] 3
          only_revision_committed [OF Cons.IH [of "ID e" 0 False st3 "committed (ID e) progress"]]
        by (auto simp: a b c split: if_splits)
    next
      case False
      then have "progress' = progress"
        using Cons.prems 3 by (auto simp: a b c split: if_splits prod.splits go.splits option.splits)
      then show ?thesis by simp
    qed
  qed (use Cons.prems in \<open>auto simp: Let_def split: if_splits prod.splits\<close>)
qed

lemma catchUp_progress: "catchUp rt s subs wr sz (st, progress) = (r, st', progress') \<Longrightarrow> only_revision progress progress'"
  by (auto simp: catchUp_def drive_def split: prod.splits go.splits option.splits dest: drive_loop_progress)

section \<open>The contract of a writer\<close>

text \<open>
  \<open>good\<close> is an invariant of the state, \<open>counted\<close> the events that have been applied for good, and
  \<open>pending\<close> those of the batch that is not committed yet. \<open>is_begun\<close> says that a batch may be applied to.
\<close>

locale projection_writer =
  fixes wr :: "'w projectionWriter"
    and hist :: "'w \<Rightarrow> event list"
    and calm :: "'w \<Rightarrow> 'w \<Rightarrow> bool"
    and good :: "'w wstate \<Rightarrow> bool"
    and is_begun :: "'w wstate \<Rightarrow> bool"
    and counted :: "'w wstate \<Rightarrow> event list"
    and pending :: "'w wstate \<Rightarrow> event list"
  assumes calm_step:
      "\<lbrakk>good st; calm (target st) w\<rbrakk> \<Longrightarrow> good (st\<lparr>target := w\<rparr>) \<and> counted (st\<lparr>target := w\<rparr>) = counted st
        \<and> pending (st\<lparr>target := w\<rparr>) = pending st"
    and checkpoint_step:
      "\<lbrakk>good st; pending st = []; w_checkpoint wr st = (rc, st')\<rbrakk> \<Longrightarrow>
        good st' \<and> pending st' = [] \<and> counted st' = counted st \<and> prefix (hist (target st)) (hist (target st'))
        \<and> (\<forall>c. rc = Ret (c, None) \<longrightarrow> c = last_id (counted st))"
    and begin_step:
      "\<lbrakk>good st; pending st = []; w_begin wr st = (r, st')\<rbrakk> \<Longrightarrow>
        good st' \<and> pending st' = [] \<and> counted st' = counted st \<and> prefix (hist (target st)) (hist (target st'))
        \<and> (r = Ret None \<longrightarrow> is_begun st')"
    and apply_step:
      "\<lbrakk>good st; is_begun st; ID e \<noteq> []; w_apply wr e st = (r, st')\<rbrakk> \<Longrightarrow>
        good st' \<and> is_begun st' \<and> prefix (hist (target st)) (hist (target st'))
        \<and> (if r = Ret None then prefix (counted st) (counted st') \<and> counted st' @ pending st' = counted st @ pending st @ [e]
           else counted st' = counted st)"
    and commit_step:
      "\<lbrakk>good st; is_begun st; counted st @ pending st \<noteq> []; w_commit wr (last_id (counted st @ pending st)) st = (r, st')\<rbrakk> \<Longrightarrow>
        good st' \<and> pending st' = [] \<and> prefix (hist (target st)) (hist (target st'))
        \<and> counted st' \<in> {counted st, counted st @ pending st} \<and> (r = Ret None \<longrightarrow> counted st' = counted st @ pending st)"
    and rollback_step:
      "\<lbrakk>good st; is_begun st; w_rollback wr st = (r, st')\<rbrakk> \<Longrightarrow>
        good st' \<and> pending st' = [] \<and> counted st' = counted st \<and> prefix (hist (target st)) (hist (target st'))"
begin

text \<open>Between two sessions: no batch is pending, and what counts is the beginning of the log.\<close>

definition in_step :: "subjects \<Rightarrow> 'w wstate \<Rightarrow> bool" where
  "in_step subs st \<longleftrightarrow> good st \<and> pending st = [] \<and> prefix (counted st) (filter (in_subjects subs) (hist (target st)))"

lemma after_rollback_step:
  assumes "good st" "is_begun st" "after_rollback wr lid err st = (r, st')"
  shows "good st' \<and> pending st' = [] \<and> counted st' = counted st \<and> prefix (hist (target st)) (hist (target st'))
    \<and> (\<nexists>l. r = Ret (l, None))"
  using assms rollback_step [OF assms(1,2)]
  by (auto simp: after_rollback_def errors_Join_def Let_def map_filter_simps split: prod.splits go.splits option.splits)

text \<open>What a session leaves behind, if it starts with \<open>all\<close> applied and is handed \<open>es\<close>.\<close>

definition applied_upto :: "event list \<Rightarrow> event list \<Rightarrow> 'w wstate \<Rightarrow> 'w wstate \<Rightarrow> bool" where
  "applied_upto all es st st' \<longleftrightarrow> good st' \<and> pending st' = [] \<and> prefix (hist (target st)) (hist (target st'))
     \<and> prefix (counted st) (counted st') \<and> prefix (counted st') (all @ es)"

lemma begin_if_closed:
  assumes "good st" "isOpen \<Longrightarrow> is_begun st" "\<not> isOpen \<Longrightarrow> pending st = []"
    and "(if isOpen then (Ret None, st) else w_begin wr st) = (r, st1)"
  shows "good st1 \<and> counted st1 = counted st \<and> pending st1 = pending st \<and> prefix (hist (target st)) (hist (target st1))
    \<and> (r = Ret None \<longrightarrow> is_begun st1) \<and> (r \<noteq> Ret None \<longrightarrow> pending st = [])"
proof (cases isOpen)
  case True
  then show ?thesis using assms by simp
next
  case False
  then have "w_begin wr st = (r, st1)" using assms(4) by simp
  from begin_step [OF assms(1) assms(3) [OF False] this] show ?thesis using assms(3) [OF False] by simp
qed

lemma applyTo_fails: "\<lbrakk>w_apply wr e st = (r, st'); r \<noteq> Ret None\<rbrakk> \<Longrightarrow> \<exists>err. applyTo stack wr e st = (Some err, st')"
  by (cases r; cases "recoverInto stack r") (auto simp: applyTo_def recoverInto_def)

text \<open>An event that passes the check either ends the session, or counts before the loop goes on.\<close>

lemma drive_loop_event:
  assumes "good st" "isOpen \<Longrightarrow> is_begun st" "\<not> isOpen \<Longrightarrow> pending st = []" "ID e \<noteq> []" "check e = None"
    and loop: "drive_loop stack ctxErr check batchSize wr (Inr e # items) lid inBatch isOpen (st, progress) = (r, st', progress')"
  obtains (ended) "applied_upto (counted st @ pending st) [e] st st'" "\<nexists>l. r = Ret (l, None)"
  | (goes_on) n isOpen2 st3 progress2 where
      "drive_loop stack ctxErr check batchSize wr items (ID e) n isOpen2 (st3, progress2) = (r, st', progress')"
      "good st3" "isOpen2 \<Longrightarrow> is_begun st3" "\<not> isOpen2 \<Longrightarrow> pending st3 = []" "prefix (hist (target st)) (hist (target st3))"
      "prefix (counted st) (counted st3)" "counted st3 @ pending st3 = counted st @ pending st @ [e]"
proof -
  obtain rb st1 where b: "(if isOpen then (Ret None, st) else w_begin wr st) = (rb, st1)" by fastforce
  note st1 = begin_if_closed [OF assms(1-3) b]
  obtain ra st2 where a: "w_apply wr e st1 = (ra, st2)" by fastforce
  obtain rc st3 where c: "w_commit wr (ID e) st2 = (rc, st3)" by fastforce
  consider "rb \<noteq> Ret None" | "rb = Ret None" "ra \<noteq> Ret None" | "rb = Ret None" "ra = Ret None" by blast
  then show thesis
  proof cases
    case 1
    then have "st' = st1" "\<nexists>l. r = Ret (l, None)"
      using b assms(5) loop by (auto split: go.splits option.splits prod.splits)
    then show ?thesis using st1 1 by (intro ended) (simp_all add: applied_upto_def)
  next
    case 2
    obtain err where "applyTo stack wr e st1 = (Some err, st2)" using applyTo_fails [OF a 2(2)] by blast
    then have rolled: "after_rollback wr lid err st2 = (r, st')"
      using b 2(1) loop assms(5) by (auto split: prod.splits)
    have ap: "good st2" "is_begun st2" "prefix (hist (target st1)) (hist (target st2))" "counted st2 = counted st1"
      using apply_step [OF _ _ assms(4) a] st1 2 by simp_all
    show ?thesis
      using after_rollback_step [OF ap(1,2) rolled] ap st1 by (intro ended) (auto simp: applied_upto_def intro: prefix_order.trans)
  next
    case 3
    have ap: "good st2" "is_begun st2" "prefix (hist (target st)) (hist (target st2))" "prefix (counted st) (counted st2)"
        "counted st2 @ pending st2 = counted st @ pending st @ [e]"
      using apply_step [OF _ _ assms(4) a] st1 3 by (auto intro: prefix_order.trans)
    have rest: "(if inBatch + 1 < batchSize then drive_loop stack ctxErr check batchSize wr items (ID e) (inBatch + 1) True (st2, progress)
        else case rc of
            Panic v \<Rightarrow> (Panic v, st3, progress)
          | Ret (Some err) \<Rightarrow> (Ret (ID e, Some err), st3, progress)
          | Ret None \<Rightarrow> drive_loop stack ctxErr check batchSize wr items (ID e) 0 False (st3, committed (ID e) progress)) = (r, st', progress')"
      using loop a b c 3 assms(5) by (auto simp: applyTo_def recoverInto_def split: go.splits option.splits)
    have "counted st2 @ pending st2 \<noteq> []" "ID e = last_id (counted st2 @ pending st2)" unfolding ap(5) by (simp_all add: last_id_def)
    then have cm: "good st3" "pending st3 = []" "prefix (hist (target st)) (hist (target st3))" "prefix (counted st) (counted st3)"
        "prefix (counted st3) (counted st @ pending st @ [e])" "rc = Ret None \<Longrightarrow> counted st3 = counted st @ pending st @ [e]"
      using commit_step [OF ap(1,2), of rc st3] c ap prefixI [OF ap(5) [symmetric]] by (auto intro: prefix_order.trans)
    show ?thesis
    proof (cases "inBatch + 1 < batchSize")
      case True
      then show ?thesis using rest ap by (intro goes_on [of "inBatch + 1" True st2 progress]) simp_all
    next
      case False
      then show ?thesis
        using rest cm ended goes_on [of 0 False st3 "committed (ID e) progress"]
        by (cases "rc = Ret None") (auto simp: applied_upto_def split: go.splits option.splits)
    qed
  qed
qed

lemma drive_loop_step:
  assumes "good st" "isOpen \<Longrightarrow> is_begun st \<and> counted st @ pending st \<noteq> [] \<and> lid = last_id (counted st @ pending st)"
    and "\<not> isOpen \<Longrightarrow> pending st = []" and "\<forall>e \<in> set (events_of items). ID e \<noteq> []"
    and "drive_loop stack ctxErr check batchSize wr items lid inBatch isOpen (st, progress) = (r, st', progress')"
  shows "applied_upto (counted st @ pending st) (events_of items) st st'
    \<and> (\<forall>l. r = Ret (l, None) \<longrightarrow> items = map Inr (events_of items) \<and> counted st' = counted st @ pending st @ events_of items
          \<and> l = (if events_of items = [] then lid else last_id (counted st')))"
  using assms
proof (induction items arbitrary: lid inBatch isOpen st progress)
  case Nil
  show ?case
  proof (cases isOpen)
    case True
    obtain rc st1 where c: "w_commit wr lid st = (rc, st1)" by fastforce
    then have "st' = st1" and r: "r = Ret (l, None) \<Longrightarrow> rc = Ret None \<and> l = lid" for l
      using Nil.prems(5) True by (auto split: go.splits option.splits)
    then show ?thesis
      using commit_step [of st rc st1] Nil.prems(1,2) True c r by (auto simp: applied_upto_def)
  next
    case False
    then have "st' = st" "\<And>l. r = Ret (l, None) \<Longrightarrow> l = lid" using Nil.prems(5) by (auto split: option.splits)
    then show ?thesis using Nil.prems(1,3) False by (auto simp: applied_upto_def)
  qed
next
  case (Cons x items)
  consider err where "x = Inl err" | e err where "x = Inr e" "check e = Some err" | e where "x = Inr e" "check e = None"
    by (cases x; cases "check (projr x)") auto
  then show ?case
  proof cases
    case 1
    then show ?thesis
      using Cons.prems(1,2,3,5) after_rollback_step [of st lid _ r st']
      by (cases isOpen) (auto simp: applied_upto_def Let_def split: prod.splits)
  next
    case 2
    then show ?thesis
      using Cons.prems(1,2,3,5) after_rollback_step [of st lid _ r st']
      by (cases isOpen) (auto simp: applied_upto_def Let_def split: prod.splits)
  next
    case (3 e)
    have ids: "ID e \<noteq> []" "\<forall>e \<in> set (events_of items). ID e \<noteq> []" using Cons.prems(4) 3 by auto
    have begun: "isOpen \<Longrightarrow> is_begun st" using Cons.prems(2) by blast
    show ?thesis
    proof (cases rule: drive_loop_event [OF Cons.prems(1) begun Cons.prems(3) ids(1) 3(2) Cons.prems(5) [unfolded 3(1)], case_names _ _ ended goes_on])
      case ended
      moreover have "prefix (counted st @ pending st @ [e]) (counted st @ pending st @ e # events_of items)" by (simp add: prefix_def)
      ultimately show ?thesis using 3 by (auto simp: applied_upto_def intro: prefix_order.trans)
    next
      case (goes_on n isOpen2 st3 progress2)
      have all3: "counted st3 @ pending st3 \<noteq> []" "ID e = last_id (counted st3 @ pending st3)"
        using goes_on(7) by (simp_all add: last_id_def)
      note IH = Cons.IH [OF goes_on(2) _ goes_on(4) ids(2) goes_on(1)]
      have upto: "applied_upto (counted st3 @ pending st3) (events_of items) st3 st'" using IH goes_on(3) all3 by blast
      have "applied_upto (counted st @ pending st) (events_of (x # items)) st st'"
        using upto goes_on(5-7) 3(1) prefix_order.trans unfolding applied_upto_def by fastforce
      moreover have "items = map Inr (events_of items) \<and> counted st' = counted st @ pending st @ e # events_of items
          \<and> l = last_id (counted st')" if "r = Ret (l, None)" for l
      proof -
        have *: "items = map Inr (events_of items)" "counted st' = (counted st3 @ pending st3) @ events_of items"
            "l = (if events_of items = [] then ID e else last_id (counted st'))"
          using IH goes_on(3) all3 that by auto
        show ?thesis
          using *(1,3) *(2) [unfolded goes_on(7)] by (cases "events_of items = []") (simp_all add: last_id_def)
      qed
      ultimately show ?thesis unfolding 3(1) by fastforce
    qed
  qed
qed

text \<open>A session over a stream that starts right after what counts.\<close>

lemma session_step:
  assumes laws: "stream_laws rt s subs hist calm" and st: "in_step subs st"
    and es: "prefix (events_of items) (drop (length (counted st)) (filter (in_subjects subs) (hist (target st))))"
    and drive: "drive rt s wr items sz (st, progress) = (r, st', progress')"
  shows "in_step subs st' \<and> prefix (counted st) (counted st') \<and> prefix (hist (target st)) (hist (target st'))
    \<and> (\<forall>l. r = Ret (l, None) \<longrightarrow> items = map Inr (events_of items) \<and> counted st' = counted st @ events_of items
          \<and> l = (if events_of items = [] then [] else last_id (counted st')))"
proof -
  let ?log = "filter (in_subjects subs) (hist (target st))"
  have "set (events_of items) \<subseteq> set ?log" using es set_mono_prefix set_drop_subset by (metis subset_trans)
  then have ids: "\<forall>e \<in> set (events_of items). ID e \<noteq> []"
    using laws is_revision_not_Nil by (fastforce simp: stream_laws_def log_ok_def)
  have clear: "good st" "pending st = []" "prefix (counted st) ?log" using st by (simp_all add: in_step_def)
  note loop = drive_loop_step [OF clear(1) _ _ ids drive [unfolded drive_def]]
  have "applied_upto (counted st) (events_of items) st st'" using loop clear(2) by simp
  moreover have "?log = counted st @ drop (length (counted st)) ?log" using clear(3) by (auto simp: prefix_def)
  then have "prefix (counted st @ events_of items) ?log" using es by (metis same_prefix_prefix)
  ultimately have "in_step subs st'" "prefix (counted st) (counted st')" "prefix (hist (target st)) (hist (target st'))"
    using prefix_filter prefix_order.trans unfolding applied_upto_def in_step_def by metis+
  then show ?thesis using loop clear(2) by simp
qed

lemma calm_in_step:
  assumes "in_step subs st" "calm (target st) w" "prefix (hist (target st)) (hist w)"
  shows "in_step subs (st\<lparr>target := w\<rparr>)" "counted (st\<lparr>target := w\<rparr>) = counted st"
  using assms calm_step [of st w] prefix_filter [OF assms(3)] unfolding in_step_def
  by (auto intro: prefix_order.trans)

lemma checkpoint_in_step:
  assumes "in_step subs st" "w_checkpoint wr st = (r, st')"
  shows "in_step subs st'" "counted st' = counted st" "prefix (hist (target st)) (hist (target st'))"
    "r = Ret (c, None) \<Longrightarrow> c = last_id (counted st)"
  using assms checkpoint_step [of st r st'] prefix_filter unfolding in_step_def by (auto intro: prefix_order.trans)

text \<open>What a read after the checkpoint hands out.\<close>

lemma read_in_step:
  assumes laws: "stream_laws rt s subs hist calm" and st: "in_step subs st"
    and read: "ReadEvents (storeClient s) (target st) (rootSubject subs)
      \<lparr>Recursive = isRecursive subs, Order = OrderChronological, LowerBound = boundAfter (last_id (counted st)),
       UpperBound = None, LatestEvent = None\<rparr> = (items, w)"
  shows "in_step subs (st\<lparr>target := w\<rparr>)" "counted (st\<lparr>target := w\<rparr>) = counted st" "prefix (hist (target st)) (hist w)"
    "prefix (events_of items) (drop (length (counted st)) (filter (in_subjects subs) (hist w)))"
    "items = map Inr es \<Longrightarrow> prefix (drop (length (counted st)) (filter (in_subjects subs) (hist (target st)))) es"
proof -
  let ?after = "filter (\<lambda>e. above (boundAfter (last_id (counted st))) (rank e))"
  have read': "calm (target st) w" "prefix (hist (target st)) (hist w)"
    "prefix (events_of items) (?after (filter (in_subjects subs) (hist w)))"
    "items = map Inr es \<Longrightarrow> prefix (?after (filter (in_subjects subs) (hist (target st)))) es"
    using laws read unfolding stream_laws_def by fastforce+
  have after: "?after (filter (in_subjects subs) (hist v)) = drop (length (counted st)) (filter (in_subjects subs) (hist v))"
    if "prefix (counted st) (filter (in_subjects subs) (hist v))" for v
    using log_after [OF log_ok_filter that, of "ID (last (counted st))"] laws by (simp add: stream_laws_def last_id_def)
  show now: "in_step subs (st\<lparr>target := w\<rparr>)" "counted (st\<lparr>target := w\<rparr>) = counted st" using calm_in_step [OF st read'(1,2)] by simp_all
  show "prefix (hist (target st)) (hist w)" by (rule read'(2))
  show "prefix (events_of items) (drop (length (counted st)) (filter (in_subjects subs) (hist w)))"
    using read'(3) after [of w] now by (simp add: in_step_def)
  show "items = map Inr es \<Longrightarrow> prefix (drop (length (counted st)) (filter (in_subjects subs) (hist (target st)))) es"
    using read'(4) after [of "target st"] st by (simp add: in_step_def)
qed

lemma last_id_counted:
  assumes "stream_laws rt s subs hist calm" "in_step subs st" "counted st \<noteq> []"
  shows "last_id (counted st) \<noteq> []"
proof -
  have "last (counted st) \<in> set (filter (in_subjects subs) (hist (target st)))"
    using assms(2,3) unfolding in_step_def by (meson last_in_set set_mono_prefix subsetD)
  then have "is_revision (ID (last (counted st)))" using assms(1) by (auto simp: stream_laws_def log_ok_def)
  then show ?thesis using assms(3) is_revision_not_Nil by (simp add: last_id_def)
qed

lemma catchUp_step:
  assumes laws: "stream_laws rt s subs hist calm" and st: "in_step subs st"
    and run: "catchUp rt s subs wr sz (st, progress) = (r, st', progress')"
  shows "in_step subs st' \<and> prefix (counted st) (counted st') \<and> prefix (hist (target st)) (hist (target st'))
    \<and> (\<forall>l. r = Ret (l, None) \<longrightarrow> l = last_id (counted st') \<and> prefix (filter (in_subjects subs) (hist (target st))) (counted st'))"
proof -
  obtain rc st1 where c: "w_checkpoint wr st = (rc, st1)" by fastforce
  note cp = checkpoint_in_step [OF st c]
  show ?thesis
  proof (cases "\<exists>checkpoint. rc = Ret (checkpoint, None)")
    case False
    then have "st' = st1" "\<nexists>l. r = Ret (l, None)" using run c by (auto simp: catchUp_def split: go.splits option.splits)
    then show ?thesis using cp by simp
  next
    case True
    then have rc: "rc = Ret (last_id (counted st1), None)" using cp(2,4) by auto
    obtain items w where read: "ReadEvents (storeClient s) (target st1) (rootSubject subs)
        \<lparr>Recursive = isRecursive subs, Order = OrderChronological, LowerBound = boundAfter (last_id (counted st1)),
         UpperBound = None, LatestEvent = None\<rparr> = (items, w)" by fastforce
    note ri = read_in_step [OF laws cp(1) read]
    obtain rd st2 progress2 where d: "drive rt s wr items sz (st1\<lparr>target := w\<rparr>, progress) = (rd, st2, progress2)" by (metis prod_cases3)
    have "prefix (events_of items) (drop (length (counted (st1\<lparr>target := w\<rparr>))) (filter (in_subjects subs) (hist (target (st1\<lparr>target := w\<rparr>)))))"
      using ri(2,4) by simp
    note session = session_step [OF laws ri(1) this d]
    have "(case (rd, st2, progress2) of
          (Ret (lastEventID, None), sp') \<Rightarrow> (Ret (if lastEventID = [] then last_id (counted st1) else lastEventID, None), sp')
        | (r, sp') \<Rightarrow> (r, sp')) = (r, st', progress')"
      using run by (simp add: catchUp_def c rc read d)
    note catchUp_result [OF this, unfolded cp(2)]
    then have st': "st' = st2" and r: "\<And>l. r = Ret (l, None) \<Longrightarrow> \<exists>l'. rd = Ret (l', None) \<and> l = (if l' = [] then last_id (counted st) else l')"
      by blast+
    have "l = last_id (counted st') \<and> prefix (filter (in_subjects subs) (hist (target st))) (counted st')" if lr: "r = Ret (l, None)" for l
    proof -
      obtain l' where l': "rd = Ret (l', None)" "l = (if l' = [] then last_id (counted st) else l')" using r [OF lr] by blast
      then have it: "items = map Inr (events_of items)" "counted st2 = counted st @ events_of items"
        "l' = (if events_of items = [] then [] else last_id (counted st2))"
        using session ri(2) cp(2) by auto
      have "prefix (filter (in_subjects subs) (hist (target st1))) (counted st2)"
        using ri(5) [OF it(1)] cp(1,2) it(2) by (auto simp: in_step_def prefix_def)
      then have "prefix (filter (in_subjects subs) (hist (target st))) (counted st2)"
        using prefix_filter [OF cp(3)] prefix_order.trans by blast
      moreover have "l = last_id (counted st2)"
      proof (cases "events_of items = []")
        case True
        then show ?thesis using l'(2) it(2,3) by simp
      next
        case False
        then have "last_id (counted st2) \<noteq> []" using last_id_counted [OF laws, of st2] session it(2) by simp
        then show ?thesis using l'(2) it(3) False by simp
      qed
      ultimately show ?thesis using st' by simp
    qed
    moreover have "prefix (hist (target st)) (hist (target st2))"
      using session cp(3) ri(3) by (auto intro: prefix_order.trans)
    ultimately show ?thesis using session ri(2) cp(2) st' by simp
  qed
qed

text \<open>A part of a run: what counts grows along the log, and whoever caught up has seen what was stored before.\<close>

definition moved :: "subjects \<Rightarrow> 'w wstate \<times> ProjectionRun \<Rightarrow> 'w wstate \<times> ProjectionRun \<Rightarrow> bool" where
  "moved subs sp sp' \<longleftrightarrow> in_step subs (fst sp') \<and> prefix (counted (fst sp)) (counted (fst sp'))
     \<and> prefix (hist (target (fst sp))) (hist (target (fst sp')))
     \<and> (HasCaughtUp (runStatus (snd sp')) \<longrightarrow>
          HasCaughtUp (runStatus (snd sp)) \<or> prefix (filter (in_subjects subs) (hist (target (fst sp)))) (counted (fst sp')))"

lemma moved_refl: "in_step subs (fst sp) \<Longrightarrow> moved subs sp sp"
  by (simp add: moved_def)

lemma moved_trans:
  assumes "moved subs a b" "moved subs b c"
  shows "moved subs a c"
proof -
  have "prefix (filter (in_subjects subs) (hist (target (fst a)))) (filter (in_subjects subs) (hist (target (fst b))))"
    using assms(1) prefix_filter unfolding moved_def by blast
  then show ?thesis using assms unfolding moved_def by (meson prefix_order.trans)
qed

lemma moved_quiet:
  assumes "in_step subs st'" "counted st' = counted st" "prefix (hist (target st)) (hist (target st'))"
    and "HasCaughtUp (runStatus p') = HasCaughtUp (runStatus p)"
  shows "moved subs (st, p) (st', p')"
  using assms by (simp add: moved_def)

lemma caughtUp_only_revision: "only_revision (Some p) q \<Longrightarrow> q \<noteq> None \<and> HasCaughtUp (runStatus (the q)) = HasCaughtUp (runStatus p)"
  by (auto simp: only_revision_def)

lemma follow_live:
  assumes laws: "stream_laws rt s subs hist calm" and st: "in_step subs st"
    and "ObserveEvents rt (target st) (rootSubject subs)
      \<lparr>ObserveRecursive = isRecursive subs, ObserveLowerBound = boundAfter (last_id (counted st))\<rparr> = (items, w)"
    and drive: "drive rt s wr items 1 (st\<lparr>target := w\<rparr>, Some p) = (r, st', q)"
  shows "moved subs (st, p) (st', the q)"
proof -
  let ?after = "filter (\<lambda>e. above (boundAfter (last_id (counted st))) (rank e))"
  have read: "calm (target st) w" "prefix (hist (target st)) (hist w)" "prefix (events_of items) (?after (filter (in_subjects subs) (hist w)))"
    using laws assms(3) unfolding stream_laws_def by fastforce+
  note now = calm_in_step [OF st read(1,2)]
  have "prefix (counted st) (filter (in_subjects subs) (hist w))" using now by (simp add: in_step_def)
  then have "?after (filter (in_subjects subs) (hist w)) = drop (length (counted st)) (filter (in_subjects subs) (hist w))"
    using log_after [OF log_ok_filter, of "hist w" "counted st" _ "ID (last (counted st))"] laws
    by (simp add: stream_laws_def last_id_def)
  then have "prefix (events_of items) (drop (length (counted (st\<lparr>target := w\<rparr>))) (filter (in_subjects subs) (hist (target (st\<lparr>target := w\<rparr>)))))"
    using read(3) now(2) by simp
  from session_step [OF laws now(1) this drive] show ?thesis
    using now(2) read(2) caughtUp_only_revision [OF drive_loop_progress [OF drive [unfolded drive_def]]]
    by (auto simp: moved_def intro: prefix_order.trans)
qed

lemma follow_step:
  assumes laws: "stream_laws rt s subs hist calm" and st: "in_step subs (fst sp)"
    and follow: "follow rt s subs wr sz sp = (r, sp')"
  shows "moved subs sp sp'"
proof -
  obtain rc st1 q where c: "catchUp rt s subs wr sz (fst sp, Some (snd sp)) = (rc, st1, q)" by (metis prod_cases3)
  note cu = catchUp_step [OF laws st c]
  have q: "HasCaughtUp (runStatus (the q)) = HasCaughtUp (runStatus (snd sp))"
    using caughtUp_only_revision [OF catchUp_progress [OF c]] by simp
  show ?thesis
  proof (cases "\<exists>l. rc = Ret (l, None)")
    case False
    then have "sp' = (st1, the q)" using follow c by (auto simp: follow_def split: go.splits option.splits)
    then show ?thesis using cu q by (simp add: moved_def)
  next
    case True
    then have rc: "rc = Ret (last_id (counted st1), None)" using cu by auto
    obtain items w where o: "ObserveEvents rt (target st1) (rootSubject subs)
        \<lparr>ObserveRecursive = isRecursive subs, ObserveLowerBound = boundAfter (last_id (counted st1))\<rparr> = (items, w)" by fastforce
    let ?p = "caughtUpNow (now rt (target st1)) (the q)"
    obtain rd st2 q2 where d: "drive rt s wr items 1 (st1\<lparr>target := w\<rparr>, Some ?p) = (rd, st2, q2)" by (metis prod_cases3)
    have "sp' = (st2, the q2)" using follow by (auto simp: follow_def c rc o d Let_def split: go.splits)
    moreover have "moved subs sp (st1, ?p)" using cu rc by (simp add: moved_def)
    moreover have "moved subs (st1, ?p) (st2, the q2)" using follow_live [OF laws _ o d] cu by simp
    ultimately show ?thesis using moved_trans by blast
  qed
qed

lemma observe_in_step:
  assumes "stream_laws rt s subs hist calm" "in_step subs st" "observe s reconnect st = (r, st')"
  shows "in_step subs st'" "counted st' = counted st" "prefix (hist (target st)) (hist (target st'))"
proof -
  consider "st' = st" | f w where "reconnectObserver (settings s) = Some f" "f (target st) reconnect = Ret w" "st' = st\<lparr>target := w\<rparr>"
  proof (cases "reconnectObserver (settings s)")
    case None
    then show ?thesis using that(1) assms(3) by (simp add: observe_def)
  next
    case (Some f)
    show ?thesis
    proof (cases "f (target st) reconnect")
      case (Ret w)
      show ?thesis by (rule that(2) [OF Some Ret]) (use assms(3) Some Ret in \<open>simp add: observe_def\<close>)
    next
      case (Panic v)
      then show ?thesis using that(1) assms(3) Some by (simp add: observe_def)
    qed
  qed
  then have "in_step subs st' \<and> counted st' = counted st \<and> prefix (hist (target st)) (hist (target st'))"
  proof cases
    case (2 f w)
    then have "calm (target st) w" "prefix (hist (target st)) (hist w)" using assms(1) unfolding stream_laws_def by fastforce+
    then show ?thesis using calm_in_step [OF assms(2)] 2(3) by simp
  qed (use assms(2) in simp)
  then show "in_step subs st'" "counted st' = counted st" "prefix (hist (target st)) (hist (target st'))" by blast+
qed

lemma reconnect_round_step:
  assumes laws: "stream_laws rt s subs hist calm" and st: "in_step subs (fst sp)"
    and round: "reconnect_round rt s subs wr delay attempt before liveFor err sp = (r, sp')"
  shows "moved subs sp sp'"
proof -
  let ?p = "disrupted (now rt (target (fst sp))) err (snd sp)"
  have p: "HasCaughtUp (runStatus ?p) = HasCaughtUp (runStatus (snd sp))" by (simp add: disrupted_def Let_def)
  obtain rc st1 where c: "w_checkpoint wr (fst sp) = (rc, st1)" by fastforce
  note cp = checkpoint_in_step [OF st c]
  have m1: "moved subs sp (st1, ?p)" using moved_quiet [OF cp(1-3) p] by simp
  show ?thesis
  proof (cases rc)
    case (Panic v)
    then have "sp' = (st1, ?p)" using round c by (simp add: reconnect_round_def Let_def)
    then show ?thesis using m1 by simp
  next
    case (Ret ce)
    obtain after e where ce: "ce = (after, e)" by fastforce
    define d where "d = (if after \<noteq> before \<or> liveFor > reconnectInitialDelay (settings s) then reconnectInitialDelay (settings s) else delay)"
    define n where "n = (if after \<noteq> before \<or> liveFor > reconnectInitialDelay (settings s) then 0 else attempt) + 1"
    obtain ro st2 where o: "observe s \<lparr>ReconnectProjection = runName ?p, ReconnectSubject = rootSubject subs, ReconnectErr = err,
        ReconnectDelay = d, ReconnectAttempt = n\<rparr> st1 = (ro, st2)" by fastforce
    note ob = observe_in_step [OF laws cp(1) o]
    have m2: "moved subs (st1, ?p) (st2, ?p)" by (rule moved_quiet [OF ob refl])
    obtain b w where t: "timer rt d (target st2) = (b, w)" by fastforce
    have "calm (target st2) w" "prefix (hist (target st2)) (hist w)" using laws t unfolding stream_laws_def by fastforce+
    then have m3: "moved subs (st2, ?p) (st2\<lparr>target := w\<rparr>, ?p)" using calm_in_step [OF ob(1)] by (intro moved_quiet) simp_all
    have "sp' = (st2, ?p) \<or> sp' = (st2\<lparr>target := w\<rparr>, ?p)"
      using round c Ret ce o t unfolding d_def n_def by (cases ro; cases b) (simp_all add: reconnect_round_def Let_def)
    then show ?thesis using m1 m2 m3 moved_trans by blast
  qed
qed

lemma run_round_step:
  assumes laws: "stream_laws rt s subs hist calm" and st: "in_step subs (fst sp)"
    and round: "run_round rt s subs wr sz delay attempt sp = (r, sp')"
  shows "moved subs sp sp'"
proof -
  obtain rc st1 where c: "w_checkpoint wr (fst sp) = (rc, st1)" by fastforce
  note cp = checkpoint_in_step [OF st c]
  have m1: "moved subs sp (st1, snd sp)" using moved_quiet [OF cp(1-3), of "snd sp" "snd sp"] by simp
  obtain rf sp2 where f: "follow rt s subs wr sz (st1, snd sp) = (rf, sp2)" by (metis surj_pair)
  have m2: "moved subs (st1, snd sp) sp2" using follow_step [OF laws _ f] cp(1) by simp
  show ?thesis
  proof (cases "sp' = (st1, snd sp) \<or> sp' = sp2")
    case True
    then show ?thesis using m1 m2 moved_trans by blast
  next
    case False
    then obtain before liveFor err where "reconnect_round rt s subs wr delay attempt before liveFor err sp2 = (r, sp')"
      using round c f by (auto simp: run_round_def split: go.splits prod.splits if_splits)
    moreover have "in_step subs (fst sp2)" using m2 by (simp add: moved_def)
    ultimately have "moved subs sp2 sp'" by (metis reconnect_round_step [OF laws])
    then show ?thesis using m1 m2 moved_trans by blast
  qed
qed

lemma run_loop_step:
  assumes laws: "stream_laws rt s subs hist calm" and st: "in_step subs (fst sp)"
    and "run_loop rt s subs wr sz n delay attempt sp = (r, sp')"
  shows "moved subs sp sp'"
  using assms(2,3)
proof (induction n arbitrary: delay attempt sp)
  case 0
  then show ?case using moved_refl by simp
next
  case (Suc n)
  obtain rr sp1 where one: "run_round rt s subs wr sz delay attempt sp = (rr, sp1)" by (metis surj_pair)
  note m1 = run_round_step [OF laws Suc.prems(1) one]
  have in1: "in_step subs (fst sp1)" using m1 by (simp add: moved_def)
  show ?case
  proof (cases rr)
    case (Ended err)
    then show ?thesis using Suc.prems(2) one m1 by simp
  next
    case (Again d a)
    then show ?thesis using Suc.IH [OF in1, of d a] Suc.prems(2) one moved_trans [OF m1] by simp
  qed
qed

lemma in_background_step:
  assumes laws: "stream_laws rt s subs hist calm" and st: "in_step subs (new_state w)"
    and "in_background rt s subs wr batched name w n = (st', p)"
  shows "in_step subs st' \<and> prefix (counted (new_state w)) (counted st') \<and> prefix (hist w) (hist (target st'))
    \<and> (HasCaughtUp (runStatus p) \<longrightarrow> prefix (filter (in_subjects subs) (hist w)) (counted st'))"
proof -
  obtain r sp where run: "run rt s subs wr batched n (new_state w, start name subs (now rt w)) = (r, sp)" by (metis surj_pair)
  have "moved subs (new_state w, start name subs (now rt w)) sp"
    using run_loop_step [OF laws _ run [unfolded run_def]] st by simp
  moreover have "st' = fst sp" "HasCaughtUp (runStatus p) = HasCaughtUp (runStatus (snd sp))"
    using assms(3) run by (auto simp: in_background_def run_stop_def split: option.splits prod.splits)
  ultimately show ?thesis by (simp add: moved_def start_def new_state_def)
qed

end

section \<open>What the kinds of projections have to guarantee\<close>

text \<open>
  Of the target of a projection, \<open>seen\<close> is the list of the events it has been changed by. An \<open>Apply\<close>
  that returns nil counts, one that fails or panics does not. The projection does not touch the log.
\<close>

definition apply_counts :: "'w Projection \<Rightarrow> ('w \<Rightarrow> event list) \<Rightarrow> ('w \<Rightarrow> event list) \<Rightarrow> bool" where
  "apply_counts p hist seen \<longleftrightarrow> (\<forall>e w r w'. Apply p e w = (r, w') \<longrightarrow>
     seen w' = (if r = Ret None then seen w @ [e] else seen w) \<and> prefix (hist w) (hist w'))"

definition rebuild_good :: "'w Projection \<Rightarrow> ('w \<Rightarrow> event list) \<Rightarrow> ('w \<Rightarrow> event list) \<Rightarrow> 'w wstate \<Rightarrow> bool" where
  "rebuild_good p hist seen st \<longleftrightarrow> apply_counts p hist seen \<and> lastApplied st = last_id (seen (target st))"

lemma remembering_step:
  assumes "apply_counts p hist seen" "remembering p e st = (r, st')"
  shows "prefix (hist (target st)) (hist (target st'))"
    "if r = Ret None then seen (target st') = seen (target st) @ [e] \<and> lastApplied st' = ID e
     else seen (target st') = seen (target st) \<and> lastApplied st' = lastApplied st"
proof -
  obtain ra w where a: "Apply p e (target st) = (ra, w)" by fastforce
  have st': "r = ra \<and> st' = (if ra = Ret None then st\<lparr>target := w, lastApplied := ID e\<rparr> else st\<lparr>target := w\<rparr>)"
    using assms(2) a by (cases ra) (auto simp: remembering_def on_target_def split: option.splits)
  have "seen w = (if ra = Ret None then seen (target st) @ [e] else seen (target st))" "prefix (hist (target st)) (hist w)"
    using assms(1) a unfolding apply_counts_def by blast+
  then show "prefix (hist (target st)) (hist (target st'))"
    "if r = Ret None then seen (target st') = seen (target st) @ [e] \<and> lastApplied st' = ID e
     else seen (target st') = seen (target st) \<and> lastApplied st' = lastApplied st"
    using st' by auto
qed

interpretation rebuild: projection_writer "rebuildWriter p" hist "\<lambda>w w'. seen w' = seen w" "rebuild_good p hist seen"
  "\<lambda>_. True" "\<lambda>st. seen (target st)" "\<lambda>_. []" for p hist seen
proof (unfold_locales, goal_cases)
  case (4 st e r st')
  then show ?case
    using remembering_step [of p hist seen e st r st'] by (auto simp: rebuild_good_def rebuildWriter_def last_id_def split: if_splits)
qed (auto simp: rebuild_good_def rebuildWriter_def)

text \<open>
  A resumable projection also keeps a checkpoint, \<open>saved\<close>. Within a run it goes on from the last
  event it applied, and the saved checkpoint never names an event that has not been applied.
\<close>

definition checkpoint_laws :: "'w Resumable \<Rightarrow> ('w \<Rightarrow> event list) \<Rightarrow> ('w \<Rightarrow> event list) \<Rightarrow> ('w \<Rightarrow> string) \<Rightarrow> bool" where
  "checkpoint_laws res hist seen saved \<longleftrightarrow>
     (\<forall>w r w'. Checkpoint res w = (r, w') \<longrightarrow> seen w' = seen w \<and> saved w' = saved w \<and> prefix (hist w) (hist w')
        \<and> (\<forall>c. r = Ret (c, None) \<longrightarrow> c = saved w))
     \<and> (\<forall>i w r w'. SaveCheckpoint res i w = (r, w') \<longrightarrow> seen w' = seen w \<and> prefix (hist w) (hist w')
        \<and> saved w' \<in> {saved w, i} \<and> (r = Ret None \<longrightarrow> saved w' = i))"

definition resumable_good ::
  "'w Projection \<Rightarrow> 'w Resumable \<Rightarrow> ('w \<Rightarrow> event list) \<Rightarrow> ('w \<Rightarrow> event list) \<Rightarrow> ('w \<Rightarrow> string) \<Rightarrow> 'w wstate \<Rightarrow> bool" where
  "resumable_good p res hist seen saved st \<longleftrightarrow> apply_counts p hist seen \<and> checkpoint_laws res hist seen saved
     \<and> (\<forall>e w r w'. Apply p e w = (r, w') \<longrightarrow> saved w' = saved w)
     \<and> last_id (seen (target st)) = (if lastApplied st = [] then saved (target st) else lastApplied st)
     \<and> (\<exists>n. saved (target st) = last_id (take n (seen (target st))))"

lemma prefix_take:
  assumes "prefix xs ys"
  shows "\<exists>m. take n xs = take m ys"
proof
  show "take n xs = take (min n (length xs)) ys" using assms by (auto simp: prefix_def min_def)
qed

lemma resumable_apply_step:
  assumes "resumable_good p res hist seen saved st" "ID e \<noteq> []" "remembering p e st = (r, st')"
  shows "resumable_good p res hist seen saved st'"
proof -
  have counts: "apply_counts p hist seen" using assms(1) by (simp add: resumable_good_def)
  note step = remembering_step [OF counts assms(3)]
  obtain ra w where a: "Apply p e (target st) = (ra, w)" by fastforce
  then have "target st' = w" using assms(3) by (cases ra) (auto simp: remembering_def on_target_def split: option.splits)
  then have saved: "saved (target st') = saved (target st)" using assms(1) a unfolding resumable_good_def by blast
  have "prefix (seen (target st)) (seen (target st'))" using step(2) by (auto split: if_splits)
  then have "\<exists>n. saved (target st') = last_id (take n (seen (target st')))"
    using assms(1) prefix_take unfolding resumable_good_def saved by metis
  moreover have "last_id (seen (target st')) = (if lastApplied st' = [] then saved (target st') else lastApplied st')"
    using step(2) assms(1,2) saved by (cases "r = Ret None") (simp_all add: resumable_good_def last_id_def)
  ultimately show ?thesis using assms(1) by (simp add: resumable_good_def)
qed

lemma resumable_commit_step:
  assumes "resumable_good p res hist seen saved st" "on_target (SaveCheckpoint res (last_id (seen (target st)))) st = (r, st')"
  shows "resumable_good p res hist seen saved st' \<and> seen (target st') = seen (target st) \<and> prefix (hist (target st)) (hist (target st'))"
proof -
  obtain w where w: "SaveCheckpoint res (last_id (seen (target st))) (target st) = (r, w)" "st' = st\<lparr>target := w\<rparr>"
    using assms(2) by (auto simp: on_target_def split: prod.splits)
  then have law: "seen w = seen (target st)" "prefix (hist (target st)) (hist w)" "saved w \<in> {saved (target st), last_id (seen (target st))}"
    using assms(1) unfolding resumable_good_def checkpoint_laws_def by blast+
  have "take (length (seen w)) (seen w) = seen w" by simp
  then have "\<exists>n. saved w = last_id (take n (seen w))"
    using law assms(1) unfolding resumable_good_def by (metis insertE singletonD)
  moreover have "last_id (seen w) = (if lastApplied st = [] then saved w else lastApplied st)"
    using law(1,3) assms(1) by (auto simp: resumable_good_def split: if_splits)
  moreover have st': "target st' = w" "lastApplied st' = lastApplied st" using w(2) by simp_all
  ultimately show ?thesis using assms(1) law(1,2) unfolding resumable_good_def st' by blast
qed

lemma resumable_checkpoint_step:
  assumes "resumable_good p res hist seen saved st" "w_checkpoint (resumableWriter p res) st = (r, st')"
  shows "resumable_good p res hist seen saved st' \<and> seen (target st') = seen (target st) \<and> prefix (hist (target st)) (hist (target st'))
    \<and> (\<forall>c. r = Ret (c, None) \<longrightarrow> c = last_id (seen (target st)))"
proof (cases "lastApplied st = []")
  case False
  then show ?thesis using assms by (auto simp: resumableWriter_def resumable_good_def)
next
  case True
  then obtain w where w: "Checkpoint res (target st) = (r, w)" "st' = st\<lparr>target := w\<rparr>"
    using assms(2) by (auto simp: resumableWriter_def on_target_def split: prod.splits)
  then have "seen w = seen (target st)" "saved w = saved (target st)" "prefix (hist (target st)) (hist w)"
      "\<forall>c. r = Ret (c, None) \<longrightarrow> c = saved (target st)"
    using assms(1) unfolding resumable_good_def checkpoint_laws_def by blast+
  then show ?thesis using assms(1) w(2) True by (simp add: resumable_good_def)
qed

interpretation resumable: projection_writer "resumableWriter p res" hist "\<lambda>w w'. seen w' = seen w \<and> saved w' = saved w"
  "resumable_good p res hist seen saved" "\<lambda>_. True" "\<lambda>st. seen (target st)" "\<lambda>_. []" for p res hist seen saved
proof (unfold_locales, goal_cases)
  case (1 st w)
  then show ?case by (simp add: resumable_good_def)
next
  case (2 st r st')
  then show ?case using resumable_checkpoint_step by blast
next
  case (4 st e r st')
  then have "remembering p e st = (r, st')" "apply_counts p hist seen" by (simp_all add: resumableWriter_def resumable_good_def)
  then show ?case
    using 4 resumable_apply_step [of p res hist seen saved st e r st'] remembering_step [of p hist seen e st r st'] by simp
next
  case (5 st r st')
  then show ?case using resumable_commit_step [of p res hist seen saved st r st'] by (simp add: resumableWriter_def)
qed (auto simp: resumableWriter_def)

text \<open>
  A transactional projection makes data and checkpoint durable together: \<open>seen\<close> and \<open>saved\<close> change
  only in a commit, and both or neither. \<open>buffered\<close> are the events of the open transaction. A commit
  that fails or panics has either been made durable or has been rolled back.
\<close>

definition tx_laws ::
  "('w \<Rightarrow> event list) \<Rightarrow> ('w \<Rightarrow> event list) \<Rightarrow> ('w \<Rightarrow> string) \<Rightarrow> ('w \<Rightarrow> event list) \<Rightarrow> 'w Tx \<Rightarrow> bool" where
  "tx_laws hist seen saved buffered tx \<longleftrightarrow>
     (\<forall>e w r w'. TxApply tx e w = (r, w') \<longrightarrow> seen w' = seen w \<and> saved w' = saved w \<and> prefix (hist w) (hist w')
        \<and> (r = Ret None \<longrightarrow> buffered w' = buffered w @ [e]))
     \<and> (\<forall>i w r w'. TxCommit tx i w = (r, w') \<longrightarrow> buffered w' = [] \<and> prefix (hist w) (hist w')
        \<and> (seen w' = seen w @ buffered w \<and> saved w' = i \<or> r \<noteq> Ret None \<and> seen w' = seen w \<and> saved w' = saved w))
     \<and> (\<forall>w r w'. TxRollback tx w = (r, w') \<longrightarrow> seen w' = seen w \<and> saved w' = saved w \<and> buffered w' = [] \<and> prefix (hist w) (hist w'))"

definition transactional_laws ::
  "'w Transactional \<Rightarrow> ('w \<Rightarrow> event list) \<Rightarrow> ('w \<Rightarrow> event list) \<Rightarrow> ('w \<Rightarrow> string) \<Rightarrow> ('w \<Rightarrow> event list) \<Rightarrow> bool" where
  "transactional_laws t hist seen saved buffered \<longleftrightarrow>
     (\<forall>w r w'. TxCheckpoint t w = (r, w') \<longrightarrow> seen w' = seen w \<and> saved w' = saved w \<and> buffered w' = buffered w \<and> prefix (hist w) (hist w')
        \<and> (\<forall>c. r = Ret (c, None) \<longrightarrow> c = saved w))
     \<and> (\<forall>w r w'. Begin t w = (r, w') \<longrightarrow> seen w' = seen w \<and> saved w' = saved w \<and> prefix (hist w) (hist w')
        \<and> (buffered w = [] \<longrightarrow> buffered w' = []) \<and> (\<forall>tx. r = Ret (Inr tx) \<longrightarrow> tx_laws hist seen saved buffered tx))"

definition transactional_good ::
  "'w Transactional \<Rightarrow> ('w \<Rightarrow> event list) \<Rightarrow> ('w \<Rightarrow> event list) \<Rightarrow> ('w \<Rightarrow> string) \<Rightarrow> ('w \<Rightarrow> event list) \<Rightarrow> 'w wstate \<Rightarrow> bool" where
  "transactional_good t hist seen saved buffered st \<longleftrightarrow> transactional_laws t hist seen saved buffered
     \<and> saved (target st) = last_id (seen (target st)) \<and> (\<forall>tx. openTx st = Some tx \<longrightarrow> tx_laws hist seen saved buffered tx)"

lemma tx_apply_step:
  assumes "transactional_good t hist seen saved buffered st" "openTx st \<noteq> None" "tx_apply e st = (r, st')"
  shows "transactional_good t hist seen saved buffered st' \<and> openTx st' \<noteq> None \<and> prefix (hist (target st)) (hist (target st'))
    \<and> seen (target st') = seen (target st) \<and> (r = Ret None \<longrightarrow> buffered (target st') = buffered (target st) @ [e])"
proof -
  obtain tx w where tx: "openTx st = Some tx" "TxApply tx e (target st) = (r, w)" "st' = st\<lparr>target := w\<rparr>"
    using assms(2,3) by (auto simp: tx_apply_def on_target_def split: prod.splits)
  then have "tx_laws hist seen saved buffered tx" using assms(1) by (simp add: transactional_good_def)
  then have "seen w = seen (target st)" "saved w = saved (target st)" "prefix (hist (target st)) (hist w)"
      "r = Ret None \<longrightarrow> buffered w = buffered (target st) @ [e]"
    using tx(2) unfolding tx_laws_def by blast+
  then show ?thesis using assms(1) tx by (simp add: transactional_good_def)
qed

lemma tx_commit_step:
  assumes "transactional_good t hist seen saved buffered st" "openTx st \<noteq> None"
    and "tx_commit (last_id (seen (target st) @ buffered (target st))) st = (r, st')"
  shows "transactional_good t hist seen saved buffered st' \<and> buffered (target st') = [] \<and> prefix (hist (target st)) (hist (target st'))
    \<and> seen (target st') \<in> {seen (target st), seen (target st) @ buffered (target st)}
    \<and> (r = Ret None \<longrightarrow> seen (target st') = seen (target st) @ buffered (target st))"
proof -
  let ?i = "last_id (seen (target st) @ buffered (target st))"
  obtain tx where tx: "openTx st = Some tx" using assms(2) by blast
  obtain rc w where w: "TxCommit tx ?i (target st) = (rc, w)" by fastforce
  have st': "r = rc" "target st' = w" "openTx st' \<in> {None, Some tx}"
    using assms(3) tx w by (cases rc; auto simp: tx_commit_def on_target_def)+
  have laws: "tx_laws hist seen saved buffered tx" using assms(1) tx by (simp add: transactional_good_def)
  then have commit: "buffered w = []" "prefix (hist (target st)) (hist w)"
      "seen w = seen (target st) @ buffered (target st) \<and> saved w = ?i
        \<or> rc \<noteq> Ret None \<and> seen w = seen (target st) \<and> saved w = saved (target st)"
    using w unfolding tx_laws_def by blast+
  then have "saved w = last_id (seen w)" using assms(1) by (auto simp: transactional_good_def)
  then show ?thesis using assms(1) commit st' laws by (auto simp: transactional_good_def)
qed

lemma tx_rollback_step:
  assumes "transactional_good t hist seen saved buffered st" "openTx st \<noteq> None" "tx_rollback stack st = (r, st')"
  shows "transactional_good t hist seen saved buffered st' \<and> buffered (target st') = [] \<and> prefix (hist (target st)) (hist (target st'))
    \<and> seen (target st') = seen (target st)"
proof -
  obtain tx where tx: "openTx st = Some tx" using assms(2) by blast
  obtain rb w where w: "TxRollback tx (target st) = (rb, w)" by fastforce
  have st': "target st' = w" "openTx st' \<in> {None, Some tx}"
    using assms(3) tx w by (cases rb; auto simp: tx_rollback_def on_target_def)+
  have laws: "tx_laws hist seen saved buffered tx" using assms(1) tx by (simp add: transactional_good_def)
  then have "buffered w = []" "prefix (hist (target st)) (hist w)" "seen w = seen (target st)" "saved w = saved (target st)"
    using w unfolding tx_laws_def by blast+
  then show ?thesis using assms(1) st' laws by (auto simp: transactional_good_def)
qed

interpretation transactional: projection_writer "transactionalWriter stack t" hist
  "\<lambda>w w'. seen w' = seen w \<and> saved w' = saved w \<and> buffered w' = buffered w"
  "transactional_good t hist seen saved buffered" "\<lambda>st. openTx st \<noteq> None" "\<lambda>st. seen (target st)" "\<lambda>st. buffered (target st)"
  for stack t hist seen saved buffered
proof (unfold_locales, goal_cases)
  case (1 st w)
  then show ?case by (simp add: transactional_good_def)
next
  case (2 st r st')
  then obtain w where w: "TxCheckpoint t (target st) = (r, w)" "st' = st\<lparr>target := w\<rparr>"
    by (auto simp: transactionalWriter_def on_target_def split: prod.splits)
  moreover have "transactional_laws t hist seen saved buffered" using 2 by (simp add: transactional_good_def)
  ultimately have "seen w = seen (target st)" "saved w = saved (target st)" "buffered w = buffered (target st)"
      "prefix (hist (target st)) (hist w)" "\<forall>c. r = Ret (c, None) \<longrightarrow> c = saved (target st)"
    unfolding transactional_laws_def by blast+
  then show ?case using 2 w(2) by (simp add: transactional_good_def)
next
  case (3 st r st')
  obtain rb w where b: "Begin t (target st) = (rb, w)" by fastforce
  have "transactional_laws t hist seen saved buffered" using 3 by (simp add: transactional_good_def)
  then have law: "seen w = seen (target st)" "saved w = saved (target st)" "buffered w = []" "prefix (hist (target st)) (hist w)"
      "\<And>tx. rb = Ret (Inr tx) \<Longrightarrow> tx_laws hist seen saved buffered tx"
    using b 3(2) unfolding transactional_laws_def by blast+
  have "tx_begin t st = (r, st')" using 3(3) by (simp add: transactionalWriter_def)
  then show ?case
    using 3(1) law b by (auto simp: tx_begin_def on_target_def transactional_good_def split: go.splits sum.splits)
next
  case (4 st e r st')
  then show ?case using tx_apply_step [of t hist seen saved buffered st e r st'] by (simp add: transactionalWriter_def)
next
  case (5 st r st')
  then show ?case using tx_commit_step [of t hist seen saved buffered st r st'] by (simp add: transactionalWriter_def)
next
  case (6 st r st')
  then show ?case using tx_rollback_step [of t hist seen saved buffered st stack r st'] by (simp add: transactionalWriter_def)
qed

end
