(* ===== verification/Projection_Runs.thy ===== *)
theory Projection_Runs
  imports Projection_Safety
begin

text \<open>
  The properties of running projections: events are applied exactly once and in order, a run ends only
  for a reason, the delays between attempts grow within their bounds, the status of a run is
  consistent, and waiting for runs returns nil only once all of them have caught up.
\<close>

section \<open>A target in memory\<close>

text \<open>
  For the witnesses: a database with a fixed log, and a target that holds the events it was changed by,
  a checkpoint, and the events of the open transaction.
\<close>

record memory_target =
  mlog :: "event list"
  mseen :: "event list"
  msaved :: string
  mbuffered :: "event list"

definition mem_log :: "event list" where
  "mem_log = [sample_event ''1'', sample_event ''2'']"

definition log_of :: "memory_target \<Rightarrow> event list" where
  "log_of w = (if mlog w = mem_log then mem_log else [])"

definition target_client :: "memory_target client" where
  "target_client =
     \<lparr>ReadEvents = (\<lambda>w subj options. (map Inr (filter (\<lambda>e. above (LowerBound options) (rank e))
        (filter (in_subjects \<lparr>rootSubject = subj, isRecursive = Recursive options\<rparr>) (log_of w))), w)),
      WriteEvents = (\<lambda>w candidates pres. (Inl (Custom ''read-only'' []), w)),
      RegisterEventSchema = (\<lambda>w t j. (None, w)), ReadEventTypes = (\<lambda>w. ([], w)),
      VerifyHash = (\<lambda>e. None), VerifySignature = (\<lambda>e k. None), ctx_Err = (\<lambda>w. None),
      memory = (\<lambda>w. \<lparr>heapCells = [], heapArrays = [], heapMaps = []\<rparr>)\<rparr>"

definition target_store :: "memory_target Store" where
  "target_store = \<lparr>storeClient = target_client, source = ''tests'', settings = default_settings\<rparr>"

definition target_runtime :: "memory_target runtime" where
  "target_runtime = \<lparr>ObserveEvents = (\<lambda>w subj options. ([], w)), now = (\<lambda>w. 0), timer = (\<lambda>d w. (False, w)), debugStack = ''stack''\<rparr>"

definition target_tx :: "memory_target Tx" where
  "target_tx =
     \<lparr>TxApply = (\<lambda>e w. (Ret None, w\<lparr>mbuffered := mbuffered w @ [e]\<rparr>)),
      TxCommit = (\<lambda>i w. (Ret None, w\<lparr>mseen := mseen w @ mbuffered w, msaved := i, mbuffered := []\<rparr>)),
      TxRollback = (\<lambda>w. (Ret None, w\<lparr>mbuffered := []\<rparr>))\<rparr>"

definition target_transactional :: "memory_target Transactional" where
  "target_transactional =
     \<lparr>TxCheckpoint = (\<lambda>w. (Ret (msaved w, None), w)), Begin = (\<lambda>w. (Ret (Inr target_tx), w\<lparr>mbuffered := []\<rparr>)),
      TxBatchSize = Some 2, TxGoValue = Some (PointerV ''*T'' (Some 1))\<rparr>"

definition target_resumable :: "memory_target Resumable" where
  "target_resumable =
     \<lparr>Checkpoint = (\<lambda>w. (Ret (msaved w, None), w)), SaveCheckpoint = (\<lambda>i w. (Ret None, w\<lparr>msaved := i\<rparr>))\<rparr>"

definition target_projection :: "memory_target Projection" where
  "target_projection =
     \<lparr>Apply = (\<lambda>e w. (Ret None, w\<lparr>mseen := mseen w @ [e]\<rparr>)), AsResumable = Some target_resumable, AsTransactional = None,
      CatchUpBatchSize = Some 2, GoValue = Some (PointerV ''*P'' (Some 1)), GoTypeName = ''*P''\<rparr>"

definition all_subjects :: subjects where
  "all_subjects = \<lparr>rootSubject = ''/'', isRecursive = True\<rparr>"

definition empty_target :: memory_target where
  "empty_target = \<lparr>mlog = mem_log, mseen = [], msaved = [], mbuffered = []\<rparr>"

lemma log_of_ok: "log_ok (log_of w)"
  by (simp add: log_of_def mem_log_def log_ok_def sample_event_def rank_def rev_eval)

lemma target_stream_laws:
  assumes "\<And>w. calm w w"
  shows "stream_laws target_runtime target_store all_subjects log_of calm"
proof -
  have *: "(\<forall>es. map Inr xs = map Inr es \<longrightarrow> prefix xs es)" for xs :: "event list"
    by (simp add: inj_map_eq_map)
  show ?thesis
    using assms log_of_ok *
    by (auto simp: stream_laws_def target_runtime_def target_store_def target_client_def all_subjects_def default_settings_def)
qed

lemma target_transactional_laws: "transactional_laws target_transactional log_of mseen msaved mbuffered"
  by (auto simp: transactional_laws_def target_transactional_def tx_laws_def target_tx_def log_of_def)

section \<open>Exactly once\<close>

lemma stream_laws_mono:
  assumes "stream_laws rt s subs hist calm" "\<And>w w'. calm w w' \<Longrightarrow> calm' w w'"
  shows "stream_laws rt s subs hist calm'"
  using assms unfolding stream_laws_def by (elim conjE, intro conjI) blast+

text \<open>
  C3. A transactional projection applies every event of its subjects exactly once, in order and
  without gaps, across reconnects and restarts, whatever fails or panics in between. At every moment
  between two sessions of a run, the durable data consists of the first events of the log, the
  durable checkpoint names the last one of them, and no transaction holds events back. Once the run
  reports that it has caught up, the data covers everything that was stored when it started. This
  rests on what \<open>Tx\<close> asks of a projection: a commit makes data and checkpoint durable together, or
  neither.
\<close>

theorem transactional_exactly_once:
  assumes "StartTransactionalProjection rt s subs t options w = Ret background" and "background n = (st, progress)"
    and "stream_laws rt s subs hist (\<lambda>w w'. seen w' = seen w \<and> saved w' = saved w \<and> buffered w' = buffered w)"
    and "transactional_laws t hist seen saved buffered"
    and "prefix (seen w) (filter (in_subjects subs) (hist w))" and "saved w = last_id (seen w)" and "buffered w = []"
  shows "prefix (seen w) (seen (target st)) \<and> prefix (seen (target st)) (filter (in_subjects subs) (hist (target st)))
    \<and> saved (target st) = last_id (seen (target st)) \<and> buffered (target st) = []
    \<and> (HasCaughtUp (runStatus progress) \<longrightarrow> prefix (filter (in_subjects subs) (hist w)) (seen (target st)))"
proof -
  let ?wr = "transactionalWriter (debugStack rt) t"
  obtain name where bg: "in_background rt s subs ?wr (TxBatchSize t) name w n = (st, progress)"
    using assms(1,2) by (auto simp: StartTransactionalProjection_def go_bind_eq_Ret)
  have "transactional.in_step hist t seen saved buffered subs (new_state w)"
    using assms(4-7) by (simp add: transactional.in_step_def transactional_good_def new_state_def)
  from transactional.in_background_step [OF assms(3) this bg] show ?thesis
    by (auto simp: transactional.in_step_def transactional_good_def new_state_def)
qed

lemmas target_defs =
  target_transactional_def target_tx_def target_resumable_def target_projection_def target_runtime_def target_store_def
  target_client_def default_settings_def all_subjects_def empty_target_def

lemmas start_defs =
  requireSubjects_def requireProjection_def projectionSettingsOf_def refuseTransactional_def isNil_def

lemma target_starts:
  "\<exists>background. StartTransactionalProjection target_runtime target_store all_subjects target_transactional [] empty_target = Ret background"
  "\<exists>background. StartProjection target_runtime target_store all_subjects target_projection [] empty_target = Ret background"
  by (simp_all add: StartTransactionalProjection_def StartProjection_def start_defs target_defs)

theorem transactional_exactly_once_witness:
  "\<exists>background. StartTransactionalProjection target_runtime target_store all_subjects target_transactional [] empty_target = Ret background
    \<and> msaved (target (fst (background 3))) = last_id (mseen (target (fst (background 3))))"
proof -
  obtain background where bg:
    "StartTransactionalProjection target_runtime target_store all_subjects target_transactional [] empty_target = Ret background"
    using target_starts(1) by blast
  obtain st progress where st: "background 3 = (st, progress)" by fastforce
  have "msaved (target st) = last_id (mseen (target st))"
    using transactional_exactly_once [OF bg st target_stream_laws target_transactional_laws]
    by (simp add: empty_target_def last_id_def)
  then show ?thesis using bg st by simp
qed

text \<open>
  C5. A projection that \<open>StartProjection\<close> runs applies every event of its subjects exactly once within
  a run, in order and without gaps, across lost streams and failed attempts, and once the run reports
  that it has caught up, everything that was stored when it started has been applied. One that is
  rebuilt starts with an empty target. For a resumable one, the saved checkpoint always names the end
  of some part of what has been applied, so that a run after a crash may repeat events, but never
  skips one.
\<close>

theorem projection_applies_once:
  assumes "StartProjection rt s subs p options w = Ret background" and "background n = (st, progress)"
    and "stream_laws rt s subs hist (\<lambda>w w'. seen w' = seen w \<and> saved w' = saved w)"
    and "apply_counts p hist seen" and "prefix (seen w) (filter (in_subjects subs) (hist w))"
    and "case AsResumable p of None \<Rightarrow> seen w = []
      | Some res \<Rightarrow> checkpoint_laws res hist seen saved \<and> saved w = last_id (seen w)
          \<and> (\<forall>e w r w'. Apply p e w = (r, w') \<longrightarrow> saved w' = saved w)"
  shows "prefix (seen w) (seen (target st)) \<and> prefix (seen (target st)) (filter (in_subjects subs) (hist (target st)))
    \<and> (HasCaughtUp (runStatus progress) \<longrightarrow> prefix (filter (in_subjects subs) (hist w)) (seen (target st)))
    \<and> (AsResumable p \<noteq> None \<longrightarrow> (\<exists>m. saved (target st) = last_id (take m (seen (target st)))))"
proof -
  obtain name where bg: "in_background rt s subs (writerFor p) (CatchUpBatchSize p) name w n = (st, progress)"
    using assms(1,2) by (auto simp: StartProjection_def go_bind_eq_Ret)
  show ?thesis
  proof (cases "AsResumable p")
    case None
    then have "rebuild.in_step hist p seen subs (new_state w)"
      using assms(4,6) by (simp add: rebuild.in_step_def rebuild_good_def new_state_def last_id_def)
    from rebuild.in_background_step [OF stream_laws_mono [OF assms(3)] this, of "CatchUpBatchSize p" name n st progress]
    show ?thesis using None bg by (simp add: writerFor_def rebuild.in_step_def new_state_def)
  next
    case (Some res)
    have "\<exists>m. saved w = last_id (take m (seen w))" using assms(6) Some by (intro exI [of _ "length (seen w)"]) simp
    then have "resumable.in_step hist p res seen saved subs (new_state w)"
      using assms(4-6) Some by (simp add: resumable.in_step_def resumable_good_def new_state_def)
    from resumable.in_background_step [OF assms(3) this, of "CatchUpBatchSize p" name n st progress]
    show ?thesis using Some bg by (simp add: writerFor_def resumable.in_step_def resumable_good_def new_state_def)
  qed
qed

lemma target_apply_counts: "apply_counts target_projection log_of mseen"
  by (auto simp: apply_counts_def target_projection_def log_of_def)

theorem projection_applies_once_witness:
  "\<exists>background. StartProjection target_runtime target_store all_subjects target_projection [] empty_target = Ret background
    \<and> prefix (mseen (target (fst (background 3)))) (filter (in_subjects all_subjects) (log_of (target (fst (background 3)))))"
proof -
  obtain background where bg: "StartProjection target_runtime target_store all_subjects target_projection [] empty_target = Ret background"
    using target_starts(2) by blast
  obtain st progress where st: "background 3 = (st, progress)" by fastforce
  have "checkpoint_laws target_resumable log_of mseen msaved"
    by (auto simp: checkpoint_laws_def target_resumable_def log_of_def)
  moreover have "AsResumable target_projection = Some target_resumable"
    "\<forall>e w r w'. Apply target_projection e w = (r, w') \<longrightarrow> msaved w' = msaved w" by (auto simp: target_projection_def)
  ultimately have "prefix (mseen (target st)) (filter (in_subjects all_subjects) (log_of (target st)))"
    using projection_applies_once [OF bg st target_stream_laws target_apply_counts, of msaved]
    by (simp add: empty_target_def last_id_def)
  then show ?thesis using bg st by simp
qed

section \<open>How a run ends\<close>

lemma panic_ends: "hasPanicked (Some (PanicError v st))"
  by (simp add: hasPanicked_def is_panic_def)

lemma reconnect_round_ended:
  assumes "reconnect_round rt s subs wr delay attempt before liveFor err sp = (Ended err', sp')"
  shows "case err' of None \<Rightarrow> \<exists>d w. timer rt d w = (True, target (fst sp')) | Some e \<Rightarrow> hasPanicked (Some e)"
  using assms panic_ends
  by (fastforce simp: reconnect_round_def Let_def split: prod.splits go.splits bool.splits)

lemma run_round_ended:
  assumes "run_round rt s subs wr sz delay attempt sp = (Ended err, sp')"
  shows "case err of
      None \<Rightarrow> ctx_Err (storeClient s) (target (fst sp')) \<noteq> None \<or> (\<exists>d w. timer rt d w = (True, target (fst sp')))
    | Some e \<Rightarrow> hasPanicked (Some e) \<or> \<not> errors_Is e ErrTransient"
proof -
  obtain rc st where c: "w_checkpoint wr (fst sp) = (rc, st)" by fastforce
  obtain rf sp1 where f: "follow rt s subs wr sz (st, snd sp) = (rf, sp1)" by (metis surj_pair)
  consider v where "rc = Panic v" | v where "\<exists>b. rc = Ret b" "rf = Panic v" | before e1 liveFor e2 where "rc = Ret (before, e1)" "rf = Ret (liveFor, e2)"
    by (cases rc; cases rf) auto
  then show ?thesis
  proof cases
    case (3 before e1 liveFor e2)
    then show ?thesis
      using assms c f reconnect_round_ended [of rt s subs wr delay attempt before liveFor e2 sp1 err sp']
      by (auto simp: run_round_def ends_run_def split: if_splits option.splits)
  qed (use assms c f panic_ends in \<open>auto simp: run_round_def\<close>)
qed

text \<open>
  C38. A run ends only for a reason. With nil, it ends because its context has ended, and with an error
  only if that is a panic, or does not belong to \<open>ErrTransient\<close>. The other way round, a session that
  fails with a panic, even together with a transient failure, ends the run with that error unless the
  context has ended.
\<close>

theorem run_ends_for_a_reason:
  "(case run rt s subs wr batched n sp of
      (None, _) \<Rightarrow> True
    | (Some None, sp') \<Rightarrow> ctx_Err (storeClient s) (target (fst sp')) \<noteq> None \<or> (\<exists>d w. timer rt d w = (True, target (fst sp')))
    | (Some (Some e), _) \<Rightarrow> hasPanicked (Some e) \<or> \<not> errors_Is e ErrTransient)
   \<and> (\<forall>before e1 st liveFor e sp1. w_checkpoint wr (fst sp) = (Ret (before, e1), st)
        \<longrightarrow> follow rt s subs wr (batchSizeOf batched) (st, snd sp) = (Ret (liveFor, Some e), sp1)
        \<longrightarrow> hasPanicked (Some e) \<longrightarrow> ctx_Err (storeClient s) (target (fst sp1)) = None
        \<longrightarrow> run rt s subs wr batched (Suc n) sp = (Some (Some e), sp1))"
proof -
  have "case run_loop rt s subs wr sz n delay attempt sp of
      (None, _) \<Rightarrow> True
    | (Some None, sp') \<Rightarrow> ctx_Err (storeClient s) (target (fst sp')) \<noteq> None \<or> (\<exists>d w. timer rt d w = (True, target (fst sp')))
    | (Some (Some e), _) \<Rightarrow> hasPanicked (Some e) \<or> \<not> errors_Is e ErrTransient" for sz delay attempt
  proof (induction n arbitrary: delay attempt sp)
    case (Suc n)
    obtain r sp1 where one: "run_round rt s subs wr sz delay attempt sp = (r, sp1)" by (metis surj_pair)
    show ?case
    proof (cases r)
      case (Ended err)
      then show ?thesis using run_round_ended [OF one [unfolded Ended]] one by (cases err) simp_all
    next
      case (Again d a)
      then show ?thesis using Suc one by simp
    qed
  qed simp
  then show ?thesis by (simp add: run_def run_round_def ends_run_def)
qed

theorem run_ends_for_a_reason_witness:
  "run target_runtime target_store all_subjects
     (rebuildWriter (target_projection\<lparr>Apply := (\<lambda>e w. (Panic ''boom'', w)), AsResumable := None\<rparr>)) (Some 1) 1
     (new_state empty_target, start [] all_subjects 0)
   = (Some (Some (Joined [ApplyFailure ''1'' (PanicError ''boom'' ''stack'')])), new_state empty_target, start [] all_subjects 0)"
proof -
  let ?wr = "rebuildWriter (target_projection\<lparr>Apply := (\<lambda>e w. (Panic ''boom'', w)), AsResumable := None\<rparr>)"
  have "follow target_runtime target_store all_subjects ?wr (batchSizeOf (Some 1)) (new_state empty_target, start [] all_subjects 0)
    = (Ret (0, Some (Joined [ApplyFailure ''1'' (PanicError ''boom'' ''stack'')])), new_state empty_target, start [] all_subjects 0)"
    by (simp add: follow_def catchUp_def drive_def rebuildWriter_def new_state_def target_defs log_of_def mem_log_def in_subjects_def
        boundAfter_def above_def verify_def applyTo_def recoverInto_def remembering_def on_target_def after_rollback_def
        errors_Join_def map_filter_simps sample_event_def Let_def)
  moreover have "w_checkpoint ?wr (new_state empty_target) = (Ret ([], None), new_state empty_target)"
    by (simp add: rebuildWriter_def new_state_def)
  moreover have "hasPanicked (Some (Joined [ApplyFailure ''1'' (PanicError ''boom'' ''stack'')]))"
    by (simp add: hasPanicked_def is_panic_def)
  moreover have "ctx_Err (storeClient target_store) (target (new_state empty_target)) = None" by (simp add: target_defs)
  ultimately show ?thesis
    using run_ends_for_a_reason [where rt = target_runtime and s = target_store and subs = all_subjects and wr = ?wr
        and batched = "Some 1" and n = 0 and sp = "(new_state empty_target, start [] all_subjects 0)"]
    by simp
qed

section \<open>Delays\<close>

text \<open>The delay before an attempt, counted from 0: the initial delay, doubled each time up to the maximum.\<close>

definition backoff :: "'w storeSettings \<Rightarrow> int \<Rightarrow> int" where
  "backoff st attempt = min (reconnectInitialDelay st * 2 ^ nat attempt) (reconnectMaxDelay st)"

definition delays_ok :: "'w storeSettings \<Rightarrow> bool" where
  "delays_ok st \<longleftrightarrow> 0 < reconnectInitialDelay st \<and> reconnectInitialDelay st \<le> reconnectMaxDelay st \<and> reconnectMaxDelay st < 2 ^ 62"

lemma int64_id: "- (2 ^ 63) \<le> n \<Longrightarrow> n < 2 ^ 63 \<Longrightarrow> int64 n = n"
  by (simp add: int64_def mod_pos_pos_trivial)

lemma backoff_bounds:
  assumes "delays_ok st"
  shows "reconnectInitialDelay st \<le> backoff st a \<and> backoff st a \<le> reconnectMaxDelay st"
proof -
  have "reconnectInitialDelay st * 1 \<le> reconnectInitialDelay st * 2 ^ nat a"
    using assms by (intro mult_left_mono) (auto simp: delays_ok_def)
  then show ?thesis using assms by (simp add: backoff_def delays_ok_def)
qed

lemma backoff_doubles:
  assumes "delays_ok st" "0 \<le> a"
  shows "min (int64 (2 * backoff st a)) (reconnectMaxDelay st) = backoff st (a + 1)"
proof -
  have "int64 (2 * backoff st a) = 2 * backoff st a"
    using backoff_bounds [OF assms(1), of a] assms(1) by (intro int64_id) (auto simp: delays_ok_def)
  then show ?thesis using assms by (auto simp: backoff_def delays_ok_def nat_add_distrib min_def)
qed

lemma reconnect_round_delay:
  assumes "delays_ok (settings s)" "0 \<le> attempt" "delay = backoff (settings s) attempt"
    and "reconnect_round rt s subs wr delay attempt before liveFor err sp = (Again delay' attempt', sp')"
  shows "1 \<le> attempt' \<and> (attempt' = 1 \<or> attempt' = attempt + 1) \<and> delay' = backoff (settings s) attempt'"
proof -
  have b0: "reconnectInitialDelay (settings s) = backoff (settings s) 0"
    using assms(1) by (simp add: backoff_def delays_ok_def)
  define fresh where "fresh a = (a \<noteq> before \<or> liveFor > reconnectInitialDelay (settings s))" for a
  obtain a where "attempt' = (if fresh a then 0 else attempt) + 1"
      "delay' = min (int64 (2 * (if fresh a then reconnectInitialDelay (settings s) else delay))) (reconnectMaxDelay (settings s))"
    using assms(4) unfolding reconnect_round_def Let_def
    by (auto simp: fresh_def split: prod.splits go.splits bool.splits)
  then show ?thesis
    using assms(2,3) b0 backoff_doubles [OF assms(1), of 0] backoff_doubles [OF assms(1,2)] by (cases "fresh a") simp_all
qed

text \<open>
  The delays between the attempts of a run are bounded and grow as documented. With delays that
  \<open>WithReconnectDelays\<close> accepts, below \<open>2 ^ 62\<close> nanoseconds, which is about 146 years, doubling the delay
  never overflows; before the attempt number \<open>k\<close> in a row, a run waits for the initial delay times
  \<open>2 ^ (k - 1)\<close>, but never longer than the maximum, and attempts count up or start over with 1.
\<close>

theorem reconnect_delays:
  assumes "WithReconnectDelays ds initialDelay maxDelay = Ret option" and "option base = Ret (settings s)" and "maxDelay < 2 ^ 62"
    and "0 \<le> attempt" and "delay = min (initialDelay * 2 ^ nat attempt) maxDelay"
    and "run_round rt s subs wr sz delay attempt sp = (Again delay' attempt', sp')"
  shows "1 \<le> attempt' \<and> (attempt' = 1 \<or> attempt' = attempt + 1) \<and> delay' = min (initialDelay * 2 ^ nat attempt') maxDelay
    \<and> initialDelay \<le> delay' \<and> delay' \<le> maxDelay \<and> 0 < delay'"
proof -
  have given: "0 < initialDelay" "initialDelay \<le> maxDelay"
    "option = (\<lambda>st. Ret (st\<lparr>reconnectInitialDelay := initialDelay, reconnectMaxDelay := maxDelay\<rparr>))"
    using assms(1) by (auto simp: WithReconnectDelays_def split: if_splits)
  then have "settings s = base\<lparr>reconnectInitialDelay := initialDelay, reconnectMaxDelay := maxDelay\<rparr>" using assms(2) by simp
  with given have set: "reconnectInitialDelay (settings s) = initialDelay" "reconnectMaxDelay (settings s) = maxDelay"
    "0 < initialDelay" "initialDelay \<le> maxDelay" by simp_all
  then have ok: "delays_ok (settings s)" using assms(3) by (simp add: delays_ok_def)
  have start: "delay = backoff (settings s) attempt" using assms(5) set by (simp add: backoff_def)
  obtain before liveFor err sp1 where "reconnect_round rt s subs wr delay attempt before liveFor err sp1 = (Again delay' attempt', sp')"
    using assms(6) by (auto simp: run_round_def split: prod.splits go.splits if_splits)
  from reconnect_round_delay [OF ok assms(4) start this] show ?thesis
    using backoff_bounds [OF ok, of attempt'] set by (simp add: backoff_def)
qed

theorem reconnect_delays_witness:
  "\<exists>attempt' sp'. run_round target_runtime (target_store\<lparr>settings := default_settings\<lparr>reconnectInitialDelay := 5, reconnectMaxDelay := 60\<rparr>\<rparr>)
     all_subjects (rebuildWriter (target_projection\<lparr>AsResumable := None\<rparr>)) 1 5 0 (new_state empty_target, start [] all_subjects 0)
     = (Again 10 attempt', sp') \<and> attempt' = 1"
proof -
  let ?s = "target_store\<lparr>settings := default_settings\<lparr>reconnectInitialDelay := 5, reconnectMaxDelay := 60\<rparr>\<rparr>"
  let ?wr = "rebuildWriter (target_projection\<lparr>AsResumable := None\<rparr>)"
  have "\<exists>d a sp'. run_round target_runtime ?s all_subjects ?wr 1 5 0 (new_state empty_target, start [] all_subjects 0) = (Again d a, sp')"
    by (simp add: run_round_def reconnect_round_def observe_def follow_def catchUp_def drive_def rebuildWriter_def new_state_def target_defs
        log_of_def mem_log_def in_subjects_def boundAfter_def above_def verify_def applyTo_def recoverInto_def remembering_def on_target_def
        sample_event_def ends_run_def rev_eval rank_def Let_def)
  then obtain d a sp' where round: "run_round target_runtime ?s all_subjects ?wr 1 5 0 (new_state empty_target, start [] all_subjects 0) = (Again d a, sp')"
    by blast
  have "WithReconnectDelays (\<lambda>_. []) 5 60 = Ret (\<lambda>st. Ret (st\<lparr>reconnectInitialDelay := 5, reconnectMaxDelay := 60\<rparr>))"
    by (simp add: WithReconnectDelays_def)
  from reconnect_delays [OF this _ _ _ _ round, of default_settings] have "a = 1" "d = 10" by auto
  then show ?thesis using round by blast
qed

section \<open>The status of a run\<close>

text \<open>What the two channels, the phase and the rest of the status tell about each other.\<close>

definition run_ok :: "ProjectionRun \<Rightarrow> bool" where
  "run_ok r \<longleftrightarrow>
     (let st = runStatus r in
      caughtUpClosed r = (if HasCaughtUp st then 1 else 0) \<and> doneClosed r = (if StatusPhase st = PhaseStopped then 1 else 0)
      \<and> (StatusPhase st = PhaseLive \<longrightarrow> HasCaughtUp st) \<and> (StatusPhase st = PhaseCatchingUp \<longrightarrow> \<not> HasCaughtUp st)
      \<and> 0 \<le> Attempts st \<and> (0 < Attempts st \<longleftrightarrow> StatusPhase st = PhaseReconnecting)
      \<and> (StatusErr st \<noteq> None \<longrightarrow> StatusPhase st \<in> {PhaseReconnecting, PhaseStopped})
      \<and> runErr r = (if StatusPhase st = PhaseStopped then StatusErr st else None))"

definition running :: "ProjectionRun \<Rightarrow> bool" where
  "running r \<longleftrightarrow> run_ok r \<and> StatusPhase (runStatus r) \<noteq> PhaseStopped"

named_theorems reports \<open>what the reports of a run keep\<close>

lemma running_start [reports]: "running (start name subs t)"
  by (simp add: running_def run_ok_def start_def Let_def)

lemma running_caughtUpNow [reports]: "running r \<Longrightarrow> running (caughtUpNow t r)"
  by (auto simp: running_def run_ok_def caughtUpNow_def Let_def)

lemma running_disrupted [reports]: "running r \<Longrightarrow> running (disrupted t err r)"
  by (auto simp: running_def run_ok_def disrupted_def Let_def)

lemma running_only_revision [reports]: "only_revision (Some r) q \<Longrightarrow> running r \<Longrightarrow> running (the q)"
  by (auto simp: only_revision_def running_def run_ok_def Let_def)

lemma run_ok_stop: "running r \<Longrightarrow> run_ok (run_stop t err r) \<and> StatusPhase (runStatus (run_stop t err r)) = PhaseStopped"
  by (auto simp: running_def run_ok_def run_stop_def Let_def)

lemma running_follow [reports]:
  assumes "running (snd sp)" "follow rt s subs wr sz sp = (r, sp')"
  shows "running (snd sp')"
proof -
  obtain rc st1 q where c: "catchUp rt s subs wr sz (fst sp, Some (snd sp)) = (rc, st1, q)" by (metis prod_cases3)
  have q: "running (the q)" using catchUp_progress [OF c] assms(1) by (rule running_only_revision)
  let ?p = "caughtUpNow (now rt (target st1)) (the q)"
  have live: "running (the q2)" if "drive rt s wr items 1 (st2, Some ?p) = (rd, st3, q2)" for items st2 rd st3 q2
    using drive_loop_progress [OF that [unfolded drive_def]] running_caughtUpNow [OF q] by (rule running_only_revision)
  show ?thesis
  proof (cases "\<exists>l. rc = Ret (l, None)")
    case False
    then have "sp' = (st1, the q)" using assms(2) c by (auto simp: follow_def split: go.splits option.splits)
    then show ?thesis using q by simp
  next
    case True
    then obtain l where rc: "rc = Ret (l, None)" by blast
    obtain items w where o: "ObserveEvents rt (target st1) (rootSubject subs)
        \<lparr>ObserveRecursive = isRecursive subs, ObserveLowerBound = boundAfter l\<rparr> = (items, w)" by fastforce
    obtain rd st2 q2 where d: "drive rt s wr items 1 (st1\<lparr>target := w\<rparr>, Some ?p) = (rd, st2, q2)" by (metis prod_cases3)
    have "sp' = (st2, the q2)" using assms(2) by (auto simp: follow_def c rc o d Let_def split: go.splits)
    then show ?thesis using live [OF d] by simp
  qed
qed

lemma running_reconnect [reports]:
  assumes "running (snd sp)" "reconnect_round rt s subs wr delay attempt before liveFor err sp = (r, sp')"
  shows "running (snd sp')"
proof -
  have "snd sp' = disrupted (now rt (target (fst sp))) err (snd sp)"
    using assms(2) by (auto simp: reconnect_round_def Let_def split: prod.splits go.splits bool.splits)
  then show ?thesis using running_disrupted [OF assms(1)] by simp
qed

lemma running_round [reports]:
  assumes "running (snd sp)" "run_round rt s subs wr sz delay attempt sp = (r, sp')"
  shows "running (snd sp')"
proof -
  obtain rc st where c: "w_checkpoint wr (fst sp) = (rc, st)" by fastforce
  obtain rf sp1 where f: "follow rt s subs wr sz (st, snd sp) = (rf, sp1)" by (metis surj_pair)
  have "running (snd sp1)" using running_follow [OF _ f] assms(1) by simp
  then show ?thesis
    using assms c f running_reconnect [of sp1] by (auto simp: run_round_def split: go.splits prod.splits if_splits)
qed

lemma running_loop:
  "running (snd sp) \<Longrightarrow> run_loop rt s subs wr sz n delay attempt sp = (r, sp') \<Longrightarrow> running (snd sp')"
proof (induction n arbitrary: delay attempt sp)
  case (Suc n)
  obtain rr sp1 where one: "run_round rt s subs wr sz delay attempt sp = (rr, sp1)" by (metis surj_pair)
  have "running (snd sp1)" using running_round [OF Suc.prems(1) one] .
  then show ?case using Suc.IH [of sp1] Suc.prems(2) one by (cases rr) simp_all
qed simp

text \<open>
  The status of a run is consistent at every moment: the channel \<open>CaughtUp\<close> is closed exactly once
  it has caught up, and never twice; \<open>Done\<close> is closed exactly once the run has stopped, which is when
  its loop has ended; a run that is live has caught up; attempts count within a disruption only, which
  is the only phase, next to the end, that has an error; and \<open>Err\<close> is nil until the end.
\<close>

theorem run_status_consistent:
  "run_ok (snd (in_background rt s subs wr batched name w n))
   \<and> (StatusPhase (runStatus (snd (in_background rt s subs wr batched name w n))) = PhaseStopped \<longleftrightarrow>
        fst (run rt s subs wr batched n (new_state w, start name subs (now rt w))) \<noteq> None)"
proof -
  obtain r sp where run: "run rt s subs wr batched n (new_state w, start name subs (now rt w)) = (r, sp)" by (metis surj_pair)
  have "running (snd sp)" using running_loop [OF _ run [unfolded run_def]] running_start by simp
  then show ?thesis
    using run run_ok_stop [of "snd sp"] by (cases r) (auto simp: in_background_def running_def split: prod.splits)
qed

section \<open>Waiting for runs\<close>

lemma verdict_failed:
  "verdict_loop every stopped runs = Inl err \<Longrightarrow>
     \<exists>r \<in> set runs. \<exists>e. err = named r e \<and> StatusErr (runStatus r) = Some e \<and> StatusPhase (runStatus r) = PhaseStopped
       \<and> \<not> HasCaughtUp (runStatus r)"
  by (induction every stopped runs rule: verdict_loop.induct) (auto simp: Let_def split: if_splits option.splits)

lemma verdict_every:
  "verdict_loop every stopped runs = Inr (every', stopped') \<Longrightarrow> every' = (every \<and> (\<forall>r \<in> set runs. HasCaughtUp (runStatus r)))"
  by (induction every stopped runs rule: verdict_loop.induct) (auto simp: Let_def split: if_splits option.splits)

lemma verdict_stopped:
  "verdict_loop every stopped runs = Inr (every', Some r) \<Longrightarrow>
     stopped = Some r \<or> r \<in> set runs \<and> \<not> HasCaughtUp (runStatus r) \<and> StatusPhase (runStatus r) = PhaseStopped \<and> StatusErr (runStatus r) = None"
  by (induction every stopped runs rule: verdict_loop.induct) (auto simp: Let_def split: if_splits option.splits)

lemma caughtUpVerdict_nil: "caughtUpVerdict ctxErr runs = (True, None) \<longleftrightarrow> (\<forall>r \<in> set runs. HasCaughtUp (runStatus r))"
proof (cases "verdict_loop True None runs")
  case (Inl err)
  then have "\<exists>r \<in> set runs. \<not> HasCaughtUp (runStatus r)" using verdict_failed by blast
  then show ?thesis using Inl by (auto simp: caughtUpVerdict_def)
next
  case (Inr es)
  obtain every stopped where es: "es = (every, stopped)" by fastforce
  then have "every = (\<forall>r \<in> set runs. HasCaughtUp (runStatus r))" using Inr verdict_every [of True None runs] by simp
  then show ?thesis using Inr es by (auto simp: caughtUpVerdict_def split: option.splits)
qed

lemma caughtUpVerdict_error:
  assumes "caughtUpVerdict ctxErr runs = (True, Some err)"
  shows "(\<exists>r \<in> set runs. \<not> HasCaughtUp (runStatus r) \<and> StatusPhase (runStatus r) = PhaseStopped
        \<and> (case StatusErr (runStatus r) of Some e \<Rightarrow> err = named r e | None \<Rightarrow> ctxErr = None \<and> errors_Is err ContextCanceled))
    \<or> ctxErr = Some err"
proof (cases "verdict_loop True None runs")
  case (Inl err')
  then have "verdict_loop True None runs = Inl err" using assms by (simp add: caughtUpVerdict_def)
  then obtain r e where "r \<in> set runs" "err = named r e" "StatusErr (runStatus r) = Some e"
      "StatusPhase (runStatus r) = PhaseStopped" "\<not> HasCaughtUp (runStatus r)"
    using verdict_failed by blast
  then show ?thesis by (intro disjI1 bexI [of _ r]) simp_all
next
  case (Inr es)
  obtain every stopped where es: "es = (every, stopped)" by fastforce
  then show ?thesis
    using assms Inr verdict_stopped [of True None runs every]
    by (fastforce simp: caughtUpVerdict_def sentinel_Is_def split: if_splits option.splits)
qed

text \<open>
  \<open>WaitCaughtUp\<close> panics exactly for a nil run. It returns nil only if at one moment every one of the
  runs had caught up. An error comes from a run that had stopped before it caught up, either the error
  the run stopped with, named after it, or \<open>context.Canceled\<close> if it stopped without one, or it is the
  error of the context.
\<close>

theorem WaitCaughtUp_outcome:
  "((\<exists>v. WaitCaughtUp runs found = Panic v) \<longleftrightarrow> None \<in> set runs)
   \<and> (case WaitCaughtUp runs found of
        Ret (Some None) \<Rightarrow> (\<exists>(ctxErr, rs) \<in> set found. list_all (\<lambda>r. HasCaughtUp (runStatus r)) rs)
      | Ret (Some (Some err)) \<Rightarrow>
          (\<exists>(ctxErr, rs) \<in> set found. \<not> list_all (\<lambda>r. HasCaughtUp (runStatus r)) rs \<and>
             ((\<exists>r \<in> set rs. \<not> HasCaughtUp (runStatus r) \<and> StatusPhase (runStatus r) = PhaseStopped
                 \<and> (case StatusErr (runStatus r) of Some e \<Rightarrow> err = named r e | None \<Rightarrow> ctxErr = None \<and> errors_Is err ContextCanceled))
              \<or> ctxErr = Some err))
      | _ \<Rightarrow> True)"
proof -
  have checks: "(\<exists>v. check_runs i runs = Panic v) \<longleftrightarrow> None \<in> set runs" for i
    by (induction i runs rule: check_runs.induct) auto
  have loop: "case wait_loop found of
        Some None \<Rightarrow> (\<exists>(ctxErr, rs) \<in> set found. list_all (\<lambda>r. HasCaughtUp (runStatus r)) rs)
      | Some (Some err) \<Rightarrow> (\<exists>(ctxErr, rs) \<in> set found. caughtUpVerdict ctxErr rs = (True, Some err))
      | None \<Rightarrow> True"
  proof (induction found rule: wait_loop.induct)
    case (2 ctxErr rs later)
    show ?case
      using 2 caughtUpVerdict_nil [of ctxErr rs]
      by (cases "caughtUpVerdict ctxErr rs") (fastforce simp: list_all_iff split: bool.splits option.splits)
  qed simp
  have reason: "\<not> list_all (\<lambda>r. HasCaughtUp (runStatus r)) rs \<and>
      ((\<exists>r \<in> set rs. \<not> HasCaughtUp (runStatus r) \<and> StatusPhase (runStatus r) = PhaseStopped
          \<and> (case StatusErr (runStatus r) of Some e \<Rightarrow> err = named r e | None \<Rightarrow> ctxErr = None \<and> errors_Is err ContextCanceled))
       \<or> ctxErr = Some err)" if "caughtUpVerdict ctxErr rs = (True, Some err)" for ctxErr rs err
    using that caughtUpVerdict_nil [of ctxErr rs] caughtUpVerdict_error [OF that] by (simp add: list_all_iff)
  show ?thesis
  proof (cases "check_runs 0 runs")
    case (Panic v)
    then show ?thesis using checks [of 0] by (auto simp: WaitCaughtUp_def)
  next
    case (Ret u)
    then have "None \<notin> set runs" using checks [of 0] by auto
    moreover have "WaitCaughtUp runs found = Ret (wait_loop found)" using Ret by (simp add: WaitCaughtUp_def)
    ultimately show ?thesis
      using loop reason by (cases "wait_loop found"; cases "the (wait_loop found)") (simp_all, blast)
  qed
qed

end
