(* ===== verification/Http_Health.thy ===== *)
theory Http_Health
  imports Projection_Runs Http_Errors
begin

text \<open>
  The health handlers (\<open>httpapi/health.go\<close>): readiness and liveness of an application, judged by
  the status of its projections.
\<close>

section \<open>The verdict on a projection\<close>

definition isReady :: "ProjectionStatus \<Rightarrow> bool" where
  "isReady status \<longleftrightarrow> HasCaughtUp status \<and> StatusPhase status \<noteq> PhaseStopped"

definition isAlive :: "ProjectionStatus \<Rightarrow> bool" where
  "isAlive status \<longleftrightarrow> StatusPhase status \<noteq> PhaseStopped"

section \<open>The handlers\<close>

record projectionHealth =
  HealthPhase :: Phase
  HealthSince :: int
  HealthHasCaughtUp :: bool
  HealthAttempts :: int
  HealthRevision :: string

text \<open>
  The answer: the code, the two headers, the name and the value of the verdict, and the details by the
  name of the projection.
\<close>

record health_answer =
  HealthCode :: int
  HealthContentType :: string
  HealthCacheControl :: string
  HealthVerdict :: "string \<times> bool"
  HealthDetails :: "string \<rightharpoonup> projectionHealth"

definition healthOf :: "ProjectionStatus \<Rightarrow> projectionHealth" where
  "healthOf status =
     \<lparr>HealthPhase = StatusPhase status, HealthSince = Since status, HealthHasCaughtUp = HasCaughtUp status,
      HealthAttempts = Attempts status, HealthRevision = StatusRevision status\<rparr>"

text \<open>The loop that checks the runs, \<open>None\<close> being a nil one, and collects their names.\<close>

fun check_names :: "nat \<Rightarrow> string set \<Rightarrow> ProjectionRun option list \<Rightarrow> string list go" where
  "check_names i names [] = Ret []"
| "check_names i names (None # runs) =
     Panic (''architecturekit/httpapi: projection '' @ strconv_Itoa i @ '' has no run'')"
| "check_names i names (Some r # runs) =
     (let name = runName r in
      if name = [] then
        Panic (''architecturekit/httpapi: projection '' @ strconv_Itoa i @ '' has no name, give it one with architecturekit.Named'')
      else if name \<in> names then
        Panic (''architecturekit/httpapi: two projections are named '' @ strconv_Quote name)
      else go_bind (check_names (i + 1) (insert name names) runs) (\<lambda>ns. Ret (name # ns)))"

text \<open>
  The loop of a request over the runs: each of them is asked for its status when its turn comes, so
  that the statuses need not be of one moment.
\<close>

fun health_loop ::
  "(ProjectionStatus \<Rightarrow> bool) \<Rightarrow> bool \<Rightarrow> (string \<rightharpoonup> projectionHealth) \<Rightarrow> (string \<times> ProjectionStatus) list \<Rightarrow>
   bool \<times> (string \<rightharpoonup> projectionHealth)" where
  "health_loop isHealthy overall details [] = (overall, details)"
| "health_loop isHealthy overall details ((name, status) # found) =
     health_loop isHealthy (overall \<and> isHealthy status) (details(name \<mapsto> healthOf status)) found"

text \<open>
  The handler, as a function of the statuses that a request finds, in the order of the runs.
\<close>

definition healthHandler ::
  "ProjectionRun option list \<Rightarrow> string \<Rightarrow> (ProjectionStatus \<Rightarrow> bool) \<Rightarrow> (ProjectionStatus list \<Rightarrow> health_answer) go" where
  "healthHandler runs verdict isHealthy =
     go_bind (check_names 0 {} runs) (\<lambda>names.
       Ret (\<lambda>found.
         case health_loop isHealthy True Map.empty (zip names found) of
           (overall, details) \<Rightarrow>
             \<lparr>HealthCode = (if overall then 200 else 503), HealthContentType = ''application/json'',
              HealthCacheControl = ''no-store'', HealthVerdict = (verdict, overall), HealthDetails = details\<rparr>))"

definition Readiness :: "ProjectionRun option list \<Rightarrow> (ProjectionStatus list \<Rightarrow> health_answer) go" where
  "Readiness runs = healthHandler runs ''isReady'' isReady"

definition Liveness :: "ProjectionRun option list \<Rightarrow> (ProjectionStatus list \<Rightarrow> health_answer) go" where
  "Liveness runs = healthHandler runs ''isAlive'' isAlive"

section \<open>What the handlers answer\<close>

definition names_ok :: "ProjectionRun option list \<Rightarrow> bool" where
  "names_ok runs \<longleftrightarrow>
     None \<notin> set runs \<and> [] \<notin> set (map (runName \<circ> the) runs) \<and> distinct (map (runName \<circ> the) runs)"

lemma check_names_exact:
  "case check_names i names runs of
     Ret ns \<Rightarrow> names_ok runs \<and> names \<inter> set (map (runName \<circ> the) runs) = {} \<and> ns = map (runName \<circ> the) runs
   | Panic _ \<Rightarrow> \<not> (names_ok runs \<and> names \<inter> set (map (runName \<circ> the) runs) = {})"
proof (induction i names runs rule: check_names.induct)
  case (3 i names r runs)
  then show ?case
    by (cases "check_names (i + 1) (insert (runName r) names) runs") (auto simp: names_ok_def Let_def)
qed (simp_all add: names_ok_def)

lemma check_names_Ret: "names_ok runs \<Longrightarrow> check_names 0 {} runs = Ret (map (runName \<circ> the) runs)"
  using check_names_exact [where i = 0 and names = "{}" and runs = runs] by (cases "check_names 0 {} runs") simp_all

lemma check_names_Panic: "\<not> names_ok runs \<Longrightarrow> \<exists>v. check_names 0 {} runs = Panic v"
  using check_names_exact [where i = 0 and names = "{}" and runs = runs] by (cases "check_names 0 {} runs") simp_all

lemma health_loop_overall:
  "fst (health_loop isHealthy overall details found) = (overall \<and> (\<forall>(name, status) \<in> set found. isHealthy status))"
  by (induction found arbitrary: overall details) (auto simp del: fun_upd_apply)

lemma health_loop_details:
  "distinct (map fst found) \<Longrightarrow>
     snd (health_loop isHealthy overall details found) = details ++ map_of (map (\<lambda>(name, status). (name, healthOf status)) found)"
proof (induction isHealthy overall details found rule: health_loop.induct)
  case (2 isHealthy overall details name status found)
  then have "map_of (map (\<lambda>(name, status). (name, healthOf status)) found) name = None"
    by (auto simp: map_of_eq_None_iff image_image case_prod_beta)
  then have "(details(name \<mapsto> healthOf status)) ++ map_of (map (\<lambda>(name, status). (name, healthOf status)) found)
      = details ++ (map_of (map (\<lambda>(name, status). (name, healthOf status)) found))(name \<mapsto> healthOf status)"
    by (auto simp: map_add_def split: option.splits)
  then show ?case using 2 by (simp del: fun_upd_apply)
qed simp

lemma healthHandler_answer:
  assumes "names_ok runs" and "length found = length runs"
  shows "\<exists>h. healthHandler runs verdict isHealthy = Ret h \<and>
      h found = \<lparr>HealthCode = (if \<forall>st \<in> set found. isHealthy st then 200 else 503), HealthContentType = ''application/json'',
        HealthCacheControl = ''no-store'', HealthVerdict = (verdict, \<forall>st \<in> set found. isHealthy st),
        HealthDetails = map_of (zip (map (runName \<circ> the) runs) (map healthOf found))\<rparr>"
proof -
  let ?names = "map (runName \<circ> the) runs"
  have len: "length ?names = length found" using assms(2) by simp
  have distinct: "distinct (map fst (zip ?names found))" using assms(1) len by (simp add: names_ok_def)
  have snds: "snd ` set (zip ?names found) = set found" using len by (metis map_snd_zip set_map)
  have overall: "(\<forall>(name, status) \<in> set (zip ?names found). isHealthy status) \<longleftrightarrow> (\<forall>st \<in> set found. isHealthy st)"
    using snds by force
  have details: "map (\<lambda>(name, status). (name, healthOf status)) (zip ?names found) = zip ?names (map healthOf found)"
    by (simp add: zip_map2)
  show ?thesis
    using assms(1) overall details health_loop_details [OF distinct, of isHealthy True Map.empty]
      health_loop_overall [of isHealthy True Map.empty "zip ?names found"]
    by (simp add: healthHandler_def check_names_Ret case_prod_beta)
qed

text \<open>
  A projection that was started in the background, after some rounds of its loop. A process is what its
  start was given: the subjects, the writer, the size of a batch, the name and the world at the start.
\<close>

type_synonym 'w process = "subjects \<times> 'w projectionWriter \<times> int option \<times> string \<times> 'w"

fun background_run :: "'w runtime \<Rightarrow> 'w Store \<Rightarrow> nat \<Rightarrow> 'w process \<Rightarrow> ProjectionRun" where
  "background_run rt s n (subs, wr, batched, name, w) = snd (in_background rt s subs wr batched name w n)"

lemma background_run_ok: "run_ok (background_run rt s n p)"
proof -
  obtain subs wr batched name w where "p = (subs, wr, batched, name, w)" by (metis prod_cases5)
  then show ?thesis using run_status_consistent [of rt s subs wr batched name w n] by simp
qed

text \<open>The runs as they were started, and the same runs when a request asks for their status.\<close>

definition started_runs :: "'w runtime \<Rightarrow> 'w Store \<Rightarrow> ('w process option \<times> nat) list \<Rightarrow> ProjectionRun option list" where
  "started_runs rt s ps = map (\<lambda>(p, n). map_option (background_run rt s 0) p) ps"

definition asked_runs :: "'w runtime \<Rightarrow> 'w Store \<Rightarrow> ('w process option \<times> nat) list \<Rightarrow> ProjectionRun list" where
  "asked_runs rt s ps = map (\<lambda>(p, n). background_run rt s n (the p)) ps"

lemma run_ok_ready: "run_ok r \<Longrightarrow> isReady (runStatus r) \<longleftrightarrow> caughtUpClosed r = 1 \<and> doneClosed r = 0"
  by (auto simp: run_ok_def isReady_def Let_def)

lemma run_ok_alive: "run_ok r \<Longrightarrow> isAlive (runStatus r) \<longleftrightarrow> doneClosed r = 0"
  by (auto simp: run_ok_def isAlive_def Let_def)

text \<open>
  C20. The health of an application whose projections run in the background, each of them asked after an
  arbitrary number of rounds (\<open>ps\<close> holds a process, \<open>None\<close> being a nil run, and that number).
  \<open>Readiness\<close> and \<open>Liveness\<close> panic exactly for a nil run, a run without a name, or two of the same
  name. Otherwise, readiness is 200 exactly if of every projection the channel \<open>CaughtUp\<close> has been closed
  and \<open>Done\<close> has not, so also while one of them reconnects, and 503 if not; liveness is 200 exactly if no
  projection is done, and 503 if not. The details under the name of each projection are those of its
  own run, and neither answer may be stored.
\<close>

theorem health_tells:
  "let runs = started_runs rt s ps; asked = asked_runs rt s ps in
    case (Readiness runs, Liveness runs) of
      (Ret ready, Ret alive) \<Rightarrow> names_ok runs
        \<and> (let found = map runStatus asked; r = ready found; a = alive found in
           HealthCode r = (if list_all (\<lambda>q. caughtUpClosed q = 1 \<and> doneClosed q = 0) asked then 200 else 503)
           \<and> HealthCode a = (if list_all (\<lambda>q. doneClosed q = 0) asked then 200 else 503)
           \<and> HealthDetails r = map_of (zip (map (runName \<circ> the) runs) (map healthOf found))
           \<and> HealthDetails a = HealthDetails r
           \<and> HealthCacheControl r = ''no-store'' \<and> HealthCacheControl a = ''no-store'')
    | (Panic v, Panic v') \<Rightarrow> \<not> names_ok runs
    | _ \<Rightarrow> False"
proof -
  let ?runs = "started_runs rt s ps" let ?asked = "asked_runs rt s ps"
  show ?thesis
  proof (cases "names_ok ?runs")
    case False
    then obtain v where "check_names 0 {} ?runs = Panic v" using check_names_Panic by blast
    then show ?thesis using False by (simp add: Readiness_def Liveness_def healthHandler_def)
  next
    case True
    let ?found = "map runStatus ?asked"
    have len: "length ?found = length ?runs" by (simp add: started_runs_def asked_runs_def)
    have ok: "run_ok q" if "q \<in> set ?asked" for q using that by (auto simp: asked_runs_def intro: background_run_ok)
    have ready: "(\<forall>st \<in> set ?found. isReady st) \<longleftrightarrow> list_all (\<lambda>q. caughtUpClosed q = 1 \<and> doneClosed q = 0) ?asked"
      using ok run_ok_ready by (auto simp: list_all_iff)
    have alive: "(\<forall>st \<in> set ?found. isAlive st) \<longleftrightarrow> list_all (\<lambda>q. doneClosed q = 0) ?asked"
      using ok run_ok_alive by (auto simp: list_all_iff)
    let ?answer = "\<lambda>verdict isHealthy.
      \<lparr>HealthCode = (if \<forall>st \<in> set ?found. isHealthy st then 200 else 503), HealthContentType = ''application/json'',
       HealthCacheControl = ''no-store'', HealthVerdict = (verdict, \<forall>st \<in> set ?found. isHealthy st),
       HealthDetails = map_of (zip (map (runName \<circ> the) ?runs) (map healthOf ?found))\<rparr>"
    obtain r where r: "Readiness ?runs = Ret r" "r ?found = ?answer ''isReady'' isReady"
      unfolding Readiness_def using healthHandler_answer [OF True len] by blast
    obtain a where a: "Liveness ?runs = Ret a" "a ?found = ?answer ''isAlive'' isAlive"
      unfolding Liveness_def using healthHandler_answer [OF True len] by blast
    show ?thesis using True r a ready alive by (simp add: Let_def)
  qed
qed

end
