(* ===== verification/Test_Kit.thy ===== *)
theory Test_Kit
  imports Store_Safety
begin

text \<open>
  Given-when-then for deciders (\<open>architecturekittest/fixture.go\<close>): the state a command decides on,
  the decision, and the assertions on it.

  A function of the test kit panics, fails the test with a message, which ends it, or returns:
  \<open>t.Fatalf\<close> is the left of a sum. The checks of the decided events repeat those of
  \<open>Execute\<close>, which the test kit can not call; that they agree is proved below.
\<close>

type_synonym 'a test = "(string + 'a) go"

section \<open>The checks of the decided events\<close>

definition test_isNil :: "rvalue option \<Rightarrow> bool" where
  "test_isNil v =
     (case v of
        None \<Rightarrow> True
      | Some r \<Rightarrow>
          (case r of
             PointerV _ a \<Rightarrow> a = None
           | MapV _ a \<Rightarrow> a = None
           | SliceV _ a _ _ \<Rightarrow> a = None
           | FuncV _ nil \<Rightarrow> nil
           | ChanV _ a \<Rightarrow> a = None
           | _ \<Rightarrow> False))"

fun test_checkNotNil :: "string \<Rightarrow> nat \<Rightarrow> Event list \<Rightarrow> goerr option" where
  "test_checkNotNil subj i [] = None"
| "test_checkNotNil subj i (event # events) =
     (if test_isNil (map_option AppValue event) then
        Some (Errorf [W (Sentinel ErrPermanent),
          Lit ('': refusing to write to '' @ strconv_Quote subj @ '', since event '' @ strconv_Itoa i @
            '' that the decider returned is nil'')])
      else test_checkNotNil subj (i + 1) events)"

text \<open>The two other checks only run on events that are not nil.\<close>

fun test_checkRules :: "'s State \<Rightarrow> string \<Rightarrow> app_event list \<Rightarrow> goerr option" where
  "test_checkRules state subj [] = None"
| "test_checkRules state subj (event # events) =
     (if \<not> HasRule state (EventType event) then
        Some (Errorf [W (Sentinel ErrPermanent),
          Lit ('': refusing to write an event of type '' @ strconv_Quote (EventType event) @ '' to '' @ strconv_Quote subj @
            '', since the state of the decider has no rule for it and could not read the subject any more'')])
      else test_checkRules state subj events)"

fun test_encode :: "string \<Rightarrow> app_event list \<Rightarrow> goerr + string list" where
  "test_encode subj [] = Inr []"
| "test_encode subj (event # events) =
     (case Marshal event of
        Inl err \<Rightarrow>
          Inl (Errorf [W (Sentinel ErrPermanent),
            Lit ('': refusing to write an event of type '' @ strconv_Quote (EventType event) @ '' to '' @ strconv_Quote subj @
              '', since its data can not be encoded as JSON: '' @ err)])
      | Inr data \<Rightarrow>
          (case test_encode subj events of Inl err \<Rightarrow> Inl err | Inr encoded \<Rightarrow> Inr (data # encoded)))"

section \<open>Given and when\<close>

record ('w, 'p, 's) Fixture =
  fixtureDecider :: "('w, 'p command, 's) Decider"
  fixtureState :: 's

text \<open>The two functions differ in the replay and in the messages only.\<close>

definition Given :: "('w, 'p command, 's) Decider \<Rightarrow> app_event list \<Rightarrow> ('w, 'p, 's) Fixture test" where
  "Given decider history =
     (case decider_State decider of
        None \<Rightarrow> Panic ''architecturekittest: Given needs a decider made with NewDecider, not the zero Decider''
      | Some state \<Rightarrow>
          (case Replay state history of
             (_, Some err) \<Rightarrow> Ret (Inl (''given: '' @ error_text err))
           | (current, None) \<Rightarrow> Ret (Inr \<lparr>fixtureDecider = decider, fixtureState = current\<rparr>)))"

definition GivenStored :: "('w, 'p command, 's) Decider \<Rightarrow> event list \<Rightarrow> ('w, 'p, 's) Fixture test" where
  "GivenStored decider history =
     (case decider_State decider of
        None \<Rightarrow> Panic ''architecturekittest: GivenStored needs a decider made with NewDecider, not the zero Decider''
      | Some state \<Rightarrow>
          (case ReplayStored state history of
             (_, Some err) \<Rightarrow> Ret (Inl (''given stored: '' @ error_text err))
           | (current, None) \<Rightarrow> Ret (Inr \<lparr>fixtureDecider = decider, fixtureState = current\<rparr>)))"

record ('p, 's) Decision =
  decisionCmd :: "'p command"
  decisionState :: 's
  decisionEvents :: "Event list"
  decisionEncoded :: "string list"
  decisionErr :: "goerr option"

text \<open>What \<open>When\<close> does with the events the decider returned: the error, if a check refuses them, or their data.\<close>

definition check_events :: "'s State \<Rightarrow> string \<Rightarrow> Event list \<Rightarrow> goerr + string list" where
  "check_events state subj events =
     (case test_checkNotNil subj 0 events of
        Some err \<Rightarrow> Inl err
      | None \<Rightarrow>
          (case test_checkRules state subj (map the events) of
             Some err \<Rightarrow> Inl err
           | None \<Rightarrow> test_encode subj (map the events)))"

text \<open>The decider runs in the world, as in \<open>Execute\<close>. A fixture has a state, since \<open>Given\<close> made it.\<close>

definition When :: "('w, 'p, 's) Fixture \<Rightarrow> 'p command \<Rightarrow> 'w \<Rightarrow> (('p, 's) Decision \<times> 'w) go" where
  "When f cmd w =
     (let decided = \<lparr>decisionCmd = cmd, decisionState = fixtureState f, decisionEvents = [], decisionEncoded = [], decisionErr = None\<rparr> in
      case CheckPreconditions (CommandType cmd) (CommandPreconditions cmd) of
        Some err \<Rightarrow> Ret (decided\<lparr>decisionErr := Some err\<rparr>, w)
      | None \<Rightarrow>
          go_bind (Decide (fixtureDecider f) w cmd (fixtureState f)) (\<lambda>(decision, w').
            case decision of
              Inl err \<Rightarrow> Ret (decided\<lparr>decisionErr := Some err\<rparr>, w')
            | Inr events \<Rightarrow>
                (case check_events (the (decider_State (fixtureDecider f))) (CommandSubject cmd) events of
                   Inl err \<Rightarrow> Ret (decided\<lparr>decisionEvents := events, decisionErr := Some err\<rparr>, w')
                 | Inr encoded \<Rightarrow> Ret (decided\<lparr>decisionEvents := events, decisionEncoded := encoded\<rparr>, w'))))"

section \<open>Then\<close>

text \<open>\<open>describe\<close> gets the events of a decision without an error, none of which is nil.\<close>

definition describe :: "Event list \<Rightarrow> string" where
  "describe events =
     (if events = [] then ''no events''
      else strconv_Itoa (length events) @ '' event(s): ['' @ strings_Join (map (EventType \<circ> the) events) '' '' @ '']'')"

text \<open>The loop over the expected events. An expected event that is nil is dereferenced.\<close>

fun then_events :: "nat \<Rightarrow> (Event \<times> string) list \<Rightarrow> Event list \<Rightarrow> unit test" where
  "then_events i ((got, encoded) # decided) (want # expected) =
     (case want of
        None \<Rightarrow> Panic ''runtime error: invalid memory address or nil pointer dereference''
      | Some w \<Rightarrow>
          if EventType (the got) \<noteq> EventType w then
            Ret (Inl (''event '' @ strconv_Itoa i @ '': got type '' @ strconv_Quote (EventType (the got)) @ '', want '' @ strconv_Quote (EventType w)))
          else
            (case Marshal w of
               Inl err \<Rightarrow> Ret (Inl (''event '' @ strconv_Itoa i @ '': '' @ err))
             | Inr wantJSON \<Rightarrow>
                 if encoded \<noteq> wantJSON then
                   Ret (Inl (''event '' @ strconv_Itoa i @ '': got '' @ encoded @ '', want '' @ wantJSON))
                 else then_events (i + 1) decided expected))"
| "then_events i _ _ = Ret (Inr ())"

definition ThenEvents :: "('p, 's) Decision \<Rightarrow> Event list \<Rightarrow> ('p, 's) Decision test" where
  "ThenEvents d expected =
     (case decisionErr d of
        Some err \<Rightarrow> Ret (Inl (''expected events, got error: '' @ error_text err))
      | None \<Rightarrow>
          if length (decisionEvents d) \<noteq> length expected then
            Ret (Inl (''expected '' @ strconv_Itoa (length expected) @ '' event(s), got '' @ strconv_Itoa (length (decisionEvents d)) @ '': '' @
              describe (decisionEvents d)))
          else go_bind (then_events 0 (zip (decisionEvents d) (decisionEncoded d)) expected) (\<lambda>r.
            Ret (case r of Inl failure \<Rightarrow> Inl failure | Inr _ \<Rightarrow> Inr d)))"

definition ThenNothing :: "('p, 's) Decision \<Rightarrow> ('p, 's) Decision test" where
  "ThenNothing d =
     (case decisionErr d of
        Some err \<Rightarrow> Ret (Inl (''expected nothing to happen, got error: '' @ error_text err))
      | None \<Rightarrow>
          if length (decisionEvents d) > 0 then
            Ret (Inl (''expected nothing to happen, got '' @ describe (decisionEvents d)))
          else Ret (Inr d))"

text \<open>The target is an error that \<open>errors.Is\<close> looks for, a sentinel, with its text.\<close>

definition ThenFailed :: "('p, 's) Decision \<Rightarrow> sentinel \<Rightarrow> ('p, 's) Decision test" where
  "ThenFailed d target =
     (case decisionErr d of
        None \<Rightarrow> Ret (Inl (''expected an error matching '' @ error_text (Sentinel target) @ '', got '' @ describe (decisionEvents d)))
      | Some err \<Rightarrow>
          if \<not> errors_Is err target then
            Ret (Inl (''expected an error matching '' @ error_text (Sentinel target) @ '', got '' @ error_text err))
          else Ret (Inr d))"

definition expecting_events ::
  "string \<Rightarrow> ('p, 's) Decision \<Rightarrow> (app_event \<Rightarrow> bool) option \<Rightarrow> ((app_event \<Rightarrow> bool) \<Rightarrow> string option) \<Rightarrow> ('p, 's) Decision test" where
  "expecting_events function d match failure =
     (case match of
        None \<Rightarrow> Ret (Inl (function @ '' needs a function, not nil''))
      | Some m \<Rightarrow>
          (case decisionErr d of
             Some err \<Rightarrow> Ret (Inl (''expected events, got error: '' @ error_text err))
           | None \<Rightarrow> (case failure m of Some message \<Rightarrow> Ret (Inl message) | None \<Rightarrow> Ret (Inr d))))"

definition ThenSomeEvent :: "('p, 's) Decision \<Rightarrow> (app_event \<Rightarrow> bool) option \<Rightarrow> ('p, 's) Decision test" where
  "ThenSomeEvent d match =
     expecting_events ''ThenSomeEvent'' d match (\<lambda>m.
       if list_ex (m \<circ> the) (decisionEvents d) then None
       else Some (''no event matched, got '' @ describe (decisionEvents d)))"

fun first_index :: "('a \<Rightarrow> bool) \<Rightarrow> nat \<Rightarrow> 'a list \<Rightarrow> nat option" where
  "first_index P i [] = None"
| "first_index P i (x # xs) = (if P x then Some i else first_index P (i + 1) xs)"

definition ThenEveryEvent :: "('p, 's) Decision \<Rightarrow> (app_event \<Rightarrow> bool) option \<Rightarrow> ('p, 's) Decision test" where
  "ThenEveryEvent d match =
     expecting_events ''ThenEveryEvent'' d match (\<lambda>m.
       if decisionEvents d = [] then Some ''expected events, got none''
       else map_option (\<lambda>i. ''event '' @ strconv_Itoa i @ '' did not match: '' @ describe (decisionEvents d))
         (first_index (\<lambda>e. \<not> m (the e)) 0 (decisionEvents d)))"

definition ThenNoEvent :: "('p, 's) Decision \<Rightarrow> (app_event \<Rightarrow> bool) option \<Rightarrow> ('p, 's) Decision test" where
  "ThenNoEvent d match =
     expecting_events ''ThenNoEvent'' d match (\<lambda>m.
       map_option (\<lambda>i. ''event '' @ strconv_Itoa i @ '' matched although it should not: '' @ describe (decisionEvents d))
         (first_index (\<lambda>e. m (the e)) 0 (decisionEvents d)))"

text \<open>The function that \<open>ThenState\<close> calls checks the state, and may fail the test itself.\<close>

definition ThenState :: "('p, 's) Decision \<Rightarrow> ('s \<Rightarrow> unit test) option \<Rightarrow> ('p, 's) Decision test" where
  "ThenState d check =
     (case check of
        None \<Rightarrow> Ret (Inl ''ThenState needs a function, not nil'')
      | Some f \<Rightarrow> go_bind (f (decisionState d)) (\<lambda>r. Ret (case r of Inl failure \<Rightarrow> Inl failure | Inr _ \<Rightarrow> Inr d)))"

section \<open>The test kit decides as Execute does\<close>

lemma test_isNil_eq: "test_isNil v = isNil v"
  by (cases v) (simp_all add: test_isNil_def isNil_def split: rvalue.splits)

lemma test_checkNotNil_eq: "test_checkNotNil subj i events = checkNotNil_loop subj i events"
  by (induction events arbitrary: i) (simp_all add: test_isNil_eq event_isNil_def)

lemma test_checkRules_eq: "test_checkRules state subj events = checkRules state subj events"
  by (induction events) simp_all

definition candidate_of :: "'w Store \<Rightarrow> string \<Rightarrow> Event \<Rightarrow> string \<Rightarrow> EventCandidate" where
  "candidate_of s subj event data =
     \<lparr>CandidateSource = source s, CandidateSubject = subj, CandidateType = EventType (the event), CandidateData = data\<rparr>"

lemma test_encode_candidates:
  "collect (candidateFor s subj) (map the events) =
     (case test_encode subj (map the events) of
        Inl err \<Rightarrow> Inl err | Inr encoded \<Rightarrow> Inr (map2 (candidate_of s subj) events encoded))"
  by (induction events) (auto simp: candidateFor_def candidate_of_def split: sum.splits)

lemma test_encode_length: "test_encode subj events = Inr encoded \<Longrightarrow> length encoded = length events"
  by (induction events arbitrary: encoded) (auto split: sum.splits)

lemma prepare_check_events:
  "prepare s state subj events =
     (case check_events state subj events of
        Inl err \<Rightarrow> Inl err | Inr encoded \<Rightarrow> Inr (map2 (candidate_of s subj) events encoded))"
  unfolding prepare_def check_events_def checkNotNil_def test_checkNotNil_eq test_checkRules_eq
  by (simp add: test_encode_candidates split: option.splits)

text \<open>What \<open>Execute\<close> does in one attempt after a decision as the test kit sees it.\<close>

definition attempt_after ::
  "'w Store \<Rightarrow> precondition list \<Rightarrow> string \<Rightarrow> ('p, 's) Decision \<Rightarrow> ('w, 's) sys \<Rightarrow> (goerr + event list) \<times> ('w, 's) sys" where
  "attempt_after s declared lastEventID d y =
     (let subj = CommandSubject (decisionCmd d) in
      case decisionErr d of
        Some err \<Rightarrow> (Inl err, y)
      | None \<Rightarrow>
          if decisionEvents d = [] then (Inr [], y)
          else
            (case ctx_Err (storeClient s) (world y) of
               Some ended \<Rightarrow> (Inl (contextEnded ended (''writing to '' @ strconv_Quote subj)), y)
             | None \<Rightarrow>
                 (case store_write s (map2 (candidate_of s subj) (decisionEvents d) (decisionEncoded d))
                         (resolvePreconditions subj declared lastEventID) (''writing '' @ strconv_Quote subj) (world y) of
                    (result, w) \<Rightarrow> (result, y\<lparr>world := w\<rparr>))))"

lemma executeOnce_When:
  assumes "decider_State decider = Some state"
    and "checkPreconditions (CommandType cmd) (CommandPreconditions cmd) = Inr declared"
    and "store_fold s (CommandSubject cmd) state y = ((current, lastEventID, None), y1)"
  shows "executeOnce s decider state cmd declared y =
    go_bind (When \<lparr>fixtureDecider = decider, fixtureState = current\<rparr> cmd (world y1))
      (\<lambda>(d, w2). Ret (attempt_after s declared lastEventID d (y1\<lparr>world := w2\<rparr>)))"
proof (cases "Decide decider (world y1) cmd current")
  case (Ret dw)
  obtain decision w2 where dw: "dw = (decision, w2)" by fastforce
  have check: "CheckPreconditions (CommandType cmd) (CommandPreconditions cmd) = None"
    using assms(2) by (simp add: CheckPreconditions_def)
  show ?thesis
  proof (cases decision)
    case (Inl err)
    then show ?thesis
      using Ret dw check assms(3) by (simp add: executeOnce_def When_def attempt_after_def Let_def)
  next
    case (Inr events)
    note d = Ret dw check Inr assms(1,3)
    show ?thesis
    proof (cases "check_events state (CommandSubject cmd) events")
      case (Inl err)
      then have "events \<noteq> []" by (auto simp: check_events_def)
      then show ?thesis
        using d Inl by (simp add: executeOnce_def When_def attempt_after_def prepare_check_events Let_def)
    next
      case (Inr encoded)
      then show ?thesis
        using d by (auto simp: executeOnce_def When_def attempt_after_def prepare_check_events Let_def
            split: option.split prod.split)
    qed
  qed
next
  case (Panic v)
  have "CheckPreconditions (CommandType cmd) (CommandPreconditions cmd) = None"
    using assms(2) by (simp add: CheckPreconditions_def)
  then show ?thesis using Panic assms(3) by (simp add: executeOnce_def When_def Let_def)
qed

text \<open>
  C8. A test of a decider tells what \<open>Execute\<close> does. If the command declares its preconditions wrongly,
  \<open>Execute\<close> returns the error that \<open>When\<close> finds, and touches nothing. Otherwise, on a database that
  behaves as documented, an attempt whose read succeeds behaves as the test that is given the events the
  subject has at some moment during the read: it panics if \<open>When\<close> panics, returns the error of the
  decision if there is one, writes nothing if nothing was decided, and otherwise writes exactly the
  events of the decision, with the data that \<open>ThenEvents\<close> compares, unless the context has ended.
\<close>

theorem When_tells_Execute:
  assumes "decider_State decider = Some state" and "system_ok s hist query state y"
    and "store_fold s (CommandSubject cmd) state y = ((current, lastEventID, None), y1)"
  shows "case checkPreconditions (CommandType cmd) (CommandPreconditions cmd) of
      Inl err \<Rightarrow> Execute s decider cmd y = Ret (Inl err, y)
        \<and> (\<forall>f w. \<exists>d. When f cmd w = Ret (d, w) \<and> decisionErr d = Some err)
    | Inr declared \<Rightarrow>
        (\<exists>snapshot f. prefix (hist (world y)) snapshot \<and> prefix snapshot (hist (world y1))
           \<and> GivenStored decider (subject_events (CommandSubject cmd) snapshot) = Ret (Inr f)
           \<and> executeOnce s decider state cmd declared y =
               go_bind (When f cmd (world y1)) (\<lambda>(d, w2). Ret (attempt_after s declared lastEventID d (y1\<lparr>world := w2\<rparr>))))"
proof (cases "checkPreconditions (CommandType cmd) (CommandPreconditions cmd)")
  case (Inl err)
  then show ?thesis using assms(1) by (simp add: Execute_def When_def CheckPreconditions_def)
next
  case (Inr declared)
  obtain snapshot where snapshot: "prefix (hist (world y)) snapshot" "prefix snapshot (hist (world y1))"
      "ReplayStored state (subject_events (CommandSubject cmd) snapshot) = (current, None)"
    using store_fold_state [OF assms(2,3)] by blast
  then have "GivenStored decider (subject_events (CommandSubject cmd) snapshot)
      = Ret (Inr \<lparr>fixtureDecider = decider, fixtureState = current\<rparr>)"
    using assms(1) by (simp add: GivenStored_def)
  with snapshot(1,2) executeOnce_When [OF assms(1) Inr assms(3)] show ?thesis using Inr by auto
qed

theorem When_tells_Execute_witness:
  "\<exists>snapshot f y1. GivenStored add_decider (subject_events ''/list'' snapshot) = Ret (Inr f)
     \<and> executeOnce mem_store add_decider list_state add_command [OnStateRead] mem_sys =
         go_bind (When f add_command (world y1)) (\<lambda>(d, w2). Ret (attempt_after mem_store [OnStateRead] [] d (y1\<lparr>world := w2\<rparr>)))"
proof -
  have fold: "store_fold mem_store (CommandSubject add_command) list_state mem_sys = (([], [], None), mem_sys)"
    by (simp add: mem_eval)
  have "checkPreconditions (CommandType add_command) (CommandPreconditions add_command) = Inr [OnStateRead]"
    by (simp add: add_command_def checkPreconditions_def precondition_defs)
  moreover have "decider_State add_decider = Some list_state" by (simp add: add_decider_def decider_State_def)
  moreover have "CommandSubject add_command = ''/list''" by (simp add: add_command_def)
  ultimately have "\<exists>snapshot f. GivenStored add_decider (subject_events ''/list'' snapshot) = Ret (Inr f)
      \<and> executeOnce mem_store add_decider list_state add_command [OnStateRead] mem_sys =
          go_bind (When f add_command (world mem_sys))
            (\<lambda>(d, w2). Ret (attempt_after mem_store [OnStateRead] [] d (mem_sys\<lparr>world := w2\<rparr>)))"
    using When_tells_Execute [OF _ mem_system_ok fold, of add_decider] by auto
  then show ?thesis by blast
qed

section \<open>What the assertions accept\<close>

text \<open>A decision as \<open>When\<close> returns it: without an error, the data is that of the events, none of which is nil.\<close>

definition decision_ok :: "('p, 's) Decision \<Rightarrow> bool" where
  "decision_ok d \<longleftrightarrow> decisionErr d = None \<longrightarrow>
     list_all2 (\<lambda>e data. \<exists>a. e = Some a \<and> Marshal a = Inr data) (decisionEvents d) (decisionEncoded d)"

lemma test_encode_Inr: "test_encode subj events = Inr encoded \<Longrightarrow> list_all2 (\<lambda>e data. Marshal e = Inr data) events encoded"
  by (induction events arbitrary: encoded) (auto split: sum.splits)

lemma check_events_Inr:
  assumes "check_events state subj events = Inr encoded"
  shows "list_all2 (\<lambda>e data. \<exists>a. e = Some a \<and> Marshal a = Inr data) events encoded"
proof -
  have nn: "\<forall>e \<in> set events. \<exists>a. e = Some a" and "test_encode subj (map the events) = Inr encoded"
    using assms not_nil_Some
    by (auto simp: check_events_def test_checkNotNil_eq checkNotNil_loop_None split: option.splits)
  from test_encode_Inr [OF this(2)] show ?thesis unfolding list_all2_map1
    by (rule list.rel_mono_strong) (use nn in force)
qed

lemma When_decision_ok: "When f cmd w = Ret (d, w') \<Longrightarrow> decision_ok d"
  using check_events_Inr
  by (auto simp: When_def Let_def go_bind_def decision_ok_def split: option.splits go.splits sum.splits prod.splits)

lemma then_events_passes:
  assumes "list_all2 (\<lambda>e data. \<exists>a. e = Some a \<and> Marshal a = Inr data) decided encoded" and "length decided = length expected"
  shows "then_events i (zip decided encoded) expected = Ret (Inr ()) \<longleftrightarrow>
    list_all2 (\<lambda>e x. \<exists>a. x = Some a \<and> EventType a = EventType (the e) \<and> Marshal a = Marshal (the e)) decided expected"
  using assms
proof (induction decided encoded arbitrary: i expected rule: list_all2_induct)
  case (Cons e es data datas)
  then obtain x xs where "expected = x # xs" by (cases expected) auto
  then show ?case using Cons by (cases x) (auto split: sum.splits)
qed simp

lemma first_index_None: "first_index P i xs = None \<longleftrightarrow> (\<forall>x \<in> set xs. \<not> P x)"
  by (induction xs arbitrary: i) auto

lemma first_index_Some: "first_index P i xs = Some j \<Longrightarrow> \<exists>x \<in> set xs. P x"
  by (induction xs arbitrary: i) (auto split: if_splits)

lemma ThenEvents_exact:
  assumes "decision_ok d"
  shows "ThenEvents d expected = Ret (Inr d) \<longleftrightarrow> decisionErr d = None
    \<and> list_all2 (\<lambda>e x. \<exists>a. x = Some a \<and> EventType a = EventType (the e) \<and> Marshal a = Marshal (the e)) (decisionEvents d) expected"
proof -
  let ?same = "\<lambda>e x. \<exists>a. x = Some a \<and> EventType a = EventType (the e) \<and> Marshal a = Marshal (the e)"
  have "then_events 0 (zip (decisionEvents d) (decisionEncoded d)) expected = Ret (Inr ()) \<longleftrightarrow> list_all2 ?same (decisionEvents d) expected"
    if "decisionErr d = None" "length (decisionEvents d) = length expected"
    using then_events_passes that assms by (simp add: decision_ok_def)
  then show ?thesis
    by (auto simp: ThenEvents_def go_bind_def dest: list_all2_lengthD split: option.splits go.splits sum.splits)
qed

lemmas assertion_defs =
  ThenNothing_def ThenFailed_def ThenSomeEvent_def ThenEveryEvent_def ThenNoEvent_def expecting_events_def

text \<open>
  Which assertions a decision passes, for every decision that \<open>When\<close> returns. \<open>ThenEvents\<close> passes
  exactly for the same events in the same order, judged by their types and their data, \<open>ThenNothing\<close>
  exactly for neither events nor an error, and \<open>ThenFailed\<close> exactly for an error that matches. The
  others need a function and a decision without an error, and then pass as the function says,
  \<open>ThenEveryEvent\<close> only if there are events at all. In particular, no decision passes both an
  assertion that expects events and \<open>ThenFailed\<close>.
\<close>

theorem assertions_exact:
  assumes "When f cmd w = Ret (d, w')"
  shows "(ThenEvents d expected = Ret (Inr d) \<longleftrightarrow> decisionErr d = None
      \<and> list_all2 (\<lambda>e x. \<exists>a. x = Some a \<and> EventType a = EventType (the e) \<and> Marshal a = Marshal (the e)) (decisionEvents d) expected)
    \<and> (ThenNothing d = Ret (Inr d) \<longleftrightarrow> decisionErr d = None \<and> decisionEvents d = [])
    \<and> (ThenFailed d target = Ret (Inr d) \<longleftrightarrow> (\<exists>err. decisionErr d = Some err \<and> errors_Is err target))
    \<and> (ThenSomeEvent d match = Ret (Inr d) \<longleftrightarrow>
      (\<exists>m. match = Some m \<and> decisionErr d = None \<and> (\<exists>e \<in> set (decisionEvents d). m (the e))))
    \<and> (ThenEveryEvent d match = Ret (Inr d) \<longleftrightarrow>
      (\<exists>m. match = Some m \<and> decisionErr d = None \<and> decisionEvents d \<noteq> [] \<and> (\<forall>e \<in> set (decisionEvents d). m (the e))))
    \<and> (ThenNoEvent d match = Ret (Inr d) \<longleftrightarrow>
      (\<exists>m. match = Some m \<and> decisionErr d = None \<and> (\<forall>e \<in> set (decisionEvents d). \<not> m (the e))))"
  using ThenEvents_exact [OF When_decision_ok [OF assms]]
  by (intro conjI)
    (auto simp: assertion_defs list_ex_iff first_index_None dest: first_index_Some split: option.splits if_splits)

theorem assertions_exact_witness:
  "\<exists>d w'. When \<lparr>fixtureDecider = add_decider, fixtureState = []\<rparr> add_command [] = Ret (d, w')
     \<and> ThenNothing d \<noteq> Ret (Inr d) \<and> ThenFailed d ErrDomain \<noteq> Ret (Inr d)
     \<and> ThenSomeEvent d (Some (\<lambda>e. EventType e = ''added'')) = Ret (Inr d)"
proof -
  let ?f = "\<lparr>fixtureDecider = add_decider, fixtureState = []\<rparr>"
  obtain d w' where d: "When ?f add_command [] = Ret (d, w')" "decisionErr d = None"
      "map (EventType \<circ> the) (decisionEvents d) = [''added'']"
    by (simp add: When_def CheckPreconditions_def checkPreconditions_def add_command_def precondition_defs add_decider_def
        Decide_def decider_State_def check_events_def test_isNil_def mem_eval HasRule_def)
  from assertions_exact [OF d(1)] show ?thesis using d by auto
qed

end
