(* ===== verification/Test_Preconditions.thy ===== *)
theory Test_Preconditions
  imports Test_Kit
begin

text \<open>
  Preconditions in tests (\<open>architecturekittest/precondition.go\<close>, and \<open>ThenPreconditions\<close> of
  \<open>fixture.go\<close>): what a command declared, in a shape a test can compare, recovered from the methods
  that the client's preconditions expose and by comparing them with ones built anew.
\<close>

section \<open>Descriptions\<close>

record Precondition =
  PSubject :: string
  PPristine :: bool
  PPopulated :: bool
  PEventID :: string
  PRecursive :: bool
  PQuery :: string
  POnStateRead :: bool
  PUnconditional :: bool

definition empty_Precondition :: Precondition where
  "empty_Precondition =
     \<lparr>PSubject = [], PPristine = False, PPopulated = False, PEventID = [], PRecursive = False, PQuery = [],
      POnStateRead = False, PUnconditional = False\<rparr>"

text \<open>The methods that the interfaces of the type switch ask for, which are \<open>None\<close> for a type without them.\<close>

fun db_Subject :: "db_precondition \<Rightarrow> string option" where
  "db_Subject (IsSubjectPristine subj _) = Some subj"
| "db_Subject (IsSubjectPopulated subj _) = Some subj"
| "db_Subject (IsSubjectOnEventID subj _ _) = Some subj"
| "db_Subject (IsEventQLQueryTrue _) = None"

fun db_EventID :: "db_precondition \<Rightarrow> string option" where
  "db_EventID (IsSubjectOnEventID _ eventID _) = Some eventID"
| "db_EventID _ = None"

fun db_Query :: "db_precondition \<Rightarrow> string option" where
  "db_Query (IsEventQLQueryTrue query) = Some query"
| "db_Query _ = None"

definition recursive_options :: precondition_options where
  "recursive_options = Some True"

text \<open>\<open>reflect.DeepEqual\<close> of two preconditions of the client, which are plain structs.\<close>

definition pre_isEqual :: "db_precondition \<Rightarrow> db_precondition \<Rightarrow> bool" where
  "pre_isEqual declared built \<longleftrightarrow> declared = built"

definition isBuiltBy ::
  "db_precondition \<Rightarrow> (string \<Rightarrow> precondition_options \<Rightarrow> db_precondition) \<Rightarrow> string \<Rightarrow> bool \<times> bool" where
  "isBuiltBy declared build subj =
     (if pre_isEqual declared (build subj recursive_options) then (True, True)
      else (pre_isEqual declared (build subj None) \<or> pre_isEqual declared (build subj (Some False)), False))"

text \<open>The inner type switch. A precondition without any of the methods adds nothing.\<close>

definition describe_database :: "db_precondition \<Rightarrow> Precondition list" where
  "describe_database database =
     (case (db_Subject database, db_EventID database) of
        (Some subj, Some eventID) \<Rightarrow>
          [empty_Precondition\<lparr>PSubject := subj, PEventID := eventID,
             PRecursive := pre_isEqual database (IsSubjectOnEventID subj eventID recursive_options)\<rparr>]
      | (subject, _) \<Rightarrow>
          (case db_Query database of
             Some query \<Rightarrow> [empty_Precondition\<lparr>PQuery := query\<rparr>]
           | None \<Rightarrow>
               (case subject of
                  Some subj \<Rightarrow>
                    (let (isPristine, isRecursivelyPristine) = isBuiltBy database IsSubjectPristine subj;
                         (isPopulated, isRecursivelyPopulated) = isBuiltBy database IsSubjectPopulated subj in
                     [empty_Precondition\<lparr>PSubject := subj, PPristine := isPristine, PPopulated := isPopulated,
                        PRecursive := isRecursivelyPristine \<or> isRecursivelyPopulated\<rparr>])
                | None \<Rightarrow> [])))"

definition describe_declared :: "precondition \<Rightarrow> Precondition list" where
  "describe_declared p =
     (if IsOnStateRead p then [empty_Precondition\<lparr>POnStateRead := True\<rparr>]
      else if IsUnconditional p then [empty_Precondition\<lparr>PUnconditional := True\<rparr>]
      else
        (case Database p of
           (Some database, True) \<Rightarrow> describe_database database
         | _ \<Rightarrow> [empty_Precondition]))"

definition PreconditionsOf :: "'p command \<Rightarrow> Precondition list" where
  "PreconditionsOf cmd = concat (map describe_declared (CommandPreconditions cmd))"

text \<open>The functions that describe what the functions of the same names in \<open>architecturekit\<close> declare.\<close>

definition test_OnPristineSubject :: "string \<Rightarrow> Precondition" where
  "test_OnPristineSubject subj = empty_Precondition\<lparr>PSubject := subj, PPristine := True\<rparr>"

definition test_OnPopulatedSubject :: "string \<Rightarrow> Precondition" where
  "test_OnPopulatedSubject subj = empty_Precondition\<lparr>PSubject := subj, PPopulated := True\<rparr>"

definition test_OnEventID :: "string \<Rightarrow> string \<Rightarrow> Precondition" where
  "test_OnEventID subj eventID = empty_Precondition\<lparr>PSubject := subj, PEventID := eventID\<rparr>"

definition test_OnQuery :: "string \<Rightarrow> Precondition" where
  "test_OnQuery query = empty_Precondition\<lparr>PQuery := query\<rparr>"

definition test_OnStateRead :: Precondition where
  "test_OnStateRead = empty_Precondition\<lparr>POnStateRead := True\<rparr>"

definition test_Unconditionally :: Precondition where
  "test_Unconditionally = empty_Precondition\<lparr>PUnconditional := True\<rparr>"

section \<open>Comparing\<close>

text \<open>The fields that are set, in their order, with \<open>%#v\<close> of a string and of true.\<close>

definition describePrecondition :: "Precondition \<Rightarrow> string" where
  "describePrecondition p =
     (let text = (\<lambda>name v. if v = [] then [] else [name @ '': '' @ strconv_Quote v]);
          flag = (\<lambda>name b. if b then [name @ '': true''] else []) in
      ''{'' @ strings_Join
        (text ''Subject'' (PSubject p) @ flag ''Pristine'' (PPristine p) @ flag ''Populated'' (PPopulated p) @
         text ''EventID'' (PEventID p) @ flag ''Recursive'' (PRecursive p) @ text ''Query'' (PQuery p) @
         flag ''OnStateRead'' (POnStateRead p) @ flag ''Unconditional'' (PUnconditional p)) '', '' @ ''}'')"

definition describePreconditions :: "Precondition list \<Rightarrow> string" where
  "describePreconditions ps = ''['' @ strings_Join (map describePrecondition ps) '', '' @ '']''"

fun then_preconditions :: "nat \<Rightarrow> Precondition list \<Rightarrow> Precondition list \<Rightarrow> string option" where
  "then_preconditions i (got # declared) (want # expected) =
     (if got \<noteq> want then
        Some (''precondition '' @ strconv_Itoa i @ '': got '' @ describePrecondition got @ '', want '' @ describePrecondition want)
      else then_preconditions (i + 1) declared expected)"
| "then_preconditions i _ _ = None"

definition ThenPreconditions :: "('p, 's) Decision \<Rightarrow> Precondition list \<Rightarrow> ('p, 's) Decision test" where
  "ThenPreconditions d expected =
     (let declared = PreconditionsOf (decisionCmd d) in
      if length declared \<noteq> length expected then
        Ret (Inl (''expected '' @ strconv_Itoa (length expected) @ '' precondition(s), got '' @ strconv_Itoa (length declared) @ '': '' @
          describePreconditions declared))
      else
        (case then_preconditions 0 declared expected of
           Some failure \<Rightarrow> Ret (Inl failure)
         | None \<Rightarrow> Ret (Inr d)))"

section \<open>Descriptions tell preconditions apart\<close>

lemma describe_database_simps [simp]:
  "describe_database (IsSubjectPristine subj opts) =
     [empty_Precondition\<lparr>PSubject := subj, PPristine := True, PRecursive := opts = Some True\<rparr>]"
  "describe_database (IsSubjectPopulated subj opts) =
     [empty_Precondition\<lparr>PSubject := subj, PPopulated := True, PRecursive := opts = Some True\<rparr>]"
  "describe_database (IsSubjectOnEventID subj eventID opts) =
     [empty_Precondition\<lparr>PSubject := subj, PEventID := eventID, PRecursive := opts = Some True\<rparr>]"
  "describe_database (IsEventQLQueryTrue query) = [empty_Precondition\<lparr>PQuery := query\<rparr>]"
  by (cases opts; auto simp: describe_database_def isBuiltBy_def pre_isEqual_def recursive_options_def empty_Precondition_def)+

text \<open>Options that leave a check to the subject alone mean the same as none.\<close>

fun same_check :: "db_precondition \<Rightarrow> db_precondition \<Rightarrow> bool" where
  "same_check (IsSubjectPristine s o1) (IsSubjectPristine t o2) \<longleftrightarrow> s = t \<and> (o1 = Some True \<longleftrightarrow> o2 = Some True)"
| "same_check (IsSubjectPopulated s o1) (IsSubjectPopulated t o2) \<longleftrightarrow> s = t \<and> (o1 = Some True \<longleftrightarrow> o2 = Some True)"
| "same_check (IsSubjectOnEventID s e o1) (IsSubjectOnEventID t f o2) \<longleftrightarrow> s = t \<and> e = f \<and> (o1 = Some True \<longleftrightarrow> o2 = Some True)"
| "same_check (IsEventQLQueryTrue q) (IsEventQLQueryTrue r) \<longleftrightarrow> q = r"
| "same_check _ _ \<longleftrightarrow> False"

lemma same_check_holds: "same_check p q \<Longrightarrow> pre_holds query es p = pre_holds query es q"
  by (cases p; cases q) (auto simp: checked_events_def)

lemma describe_database_one: "\<exists>x. describe_database p = [x]"
  by (cases p) simp_all

lemma describe_database_same:
  "describe_database p \<noteq> [empty_Precondition] \<Longrightarrow> describe_database p = describe_database q \<longleftrightarrow> same_check p q"
  by (cases p; cases q) (auto simp: empty_Precondition_def)

lemma describe_declared_kind:
  "kind p = onStateReadKind \<Longrightarrow> describe_declared p = [test_OnStateRead]"
  "kind p = unconditionallyKind \<Longrightarrow> describe_declared p = [test_Unconditionally]"
  "kind p = zeroKind \<Longrightarrow> describe_declared p = [empty_Precondition]"
  "kind p = onEventIDKind \<Longrightarrow> describe_declared p = describe_database (IsSubjectOnEventID (pSubject p) (pEventID p) None)"
  "kind p = requiredKind \<Longrightarrow>
     describe_declared p = (case pDatabase p of None \<Rightarrow> [empty_Precondition] | Some db \<Rightarrow> describe_database db)"
  by (simp_all add: describe_declared_def IsOnStateRead_def IsUnconditional_def Database_def test_OnStateRead_def
      test_Unconditionally_def split: option.split)

lemma describe_declared_one: "\<exists>x. describe_declared p = [x]"
  using describe_database_one by (cases "kind p") (auto simp: describe_declared_kind split: option.split)

text \<open>The check that the database makes for a precondition, if it makes one on its own.\<close>

definition check_of :: "precondition \<Rightarrow> db_precondition option" where
  "check_of p = (if kind p \<in> {requiredKind, onEventIDKind} then fst (Database p) else None)"

lemma describe_declared_cases:
  assumes "describe_declared p \<noteq> [empty_Precondition]"
  obtains (state) "kind p = onStateReadKind" "describe_declared p = [test_OnStateRead]" "check_of p = None"
  | (none) "kind p = unconditionallyKind" "describe_declared p = [test_Unconditionally]" "check_of p = None"
  | (check) db where "kind p \<in> {requiredKind, onEventIDKind}" "check_of p = Some db" "describe_declared p = describe_database db"
proof (cases "kind p")
  case requiredKind
  then obtain db where "pDatabase p = Some db" using assms by (cases "pDatabase p") (simp_all add: describe_declared_kind)
  then show ?thesis using requiredKind by (intro check) (simp_all add: describe_declared_kind check_of_def Database_def)
next
  case onEventIDKind
  then show ?thesis using check [of "IsSubjectOnEventID (pSubject p) (pEventID p) None"]
    by (simp add: describe_declared_kind check_of_def Database_def)
qed (use assms in \<open>auto simp: describe_declared_kind check_of_def intro: state none\<close>)

lemma describe_database_not_state: "describe_database db \<noteq> [test_OnStateRead]" "describe_database db \<noteq> [test_Unconditionally]"
  by (cases db; simp add: test_OnStateRead_def test_Unconditionally_def empty_Precondition_def)+

lemma test_OnStateRead_not_Unconditionally: "test_OnStateRead \<noteq> test_Unconditionally"
  by (simp add: test_OnStateRead_def test_Unconditionally_def empty_Precondition_def)

lemma describe_declared_same:
  assumes "describe_declared p \<noteq> [empty_Precondition]" and "describe_declared p = describe_declared q"
  shows "kind p \<in> {requiredKind, onEventIDKind} \<and> kind q \<in> {requiredKind, onEventIDKind} \<and>
      (\<exists>db db'. check_of p = Some db \<and> check_of q = Some db' \<and> same_check db db')
    \<or> kind p = kind q \<and> kind p \<in> {onStateReadKind, unconditionallyKind}"
proof -
  have q: "describe_declared q \<noteq> [empty_Precondition]" using assms by simp
  note no = describe_database_not_state describe_database_not_state [THEN not_sym]
    test_OnStateRead_not_Unconditionally test_OnStateRead_not_Unconditionally [THEN not_sym]
  show ?thesis
  proof (cases rule: describe_declared_cases [OF assms(1)])
    case 1 then show ?thesis using assms no by (cases rule: describe_declared_cases [OF q]) simp_all
  next
    case 2 then show ?thesis using assms no by (cases rule: describe_declared_cases [OF q]) simp_all
  next
    case p: (3 db)
    show ?thesis
    proof (cases rule: describe_declared_cases [OF q])
      case 1 then show ?thesis using p assms no by simp
    next
      case 2 then show ?thesis using p assms no by simp
    next
      case (3 db')
      then have "same_check db db'" using describe_database_same [of db db'] p assms by simp
      then show ?thesis using p 3 by blast
    qed
  qed
qed

lemma same_check_refl: "same_check db db"
  by (cases db) simp_all

text \<open>What the database is given for two preconditions of the same description is the same check.\<close>

lemma resolve_one_same:
  assumes "describe_declared p \<noteq> [empty_Precondition]" and "describe_declared p = describe_declared q"
  shows "list_all2 (rel_option same_check) (resolve_one subj lid p) (resolve_one subj lid q)"
  using describe_declared_same [OF assms]
proof
  assume "kind p \<in> {requiredKind, onEventIDKind} \<and> kind q \<in> {requiredKind, onEventIDKind} \<and>
    (\<exists>db db'. check_of p = Some db \<and> check_of q = Some db' \<and> same_check db db')"
  then obtain db db' where k: "kind p \<in> {requiredKind, onEventIDKind}" "kind q \<in> {requiredKind, onEventIDKind}"
    and c: "check_of p = Some db" "check_of q = Some db'" "same_check db db'" by blast
  then have "resolve_one subj lid p = [Some db]" "resolve_one subj lid q = [Some db']"
    by (auto simp: resolve_one_def check_of_def)
  then show ?thesis using c by simp
next
  assume "kind p = kind q \<and> kind p \<in> {onStateReadKind, unconditionallyKind}"
  then show ?thesis by (auto simp: resolve_one_def same_check_refl)
qed

lemma then_preconditions_None:
  "length declared = length expected \<Longrightarrow> then_preconditions i declared expected = None \<longleftrightarrow> declared = expected"
  by (induction i declared expected rule: then_preconditions.induct) auto

lemma PreconditionsOf_map: "PreconditionsOf cmd = map (hd \<circ> describe_declared) (CommandPreconditions cmd)"
proof -
  have "concat (map describe_declared ps) = map (hd \<circ> describe_declared) ps" for ps
    by (rule concat_singletons) (use describe_declared_one in blast)
  then show ?thesis by (simp add: PreconditionsOf_def)
qed

text \<open>
  \<open>ThenPreconditions\<close> passes exactly if the command declares what is described, one description per
  precondition. So if a test describes another command, whose preconditions are all described, the two
  commands make the database check the same, whatever subject and revision \<open>Execute\<close> resolves
  \<open>OnStateRead\<close> with: no recursive check passes for one of the subject alone, and no pristine check for a
  populated one.
\<close>

theorem ThenPreconditions_exact:
  "(ThenPreconditions d expected = Ret (Inr d) \<longleftrightarrow> PreconditionsOf (decisionCmd d) = expected)
   \<and> length (PreconditionsOf (decisionCmd d)) = length (CommandPreconditions (decisionCmd d))
   \<and> (expected = PreconditionsOf cmd \<and> empty_Precondition \<notin> set expected
        \<and> ThenPreconditions d expected = Ret (Inr d) \<longrightarrow>
      list_all2 (rel_option same_check) (resolvePreconditions subj (CommandPreconditions (decisionCmd d)) lid)
        (resolvePreconditions subj (CommandPreconditions cmd) lid))"
proof -
  have exact: "ThenPreconditions d expected = Ret (Inr d) \<longleftrightarrow> PreconditionsOf (decisionCmd d) = expected"
    using then_preconditions_None [of "PreconditionsOf (decisionCmd d)" expected 0]
    by (auto simp: ThenPreconditions_def Let_def split: option.splits)
  have same: "list_all2 (rel_option same_check) (resolvePreconditions subj ps lid) (resolvePreconditions subj qs lid)"
    if "map (hd \<circ> describe_declared) ps = map (hd \<circ> describe_declared) qs" "empty_Precondition \<notin> set (map (hd \<circ> describe_declared) ps)"
    for ps qs
  proof -
    have "list_all2 (\<lambda>p q. list_all2 (rel_option same_check) (resolve_one subj lid p) (resolve_one subj lid q)) ps qs"
      using that
    proof (induction ps qs rule: list_induct2')
      case (4 p ps q qs)
      obtain x y where "describe_declared p = [x]" "describe_declared q = [y]" using describe_declared_one by metis
      then have "describe_declared p \<noteq> [empty_Precondition]" "describe_declared p = describe_declared q" using 4 by auto
      then show ?case using 4 resolve_one_same by simp
    qed simp_all
    then have "list_all2 (list_all2 (rel_option same_check)) (map (resolve_one subj lid) ps) (map (resolve_one subj lid) qs)"
      by (simp add: list_all2_map1 list_all2_map2)
    then show ?thesis unfolding resolvePreconditions_def by (rule concat_transfer [THEN rel_funD])
  qed
  have "list_all2 (rel_option same_check) (resolvePreconditions subj (CommandPreconditions (decisionCmd d)) lid)
      (resolvePreconditions subj (CommandPreconditions cmd) lid)"
    if "PreconditionsOf (decisionCmd d) = PreconditionsOf cmd" "empty_Precondition \<notin> set (PreconditionsOf cmd)"
    using same that unfolding PreconditionsOf_map by metis
  moreover have "length (PreconditionsOf (decisionCmd d)) = length (CommandPreconditions (decisionCmd d))"
    by (simp add: PreconditionsOf_map)
  ultimately show ?thesis using exact by auto
qed

theorem ThenPreconditions_exact_witness:
  "let cmd = add_command\<lparr>CommandPreconditions := [Require (Some (IsSubjectPristine ''/list'' (Some False))), OnStateRead]\<rparr>;
       d = \<lparr>decisionCmd = cmd, decisionState = (), decisionEvents = [], decisionEncoded = [], decisionErr = None\<rparr>;
       other = add_command\<lparr>CommandPreconditions := [OnPristineSubject ''/list'', OnStateRead]\<rparr> in
   ThenPreconditions d [test_OnPristineSubject ''/list'', test_OnStateRead] = Ret (Inr d)
   \<and> list_all2 (rel_option same_check) (resolvePreconditions ''/list'' (CommandPreconditions cmd) ''7'')
       (resolvePreconditions ''/list'' (CommandPreconditions other) ''7'')"
proof -
  let ?cmd = "add_command\<lparr>CommandPreconditions := [Require (Some (IsSubjectPristine ''/list'' (Some False))), OnStateRead]\<rparr>"
  let ?d = "\<lparr>decisionCmd = ?cmd, decisionState = (), decisionEvents = [], decisionEncoded = [], decisionErr = None\<rparr>"
  let ?other = "add_command\<lparr>CommandPreconditions := [OnPristineSubject ''/list'', OnStateRead]\<rparr>"
  have pre: "PreconditionsOf ?cmd = [test_OnPristineSubject ''/list'', test_OnStateRead]"
    "PreconditionsOf ?other = [test_OnPristineSubject ''/list'', test_OnStateRead]"
    by (simp_all add: PreconditionsOf_def precondition_defs describe_declared_kind test_OnPristineSubject_def empty_Precondition_def)
  have "empty_Precondition \<notin> set (PreconditionsOf ?other)"
    unfolding pre by (simp add: test_OnPristineSubject_def test_OnStateRead_def empty_Precondition_def)
  then show ?thesis
    using ThenPreconditions_exact [of ?d "PreconditionsOf ?other" ?other "''/list''" "''7''"] pre by (simp add: Let_def)
qed

end
