(* ===== verification/Test_Projection.thy ===== *)
theory Test_Projection
  imports Test_Kit Projection_Safety
begin

text \<open>
  Driving projections in tests (\<open>architecturekittest/projection.go\<close>): events in the shape the
  database hands them back, handing them to a projection with and without a transaction, and the
  expectations on views and modes.
\<close>

section \<open>Stored events\<close>

text \<open>The zero value of \<open>time.Time\<close>, the start of the year 1, in nanoseconds since 1970.\<close>

definition zero_time :: int where
  "zero_time = - 62135596800 * 10 ^ 9"

definition minute :: int where
  "minute = 60 * 10 ^ 9"

definition StoredEvent :: "string \<Rightarrow> string \<Rightarrow> app_event \<Rightarrow> event go" where
  "StoredEvent subj eventID event =
     (case Marshal event of
        Inl err \<Rightarrow> Panic (''architecturekittest: cannot marshal '' @ strconv_Quote (EventType event) @ '': '' @ err)
      | Inr data \<Rightarrow>
          Ret \<lparr>Source = ''https://architecturekit.test'', Subject = subj, Type = EventType event, ID = eventID, Time = zero_time,
               TraceParent = None, TraceState = None, Data = data\<rparr>)"

fun stored_from :: "string \<Rightarrow> nat \<Rightarrow> app_event list \<Rightarrow> event list go" where
  "stored_from subj i [] = Ret []"
| "stored_from subj i (event # events) =
     go_bind (StoredEvent subj (strconv_Itoa i) event) (\<lambda>stored.
       go_bind (stored_from subj (i + 1) events) (\<lambda>rest. Ret (stored # rest)))"

definition StoredEvents :: "string \<Rightarrow> app_event list \<Rightarrow> event list go" where
  "StoredEvents subj events = stored_from subj 0 events"

fun stored_at :: "string \<Rightarrow> int \<Rightarrow> int \<Rightarrow> int \<Rightarrow> app_event list \<Rightarrow> event list go" where
  "stored_at subj firstID t i [] = Ret []"
| "stored_at subj firstID t i (event # events) =
     go_bind (StoredEvent subj (show_int (firstID + i)) event) (\<lambda>stored.
       go_bind (stored_at subj firstID t (i + 1) events) (\<lambda>rest. Ret (stored\<lparr>Time := t + i * minute\<rparr> # rest)))"

definition StoredEventsAt :: "string \<Rightarrow> int \<Rightarrow> int \<Rightarrow> app_event list \<Rightarrow> event list go" where
  "StoredEventsAt subj firstID t events = stored_at subj firstID t 0 events"

section \<open>Driving a projection\<close>

text \<open>A function of the test kit that acts on the world; what it returns says whether the test failed.\<close>

type_synonym ('w, 'a) test_act = "('w, string + 'a) act"

text \<open>\<open>applying\<close>: a panic becomes an error that holds its value and the stack.\<close>

definition applying :: "string \<Rightarrow> goerr option go \<Rightarrow> goerr option" where
  "applying stack r =
     (case r of
        Ret err \<Rightarrow> err
      | Panic v \<Rightarrow> Some (Errorf [Lit (''panic: '' @ v @ [CHR 0x0A, CHR 0x0A] @ stack)]))"

fun project_loop :: "string \<Rightarrow> 'w Projection \<Rightarrow> event list \<Rightarrow> ('w, unit) test_act" where
  "project_loop stack p [] w = (Ret (Inr ()), w)"
| "project_loop stack p (event # events) w =
     (case Apply p event w of
        (r, w') \<Rightarrow>
          (case applying stack r of
             Some err \<Rightarrow> (Ret (Inl (''applying event '' @ ID event @ '': '' @ error_text err)), w')
           | None \<Rightarrow> project_loop stack p events w'))"

definition Project :: "string \<Rightarrow> 'w Projection \<Rightarrow> event list \<Rightarrow> ('w, unit) test_act" where
  "Project stack p events w =
     (if AsTransactional p \<noteq> None then
        (Ret (Inl (''projection '' @ GoTypeName p @ '' is transactional, use ProjectTransactional'')), w)
      else project_loop stack p events w)"

text \<open>A failing rollback is reported alongside the failure; a rollback that panics ends the test.\<close>

fun tx_loop :: "string \<Rightarrow> 'w Tx \<Rightarrow> event list \<Rightarrow> ('w, unit) test_act" where
  "tx_loop stack tx [] w = (Ret (Inr ()), w)"
| "tx_loop stack tx (event # events) w =
     (case TxApply tx event w of
        (r, w') \<Rightarrow>
          (case applying stack r of
             Some err \<Rightarrow>
               (case TxRollback tx w' of
                  (Panic v, w'') \<Rightarrow> (Panic v, w'')
                | (Ret rollback, w'') \<Rightarrow>
                    (Ret (Inl (''applying event '' @ ID event @ '': '' @
                       error_text (Joined (case rollback of None \<Rightarrow> [err] | Some e \<Rightarrow> [err, e])))), w''))
           | None \<Rightarrow> tx_loop stack tx events w'))"

definition ProjectTransactional :: "string \<Rightarrow> 'w Transactional \<Rightarrow> event list \<Rightarrow> ('w, unit) test_act" where
  "ProjectTransactional stack t events w =
     (if events = [] then (Ret (Inr ()), w)
      else
        (case Begin t w of
           (Panic v, w') \<Rightarrow> (Panic v, w')
         | (Ret (Inl err), w') \<Rightarrow> (Ret (Inl (''beginning a transaction: '' @ error_text err)), w')
         | (Ret (Inr tx), w') \<Rightarrow>
             (case tx_loop stack tx events w' of
                (Ret (Inr _), w'') \<Rightarrow>
                  (case TxCommit tx (ID (last events)) w'' of
                     (Panic v, w3) \<Rightarrow> (Panic v, w3)
                   | (Ret (Some err), w3) \<Rightarrow> (Ret (Inl (''committing the transaction: '' @ error_text err)), w3)
                   | (Ret None, w3) \<Rightarrow> (Ret (Inr ()), w3))
              | (r, w'') \<Rightarrow> (r, w''))))"

section \<open>Expectations\<close>

text \<open>What a view yields is a list of items and errors, of which \<open>ItemsOf\<close> reads up to the first error.\<close>

fun items_loop :: "'i list \<Rightarrow> (goerr + 'i) list \<Rightarrow> 'i list test" where
  "items_loop items [] = Ret (Inr items)"
| "items_loop items (Inl err # yielded) =
     Ret (Inl (''reading the view failed after '' @ strconv_Itoa (length items) @ '' item(s): '' @ error_text err))"
| "items_loop items (Inr x # yielded) = items_loop (items @ [x]) yielded"

definition ItemsOf :: "(goerr + 'i) list \<Rightarrow> 'i list test" where
  "ItemsOf yielded = items_loop [] yielded"

fun mode_text :: "Mode \<Rightarrow> string" where
  "mode_text ModeRebuild = ''rebuild''"
| "mode_text ModeResumable = ''resumable''"

definition ExpectMode :: "'w Projection \<Rightarrow> Mode \<Rightarrow> unit test" where
  "ExpectMode p want =
     (if ModeOf p \<noteq> want then
        Ret (Inl (''projection '' @ GoTypeName p @ '' runs in '' @ strconv_Quote (mode_text (ModeOf p)) @ '' mode, want '' @
          strconv_Quote (mode_text want)))
      else Ret (Inr ()))"

text \<open>
  \<open>deepEqual\<close> is \<open>reflect.DeepEqual\<close> on the items and \<open>show\<close>, \<open>showAll\<close> print them; the items are values of
  a type of the application.
\<close>

fun expect_loop :: "('i \<Rightarrow> 'i \<Rightarrow> bool) \<Rightarrow> ('i \<Rightarrow> string) \<Rightarrow> nat \<Rightarrow> 'i list \<Rightarrow> 'i list \<Rightarrow> unit test" where
  "expect_loop deepEqual show i (got # items) (want # expected) =
     (if \<not> deepEqual got want then
        Ret (Inl (''item '' @ strconv_Itoa i @ '': got '' @ show got @ '', want '' @ show want))
      else expect_loop deepEqual show (i + 1) items expected)"
| "expect_loop deepEqual show i _ _ = Ret (Inr ())"

definition ExpectItems ::
  "('i \<Rightarrow> 'i \<Rightarrow> bool) \<Rightarrow> ('i \<Rightarrow> string) \<Rightarrow> ('i list \<Rightarrow> string) \<Rightarrow> (goerr + 'i) list \<Rightarrow> 'i list \<Rightarrow> unit test" where
  "ExpectItems deepEqual show showAll yielded expected =
     go_bind (ItemsOf yielded) (\<lambda>r.
       case r of
         Inl failure \<Rightarrow> Ret (Inl failure)
       | Inr items \<Rightarrow>
           if length items \<noteq> length expected then
             Ret (Inl (''expected '' @ strconv_Itoa (length expected) @ '' item(s), got '' @ strconv_Itoa (length items) @ '': '' @ showAll items))
           else expect_loop deepEqual show 0 items expected)"

section \<open>Stored events are what the database would hold\<close>

lemma StoredEvent_Ret:
  "StoredEvent subj eventID event = Ret e \<Longrightarrow> stored_as event e \<and> Subject e = subj \<and> ID e = eventID"
  by (auto simp: StoredEvent_def stored_as_def split: sum.splits)

lemma stored_from_Ret:
  "stored_from subj i events = Ret stored \<Longrightarrow>
     list_all2 stored_as events stored \<and> map ID stored = map strconv_Itoa [i..<i + length events] \<and> (\<forall>e \<in> set stored. Subject e = subj)"
proof (induction subj i events arbitrary: stored rule: stored_from.induct)
  case (2 subj i event events)
  then obtain e rest where "StoredEvent subj (strconv_Itoa i) event = Ret e" "stored_from subj (i + 1) events = Ret rest" "stored = e # rest"
    by (auto simp: go_bind_def split: go.splits)
  then show ?case using 2 StoredEvent_Ret by (auto simp: upt_conv_Cons simp del: upt_Suc)
qed simp

lemma log_ok_numbered:
  assumes "map ID es = map strconv_Itoa [0..<length es]" and "length es \<le> 2 ^ 63"
  shows "log_ok es"
proof -
  have id: "ID (es ! i) = strconv_Itoa i" if "i < length es" for i
    using assms(1) that by (metis add_0 length_map length_upt minus_nat.diff_0 nth_map nth_upt)
  have "rank (es ! i) = int i \<and> is_revision (ID (es ! i))" if "i < length es" for i
    using that assms(2) id rank_record [of i "\<lparr>CandidateSource = [], CandidateSubject = [], CandidateType = [], CandidateData = []\<rparr>"]
    by (simp add: rank_def record_event_def)
  then show ?thesis by (auto simp: log_ok_def sorted_wrt_iff_nth_less in_set_conv_nth)
qed

text \<open>
  \<open>StoredEvents\<close> makes a log as the database would hold it, with ascending revisions, in which all the
  events belong to the subject; it panics exactly if an event can not be encoded. For events that no
  upcaster changes, a test that is given the stored events starts from the same state as one that is
  given the typed ones, and fails if the other does.
\<close>

theorem StoredEvents_given:
  assumes "StoredEvents subj events = Ret stored" and "length events \<le> 2 ^ 63"
    and "decider_State decider = Some state" and "\<forall>e \<in> set stored. upcast_apply (upcasters state) e = Inr [e]"
  shows "log_ok stored \<and> subject_events subj stored = stored
    \<and> (\<forall>f. GivenStored decider stored = Ret (Inr f) \<longleftrightarrow> Given decider events = Ret (Inr f))"
proof -
  have s: "list_all2 stored_as events stored" "map ID stored = map strconv_Itoa [0..<length events]" "\<forall>e \<in> set stored. Subject e = subj"
    using stored_from_Ret [OF assms(1) [unfolded StoredEvents_def]] by simp_all
  have len: "length stored = length events" using s(1) by (simp add: list_all2_lengthD)
  have "log_ok stored" by (rule log_ok_numbered) (use s(2) len assms(2) in simp_all)
  moreover have "subject_events subj stored = stored" using s(3) by (simp add: subject_events_def)
  moreover have "ReplayStored state stored = Replay state events" by (rule replay_stored_as [OF s(1) assms(4)])
  ultimately show ?thesis using assms(3) by (auto simp: GivenStored_def Given_def split: prod.splits option.splits)
qed

theorem StoredEvents_given_witness:
  "\<exists>stored. StoredEvents ''/list'' [\<lparr>EventType = ''added'', Marshal = Inr ''1'', AppValue = StructV ''Added'' []\<rparr>] = Ret stored
     \<and> log_ok stored \<and> GivenStored add_decider stored =
         Ret (Inr (\<lparr>fixtureDecider = add_decider, fixtureState = ''1''\<rparr> :: (EventCandidate list, unit, string) Fixture))"
proof -
  let ?e = "\<lparr>EventType = ''added'', Marshal = Inr ''1'', AppValue = StructV ''Added'' []\<rparr>"
  let ?f = "\<lparr>fixtureDecider = add_decider, fixtureState = ''1''\<rparr> :: (EventCandidate list, unit, string) Fixture"
  obtain stored where stored: "StoredEvents ''/list'' [?e] = Ret stored"
    by (simp add: StoredEvents_def StoredEvent_def)
  have "upcasters list_state = None" by (simp add: mem_eval)
  then have "\<forall>e \<in> set stored. upcast_apply (upcasters list_state) e = Inr [e]" by (simp add: upcast_apply_def)
  from StoredEvents_given [OF stored _ _ this, of add_decider]
  have "log_ok stored" "GivenStored add_decider stored = Ret (Inr ?f) \<longleftrightarrow> Given add_decider [?e] = Ret (Inr ?f)"
    by (simp_all add: add_decider_def decider_State_def)
  moreover have "Given add_decider [?e] = Ret (Inr ?f)"
    by (simp add: Given_def Replay_def evolveBy_def mem_eval)
  ultimately show ?thesis using stored by blast
qed

section \<open>A test drives a projection as catching up does\<close>

text \<open>
  What a test of a projection and a run of it have in common: the world afterwards, and whether they
  succeed. A run ends with the error of the context, if there is one.
\<close>

definition drives_alike ::
  "('w \<Rightarrow> goerr option) \<Rightarrow> string \<Rightarrow> (string + unit) go \<times> 'w \<Rightarrow>
   (string \<times> goerr option) go \<times> 'w wstate \<times> ProjectionRun option \<Rightarrow> bool" where
  "drives_alike ctxErr lastEventID test production \<longleftrightarrow>
     (case (test, production) of
        ((r', w'), (r, st, progress)) \<Rightarrow>
          target st = w'
          \<and> (case r' of
               Ret (Inr _) \<Rightarrow> r = Ret (lastEventID, map_option (\<lambda>e. contextEnded e ''reading events'') (ctxErr w'))
             | Ret (Inl _) \<Rightarrow> (\<exists>l err. r = Ret (l, Some err))
             | Panic v \<Rightarrow> r = Panic v \<or> (\<exists>l err. r = Ret (l, Some err))))"

definition last_of :: "string \<Rightarrow> event list \<Rightarrow> string" where
  "last_of lastEventID events = (if events = [] then lastEventID else ID (last events))"

lemma last_of_simps [simp]: "last_of l [] = l" "last_of l (e # es) = last_of (ID e) es"
  by (simp_all add: last_of_def)

lemma applying_recover: "applying stack r = None \<longleftrightarrow> recoverInto stack r = None"
  by (cases r) (simp_all add: applying_def recoverInto_def)

lemma project_drive:
  assumes "\<forall>e \<in> set events. check e = None" and "target st = w" and "AsResumable p = None"
  shows "drives_alike ctxErr (last_of l events) (project_loop stack p events w)
    (drive_loop stack ctxErr check batchSize (writerFor p) (map Inr events) l inBatch isOpen (st, progress))"
  using assms(1,2)
proof (induction events arbitrary: st w l inBatch isOpen progress)
  case Nil
  then show ?case using assms(3) by (simp add: drives_alike_def writerFor_def rebuildWriter_def Let_def)
next
  case (Cons e es)
  obtain r w' where a: "Apply p e w = (r, w')" by fastforce
  have applied: "w_apply (writerFor p) e st =
      (r, st\<lparr>target := w', lastApplied := (if r = Ret None then ID e else lastApplied st)\<rparr>)"
    using a Cons.prems assms(3) by (auto simp: writerFor_def rebuildWriter_def remembering_def on_target_def split: go.splits option.splits)
  have others: "w_begin (writerFor p) st' = (Ret None, st')" "w_commit (writerFor p) x st' = (Ret None, st')"
    "w_rollback (writerFor p) st' = (Ret None, st')" for st' x
    using assms(3) by (simp_all add: writerFor_def rebuildWriter_def)
  show ?case
  proof (cases "applying stack r")
    case None
    then have "applyTo stack (writerFor p) e st = (None, st\<lparr>target := w', lastApplied := (if r = Ret None then ID e else lastApplied st)\<rparr>)"
      using applied by (simp add: applyTo_def applying_recover)
    then show ?thesis using Cons a None others by simp
  next
    case (Some err)
    then obtain err' where "recoverInto stack r = Some err'" using applying_recover [of stack r] by auto
    then show ?thesis
      using Cons.prems a Some others applied by (simp add: applyTo_def drives_alike_def after_rollback_def errors_Join_def map_filter_simps)
  qed
qed

text \<open>The rest of \<open>ProjectTransactional\<close> once the transaction has begun.\<close>

definition tx_rest :: "string \<Rightarrow> 'w Tx \<Rightarrow> string \<Rightarrow> event list \<Rightarrow> ('w, unit) test_act" where
  "tx_rest stack tx l events w =
     (case tx_loop stack tx events w of
        (Ret (Inr _), w'') \<Rightarrow>
          (case TxCommit tx (last_of l events) w'' of
             (Panic v, w3) \<Rightarrow> (Panic v, w3)
           | (Ret (Some err), w3) \<Rightarrow> (Ret (Inl (''committing the transaction: '' @ error_text err)), w3)
           | (Ret None, w3) \<Rightarrow> (Ret (Inr ()), w3))
      | (r, w'') \<Rightarrow> (r, w''))"

lemma ProjectTransactional_rest:
  "events \<noteq> [] \<Longrightarrow> ProjectTransactional stack t events w =
     (case Begin t w of
        (Panic v, w') \<Rightarrow> (Panic v, w')
      | (Ret (Inl err), w') \<Rightarrow> (Ret (Inl (''beginning a transaction: '' @ error_text err)), w')
      | (Ret (Inr tx), w') \<Rightarrow> tx_rest stack tx l events w')"
  by (auto simp: ProjectTransactional_def tx_rest_def last_of_def split: prod.split go.split sum.split)

lemma tx_writer_simps:
  assumes "openTx st = Some tx"
  shows "w_apply (transactionalWriter stack t) e st = (case TxApply tx e (target st) of (r, w) \<Rightarrow> (r, st\<lparr>target := w\<rparr>))"
    and "w_commit (transactionalWriter stack t) l st =
      (case TxCommit tx l (target st) of
         (Ret err, w) \<Rightarrow> (Ret err, st\<lparr>target := w, openTx := None\<rparr>) | (Panic v, w) \<Rightarrow> (Panic v, st\<lparr>target := w\<rparr>))"
    and "w_rollback (transactionalWriter stack t) st =
      (case TxRollback tx (target st) of
         (Ret err, w) \<Rightarrow> (Ret err, st\<lparr>target := w, openTx := None\<rparr>)
       | (Panic v, w) \<Rightarrow> (Ret (Some (PanicError v stack)), st\<lparr>target := w\<rparr>))"
  using assms
  by (auto simp: transactionalWriter_def tx_apply_def tx_commit_def tx_rollback_def on_target_def recoverInto_def
      split: prod.splits go.splits)

lemma tx_drive:
  assumes "\<forall>e \<in> set events. check e = None" and "target st = w" and "openTx st = Some tx"
    and "inBatch < batchSize" and "inBatch + int (length events) \<le> batchSize"
  shows "drives_alike ctxErr (last_of l events) (tx_rest stack tx l events w)
    (drive_loop stack ctxErr check batchSize (transactionalWriter stack t) (map Inr events) l inBatch True (st, progress))"
  using assms
proof (induction events arbitrary: st w l inBatch progress)
  case Nil
  then show ?case
    by (auto simp: tx_rest_def drives_alike_def tx_writer_simps [OF Nil.prems(3)] Let_def split: prod.splits go.splits option.splits)
next
  case (Cons e es)
  let ?wr = "transactionalWriter stack t"
  obtain r w' where a: "TxApply tx e w = (r, w')" by fastforce
  let ?st = "st\<lparr>target := w'\<rparr>"
  have applied: "w_apply ?wr e st = (r, ?st)" using a Cons.prems(2) by (simp add: tx_writer_simps [OF Cons.prems(3)])
  have tx: "openTx ?st = Some tx" using Cons.prems(3) by simp
  show ?case
  proof (cases "applying stack r")
    case None
    then have ok: "applyTo stack ?wr e st = (None, ?st)" using applied by (simp add: applyTo_def applying_recover)
    show ?thesis
    proof (cases "inBatch + 1 < batchSize")
      case True
      have "tx_rest stack tx l (e # es) w = tx_rest stack tx (ID e) es w'"
        unfolding tx_rest_def last_of_simps using a None by simp
      then show ?thesis
        using Cons.IH [of ?st w' "inBatch + 1" "ID e" progress] Cons.prems True ok tx by simp
    next
      case False
      then have "es = []" using Cons.prems(5) by (cases es) simp_all
      then show ?thesis
        using a None False ok Cons.prems(1)
        by (auto simp: tx_rest_def drives_alike_def tx_writer_simps [OF tx] Let_def split: prod.splits go.splits option.splits)
    qed
  next
    case (Some err)
    then obtain err' where "recoverInto stack r = Some err'" using applying_recover [of stack r] by auto
    then have "applyTo stack ?wr e st = (Some (ApplyFailure (ID e) err'), ?st)" using applied by (simp add: applyTo_def)
    then show ?thesis
      using Cons.prems(1) a Some
      by (auto simp: tx_rest_def drives_alike_def after_rollback_def tx_writer_simps [OF tx] errors_Join_def map_filter_simps Let_def
          split: prod.splits go.splits option.splits)
  qed
qed

lemma drive_loop_first:
  assumes "check e = None" and "w_begin wr st = (Ret None, st')"
  shows "drive_loop stack ctxErr check batchSize wr (Inr e # items) l inBatch False (st, progress) =
    drive_loop stack ctxErr check batchSize wr (Inr e # items) l inBatch True (st', progress)"
  using assms by (simp split: prod.split option.split)

lemma transactional_drive:
  assumes "events \<noteq> []" and "\<forall>e \<in> set events. check e = None" and "int (length events) \<le> batchSize"
  shows "drives_alike ctxErr (ID (last events)) (ProjectTransactional stack t events w)
    (drive_loop stack ctxErr check batchSize (transactionalWriter stack t) (map Inr events) [] 0 False (new_state w, progress))"
proof -
  let ?wr = "transactionalWriter stack t"
  obtain e es where es: "events = e # es" using assms(1) by (cases events) auto
  then have check: "check e = None" using assms(2) by simp
  obtain b w' where b: "Begin t w = (b, w')" by fastforce
  have begun: "w_begin ?wr (new_state w) =
      (case b of
         Ret (Inr tx) \<Rightarrow> (Ret None, (new_state w')\<lparr>openTx := Some tx\<rparr>)
       | Ret (Inl err) \<Rightarrow> (Ret (Some err), new_state w')
       | Panic v \<Rightarrow> (Panic v, new_state w'))"
    using b by (simp add: transactionalWriter_def tx_begin_def on_target_def new_state_def split: go.split sum.split)
  note rest = ProjectTransactional_rest [OF assms(1), of stack t w "[]"]
  consider (tx) tx where "b = Ret (Inr tx)" | (err) err where "b = Ret (Inl err)" | (panic) v where "b = Panic v"
    by (metis go.exhaust sum.exhaust)
  then show ?thesis
  proof cases
    case tx
    let ?st = "(new_state w')\<lparr>openTx := Some tx\<rparr>"
    have "w_begin ?wr (new_state w) = (Ret None, ?st)" using begun tx by simp
    then have "drive_loop stack ctxErr check batchSize ?wr (map Inr events) [] 0 False (new_state w, progress) =
        drive_loop stack ctxErr check batchSize ?wr (map Inr events) [] 0 True (?st, progress)"
      unfolding es list.map by (rule drive_loop_first [of check e, OF check])
    moreover have "drives_alike ctxErr (last_of [] events) (tx_rest stack tx [] events w')
        (drive_loop stack ctxErr check batchSize ?wr (map Inr events) [] 0 True (?st, progress))"
      by (rule tx_drive [OF assms(2)]) (use assms es in \<open>simp_all add: new_state_def\<close>)
    ultimately show ?thesis using rest tx b assms(1) by (simp add: last_of_def)
  next
    case err
    then show ?thesis using rest b begun check es by (simp add: drives_alike_def new_state_def)
  next
    case panic
    then show ?thesis using rest b begun check es by (simp add: drives_alike_def new_state_def)
  qed
qed

text \<open>
  What a test of a projection and catching up have in common: the world afterwards, and whether they
  succeed. Catching up also tells that the context has ended, if it has.
\<close>

definition catches_up_alike :: "('w \<Rightarrow> goerr option) \<Rightarrow> (string + unit) go \<times> 'w \<Rightarrow> goerr option \<times> 'w \<Rightarrow> bool" where
  "catches_up_alike ctxErr test caughtUp \<longleftrightarrow>
     (case (test, caughtUp) of
        ((r, w), (err, w')) \<Rightarrow>
          w' = w
          \<and> (case r of
               Ret (Inr _) \<Rightarrow> err = map_option (\<lambda>e. contextEnded e ''reading events'') (ctxErr w)
             | _ \<Rightarrow> err \<noteq> None))"

text \<open>The options of a read that catches up from the beginning.\<close>

definition from_the_beginning :: "subjects \<Rightarrow> read_events_options" where
  "from_the_beginning subs =
     \<lparr>Recursive = isRecursive subs, Order = OrderChronological, LowerBound = None, UpperBound = None, LatestEvent = None\<rparr>"

lemma catchUpOnce_alike:
  assumes "drives_alike (ctx_Err (storeClient s)) l test (drive rt s wr (map Inr events) (batchSizeOf batched) (new_state w, None))"
    and "w_checkpoint wr (new_state w) = (Ret ([], None), new_state w)"
    and "ReadEvents (storeClient s) w (rootSubject subs) (from_the_beginning subs) = (map Inr events, w)"
  shows "catches_up_alike (ctx_Err (storeClient s)) test (catchUpOnce rt s subs wr batched w)"
proof -
  obtain r st progress where drive: "drive rt s wr (map Inr events) (batchSizeOf batched) (new_state w, None) = (r, st, progress)"
    by (metis prod_cases3)
  obtain r' w' where test: "test = (r', w')" by fastforce
  have same: "target st = w'" using assms(1) by (simp add: drives_alike_def drive test)
  have "\<exists>l'. catchUp rt s subs wr (batchSizeOf batched) (new_state w, None) =
      (case r of Ret (lastEventID, None) \<Rightarrow> (Ret (l', None), st, progress) | _ \<Rightarrow> (r, st, progress))"
    using assms(2,3) drive by (cases r) (auto simp: catchUp_def from_the_beginning_def boundAfter_def new_state_def Let_def split: option.split)
  then have once: "catchUpOnce rt s subs wr batched w =
      (case r of Ret (lastEventID, err) \<Rightarrow> (err, w') | Panic v \<Rightarrow> (recoverInto (debugStack rt) (Panic v), w'))"
    using same by (auto simp: catchUpOnce_def split: go.splits prod.splits option.splits)
  show ?thesis
    using assms(1) unfolding once test drive drives_alike_def catches_up_alike_def
    by (auto simp: recoverInto_def split: go.splits sum.splits)
qed

text \<open>A projection that notes the events in the world, and panics for one of a bad type.\<close>

definition noting_projection :: "EventCandidate list Projection" where
  "noting_projection =
     \<lparr>Apply = (\<lambda>e w. if Type e = ''bad'' then (Panic ''not expected'', w)
         else (Ret None, w @ [\<lparr>CandidateSource = Source e, CandidateSubject = Subject e, CandidateType = Type e, CandidateData = ID e\<rparr>])),
      AsResumable = None, AsTransactional = None, CatchUpBatchSize = None, GoValue = Some (StructV ''noting'' []), GoTypeName = ''noting''\<rparr>"

definition still_runtime :: "EventCandidate list runtime" where
  "still_runtime = \<lparr>ObserveEvents = (\<lambda>w subj options. ([], w)), now = (\<lambda>w. 0), timer = (\<lambda>t w. (False, w)), debugStack = []\<rparr>"

text \<open>
  C19. A test drives a projection as catching up with the same events does, if the projection keeps no
  checkpoint, or is transactional and gets the events in one batch. Take events that the store accepts and
  hands out for the subjects. \<open>Project\<close> leaves a projection that is rebuilt on every start, that is, one that
  is neither resumable nor transactional, as \<open>CatchUpProjection\<close> does, whatever the size of a batch; and
  \<open>ProjectTransactional\<close> a transactional one that has seen no event yet as \<open>CatchUpTransactionalProjection\<close>
  does, if its batches are large enough for all events: with the same effects in the same order, and, unless
  the context has ended, with a success if and only if catching up succeeds, panics included.
\<close>

theorem tests_drive_as_catch_up:
  assumes "events \<noteq> []" and "\<forall>e \<in> set events. verify s e = None"
    and "ReadEvents (storeClient s) w (rootSubject subs) (from_the_beginning subs) = (map Inr events, w)"
  shows "(\<forall>p options caughtUp. AsResumable p = None \<longrightarrow> AsTransactional p = None \<longrightarrow> CatchUpProjection rt s subs p options w = Ret caughtUp \<longrightarrow>
      catches_up_alike (ctx_Err (storeClient s)) (Project (debugStack rt) p events w) caughtUp)
    \<and> (\<forall>t options caughtUp. TxCheckpoint t w = (Ret ([], None), w) \<longrightarrow> int (length events) \<le> batchSizeOf (TxBatchSize t) \<longrightarrow>
      CatchUpTransactionalProjection rt s subs t options w = Ret caughtUp \<longrightarrow>
      catches_up_alike (ctx_Err (storeClient s)) (ProjectTransactional (debugStack rt) t events w) caughtUp)"
proof -
  have last: "last_of [] events = ID (last events)" using assms(1) by (simp add: last_of_def)
  have plain: "catches_up_alike (ctx_Err (storeClient s)) (Project (debugStack rt) p events w) caughtUp"
    if p: "AsResumable p = None" "AsTransactional p = None" and run: "CatchUpProjection rt s subs p options w = Ret caughtUp" for p options caughtUp
  proof -
    have "caughtUp = catchUpOnce rt s subs (writerFor p) (CatchUpBatchSize p) w"
      using run by (auto simp: CatchUpProjection_def go_bind_eq_Ret)
    moreover have "drives_alike (ctx_Err (storeClient s)) (ID (last events)) (Project (debugStack rt) p events w)
        (drive rt s (writerFor p) (map Inr events) (batchSizeOf (CatchUpBatchSize p)) (new_state w, None))"
      using project_drive [OF assms(2) _ p(1), of "new_state w" w, where l = "[]"] p(2) last
      by (simp add: Project_def drive_def new_state_def)
    moreover have "w_checkpoint (writerFor p) (new_state w) = (Ret ([], None), new_state w)"
      using p(1) by (simp add: writerFor_def rebuildWriter_def new_state_def)
    ultimately show ?thesis using catchUpOnce_alike [OF _ _ assms(3)] by blast
  qed
  have "catches_up_alike (ctx_Err (storeClient s)) (ProjectTransactional (debugStack rt) t events w) caughtUp"
    if t: "TxCheckpoint t w = (Ret ([], None), w)" "int (length events) \<le> batchSizeOf (TxBatchSize t)"
      and run: "CatchUpTransactionalProjection rt s subs t options w = Ret caughtUp" for t options caughtUp
  proof -
    have "caughtUp = catchUpOnce rt s subs (transactionalWriter (debugStack rt) t) (TxBatchSize t) w"
      using run by (auto simp: CatchUpTransactionalProjection_def go_bind_eq_Ret)
    moreover have "drives_alike (ctx_Err (storeClient s)) (ID (last events)) (ProjectTransactional (debugStack rt) t events w)
        (drive rt s (transactionalWriter (debugStack rt) t) (map Inr events) (batchSizeOf (TxBatchSize t)) (new_state w, None))"
      using transactional_drive [OF assms(1,2) t(2)] by (simp add: drive_def)
    moreover have "w_checkpoint (transactionalWriter (debugStack rt) t) (new_state w) = (Ret ([], None), new_state w)"
      using t(1) by (simp add: transactionalWriter_def on_target_def new_state_def)
    ultimately show ?thesis using catchUpOnce_alike [OF _ _ assms(3)] by blast
  qed
  with plain show ?thesis by blast
qed

text \<open>A store that hands out two events, the second of which makes the projection panic.\<close>

definition two_events :: "event list" where
  "two_events = [sample_event ''1'', (sample_event ''2'')\<lparr>Type := ''bad''\<rparr>]"

definition two_store :: "EventCandidate list Store" where
  "two_store = mem_store\<lparr>storeClient := mem_client\<lparr>ReadEvents := (\<lambda>w subj options. (map Inr two_events, w))\<rparr>\<rparr>"

theorem tests_drive_as_catch_up_witness:
  "\<exists>caughtUp. CatchUpProjection still_runtime two_store \<lparr>rootSubject = ''/'', isRecursive = True\<rparr> noting_projection [] [] = Ret caughtUp
     \<and> catches_up_alike (\<lambda>_. None) (Project [] noting_projection two_events []) caughtUp \<and> fst caughtUp \<noteq> None \<and> snd caughtUp \<noteq> []"
proof -
  let ?subs = "\<lparr>rootSubject = ''/'', isRecursive = True\<rparr>"
  have ok: "\<forall>e \<in> set two_events. verify two_store e = None"
    by (simp add: verify_def two_store_def mem_store_def mem_client_def default_settings_def two_events_def)
  have read: "ReadEvents (storeClient two_store) [] (rootSubject ?subs) (from_the_beginning ?subs) = (map Inr two_events, [])"
    by (simp add: two_store_def)
  have plain: "AsResumable noting_projection = None" "AsTransactional noting_projection = None" by (simp_all add: noting_projection_def)
  obtain caughtUp where run: "CatchUpProjection still_runtime two_store ?subs noting_projection [] [] = Ret caughtUp"
    by (simp add: CatchUpProjection_def requireSubjects_def requireProjection_def refuseTransactional_def plain projectionSettingsOf_def
        noting_projection_def isNil_def)
  have "two_events \<noteq> []" by (simp add: two_events_def)
  from tests_drive_as_catch_up [OF this ok read, of still_runtime] plain run
  have alike: "catches_up_alike (ctx_Err (storeClient two_store)) (Project (debugStack still_runtime) noting_projection two_events []) caughtUp" by blast
  have "ctx_Err (storeClient two_store) = (\<lambda>_. None)" "debugStack still_runtime = []"
    by (simp_all add: two_store_def mem_client_def still_runtime_def)
  then have alike': "catches_up_alike (\<lambda>_. None) (Project [] noting_projection two_events []) caughtUp" using alike by simp
  have "\<exists>msg w. Project [] noting_projection two_events [] = (Ret (Inl msg), w) \<and> w \<noteq> []"
    by (simp add: Project_def noting_projection_def two_events_def applying_def sample_event_def)
  then have "fst caughtUp \<noteq> None \<and> snd caughtUp \<noteq> []" using alike' by (auto simp: catches_up_alike_def split: prod.splits)
  then show ?thesis using run alike' by blast
qed

end
