(* ===== verification/Json_Fields.thy ===== *)
theory Json_Fields
  imports Value_Type "HOL-Library.Multiset"
begin

text \<open>
  Which fields of a struct \<open>encoding/json\<close> writes (\<open>jsonFields\<close> of \<open>schema.go\<close>), on a model of
  \<open>reflect.Type\<close> that is deep enough for deriving schemas: a type is a number that stands for
  its identity, and a program has finitely many of them, which may refer to each other in cycles.
\<close>

section \<open>Types\<close>

type_synonym tid = nat

record struct_field =
  FieldName :: string
  FieldType :: tid
  Anonymous :: bool
  IsExported :: bool
  JsonTag :: string

datatype type_kind =
    KindBasic basic_kind
  | KindInterface
  | KindPointer tid
  | KindSlice tid
  | KindArray nat tid
  | KindMap tid tid
  | KindStruct "struct_field list"
  | KindOther

text \<open>The interfaces that the code asks a type for.\<close>

datatype encoder =
    JsonMarshaler | JsonMarshalerTo | TextMarshaler | TextAppender | DescribesSchema
  | JsonUnmarshaler | JsonUnmarshalerFrom | TextUnmarshaler

text \<open>JSON values. A number is an integer or a literal that is none.\<close>

datatype json =
    JNull
  | JBool bool
  | JInteger int
  | JDecimal string
  | JString string
  | JArray "json list"
  | JObject "(string \<times> json) list"
  | JOther string

text \<open>
  A schema is a \<open>map[string]any\<close>, here an association list, whose order does not matter. \<open>JOther\<close> stands
  for a value in it that \<open>json.Marshal\<close> can not encode, with its error.
\<close>

type_synonym schema = "(string \<times> json) list"

text \<open>
  What reflection tells about a type: how it is printed, its name, which is empty for a type without
  one, its kind, the interfaces that it and a pointer to it implement, whether the \<open>Schema\<close> function
  found on each of the two is promoted from an embedded field, and what that function returns,
  \<open>None\<close> being a nil map.
\<close>

record type_info =
  TypeString :: string
  TypeName :: string
  TypeKind :: type_kind
  Implements :: "encoder list"
  PointerImplements :: "encoder list"
  Promoted :: bool
  PointerPromoted :: bool
  SchemaResult :: "schema option"

text \<open>The types of a program, and the tables of \<open>unicode\<close> for the characters of a name beyond ASCII.\<close>

record program =
  types :: "type_info list"
  timeID :: tid
  numberID :: tid
  rawMessageID :: tid
  wideLetters :: "string \<Rightarrow> bool"

text \<open>What is not a type of the program does not occur; it counts as a kind without a structure.\<close>

definition info :: "program \<Rightarrow> tid \<Rightarrow> type_info" where
  "info p t =
     (if t < length (types p) then types p ! t
      else \<lparr>TypeString = [], TypeName = [], TypeKind = KindOther, Implements = [], PointerImplements = [], Promoted = False,
            PointerPromoted = False, SchemaResult = None\<rparr>)"

definition type_kind_of :: "program \<Rightarrow> tid \<Rightarrow> type_kind" where
  "type_kind_of p t = TypeKind (info p t)"

definition fields_of :: "program \<Rightarrow> tid \<Rightarrow> struct_field list" where
  "fields_of p t = (case type_kind_of p t of KindStruct fs \<Rightarrow> fs | _ \<Rightarrow> [])"

section \<open>Types that encode themselves\<close>

definition encodesAsJSON :: "program \<Rightarrow> tid \<Rightarrow> bool" where
  "encodesAsJSON p t \<longleftrightarrow>
     JsonMarshaler \<in> set (Implements (info p t)) \<or> JsonMarshaler \<in> set (PointerImplements (info p t))
     \<or> JsonMarshalerTo \<in> set (Implements (info p t)) \<or> JsonMarshalerTo \<in> set (PointerImplements (info p t))"

definition encodesAsText :: "program \<Rightarrow> tid \<Rightarrow> bool" where
  "encodesAsText p t \<longleftrightarrow> TextMarshaler \<in> set (Implements (info p t)) \<or> TextAppender \<in> set (Implements (info p t))"

definition encodesAsTextOnPointer :: "program \<Rightarrow> tid \<Rightarrow> bool" where
  "encodesAsTextOnPointer p t \<longleftrightarrow>
     \<not> encodesAsText p t
     \<and> (TextMarshaler \<in> set (PointerImplements (info p t)) \<or> TextAppender \<in> set (PointerImplements (info p t)))"

definition encodesItself :: "program \<Rightarrow> tid \<Rightarrow> bool" where
  "encodesItself p t \<longleftrightarrow> encodesAsJSON p t \<or> encodesAsText p t \<or> encodesAsTextOnPointer p t"

text \<open>A type, or what it points to if it is a pointer without a name.\<close>

definition behind_pointer :: "program \<Rightarrow> tid \<Rightarrow> tid \<times> bool" where
  "behind_pointer p t =
     (case type_kind_of p t of KindPointer elem \<Rightarrow> if TypeName (info p t) = [] then (elem, True) else (t, False) | _ \<Rightarrow> (t, False))"

definition is_integer_kind :: "basic_kind \<Rightarrow> bool" where
  "is_integer_kind k \<longleftrightarrow>
     k \<in> set [KInt, KInt8, KInt16, KInt32, KInt64, KUint, KUint8, KUint16, KUint32, KUint64, KUintptr]"

definition isQuotable :: "program \<Rightarrow> tid \<Rightarrow> bool" where
  "isQuotable p t =
     (case type_kind_of p (fst (behind_pointer p t)) of
        KindBasic k \<Rightarrow> k \<in> set [KBool, KString, KFloat32, KFloat64] \<or> is_integer_kind k
      | _ \<Rightarrow> False)"

definition isMapKey :: "program \<Rightarrow> tid \<Rightarrow> bool" where
  "isMapKey p t =
     (case type_kind_of p t of
        KindBasic k \<Rightarrow> k = KString \<or> is_integer_kind k \<or> encodesAsText p t
      | _ \<Rightarrow> encodesAsText p t)"

definition isNumber :: "program \<Rightarrow> tid \<Rightarrow> bool" where
  "isNumber p t \<longleftrightarrow> fst (behind_pointer p t) = numberID p"

section \<open>Tags\<close>

definition hasOption :: "string \<Rightarrow> string \<Rightarrow> bool" where
  "hasOption options option \<longleftrightarrow> list_ex (\<lambda>candidate. candidate = option) (strings_Split options CHR '','')"

definition ascii_name_char :: "char \<Rightarrow> bool" where
  "ascii_name_char c \<longleftrightarrow>
     c \<in> set ''!#$%&()*+-./:;<=>?@[]^_{|}~ ''
     \<or> (let n = of_char c :: nat in 97 \<le> n \<and> n \<le> 122 \<or> 65 \<le> n \<and> n \<le> 90 \<or> 48 \<le> n \<and> n \<le> 57)"

text \<open>The characters of ASCII are written out, the others are up to \<open>unicode.IsLetter\<close> and \<open>unicode.IsDigit\<close>.\<close>

definition isValidTagName :: "program \<Rightarrow> string \<Rightarrow> bool" where
  "isValidTagName p name \<longleftrightarrow>
     list_all ascii_name_char (filter (\<lambda>c. of_char c < (128 :: nat)) name)
     \<and> wideLetters p (filter (\<lambda>c. of_char c \<ge> (128 :: nat)) name)"

section \<open>The fields of a struct\<close>

record jsonField =
  fieldName :: string
  goName :: string
  fieldValueType :: tid
  fieldIndex :: "nat list"
  isTagged :: bool
  isOptional :: bool
  isQuoted :: bool

record embedding =
  embType :: tid
  embIndex :: "nat list"
  isBehindAPointer :: bool

text \<open>What the innermost loop does with a field of an embedded struct: nothing, refuse, embed or add.\<close>

datatype field_step = SkipField | RefuseField string | EmbedField tid bool | AddField jsonField

definition bad_tag_name :: "program \<Rightarrow> tid \<Rightarrow> string \<Rightarrow> string \<Rightarrow> string" where
  "bad_tag_name p t field name =
     ''field '' @ field @ '' of '' @ TypeString (info p t) @ '' has the json tag name '' @ strconv_Quote name @
     '', which encoding/json reads differently depending on the Go version; use a valid name''"

definition step_field :: "program \<Rightarrow> embedding \<Rightarrow> nat \<Rightarrow> struct_field \<Rightarrow> field_step" where
  "step_field p emb i sf =
     (let (fieldType, isPointer) = behind_pointer p (FieldType sf);
          isStruct = (case type_kind_of p fieldType of KindStruct _ \<Rightarrow> True | _ \<Rightarrow> False) in
      if (if Anonymous sf then \<not> IsExported sf \<and> \<not> isStruct else \<not> IsExported sf) then SkipField
      else if JsonTag sf = ''-'' then SkipField
      else
        (let (name, options, _) = strings_Cut (JsonTag sf) CHR '','' in
         if name \<noteq> [] \<and> \<not> isValidTagName p name then RefuseField (bad_tag_name p (embType emb) (FieldName sf) name)
         else if name = [] \<and> Anonymous sf \<and> isStruct then EmbedField fieldType isPointer
         else AddField
           \<lparr>fieldName = (if name = [] then FieldName sf else name), goName = FieldName sf, fieldValueType = FieldType sf,
            fieldIndex = embIndex emb @ [i], isTagged = name \<noteq> [],
            isOptional = isBehindAPointer emb \<or> hasOption options ''omitempty'' \<or> hasOption options ''omitzero'',
            isQuoted = hasOption options ''string'' \<and> isQuotable p (FieldType sf)
              \<and> (isNumber p (FieldType sf) \<or> \<not> encodesItself p (FieldType sf))\<rparr>))"

text \<open>The variables of the loops: \<open>next\<close>, \<open>nextCount\<close> and \<open>candidates\<close>.\<close>

type_synonym walk_state = "embedding list \<times> (tid \<Rightarrow> nat) \<times> jsonField list"

fun walk_fields :: "program \<Rightarrow> (tid \<Rightarrow> nat) \<Rightarrow> embedding \<Rightarrow> nat \<Rightarrow> struct_field list \<Rightarrow> walk_state \<Rightarrow> string + walk_state" where
  "walk_fields p counts emb i [] st = Inr st"
| "walk_fields p counts emb i (sf # sfs) (queue, nextCount, candidates) =
     (case step_field p emb i sf of
        SkipField \<Rightarrow> walk_fields p counts emb (i + 1) sfs (queue, nextCount, candidates)
      | RefuseField err \<Rightarrow> Inl err
      | EmbedField t isPointer \<Rightarrow>
          walk_fields p counts emb (i + 1) sfs
            (if nextCount t = 0 then
               queue @ [\<lparr>embType = t, embIndex = embIndex emb @ [i], isBehindAPointer = isBehindAPointer emb \<or> isPointer\<rparr>]
             else queue, nextCount(t := nextCount t + 1), candidates)
      | AddField field \<Rightarrow>
          walk_fields p counts emb (i + 1) sfs
            (queue, nextCount, candidates @ (if counts (embType emb) > 1 then [field, field] else [field])))"

fun walk_level ::
  "program \<Rightarrow> (tid \<Rightarrow> nat) \<Rightarrow> embedding list \<Rightarrow> tid list \<Rightarrow> walk_state \<Rightarrow> string + tid list \<times> walk_state" where
  "walk_level p counts [] visited st = Inr (visited, st)"
| "walk_level p counts (emb # current) visited st =
     (if embType emb \<in> set visited then walk_level p counts current visited st
      else
        (case walk_fields p counts emb 0 (fields_of p (embType emb)) st of
           Inl err \<Rightarrow> Inl err
         | Inr st' \<Rightarrow> walk_level p counts current (embType emb # visited) st'))"

lemma fields_of_program: "fields_of p t \<noteq> [] \<Longrightarrow> t < length (types p)"
  by (auto simp: fields_of_def type_kind_of_def info_def split: if_splits)

text \<open>A level that finds something to embed has visited a type of the program that was not visited before.\<close>

lemma walk_level_visits:
  "walk_level p counts current visited (queue, c, cands) = Inr (visited', queue', c', cands') \<Longrightarrow>
     set visited \<subseteq> set visited' \<and>
     (queue' = queue \<or> (\<exists>t < length (types p). t \<in> set visited' - set visited))"
proof (induction current arbitrary: visited queue c cands)
  case (Cons emb current)
  show ?case
  proof (cases "embType emb \<in> set visited")
    case True
    then show ?thesis using Cons by simp
  next
    case False
    then obtain queue1 c1 cands1 where
      fields: "walk_fields p counts emb 0 (fields_of p (embType emb)) (queue, c, cands) = Inr (queue1, c1, cands1)"
      and rest: "walk_level p counts current (embType emb # visited) (queue1, c1, cands1) = Inr (visited', queue', c', cands')"
      using Cons.prems by (auto split: sum.splits)
    from Cons.IH [OF rest] have sub: "set visited \<subseteq> set visited'" "embType emb \<in> set visited'" by auto
    show ?thesis
    proof (cases "fields_of p (embType emb) = []")
      case True
      then have "queue1 = queue" using fields by simp
      then show ?thesis using Cons.IH [OF rest] by auto
    next
      case nonempty: False
      then show ?thesis using sub False fields_of_program by blast
    qed
  qed
qed simp

function walk :: "program \<Rightarrow> tid list \<Rightarrow> embedding list \<Rightarrow> (tid \<Rightarrow> nat) \<Rightarrow> jsonField list \<Rightarrow> string + jsonField list" where
  "walk p visited current counts candidates =
     (if current = [] then Inr candidates
      else
        (case walk_level p counts current visited ([], (\<lambda>_. 0), candidates) of
           Inl err \<Rightarrow> Inl err
         | Inr (visited', queue, nextCount, candidates') \<Rightarrow> walk p visited' queue nextCount candidates'))"
  by pat_completeness auto
termination
proof (relation "measure (\<lambda>(p, visited, current, counts, candidates).
    2 * card ({..<length (types p)} - set visited) + (if current = [] then 0 else 1))"; clarsimp)
  fix p :: program and visited current counts candidates visited' queue nextCount candidates'
  assume "current \<noteq> []" and l: "walk_level p counts current visited ([], \<lambda>_. 0, candidates) = Inr (visited', queue, nextCount, candidates')"
  let ?left = "\<lambda>v. {..<length (types p)} - set v"
  note v = walk_level_visits [OF l]
  then have sub: "?left visited' \<subseteq> ?left visited" by auto
  have "card (?left visited') < card (?left visited)" if "queue \<noteq> []"
    using v that by (intro psubset_card_mono psubsetI sub) auto
  moreover have "card (?left visited') \<le> card (?left visited)" by (rule card_mono [OF _ sub]) simp
  ultimately show "(queue = [] \<longrightarrow> 2 * card (?left visited') < Suc (2 * card (?left visited)))
      \<and> (queue \<noteq> [] \<longrightarrow> card (?left visited') < card (?left visited))"
    by auto
qed

declare walk.simps [simp del]

section \<open>The field that wins\<close>

definition dominantField :: "jsonField list \<Rightarrow> jsonField option" where
  "dominantField fs =
     (let depth = length (fieldIndex (hd fs));
          shallowest = filter (\<lambda>f. length (fieldIndex f) = depth) fs in
      if length shallowest = 1 then Some (hd shallowest)
      else
        (let tagged = filter isTagged shallowest in
         if length tagged = 1 then Some (hd tagged) else None))"

text \<open>\<open>slices.Compare\<close> of two indexes, as \<open>\<le>\<close>, and sorting by it. No two fields have the same index.\<close>

fun index_le :: "nat list \<Rightarrow> nat list \<Rightarrow> bool" where
  "index_le [] ys = True"
| "index_le (x # xs) [] = False"
| "index_le (x # xs) (y # ys) = (x < y \<or> x = y \<and> index_le xs ys)"

fun insert_field :: "jsonField \<Rightarrow> jsonField list \<Rightarrow> jsonField list" where
  "insert_field f [] = [f]"
| "insert_field f (g # gs) = (if index_le (fieldIndex f) (fieldIndex g) then f # g # gs else g # insert_field f gs)"

definition sort_fields :: "jsonField list \<Rightarrow> jsonField list" where
  "sort_fields fs = foldr insert_field fs []"

text \<open>The names in the order they are found, and the winner of each.\<close>

fun names_in_order :: "string list \<Rightarrow> jsonField list \<Rightarrow> string list" where
  "names_in_order names [] = names"
| "names_in_order names (f # fs) =
     names_in_order (if fieldName f \<in> set names then names else names @ [fieldName f]) fs"

definition winners :: "jsonField list \<Rightarrow> jsonField list" where
  "winners candidates =
     List.map_filter (\<lambda>name. dominantField (filter (\<lambda>f. fieldName f = name) candidates)) (names_in_order [] candidates)"

definition jsonFields :: "program \<Rightarrow> tid \<Rightarrow> string + jsonField list" where
  "jsonFields p structType =
     (case walk p [] [\<lparr>embType = structType, embIndex = [], isBehindAPointer = False\<rparr>] ((\<lambda>_. 0)(structType := 1)) [] of
        Inl err \<Rightarrow> Inl err
      | Inr candidates \<Rightarrow> Inr (sort_fields (winners candidates)))"

section \<open>Fields that are added\<close>

lemma step_field_Add:
  assumes "step_field p emb i sf = AddField f"
  shows "goName f = FieldName sf \<and> fieldValueType f = FieldType sf \<and> fieldIndex f = embIndex emb @ [i]
    \<and> (\<exists>name options found. strings_Cut (JsonTag sf) CHR '','' = (name, options, found)
        \<and> isOptional f = (isBehindAPointer emb \<or> hasOption options ''omitempty'' \<or> hasOption options ''omitzero'')
        \<and> isQuoted f = (hasOption options ''string'' \<and> isQuotable p (FieldType sf) \<and> (isNumber p (FieldType sf) \<or> \<not> encodesItself p (FieldType sf))))"
  using assms by (auto simp: step_field_def Let_def split: prod.splits if_splits type_kind.splits)

lemma set_sort_fields [simp]: "set (sort_fields fs) = set fs"
proof -
  have "set (insert_field f gs) = insert f (set gs)" for f gs by (induction gs) auto
  then show ?thesis by (induction fs) (simp_all add: sort_fields_def)
qed

lemma dominantField_mem: "dominantField fs = Some f \<Longrightarrow> f \<in> set fs"
proof -
  have hd_mem: "length xs = 1 \<Longrightarrow> hd xs \<in> set xs" for xs :: "jsonField list" by (cases xs) auto
  assume "dominantField fs = Some f"
  then show ?thesis
    using hd_mem [of "filter (\<lambda>g. length (fieldIndex g) = length (fieldIndex (hd fs))) fs"]
      hd_mem [of "filter isTagged (filter (\<lambda>g. length (fieldIndex g) = length (fieldIndex (hd fs))) fs)"]
    by (auto simp: dominantField_def Let_def split: if_splits)
qed

section \<open>Names\<close>

lemma names_in_order_distinct: "distinct names \<Longrightarrow> distinct (names_in_order names fs)"
  by (induction names fs rule: names_in_order.induct) auto

lemma dominantField_name: "dominantField (filter (\<lambda>f. fieldName f = name) cs) = Some f \<Longrightarrow> fieldName f = name"
  using dominantField_mem by fastforce

lemma distinct_map_filter_by:
  assumes "\<And>x y. g x = Some y \<Longrightarrow> h y = x" and "distinct xs"
  shows "distinct (map h (List.map_filter g xs)) \<and> h ` set (List.map_filter g xs) \<subseteq> set xs"
  using assms(2)
proof (induction xs)
  case (Cons x xs)
  show ?case
  proof (cases "g x")
    case (Some y)
    then have "h y = x" by (rule assms(1))
    then show ?thesis using Cons Some by (auto simp: map_filter_simps)
  qed (use Cons in \<open>auto simp: map_filter_simps\<close>)
qed (simp add: map_filter_simps)

lemma winners_names: "distinct (map fieldName (winners cs))"
  unfolding winners_def
  by (rule distinct_map_filter_by [THEN conjunct1], erule dominantField_name) (rule names_in_order_distinct, simp)

lemma sort_fields_perm: "mset (sort_fields fs) = mset fs"
proof -
  have "mset (insert_field f gs) = add_mset f (mset gs)" for f gs by (induction gs) auto
  then show ?thesis by (induction fs) (simp_all add: sort_fields_def)
qed

lemma jsonFields_names:
  assumes "jsonFields p t = Inr fs"
  shows "distinct (map fieldName fs)"
proof -
  obtain cs where "fs = sort_fields (winners cs)" using assms by (auto simp: jsonFields_def split: sum.splits)
  then have "mset (map fieldName fs) = mset (map fieldName (winners cs))" by (simp add: sort_fields_perm)
  then show ?thesis using winners_names by (metis mset_eq_imp_distinct_iff)
qed

end
