(* ===== verification/Derive_Schema.thy ===== *)
theory Derive_Schema
  imports Json_Fields State
begin

text \<open>
  Deriving the JSON schema of a type (\<open>schema.go\<close>): the schema of an event, by its own \<open>Schema\<close>
  function or by its structure, the refusal of functions that are promoted from an embedded field,
  the deriver, and the cache of derived schemas.

  A function returns a schema or the text of an error, or panics. What a \<open>Schema\<close> function returns
  is part of the type, so it returns the same every time.
\<close>

type_synonym 'a derived = "(string + 'a) go"

definition try_bind :: "'a derived \<Rightarrow> ('a \<Rightarrow> 'b derived) \<Rightarrow> 'b derived" where
  "try_bind r f = (case r of Panic v \<Rightarrow> Panic v | Ret (Inl err) \<Rightarrow> Ret (Inl err) | Ret (Inr x) \<Rightarrow> f x)"

lemma try_bind_simps [simp]:
  "try_bind (Panic v) f = Panic v" "try_bind (Ret (Inl err)) f = Ret (Inl err)" "try_bind (Ret (Inr x)) f = f x"
  by (simp_all add: try_bind_def)

lemma try_bind_Inr: "try_bind r f = Ret (Inr y) \<longleftrightarrow> (\<exists>x. r = Ret (Inr x) \<and> f x = Ret (Inr y))"
  by (auto simp: try_bind_def split: go.splits sum.splits)

section \<open>Schema functions\<close>

text \<open>
  \<open>reflect.Method\<close>, as far as \<open>isPromoted\<close> looks at it: whether the method has a function at all, which
  the method of an interface has not, and whether the compiler generated it.
\<close>

record reflect_method =
  HasFunc :: bool
  Autogenerated :: bool

definition is_interface :: "program \<Rightarrow> tid \<Rightarrow> bool" where
  "is_interface p t \<longleftrightarrow> type_kind_of p t = KindInterface"

definition is_pointer :: "program \<Rightarrow> tid \<Rightarrow> bool" where
  "is_pointer p t \<longleftrightarrow> (case type_kind_of p t of KindPointer _ \<Rightarrow> True | _ \<Rightarrow> False)"

definition schemaFunction :: "program \<Rightarrow> tid \<Rightarrow> reflect_method option" where
  "schemaFunction p t =
     (if DescribesSchema \<in> set (Implements (info p t)) then
        Some \<lparr>HasFunc = \<not> is_interface p t, Autogenerated = Promoted (info p t)\<rparr>
      else if DescribesSchema \<in> set (PointerImplements (info p t)) then
        Some \<lparr>HasFunc = True, Autogenerated = PointerPromoted (info p t)\<rparr>
      else None)"

definition isPromoted :: "reflect_method \<Rightarrow> bool" where
  "isPromoted m = (if \<not> HasFunc m then False else Autogenerated m)"

text \<open>\<open>ownSchema\<close>, with the schema, which may be a nil map, if the type has a function.\<close>

definition ownSchema :: "program \<Rightarrow> tid \<Rightarrow> schema option option" where
  "ownSchema p t =
     (if is_pointer p t \<or> is_interface p t then None
      else if DescribesSchema \<in> set (Implements (info p t)) then Some (SchemaResult (info p t))
      else if DescribesSchema \<in> set (PointerImplements (info p t)) then Some (SchemaResult (info p t))
      else None)"

section \<open>Functions promoted from an embedded field\<close>

text \<open>The embedded fields of a struct, with the pointer taken away, and the path to each.\<close>

definition embedded_types :: "program \<Rightarrow> tid \<Rightarrow> (tid \<times> string) list" where
  "embedded_types p t =
     map (\<lambda>sf. (case type_kind_of p (FieldType sf) of KindPointer elem \<Rightarrow> elem | _ \<Rightarrow> FieldType sf, FieldName sf))
       (filter Anonymous (fields_of p t))"

text \<open>One depth of the search: the path of the first type that declares the function, or the next depth.\<close>

fun search_depth ::
  "program \<Rightarrow> (tid \<times> string list) list \<Rightarrow> (tid \<times> string list) list \<Rightarrow> string list + (tid \<times> string list) list" where
  "search_depth p deeper [] = Inr deeper"
| "search_depth p deeper ((t, path) # current) =
     (case schemaFunction p t of
        None \<Rightarrow> search_depth p deeper current
      | Some function \<Rightarrow>
          if \<not> isPromoted function then Inl path
          else search_depth p (deeper @ map (\<lambda>(u, name). (u, path @ [name])) (embedded_types p t)) current)"

text \<open>
  The search, one depth after the other, for at most as many depths as the program has types, which
  \<open>search_ends\<close> shows to be enough.
\<close>

fun search :: "nat \<Rightarrow> program \<Rightarrow> (tid \<times> string list) list \<Rightarrow> (string \<times> bool) option" where
  "search fuel p [] = Some ([], False)"
| "search 0 p (x # xs) = None"
| "search (Suc fuel) p (x # xs) =
     (case search_depth p [] (x # xs) of
        Inl path \<Rightarrow> Some (strings_Join path ''.'', path \<noteq> [])
      | Inr deeper \<Rightarrow> search fuel p deeper)"

definition embeddedSchemaField :: "program \<Rightarrow> tid \<Rightarrow> string \<times> bool" where
  "embeddedSchemaField p t =
     (if is_pointer p t then ([], False)
      else case search (Suc (length (types p))) p [(t, [])] of Some r \<Rightarrow> r | None \<Rightarrow> ([], False))"

definition refuseEmbeddedSchema :: "program \<Rightarrow> tid \<Rightarrow> string option" where
  "refuseEmbeddedSchema p t =
     (case embeddedSchemaField p t of
        (field, isEmbedded) \<Rightarrow>
          if \<not> isEmbedded then None
          else Some (TypeString (info p t) @ '' has a Schema function only from its embedded field '' @ field @
            '', which describes '' @ field @ '' alone; give '' @ TypeString (info p t) @
            '' a Schema function of its own, or make '' @ field @ '' a named field''))"

section \<open>Allowing null\<close>

definition nullable :: "schema \<Rightarrow> schema" where
  "nullable s = [(''anyOf'', JArray [JObject s, JObject [(''type'', JString ''null'')]])]"

text \<open>The conversion of \<open>anyOf[0]\<close> panics if it is not a schema.\<close>

definition withoutNull :: "schema \<Rightarrow> schema go" where
  "withoutNull s =
     (case map_of s ''anyOf'' of
        Some (JArray anyOf) \<Rightarrow>
          if length s \<noteq> 1 \<or> length anyOf \<noteq> 2 then Ret s
          else (case hd anyOf of JObject inner \<Rightarrow> Ret inner | _ \<Rightarrow> Panic ''interface conversion'')
      | _ \<Rightarrow> Ret s)"

section \<open>The deriver\<close>

text \<open>
  The functions of the deriver call each other through \<open>structure\<close>, so each of the others gets what
  \<open>structure\<close> does with the types in progress as its argument \<open>rec\<close>.
\<close>

definition schemaOf :: "program \<Rightarrow> (tid \<Rightarrow> schema derived) \<Rightarrow> tid \<Rightarrow> schema derived" where
  "schemaOf p rec t =
     (case refuseEmbeddedSchema p t of
        Some err \<Rightarrow> Ret (Inl err)
      | None \<Rightarrow>
          (case ownSchema p t of
             Some None \<Rightarrow> Ret (Inl (''the Schema function of '' @ TypeString (info p t) @ '' returns nil''))
           | Some (Some s) \<Rightarrow> Ret (Inr s)
           | None \<Rightarrow> rec t))"

definition schemaOfPresent :: "program \<Rightarrow> (tid \<Rightarrow> schema derived) \<Rightarrow> tid \<Rightarrow> schema derived" where
  "schemaOfPresent p rec t =
     (if ownSchema p t \<noteq> None then schemaOf p rec t
      else
        (case type_kind_of p t of
           KindPointer elem \<Rightarrow> schemaOf p rec elem
         | KindSlice _ \<Rightarrow> try_bind (schemaOf p rec t) (\<lambda>s. go_bind (withoutNull s) (\<lambda>s'. Ret (Inr s')))
         | KindMap _ _ \<Rightarrow> try_bind (schemaOf p rec t) (\<lambda>s. go_bind (withoutNull s) (\<lambda>s'. Ret (Inr s')))
         | _ \<Rightarrow> schemaOf p rec t))"

definition fieldSchema :: "program \<Rightarrow> (tid \<Rightarrow> schema derived) \<Rightarrow> jsonField \<Rightarrow> schema derived" where
  "fieldSchema p rec field =
     (if \<not> isQuoted field then
        if isOptional field then schemaOfPresent p rec (fieldValueType field) else schemaOf p rec (fieldValueType field)
      else if is_pointer p (fieldValueType field) \<and> \<not> isOptional field then Ret (Inr (nullable [(''type'', JString ''string'')]))
      else Ret (Inr [(''type'', JString ''string'')]))"

text \<open>The loop of \<open>object\<close>, with the properties and the required names.\<close>

fun object_loop ::
  "program \<Rightarrow> (tid \<Rightarrow> schema derived) \<Rightarrow> tid \<Rightarrow> jsonField list \<Rightarrow> (schema \<times> string list) derived" where
  "object_loop p rec t [] = Ret (Inr ([], []))"
| "object_loop p rec t (field # fs) =
     (case fieldSchema p rec field of
        Panic v \<Rightarrow> Panic v
      | Ret (Inl err) \<Rightarrow> Ret (Inl (''field '' @ goName field @ '' of '' @ TypeString (info p t) @ '': '' @ err))
      | Ret (Inr s) \<Rightarrow>
          try_bind (object_loop p rec t fs) (\<lambda>(properties, required).
            Ret (Inr ((fieldName field, JObject s) # properties, if isOptional field then required else fieldName field # required))))"

definition object :: "program \<Rightarrow> (tid \<Rightarrow> schema derived) \<Rightarrow> tid \<Rightarrow> schema derived" where
  "object p rec t =
     (case jsonFields p t of
        Inl err \<Rightarrow> Ret (Inl err)
      | Inr fs \<Rightarrow>
          try_bind (object_loop p rec t fs) (\<lambda>(properties, required).
            Ret (Inr ([(''type'', JString ''object''), (''properties'', JObject properties), (''additionalProperties'', JBool False)] @
              (if required = [] then [] else [(''required'', JArray (map JString required))])))))"

definition cannot_derive :: "program \<Rightarrow> tid \<Rightarrow> string \<Rightarrow> schema derived" where
  "cannot_derive p t why = Ret (Inl (TypeString (info p t) @ why))"

text \<open>
  \<open>structure\<close> for a type that is not in progress, its switch on the kind of a type that does not
  encode itself first.
\<close>

definition structure_kind :: "program \<Rightarrow> (tid \<Rightarrow> schema derived) \<Rightarrow> tid \<Rightarrow> schema derived" where
  "structure_kind p rec t =
     (case type_kind_of p t of
        KindBasic b \<Rightarrow>
          if b = KBool then Ret (Inr [(''type'', JString ''boolean'')])
          else if is_integer_kind b then Ret (Inr [(''type'', JString ''integer'')])
          else if b = KFloat32 \<or> b = KFloat64 then Ret (Inr [(''type'', JString ''number'')])
          else if b = KString then Ret (Inr [(''type'', JString ''string'')])
          else cannot_derive p t '' can not be written by encoding/json, so its schema can not be derived''
      | KindInterface \<Rightarrow> Ret (Inr [])
      | KindSlice elem \<Rightarrow>
          if type_kind_of p elem = KindBasic KUint8 \<and> \<not> encodesItself p elem then
            Ret (Inr (nullable [(''type'', JString ''string'')]))
          else try_bind (schemaOf p rec elem) (\<lambda>items.
            Ret (Inr (nullable [(''type'', JString ''array''), (''items'', JObject items)])))
      | KindArray n elem \<Rightarrow>
          try_bind (schemaOf p rec elem) (\<lambda>items.
            Ret (Inr [(''type'', JString ''array''), (''items'', JObject items), (''minItems'', JInteger (int n)),
              (''maxItems'', JInteger (int n))]))
      | KindMap key elem \<Rightarrow>
          if \<not> isMapKey p key then cannot_derive p t '' has keys encoding/json can not write''
          else try_bind (schemaOf p rec elem) (\<lambda>values.
            Ret (Inr (nullable [(''type'', JString ''object''), (''additionalProperties'', JObject values)])))
      | KindStruct _ \<Rightarrow> object p rec t
      | _ \<Rightarrow> cannot_derive p t '' can not be written by encoding/json, so its schema can not be derived'')"

definition structure_of :: "program \<Rightarrow> (tid \<Rightarrow> schema derived) \<Rightarrow> tid \<Rightarrow> schema derived" where
  "structure_of p rec t =
     (case type_kind_of p t of
        KindPointer elem \<Rightarrow> try_bind (schemaOf p rec elem) (\<lambda>s. Ret (Inr (nullable s)))
      | _ \<Rightarrow>
          if t = timeID p then Ret (Inr [(''type'', JString ''string''), (''format'', JString ''date-time'')])
          else if t = numberID p then Ret (Inr [(''type'', JString ''number'')])
          else if t = rawMessageID p then Ret (Inr [])
          else if encodesAsJSON p t then
            cannot_derive p t '' encodes itself with MarshalJSON or MarshalJSONTo, so its schema can not be derived; give it a Schema function''
          else if encodesAsText p t then Ret (Inr [(''type'', JString ''string'')])
          else if encodesAsTextOnPointer p t then
            cannot_derive p t ('' encodes itself with MarshalText or AppendText on a pointer only, so its schema can not be derived; '' @
              ''give it a Schema function'')
          else structure_kind p rec t)"

text \<open>
  The deriver marks a type as being in progress until it is done with it, so the types in progress are
  those of the calls around. What is no type of the program is never marked, and has no structure.
\<close>

function deriver_structure :: "program \<Rightarrow> tid list \<Rightarrow> tid \<Rightarrow> schema derived" where
  "deriver_structure p inProgress t =
     (if t \<in> set inProgress then
        cannot_derive p t '' is recursive, so its schema can not be derived; give it a Schema function''
      else if t < length (types p) then structure_of p (\<lambda>u. deriver_structure p (t # inProgress) u) t
      else cannot_derive p t '' can not be written by encoding/json, so its schema can not be derived'')"
  by pat_completeness auto
termination
proof (relation "measure (\<lambda>(p, inProgress, t). card ({..<length (types p)} - set inProgress))")
  fix p :: program and inProgress t u
  assume "t \<notin> set inProgress" "t < length (types p)"
  then have "{..<length (types p)} - set (t # inProgress) \<subset> {..<length (types p)} - set inProgress" by auto
  then have "card ({..<length (types p)} - set (t # inProgress)) < card ({..<length (types p)} - set inProgress)"
    by (rule psubset_card_mono [rotated]) simp
  then show "((p, t # inProgress, u), p, inProgress, t) \<in> measure (\<lambda>(p, inProgress, t). card ({..<length (types p)} - set inProgress))"
    by simp
qed simp

declare deriver_structure.simps [simp del]

section \<open>The cache of derived schemas\<close>

text \<open>Encoding and decoding a schema, which fails for a value that can not be encoded.\<close>

fun json_errors :: "json \<Rightarrow> string list" where
  "json_errors (JOther err) = [err]"
| "json_errors (JArray js) = concat (map json_errors js)"
| "json_errors (JObject kvs) = concat (map (\<lambda>(k, v). json_errors v) kvs)"
| "json_errors _ = []"

definition copyOfSchema :: "program \<Rightarrow> tid \<Rightarrow> schema \<Rightarrow> schema derived" where
  "copyOfSchema p t s =
     (case json_errors (JObject s) of
        err # _ \<Rightarrow> Ret (Inl (''the schema of '' @ TypeString (info p t) @ '' can not be encoded as JSON: '' @ err))
      | [] \<Rightarrow> Ret (Inr s))"

type_synonym schema_cache = "tid \<rightharpoonup> string + schema"

text \<open>
  \<open>LoadOrStore\<close> keeps what another goroutine has stored in the meantime: \<open>meanwhile\<close> is the cache
  after the schema has been derived.
\<close>

definition deriveStructure ::
  "program \<Rightarrow> (schema_cache \<Rightarrow> schema_cache) \<Rightarrow> tid \<Rightarrow> schema_cache \<Rightarrow> schema derived \<times> schema_cache" where
  "deriveStructure p meanwhile t cache =
     (let derived = (\<lambda>r c. (case r of Inl err \<Rightarrow> Ret (Inl err) | Inr s \<Rightarrow> copyOfSchema p t s, c)) in
      case refuseEmbeddedSchema p t of
        Some err \<Rightarrow> (Ret (Inl err), cache)
      | None \<Rightarrow>
          (case cache t of
             Some r \<Rightarrow> derived r cache
           | None \<Rightarrow>
               (case deriver_structure p [] t of
                  Panic v \<Rightarrow> (Panic v, meanwhile cache)
                | Ret r \<Rightarrow>
                    (case meanwhile cache t of
                       Some r' \<Rightarrow> derived r' (meanwhile cache)
                     | None \<Rightarrow> derived r ((meanwhile cache)(t \<mapsto> r))))))"

definition DeriveSchema ::
  "program \<Rightarrow> (schema_cache \<Rightarrow> schema_cache) \<Rightarrow> tid \<Rightarrow> schema_cache \<Rightarrow> schema go \<times> schema_cache" where
  "DeriveSchema p meanwhile t cache =
     (case deriveStructure p meanwhile t cache of
        (r, cache') \<Rightarrow>
          (go_bind r (\<lambda>r'. case r' of Inl err \<Rightarrow> Panic (''architecturekit: '' @ err) | Inr s \<Rightarrow> Ret s), cache'))"

text \<open>The schema of an event type, \<open>None\<close> being the nil map that its own function may return.\<close>

definition eventSchemaOf ::
  "program \<Rightarrow> (schema_cache \<Rightarrow> schema_cache) \<Rightarrow> tid \<Rightarrow> schema_cache \<Rightarrow> schema option derived \<times> schema_cache" where
  "eventSchemaOf p meanwhile t cache =
     (case refuseEmbeddedSchema p t of
        Some err \<Rightarrow> (Ret (Inl err), cache)
      | None \<Rightarrow>
          (case ownSchema p t of
             Some s \<Rightarrow> (Ret (Inr s), cache)
           | None \<Rightarrow>
               (case deriveStructure p meanwhile t cache of
                  (r, cache') \<Rightarrow> (try_bind r (\<lambda>s. Ret (Inr (Some s))), cache'))))"

text \<open>
  \<open>SchemaOf\<close>, by the rule of \<open>Evolve\<close>. The class of the event holds its kind and its event type, and
  \<open>marshal\<close> is \<open>json.Marshal\<close> on schemas.
\<close>

definition SchemaOf ::
  "program \<Rightarrow> (schema_cache \<Rightarrow> schema_cache) \<Rightarrow> (schema \<Rightarrow> string + string) \<Rightarrow> 'e event_class \<Rightarrow> tid \<Rightarrow> schema_cache \<Rightarrow>
   EventSchema go \<times> schema_cache" where
  "SchemaOf p meanwhile marshal c t cache =
     (case eventTypeOf c ''SchemaOf'' of
        Panic v \<Rightarrow> (Panic v, cache)
      | Ret eventType \<Rightarrow>
          (case eventSchemaOf p meanwhile t cache of
             (Panic v, cache') \<Rightarrow> (Panic v, cache')
           | (Ret r, cache') \<Rightarrow>
               (schemaFor (c\<lparr>ClassSchema := (case r of Inl err \<Rightarrow> Inl err | Inr s \<Rightarrow> Inr (map_option marshal s))\<rparr>) eventType, cache')))"

end
