(* ===== verification/Encoding_Json.thy ===== *)
theory Encoding_Json
  imports Json_Fields
begin

text \<open>
  The fields that \<open>encoding/json\<close> writes for a struct, as its documentation has them, and that \<open>jsonFields\<close> of
  \<open>schema.go\<close> finds exactly those.

  The rules are stated over the paths through embedded structs, of which there may be infinitely many, while
  \<open>jsonFields\<close> walks through the types, one depth after the other, and each of them once. They use the types
  of \<open>Json_Fields\<close>, and none of the functions that are translated there.
\<close>

section \<open>Tags\<close>

definition tag_parts :: "struct_field \<Rightarrow> string list" where
  "tag_parts sf = strings_Split (JsonTag sf) CHR '',''"

definition json_tag :: "struct_field \<Rightarrow> string" where
  "json_tag sf = hd (tag_parts sf)"

definition has_tag_option :: "struct_field \<Rightarrow> string \<Rightarrow> bool" where
  "has_tag_option sf option \<longleftrightarrow> option \<in> set (tl (tag_parts sf))"

definition json_name :: "struct_field \<Rightarrow> string" where
  "json_name sf = (if json_tag sf = [] then FieldName sf else json_tag sf)"

section \<open>Fields and embedded structs\<close>

text \<open>A field may hold a struct as it is, or behind a pointer that has no name.\<close>

definition unnamed_pointer :: "program \<Rightarrow> tid \<Rightarrow> bool" where
  "unnamed_pointer p t \<longleftrightarrow> TypeName (info p t) = [] \<and> (case type_kind_of p t of KindPointer _ \<Rightarrow> True | _ \<Rightarrow> False)"

definition pointee :: "program \<Rightarrow> tid \<Rightarrow> tid" where
  "pointee p t = (case type_kind_of p t of KindPointer elem \<Rightarrow> if TypeName (info p t) = [] then elem else t | _ \<Rightarrow> t)"

definition holds_struct :: "program \<Rightarrow> struct_field \<Rightarrow> bool" where
  "holds_struct p sf \<longleftrightarrow> (case type_kind_of p (pointee p (FieldType sf)) of KindStruct _ \<Rightarrow> True | _ \<Rightarrow> False)"

text \<open>
  The fields of an embedded struct count as fields of the struct around it, unless a tag gives the embedded
  struct a name. A field is written if it is exported, or holds a struct that is embedded under a
  name, and is not tagged to be left out.
\<close>

definition embeds :: "program \<Rightarrow> struct_field \<Rightarrow> bool" where
  "embeds p sf \<longleftrightarrow> Anonymous sf \<and> json_tag sf = [] \<and> holds_struct p sf"

definition is_member :: "program \<Rightarrow> struct_field \<Rightarrow> bool" where
  "is_member p sf \<longleftrightarrow> JsonTag sf \<noteq> ''-'' \<and> \<not> embeds p sf \<and> (IsExported sf \<or> Anonymous sf \<and> holds_struct p sf)"

text \<open>
  The struct that a path through embedded structs leads to, and whether a pointer lies on the way; and the
  field at the end of a path.
\<close>

fun struct_at :: "program \<Rightarrow> tid \<Rightarrow> nat list \<Rightarrow> (tid \<times> bool) option" where
  "struct_at p t [] = Some (t, False)"
| "struct_at p t (i # path) =
     (if i < length (fields_of p t) \<and> embeds p (fields_of p t ! i) then
        map_option (\<lambda>(u, behind). (u, behind \<or> unnamed_pointer p (FieldType (fields_of p t ! i))))
          (struct_at p (pointee p (FieldType (fields_of p t ! i))) path)
      else None)"

definition member_at :: "program \<Rightarrow> tid \<Rightarrow> nat list \<Rightarrow> (struct_field \<times> bool) option" where
  "member_at p t index =
     (if index = [] then None
      else
        (case struct_at p t (butlast index) of
           None \<Rightarrow> None
         | Some (u, behind) \<Rightarrow>
             if last index < length (fields_of p u) \<and> is_member p (fields_of p u ! last index)
             then Some (fields_of p u ! last index, behind) else None))"

text \<open>
  Of several fields of one name, the one that is embedded least deeply is written; if there are several of
  those, the one that has its name from a tag, if it is the only one; and otherwise none.
\<close>

definition visible :: "program \<Rightarrow> tid \<Rightarrow> nat list \<Rightarrow> bool" where
  "visible p t index \<longleftrightarrow>
     (\<exists>sf behind. member_at p t index = Some (sf, behind)
        \<and> (\<forall>index' sf' behind'. member_at p t index' = Some (sf', behind') \<longrightarrow> json_name sf' = json_name sf \<longrightarrow> index' \<noteq> index \<longrightarrow>
             length index < length index' \<or> length index = length index' \<and> json_tag sf \<noteq> [] \<and> json_tag sf' = []))"

text \<open>
  The option \<open>string\<close> applies to booleans, numbers and strings, also behind an unnamed pointer, unless the type
  encodes itself; a \<open>json.Number\<close> is quoted although it does.
\<close>

definition is_scalar :: "program \<Rightarrow> tid \<Rightarrow> bool" where
  "is_scalar p t \<longleftrightarrow> (case type_kind_of p t of KindBasic k \<Rightarrow> k \<noteq> KComplex64 \<and> k \<noteq> KComplex128 | _ \<Rightarrow> False)"

definition has_encoder :: "encoder list \<Rightarrow> program \<Rightarrow> tid \<Rightarrow> bool" where
  "has_encoder encoders p t \<longleftrightarrow> list_ex (\<lambda>m. List.member encoders m) (Implements (info p t) @ PointerImplements (info p t))"

definition is_quoted :: "program \<Rightarrow> struct_field \<Rightarrow> bool" where
  "is_quoted p sf \<longleftrightarrow> has_tag_option sf ''string'' \<and> is_scalar p (pointee p (FieldType sf))
     \<and> (pointee p (FieldType sf) = numberID p
        \<or> \<not> has_encoder [JsonMarshaler, JsonMarshalerTo, TextMarshaler, TextAppender] p (FieldType sf))"

definition is_left_out :: "struct_field \<Rightarrow> bool" where
  "is_left_out sf \<longleftrightarrow> has_tag_option sf ''omitempty'' \<or> has_tag_option sf ''omitzero''"

text \<open>
  A struct that several paths of one length lead to embeds nothing itself. For such a struct, the fields of
  what it embeds are reached by several paths as well, so none of them is written; \<open>jsonFields\<close> counts
  that struct only once, see \<open>twice_embedded\<close>.
\<close>

definition repeats_flat :: "program \<Rightarrow> tid \<Rightarrow> bool" where
  "repeats_flat p t \<longleftrightarrow>
     (\<forall>xs ys u b c. struct_at p t xs = Some (u, b) \<longrightarrow> struct_at p t ys = Some (u, c) \<longrightarrow> length xs = length ys \<longrightarrow> xs \<noteq> ys \<longrightarrow>
        (\<forall>sf \<in> set (fields_of p u). \<not> embeds p sf))"

section \<open>One field\<close>

text \<open>What \<open>jsonFields\<close> keeps of a field.\<close>

definition field_for :: "program \<Rightarrow> struct_field \<Rightarrow> bool \<Rightarrow> nat list \<Rightarrow> jsonField" where
  "field_for p sf behind index =
     \<lparr>fieldName = json_name sf, goName = FieldName sf, fieldValueType = FieldType sf, fieldIndex = index,
      isTagged = json_tag sf \<noteq> [], isOptional = behind \<or> is_left_out sf, isQuoted = is_quoted p sf\<rparr>"

lemma field_for_simps [simp]:
  "fieldName (field_for p sf b index) = json_name sf" "fieldIndex (field_for p sf b index) = index"
  "isTagged (field_for p sf b index) = (json_tag sf \<noteq> [])" "fieldValueType (field_for p sf b index) = FieldType sf"
  "isOptional (field_for p sf b index) = (b \<or> is_left_out sf)" "isQuoted (field_for p sf b index) = is_quoted p sf"
  by (simp_all add: field_for_def)

lemma Cut_Split:
  assumes "strings_Cut s c = (name, options, found)"
  shows "name = hd (strings_Split s c)" and "option \<noteq> [] \<Longrightarrow> option \<in> set (strings_Split options c) \<longleftrightarrow> option \<in> set (tl (strings_Split s c))"
proof -
  have "name = hd (strings_Split s c) \<and> (option \<noteq> [] \<longrightarrow> option \<in> set (strings_Split options c) \<longleftrightarrow> option \<in> set (tl (strings_Split s c)))"
  proof (cases "c \<in> set s")
    case True
    then obtain x y where s: "s = x @ c # y" "c \<notin> set x" using split_list_first by metis
    have "\<And>z. z \<in> set x \<Longrightarrow> z \<noteq> c" using s(2) by blast
    then have "takeWhile (\<lambda>z. z \<noteq> c) s = x" "dropWhile (\<lambda>z. z \<noteq> c) s = c # y"
      unfolding s(1) by (simp_all add: takeWhile_append2 dropWhile_append2)
    then show ?thesis using assms True s by (auto simp: strings_Cut_def Split_append_sep)
  next
    case False
    then show ?thesis using assms by (auto simp: strings_Cut_def Split_no_sep)
  qed
  then show "name = hd (strings_Split s c)"
    "option \<noteq> [] \<Longrightarrow> option \<in> set (strings_Split options c) \<longleftrightarrow> option \<in> set (tl (strings_Split s c))" by blast+
qed

lemma tag_Cut:
  assumes "strings_Cut (JsonTag sf) CHR '','' = (name, options, found)"
  shows "name = json_tag sf" and "option \<noteq> [] \<Longrightarrow> hasOption options option \<longleftrightarrow> has_tag_option sf option"
  using Cut_Split [OF assms] by (auto simp: json_tag_def has_tag_option_def tag_parts_def hasOption_def list_ex_iff)

lemma behind_pointer_pointee: "behind_pointer p t = (pointee p t, unnamed_pointer p t)"
  by (simp add: behind_pointer_def pointee_def unnamed_pointer_def split: type_kind.split)

lemma quotable_scalar: "isQuotable p t \<longleftrightarrow> is_scalar p (pointee p t)"
proof -
  have "k \<in> set [KBool, KString, KFloat32, KFloat64] \<or> is_integer_kind k \<longleftrightarrow> k \<noteq> KComplex64 \<and> k \<noteq> KComplex128" for k
    by (cases k) (simp_all add: is_integer_kind_def)
  then show ?thesis by (simp add: isQuotable_def is_scalar_def behind_pointer_pointee split: type_kind.split)
qed

lemma encodesItself_encoder: "encodesItself p t \<longleftrightarrow> has_encoder [JsonMarshaler, JsonMarshalerTo, TextMarshaler, TextAppender] p t"
  by (auto simp: encodesItself_def encodesAsJSON_def encodesAsText_def encodesAsTextOnPointer_def has_encoder_def list_ex_iff)

lemma minus_tag: "JsonTag sf = ''-'' \<Longrightarrow> json_tag sf = ''-''"
  by (simp add: json_tag_def tag_parts_def)

text \<open>What the innermost loop does with a field that it does not refuse.\<close>

lemma step_field_spec:
  assumes "\<And>err. step_field p emb i sf \<noteq> RefuseField err"
  shows "step_field p emb i sf =
    (if embeds p sf then EmbedField (pointee p (FieldType sf)) (unnamed_pointer p (FieldType sf))
     else if is_member p sf then AddField (field_for p sf (isBehindAPointer emb) (embIndex emb @ [i]))
     else SkipField)"
proof -
  obtain name options found where cut: "strings_Cut (JsonTag sf) CHR '','' = (name, options, found)" by (cases "strings_Cut (JsonTag sf) CHR '',''") auto
  have tag: "name = json_tag sf" "hasOption options ''omitempty'' = has_tag_option sf ''omitempty''"
    "hasOption options ''omitzero'' = has_tag_option sf ''omitzero''" "hasOption options ''string'' = has_tag_option sf ''string''"
    using tag_Cut [OF cut] by simp_all
  have struct: "(case type_kind_of p (pointee p (FieldType sf)) of KindStruct _ \<Rightarrow> True | _ \<Rightarrow> False) = holds_struct p sf"
    by (simp add: holds_struct_def)
  have quoted: "(has_tag_option sf ''string'' \<and> isQuotable p (FieldType sf)
      \<and> (isNumber p (FieldType sf) \<or> \<not> encodesItself p (FieldType sf))) = is_quoted p sf"
    by (simp add: is_quoted_def quotable_scalar encodesItself_encoder isNumber_def behind_pointer_pointee)
  note step = step_field_def [of p emb i sf, unfolded behind_pointer_pointee Let_def prod.case cut struct tag quoted]
  have valid: "json_tag sf = [] \<or> isValidTagName p (json_tag sf) \<or> JsonTag sf = ''-''
      \<or> (if Anonymous sf then \<not> IsExported sf \<and> \<not> holds_struct p sf else \<not> IsExported sf)"
    using assms [of "bad_tag_name p (embType emb) (FieldName sf) (json_tag sf)"] unfolding step by (auto split: if_splits)
  show ?thesis
  proof (cases "JsonTag sf = ''-''")
    case True
    then show ?thesis using minus_tag [OF True] by (auto simp: step embeds_def is_member_def)
  next
    case False
    then show ?thesis using valid
      by (auto simp: step embeds_def is_member_def field_for_def json_name_def is_left_out_def split: if_splits)
  qed
qed

section \<open>Paths\<close>

definition leads :: "program \<Rightarrow> tid \<Rightarrow> nat list \<Rightarrow> tid \<Rightarrow> bool" where
  "leads p t path u \<longleftrightarrow> (\<exists>behind. struct_at p t path = Some (u, behind))"

text \<open>The depth of a struct is the length of the shortest path to it. A path may be the only one of its length.\<close>

definition at_depth :: "program \<Rightarrow> tid \<Rightarrow> nat \<Rightarrow> tid \<Rightarrow> bool" where
  "at_depth p t d u \<longleftrightarrow> (\<exists>path. leads p t path u \<and> length path = d) \<and> (\<forall>path. leads p t path u \<longrightarrow> d \<le> length path)"

definition only_path :: "program \<Rightarrow> tid \<Rightarrow> nat list \<Rightarrow> tid \<Rightarrow> bool" where
  "only_path p t path u \<longleftrightarrow> (\<forall>path'. leads p t path' u \<longrightarrow> length path' = length path \<longrightarrow> path' = path)"

lemma struct_at_append:
  "struct_at p t (xs @ ys) =
     (case struct_at p t xs of None \<Rightarrow> None | Some (u, b) \<Rightarrow> map_option (\<lambda>(v, c). (v, b \<or> c)) (struct_at p u ys))"
  by (induction p t xs rule: struct_at.induct)
    (auto simp: option.map_comp comp_def case_prod_beta option.map_id split: option.split intro!: option.map_cong)

lemma leads_Nil [simp]: "leads p t [] u \<longleftrightarrow> u = t"
  by (auto simp: leads_def)

lemma leads_append: "leads p t (xs @ ys) u \<longleftrightarrow> (\<exists>v. leads p t xs v \<and> leads p v ys u)"
  by (auto simp: leads_def struct_at_append split: option.split prod.split)

lemma leads_snoc:
  "leads p t (xs @ [i]) u \<longleftrightarrow>
     (\<exists>v. leads p t xs v \<and> i < length (fields_of p v) \<and> embeds p (fields_of p v ! i) \<and> u = pointee p (FieldType (fields_of p v ! i)))"
  unfolding leads_append by (auto simp: leads_def)

lemma leads_unique: "leads p t xs u \<Longrightarrow> leads p t xs v \<Longrightarrow> u = v"
  by (auto simp: leads_def)

lemma at_depth_unique: "at_depth p t d u \<Longrightarrow> at_depth p t e u \<Longrightarrow> d = e"
  unfolding at_depth_def by (metis le_antisym)

lemma at_depth_exists:
  assumes "leads p t path u"
  shows "\<exists>d \<le> length path. at_depth p t d u"
proof -
  let ?P = "\<lambda>d. \<exists>path. leads p t path u \<and> length path = d"
  have "?P (length path)" using assms by blast
  then have "?P (LEAST d. ?P d)" "(LEAST d. ?P d) \<le> length path" by (rule LeastI, rule Least_le)
  moreover have "(LEAST d. ?P d) \<le> length path'" if "leads p t path' u" for path' using that by (intro Least_le) blast
  ultimately show ?thesis unfolding at_depth_def by blast
qed

text \<open>A shortest path is a shortest path to every struct on the way.\<close>

lemma at_depth_prefix:
  assumes "at_depth p t (length (xs @ ys)) u" and "leads p t xs v" and "leads p v ys u"
  shows "at_depth p t (length xs) v"
proof -
  have "length xs \<le> length path" if "leads p t path v" for path
  proof -
    have "leads p t (path @ ys) u" using that assms(3) leads_append by blast
    then have "length (xs @ ys) \<le> length (path @ ys)" using assms(1) unfolding at_depth_def by blast
    then show ?thesis by simp
  qed
  then show ?thesis using assms(2) unfolding at_depth_def by blast
qed

lemma at_depth_below:
  assumes "at_depth p t e u" and "d \<le> e"
  shows "\<exists>v. at_depth p t d v"
proof -
  obtain path where path: "leads p t path u" "length path = e" using assms(1) by (auto simp: at_depth_def)
  have split: "path = take d path @ drop d path" by simp
  then obtain v where v: "leads p t (take d path) v" "leads p v (drop d path) u" using path(1) leads_append by metis
  have "at_depth p t (length (take d path @ drop d path)) u" using assms(1) path(2) by simp
  from at_depth_prefix [OF this v] show ?thesis using path(2) assms(2) by auto
qed

section \<open>One depth of the walk\<close>

text \<open>The structs that a struct embeds, and the fields it adds, from the field \<open>i\<close> on.\<close>

definition sites_from :: "program \<Rightarrow> embedding \<Rightarrow> nat \<Rightarrow> embedding list" where
  "sites_from p emb i =
     map (\<lambda>j. let sf = fields_of p (embType emb) ! j in
         \<lparr>embType = pointee p (FieldType sf), embIndex = embIndex emb @ [j],
          isBehindAPointer = isBehindAPointer emb \<or> unnamed_pointer p (FieldType sf)\<rparr>)
       (filter (\<lambda>j. embeds p (fields_of p (embType emb) ! j)) [i..<length (fields_of p (embType emb))])"

definition member_of :: "program \<Rightarrow> embedding \<Rightarrow> nat \<Rightarrow> jsonField" where
  "member_of p emb j = field_for p (fields_of p (embType emb) ! j) (isBehindAPointer emb) (embIndex emb @ [j])"

definition members_from :: "program \<Rightarrow> (tid \<Rightarrow> nat) \<Rightarrow> embedding \<Rightarrow> nat \<Rightarrow> jsonField list" where
  "members_from p counts emb i =
     concat (map (\<lambda>j. if 1 < counts (embType emb) then [member_of p emb j, member_of p emb j] else [member_of p emb j])
       (filter (\<lambda>j. is_member p (fields_of p (embType emb) ! j)) [i..<length (fields_of p (embType emb))]))"

fun add_site :: "embedding list \<times> (tid \<Rightarrow> nat) \<Rightarrow> embedding \<Rightarrow> embedding list \<times> (tid \<Rightarrow> nat)" where
  "add_site (queue, c) emb = (if c (embType emb) = 0 then queue @ [emb] else queue, c(embType emb := c (embType emb) + 1))"

lemma from_step:
  assumes "i < length (fields_of p (embType emb))"
  shows "sites_from p emb i =
      (let sf = fields_of p (embType emb) ! i in
       (if embeds p sf then [\<lparr>embType = pointee p (FieldType sf), embIndex = embIndex emb @ [i],
          isBehindAPointer = isBehindAPointer emb \<or> unnamed_pointer p (FieldType sf)\<rparr>] else []) @ sites_from p emb (i + 1))"
    and "members_from p counts emb i =
      (if is_member p (fields_of p (embType emb) ! i)
       then (if 1 < counts (embType emb) then [member_of p emb i, member_of p emb i] else [member_of p emb i]) else [])
      @ members_from p counts emb (i + 1)"
  using assms by (simp_all add: sites_from_def members_from_def upt_conv_Cons Let_def)

lemma walk_fields_spec:
  assumes "walk_fields p counts emb i sfs (q, c, cands) = Inr (q', c', cands')"
    and "fields_of p (embType emb) = pre @ sfs" and "i = length pre"
  shows "(q', c') = foldl add_site (q, c) (sites_from p emb i) \<and> cands' = cands @ members_from p counts emb i"
  using assms
proof (induction sfs arbitrary: i q c cands pre)
  case Nil
  then show ?case by (simp add: sites_from_def members_from_def)
next
  case (Cons sf sfs)
  have here: "i < length (fields_of p (embType emb))" "fields_of p (embType emb) ! i = sf"
    "fields_of p (embType emb) = (pre @ [sf]) @ sfs" "i + 1 = length (pre @ [sf])"
    using Cons.prems(2,3) by simp_all
  note later = Cons.IH [OF _ here(3,4), unfolded Suc_eq_plus1 [symmetric]]
  have "step_field p emb i sf \<noteq> RefuseField err" for err using Cons.prems(1) by auto
  note step = step_field_spec [OF this]
  note from_i = from_step [OF here(1), unfolded here(2)]
  consider "embeds p sf" | "\<not> embeds p sf" "is_member p sf" | "\<not> embeds p sf" "\<not> is_member p sf" by blast
  then show ?case
  proof cases
    case 1
    then have "\<not> is_member p sf" by (simp add: is_member_def)
    then show ?thesis using Cons.prems(1) later 1 by (auto simp: step from_i Let_def fun_upd_def split: if_splits)
  next
    case 2
    then show ?thesis using Cons.prems(1) by (auto simp: step from_i Let_def member_of_def here(2) split: if_splits dest!: later)
  next
    case 3
    then show ?thesis using Cons.prems(1) later by (simp add: step from_i Let_def)
  qed
qed

definition walked :: "tid list \<Rightarrow> embedding list \<Rightarrow> embedding list" where
  "walked visited current = filter (\<lambda>emb. embType emb \<notin> set visited) current"

lemma walk_level_spec:
  assumes "walk_level p counts current visited (q, c, cands) = Inr (visited', q', c', cands')" and "distinct (map embType current)"
  shows "(q', c') = foldl add_site (q, c) (concat (map (\<lambda>emb. sites_from p emb 0) (walked visited current)))
    \<and> cands' = cands @ concat (map (\<lambda>emb. members_from p counts emb 0) (walked visited current))
    \<and> set visited' = set visited \<union> embType ` set (walked visited current)"
  using assms
proof (induction current arbitrary: visited q c cands)
  case (Cons emb current)
  show ?case
  proof (cases "embType emb \<in> set visited")
    case True
    then show ?thesis using Cons by (simp add: walked_def)
  next
    case False
    then obtain q1 c1 cands1 where fields: "walk_fields p counts emb 0 (fields_of p (embType emb)) (q, c, cands) = Inr (q1, c1, cands1)"
      and rest: "walk_level p counts current (embType emb # visited) (q1, c1, cands1) = Inr (visited', q', c', cands')"
      using Cons.prems(1) by (auto split: sum.splits)
    have "walked (embType emb # visited) current = walked visited current"
      using Cons.prems(2) unfolding walked_def by (intro filter_cong) (auto simp: image_iff)
    then have "walked visited (emb # current) = emb # walked visited current"
      "walked (embType emb # visited) current = walked visited current" using False by (simp_all add: walked_def)
    then show ?thesis
      using Cons.IH [OF rest] Cons.prems(2) walk_fields_spec [OF fields, of "[]"] by auto
  qed
qed (simp add: walked_def)

lemma add_sites_spec:
  assumes "foldl add_site ([], (\<lambda>_. 0)) sites = (q, c)"
  shows "distinct (map embType q) \<and> set q \<subseteq> set sites \<and> embType ` set q = embType ` set sites
    \<and> (\<forall>u. c u = length (filter (\<lambda>emb. embType emb = u) sites))"
  using assms
proof (induction sites arbitrary: q c rule: rev_induct)
  case (snoc emb sites)
  obtain q0 c0 where before: "foldl add_site ([], (\<lambda>_. 0)) sites = (q0, c0)" by fastforce
  note IH = snoc.IH [OF before]
  have "c0 (embType emb) = 0 \<longleftrightarrow> embType emb \<notin> embType ` set q0" using IH by (fastforce simp: filter_empty_conv image_iff)
  then have q: "q = (if embType emb \<in> embType ` set q0 then q0 else q0 @ [emb])" and c: "c = c0(embType emb := c0 (embType emb) + 1)"
    using snoc.prems before by auto
  have "distinct (map embType q) \<and> set q \<subseteq> set (sites @ [emb]) \<and> embType ` set q = embType ` set (sites @ [emb])"
    using IH unfolding q by auto
  moreover have "\<forall>u. c u = length (filter (\<lambda>emb. embType emb = u) (sites @ [emb]))" using IH unfolding c by simp
  ultimately show ?case by blast
qed simp

section \<open>The walk\<close>

text \<open>What holds before each depth: of the structs to walk through, and of the fields found so far.\<close>

definition level_ok :: "program \<Rightarrow> tid \<Rightarrow> nat \<Rightarrow> tid list \<Rightarrow> embedding list \<Rightarrow> (tid \<Rightarrow> nat) \<Rightarrow> bool" where
  "level_ok p t d visited current counts \<longleftrightarrow>
     (\<forall>u. u \<in> set visited \<longleftrightarrow> (\<exists>path. leads p t path u \<and> length path < d))
     \<and> distinct (map embType current)
     \<and> (\<forall>emb \<in> set current. struct_at p t (embIndex emb) = Some (embType emb, isBehindAPointer emb) \<and> length (embIndex emb) = d)
     \<and> (\<forall>u. at_depth p t d u \<longrightarrow> u \<in> embType ` set current)
     \<and> (\<forall>emb \<in> set current. at_depth p t d (embType emb) \<longrightarrow>
          (counts (embType emb) \<le> 1 \<longleftrightarrow> only_path p t (embIndex emb) (embType emb)))"

definition found_ok :: "program \<Rightarrow> tid \<Rightarrow> jsonField list \<Rightarrow> jsonField \<Rightarrow> bool" where
  "found_ok p t candidates f \<longleftrightarrow>
     (\<exists>u b sf. fieldIndex f \<noteq> [] \<and> struct_at p t (butlast (fieldIndex f)) = Some (u, b)
        \<and> at_depth p t (length (fieldIndex f) - 1) u \<and> member_at p t (fieldIndex f) = Some (sf, b)
        \<and> f = field_for p sf b (fieldIndex f)
        \<and> (count_list candidates f \<le> 1 \<longleftrightarrow> only_path p t (butlast (fieldIndex f)) u))"

definition found_all :: "program \<Rightarrow> tid \<Rightarrow> nat \<Rightarrow> jsonField list \<Rightarrow> bool" where
  "found_all p t d candidates \<longleftrightarrow>
     (\<forall>f \<in> set candidates. found_ok p t candidates f \<and> length (fieldIndex f) \<le> d)
     \<and> (\<forall>u e i. e < d \<longrightarrow> at_depth p t e u \<longrightarrow> i < length (fields_of p u) \<longrightarrow> is_member p (fields_of p u ! i) \<longrightarrow>
          (\<exists>f \<in> set candidates. leads p t (butlast (fieldIndex f)) u \<and> length (fieldIndex f) = Suc e \<and> last (fieldIndex f) = i))
     \<and> sorted (map (length \<circ> fieldIndex) candidates)"

lemma walked_depth:
  assumes "level_ok p t d visited current counts"
  shows "emb \<in> set (walked visited current) \<longleftrightarrow> emb \<in> set current \<and> at_depth p t d (embType emb)"
proof -
  have "embType emb \<notin> set visited \<longleftrightarrow> at_depth p t d (embType emb)" if "emb \<in> set current"
  proof -
    have "leads p t (embIndex emb) (embType emb)" "length (embIndex emb) = d" using assms that by (auto simp: level_ok_def leads_def)
    then show ?thesis using assms unfolding level_ok_def at_depth_def by (metis not_le)
  qed
  then show ?thesis by (auto simp: walked_def)
qed

lemma walked_at_depth:
  assumes "level_ok p t d visited current counts" and "at_depth p t d u"
  obtains emb where "emb \<in> set (walked visited current)" "embType emb = u"
proof -
  have "u \<in> embType ` set current" using assms unfolding level_ok_def by blast
  then show ?thesis using that walked_depth [OF assms(1)] assms(2) by blast
qed

lemma walked_props:
  assumes "level_ok p t d visited current counts" and "emb \<in> set (walked visited current)"
  shows "struct_at p t (embIndex emb) = Some (embType emb, isBehindAPointer emb)" "length (embIndex emb) = d"
    "leads p t (embIndex emb) (embType emb)" "at_depth p t d (embType emb)"
    "counts (embType emb) \<le> 1 \<longleftrightarrow> only_path p t (embIndex emb) (embType emb)"
proof -
  have "emb \<in> set current" "at_depth p t d (embType emb)" using assms walked_depth by blast+
  then show "struct_at p t (embIndex emb) = Some (embType emb, isBehindAPointer emb)" "length (embIndex emb) = d"
    "leads p t (embIndex emb) (embType emb)" "at_depth p t d (embType emb)"
    "counts (embType emb) \<le> 1 \<longleftrightarrow> only_path p t (embIndex emb) (embType emb)"
    using assms(1) unfolding level_ok_def leads_def by auto
qed

lemma walked_unique:
  assumes "level_ok p t d visited current counts" and "emb \<in> set (walked visited current)" "emb' \<in> set (walked visited current)"
    and "embType emb = embType emb' \<or> embIndex emb = embIndex emb'"
  shows "emb = emb'"
proof -
  have same: "embType emb = embType emb'" using assms(4) walked_props(1) [OF assms(1,2)] walked_props(1) [OF assms(1,3)] by auto
  have "inj_on embType (set current)" using assms(1) by (simp add: level_ok_def distinct_map)
  then show ?thesis using same assms(2,3) by (auto simp: walked_def inj_on_def)
qed

lemma visited_next:
  assumes "level_ok p t d visited current counts"
  shows "u \<in> set visited \<union> embType ` set (walked visited current) \<longleftrightarrow> (\<exists>path. leads p t path u \<and> length path < Suc d)"
proof
  assume "u \<in> set visited \<union> embType ` set (walked visited current)"
  then show "\<exists>path. leads p t path u \<and> length path < Suc d"
  proof
    assume "u \<in> set visited"
    then show ?thesis using assms unfolding level_ok_def by (meson less_SucI)
  next
    assume "u \<in> embType ` set (walked visited current)"
    then show ?thesis using walked_props(2,3) [OF assms] by auto
  qed
next
  assume "\<exists>path. leads p t path u \<and> length path < Suc d"
  then obtain path where path: "leads p t path u" "length path \<le> d" by auto
  show "u \<in> set visited \<union> embType ` set (walked visited current)"
  proof (cases "u \<in> set visited")
    case False
    then have "\<not> length path' < d" if "leads p t path' u" for path' using that assms unfolding level_ok_def by blast
    then have "at_depth p t d u" using path unfolding at_depth_def by (metis le_antisym not_less)
    then show ?thesis using walked_at_depth [OF assms] by blast
  qed simp
qed

lemma distinct_concat_map:
  assumes "distinct xs" and "\<And>x. x \<in> set xs \<Longrightarrow> distinct (g x)"
    and "\<And>x y. x \<in> set xs \<Longrightarrow> y \<in> set xs \<Longrightarrow> x \<noteq> y \<Longrightarrow> set (g x) \<inter> set (g y) = {}"
  shows "distinct (concat (map g xs))"
  using assms by (induction xs) fastforce+

lemma count_concat_map:
  assumes "distinct xs" and "x \<in> set xs" and "\<And>y. y \<in> set xs \<Longrightarrow> y \<noteq> x \<Longrightarrow> f \<notin> set (g y)"
  shows "count_list (concat (map g xs)) f = count_list (g x) f"
proof -
  obtain ys zs where xs: "xs = ys @ x # zs" using assms(2) split_list by metis
  then have "f \<notin> set (concat (map g ys))" "f \<notin> set (concat (map g zs))" using assms(1,3) by fastforce+
  then show ?thesis unfolding xs by (simp add: count_list_0_iff [THEN iffD2])
qed

text \<open>The structs of the next depth.\<close>

definition sites :: "program \<Rightarrow> tid list \<Rightarrow> embedding list \<Rightarrow> embedding list" where
  "sites p visited current = concat (map (\<lambda>emb. sites_from p emb 0) (walked visited current))"

lemma in_sites:
  "site \<in> set (sites p visited current) \<longleftrightarrow>
     (\<exists>emb \<in> set (walked visited current). \<exists>i < length (fields_of p (embType emb)). embeds p (fields_of p (embType emb) ! i)
        \<and> site = \<lparr>embType = pointee p (FieldType (fields_of p (embType emb) ! i)), embIndex = embIndex emb @ [i],
            isBehindAPointer = isBehindAPointer emb \<or> unnamed_pointer p (FieldType (fields_of p (embType emb) ! i))\<rparr>)"
  by (auto simp: sites_def sites_from_def Let_def)

lemma site_props:
  assumes "level_ok p t d visited current counts" and "site \<in> set (sites p visited current)"
  shows "struct_at p t (embIndex site) = Some (embType site, isBehindAPointer site)" "length (embIndex site) = Suc d"
  using assms(2) walked_props(1,2) [OF assms(1)] unfolding in_sites by (auto simp: struct_at_append)

lemma distinct_sites:
  assumes "level_ok p t d visited current counts"
  shows "distinct (map embIndex (sites p visited current))"
proof -
  have "distinct (walked visited current)"
    using assms distinct_filter by (auto simp: level_ok_def walked_def distinct_map)
  moreover have "distinct (map embIndex (sites_from p emb 0))" for emb
    by (auto simp: sites_from_def distinct_map inj_on_def Let_def)
  moreover have "embIndex ` set (sites_from p emb 0) \<inter> embIndex ` set (sites_from p emb' 0) = {}"
    if "emb \<in> set (walked visited current)" "emb' \<in> set (walked visited current)" "emb \<noteq> emb'" for emb emb'
    using walked_unique [OF assms that(1,2)] that(3) by (auto simp: sites_from_def Let_def)
  ultimately have "distinct (concat (map (\<lambda>emb. map embIndex (sites_from p emb 0)) (walked visited current)))"
    by (intro distinct_concat_map) (auto simp: Int_commute)
  then show ?thesis by (simp add: sites_def map_concat comp_def)
qed

lemma site_for:
  assumes "level_ok p t d visited current counts" and "at_depth p t (Suc d) u" and "leads p t path u" and "length path = Suc d"
  obtains xs i emb where "path = xs @ [i]" "length xs = d" "emb \<in> set (walked visited current)" "leads p t xs (embType emb)"
    "i < length (fields_of p (embType emb))" "embeds p (fields_of p (embType emb) ! i)"
    "u = pointee p (FieldType (fields_of p (embType emb) ! i))"
proof -
  obtain xs i where path: "path = xs @ [i]" "length xs = d" using assms(4) by (cases path rule: rev_cases) auto
  then obtain v where v: "leads p t xs v" "i < length (fields_of p v)" "embeds p (fields_of p v ! i)"
    "u = pointee p (FieldType (fields_of p v ! i))" using assms(3) leads_snoc by blast
  have "leads p v [i] u" using v leads_snoc [of p v "[]"] by simp
  then have "at_depth p t d v" using at_depth_prefix [of p t xs "[i]" u v] assms(2) path v(1) by simp
  then obtain emb where "emb \<in> set (walked visited current)" "embType emb = v" using walked_at_depth [OF assms(1)] by blast
  then show ?thesis using that path v by blast
qed

lemma site_path:
  assumes "level_ok p t d visited current counts" and "repeats_flat p t" and "at_depth p t (Suc d) u"
    and "leads p t path u" and "length path = Suc d"
  shows "\<exists>site \<in> set (sites p visited current). embType site = u \<and> embIndex site = path"
proof -
  from site_for [OF assms(1,3-5)] obtain xs i emb where path: "path = xs @ [i]" "length xs = d"
    and emb: "emb \<in> set (walked visited current)" "leads p t xs (embType emb)"
    and i: "i < length (fields_of p (embType emb))" "embeds p (fields_of p (embType emb) ! i)"
      "u = pointee p (FieldType (fields_of p (embType emb) ! i))" by metis
  have "xs = embIndex emb"
  proof (rule ccontr)
    assume "xs \<noteq> embIndex emb"
    then have "\<forall>sf \<in> set (fields_of p (embType emb)). \<not> embeds p sf"
      using assms(2) emb(2) walked_props(1,2) [OF assms(1) emb(1)] path(2) unfolding repeats_flat_def leads_def by metis
    then show False using i(1,2) by auto
  qed
  let ?site = "\<lparr>embType = u, embIndex = path,
    isBehindAPointer = isBehindAPointer emb \<or> unnamed_pointer p (FieldType (fields_of p (embType emb) ! i))\<rparr>"
  have "?site \<in> set (sites p visited current)" unfolding in_sites using \<open>xs = embIndex emb\<close> path(1) emb(1) i by blast
  then show ?thesis by (rule bexI [rotated]) simp
qed

lemma level_next:
  assumes ok: "level_ok p t d visited current counts" and flat: "repeats_flat p t"
    and q: "foldl add_site ([], (\<lambda>_. 0)) (sites p visited current) = (q, c)"
    and v: "set visited' = set visited \<union> embType ` set (walked visited current)"
  shows "level_ok p t (Suc d) visited' q c"
proof -
  let ?sites = "sites p visited current" and ?at = "\<lambda>u. filter (\<lambda>emb. embType emb = u) (sites p visited current)"
  note q = add_sites_spec [OF q]
  have sites: "struct_at p t (embIndex site) = Some (embType site, isBehindAPointer site) \<and> length (embIndex site) = Suc d"
    if "site \<in> set ?sites" for site
    using site_props [OF ok that] by blast
  have all: "u \<in> embType ` set q" if depth: "at_depth p t (Suc d) u" for u
  proof -
    obtain path where "leads p t path u" "length path = Suc d" using depth by (auto simp: at_depth_def)
    then show ?thesis using site_path [OF ok flat depth] q by fastforce
  qed
  have "c (embType emb) \<le> 1 \<longleftrightarrow> only_path p t (embIndex emb) (embType emb)"
    if emb: "emb \<in> set q" and depth: "at_depth p t (Suc d) (embType emb)" for emb
  proof -
    have mem: "emb \<in> set ?sites" using q emb by blast
    have c: "c (embType emb) = length (?at (embType emb))" using q by blast
    show ?thesis
    proof
      assume "c (embType emb) \<le> 1"
      moreover have "emb \<in> set (?at (embType emb))" using mem by simp
      ultimately have one: "?at (embType emb) = [emb]" unfolding c by (cases "?at (embType emb)") (simp_all del: filter.simps)
      have "path = embIndex emb" if path: "leads p t path (embType emb)" "length path = length (embIndex emb)" for path
      proof -
        obtain site where "site \<in> set ?sites" "embType site = embType emb" "embIndex site = path"
          using site_path [OF ok flat depth path(1)] path(2) sites [OF mem] by auto
        then have "site \<in> set (?at (embType emb))" "embIndex site = path" by auto
        then show ?thesis unfolding one by simp
      qed
      then show "only_path p t (embIndex emb) (embType emb)" by (simp add: only_path_def)
    next
      assume only: "only_path p t (embIndex emb) (embType emb)"
      have "embIndex site = embIndex emb" if "site \<in> set (?at (embType emb))" for site
        using that only sites [of site] sites [OF mem] by (auto simp: only_path_def leads_def)
      then have "set (map embIndex (?at (embType emb))) \<subseteq> {embIndex emb}" by auto
      then have "card (set (map embIndex (?at (embType emb)))) \<le> 1" using card_mono [of "{embIndex emb}"] by fastforce
      moreover have "distinct (map embIndex (?at (embType emb)))" using distinct_sites [OF ok] by (rule List.distinct_map_filter)
      ultimately show "c (embType emb) \<le> 1" unfolding c using distinct_card [of "map embIndex (?at (embType emb))"] by simp
    qed
  qed
  then show ?thesis using q sites all visited_next [OF ok] unfolding level_ok_def v by auto
qed

text \<open>The fields of one depth.\<close>

definition members :: "program \<Rightarrow> (tid \<Rightarrow> nat) \<Rightarrow> tid list \<Rightarrow> embedding list \<Rightarrow> jsonField list" where
  "members p counts visited current = concat (map (\<lambda>emb. members_from p counts emb 0) (walked visited current))"

lemma in_members_from:
  "f \<in> set (members_from p counts emb 0) \<longleftrightarrow>
     (\<exists>i < length (fields_of p (embType emb)). is_member p (fields_of p (embType emb) ! i) \<and> f = member_of p emb i)"
  by (auto simp: members_from_def)

lemma count_members_from:
  assumes "i < length (fields_of p (embType emb))" and "is_member p (fields_of p (embType emb) ! i)"
  shows "count_list (members_from p counts emb 0) (member_of p emb i) = (if 1 < counts (embType emb) then 2 else 1)"
proof -
  have "member_of p emb i \<noteq> member_of p emb j" if "j \<noteq> i" for j
  proof -
    have "fieldIndex (member_of p emb i) \<noteq> fieldIndex (member_of p emb j)" using that by (simp add: member_of_def)
    then show ?thesis by metis
  qed
  then show ?thesis
    unfolding members_from_def using assms
    by (subst count_concat_map [where x = i]) (auto split: if_splits)
qed

lemma member_props:
  assumes "level_ok p t d visited current counts" and "f \<in> set (members p counts visited current)"
  obtains emb i where "emb \<in> set (walked visited current)" "i < length (fields_of p (embType emb))"
    "is_member p (fields_of p (embType emb) ! i)" "f = member_of p emb i" "fieldIndex f = embIndex emb @ [i]" "length (fieldIndex f) = Suc d"
    "member_at p t (fieldIndex f) = Some (fields_of p (embType emb) ! i, isBehindAPointer emb)"
    "count_list (members p counts visited current) f = (if 1 < counts (embType emb) then 2 else 1)"
proof -
  obtain emb i where f: "emb \<in> set (walked visited current)" "i < length (fields_of p (embType emb))"
    "is_member p (fields_of p (embType emb) ! i)" "f = member_of p emb i"
    using assms(2) by (auto simp: members_def in_members_from)
  note emb = walked_props [OF assms(1) f(1)]
  have index: "fieldIndex f = embIndex emb @ [i]" using f(4) by (simp add: member_of_def)
  have "f \<notin> set (members_from p counts emb' 0)" if "emb' \<in> set (walked visited current)" "emb' \<noteq> emb" for emb'
    using walked_unique [OF assms(1) f(1) that(1)] that(2) index by (auto simp: in_members_from member_of_def)
  moreover have "distinct (walked visited current)" using assms(1) by (auto simp: level_ok_def walked_def distinct_map)
  ultimately have "count_list (members p counts visited current) f = count_list (members_from p counts emb 0) f"
    unfolding members_def by (intro count_concat_map f(1))
  then have "count_list (members p counts visited current) f = (if 1 < counts (embType emb) then 2 else 1)"
    using count_members_from [OF f(2,3)] f(4) by simp
  moreover have "member_at p t (fieldIndex f) = Some (fields_of p (embType emb) ! i, isBehindAPointer emb)"
    using emb(1) f(2,3) index by (simp add: member_at_def)
  ultimately show ?thesis using that f index emb(2) by simp
qed

lemma found_ok_count: "count_list cs f = count_list cs' f \<Longrightarrow> found_ok p t cs f \<longleftrightarrow> found_ok p t cs' f"
  by (simp add: found_ok_def)

lemma found_next:
  assumes ok: "level_ok p t d visited current counts" and found: "found_all p t d candidates"
  shows "found_all p t (Suc d) (candidates @ members p counts visited current)"
proof -
  let ?new = "members p counts visited current"
  have new: "f \<notin> set candidates" if "f \<in> set ?new" for f
    using member_props [OF ok that] found unfolding found_all_def by (metis not_less_eq_eq order_refl)
  have old: "found_ok p t (candidates @ ?new) f \<and> length (fieldIndex f) \<le> Suc d" if f: "f \<in> set candidates" for f
  proof -
    have "count_list ?new f = 0" using new f by (auto simp: count_list_0_iff)
    then show ?thesis using found f found_ok_count [of candidates f "candidates @ ?new"] unfolding found_all_def by auto
  qed
  have "found_ok p t (candidates @ ?new) f \<and> length (fieldIndex f) \<le> Suc d" if f: "f \<in> set ?new" for f
  proof (rule member_props [OF ok f])
    fix emb i
    assume emb: "emb \<in> set (walked visited current)" "f = member_of p emb i" "fieldIndex f = embIndex emb @ [i]"
      and len: "length (fieldIndex f) = Suc d"
      and at: "member_at p t (fieldIndex f) = Some (fields_of p (embType emb) ! i, isBehindAPointer emb)"
      and count: "count_list ?new f = (if 1 < counts (embType emb) then 2 else 1)"
    note w = walked_props [OF ok emb(1)]
    have "count_list candidates f = 0" using new [OF f] by (simp add: count_list_0_iff)
    then have "count_list (candidates @ ?new) f \<le> 1 \<longleftrightarrow> only_path p t (butlast (fieldIndex f)) (embType emb)"
      using count w(5) emb(3) by auto
    then show ?thesis
      using w(1,2,4) at len emb(2,3) unfolding found_ok_def member_of_def by auto
  qed
  moreover have "\<exists>f \<in> set (candidates @ ?new). leads p t (butlast (fieldIndex f)) u \<and> length (fieldIndex f) = Suc e \<and> last (fieldIndex f) = i"
    if e: "e < Suc d" "at_depth p t e u" and i: "i < length (fields_of p u)" "is_member p (fields_of p u ! i)" for u e i
  proof (cases "e = d")
    case True
    then obtain emb where emb: "emb \<in> set (walked visited current)" "embType emb = u" using e(2) walked_at_depth [OF ok] by blast
    have "member_of p emb i \<in> set ?new" using emb i by (auto simp: members_def in_members_from)
    moreover have "fieldIndex (member_of p emb i) = embIndex emb @ [i]" by (simp add: member_of_def)
    ultimately show ?thesis using walked_props(2,3) [OF ok emb(1)] emb(2) True by (intro bexI [of _ "member_of p emb i"]) auto
  next
    case False
    then have "e < d" using e(1) by simp
    then have "\<exists>f \<in> set candidates. leads p t (butlast (fieldIndex f)) u \<and> length (fieldIndex f) = Suc e \<and> last (fieldIndex f) = i"
      using found e(2) i unfolding found_all_def by blast
    then show ?thesis by auto
  qed
  moreover have "sorted (map (length \<circ> fieldIndex) (candidates @ ?new))"
  proof -
    have "length (fieldIndex f) = Suc d" if "f \<in> set ?new" for f using member_props [OF ok that] by metis
    then have "map (length \<circ> fieldIndex) ?new = replicate (length ?new) (Suc d)" by (intro replicate_eqI) auto
    moreover have "\<forall>f \<in> set candidates. length (fieldIndex f) \<le> Suc d" using old by blast
    ultimately show ?thesis using found by (auto simp: found_all_def sorted_append)
  qed
  ultimately show ?thesis using old unfolding found_all_def by auto
qed

lemma walk_spec:
  assumes "walk p visited current counts candidates = Inr cs" and "level_ok p t d visited current counts" and "repeats_flat p t"
    and "found_all p t d candidates"
  shows "\<exists>d'. found_all p t d' cs \<and> (\<forall>u e. at_depth p t e u \<longrightarrow> e < d')"
  using assms
proof (induction p visited current counts candidates arbitrary: d rule: walk.induct)
  case (1 p visited current counts candidates)
  show ?case
  proof (cases "current = []")
    case True
    then have "\<not> at_depth p t d u" for u using 1(3) by (simp add: level_ok_def)
    then have "e < d" if "at_depth p t e u" for u e using at_depth_below [OF that] not_less by blast
    moreover have "cs = candidates" using True 1(2) by (simp add: walk.simps)
    ultimately show ?thesis using 1(5) by blast
  next
    case False
    then obtain v q c cands where l: "walk_level p counts current visited ([], (\<lambda>_. 0), candidates) = Inr (v, q, c, cands)"
      and rest: "walk p v q c cands = Inr cs"
      using 1(2) by (auto simp: walk.simps [of p visited current] split: sum.splits)
    have "distinct (map embType current)" using 1(3) by (simp add: level_ok_def)
    note level = walk_level_spec [OF l this, folded sites_def members_def]
    have "level_ok p t (Suc d) v q c" using level by (intro level_next [OF 1(3,4)]) simp_all
    moreover have "found_all p t (Suc d) cands" using level found_next [OF 1(3,5)] by simp
    ultimately show ?thesis using 1(1) [OF False l _ _ _ rest _ 1(4)] by blast
  qed
qed

lemma walk_starts:
  "level_ok p t 0 [] [\<lparr>embType = t, embIndex = [], isBehindAPointer = False\<rparr>] ((\<lambda>_. 0)(t := 1))" "found_all p t 0 []"
  by (auto simp: level_ok_def found_all_def at_depth_def only_path_def leads_def)

section \<open>The field that wins\<close>

lemma count_list_filter: "count_list (filter P xs) x = (if P x then count_list xs x else 0)"
  by (induction xs) auto

lemma count_one: "count_list xs x = 1 \<Longrightarrow> set xs \<subseteq> {x} \<Longrightarrow> xs = [x]"
  by (cases xs) (auto simp: count_list_0_iff, metis list.set_intros(1) neq_Nil_conv singletonD subsetD)

text \<open>What \<open>dominantField\<close> picks of fields that are given from the least deeply embedded one on.\<close>

definition beats :: "jsonField \<Rightarrow> jsonField \<Rightarrow> bool" where
  "beats f g \<longleftrightarrow> length (fieldIndex f) < length (fieldIndex g)
     \<or> length (fieldIndex f) = length (fieldIndex g) \<and> isTagged f \<and> \<not> isTagged g"

lemma dominantField_iff:
  assumes "sorted (map (length \<circ> fieldIndex) fs)" and "fs \<noteq> []"
  shows "dominantField fs = Some f \<longleftrightarrow> count_list fs f = 1 \<and> (\<forall>g \<in> set fs. g \<noteq> f \<longrightarrow> beats f g)"
proof -
  let ?depth = "length (fieldIndex (hd fs))"
  let ?shallowest = "filter (\<lambda>g. length (fieldIndex g) = ?depth) fs"
  let ?tagged = "filter isTagged ?shallowest"
  have least: "?depth \<le> length (fieldIndex g)" if "g \<in> set fs" for g using assms that by (cases fs) auto
  have one: "xs = [f] \<longleftrightarrow> hd xs = f" if "length xs = 1" for xs :: "jsonField list" using that by (cases xs) auto
  have dominant: "dominantField fs = Some f \<longleftrightarrow> ?shallowest = [f] \<or> length ?shallowest \<noteq> 1 \<and> ?tagged = [f]"
    using one [of ?shallowest] one [of ?tagged] by (auto simp: dominantField_def Let_def)
  show ?thesis
  proof
    assume "dominantField fs = Some f"
    then consider "?shallowest = [f]" | "?tagged = [f]" unfolding dominant by blast
    then show "count_list fs f = 1 \<and> (\<forall>g \<in> set fs. g \<noteq> f \<longrightarrow> beats f g)"
    proof cases
      case 1
      then have f: "length (fieldIndex f) = ?depth" "count_list ?shallowest f = 1" by (auto simp: filter_eq_Cons_iff)
      have "length (fieldIndex g) \<noteq> ?depth" if "g \<in> set fs" "g \<noteq> f" for g
      proof
        assume "length (fieldIndex g) = ?depth"
        then have "g \<in> set ?shallowest" using that(1) by simp
        then show False using that(2) unfolding 1 by simp
      qed
      then have "\<forall>g \<in> set fs. g \<noteq> f \<longrightarrow> beats f g" using least f(1) unfolding beats_def by (metis le_neq_implies_less)
      then show ?thesis using f by (simp add: count_list_filter)
    next
      case 2
      then have "f \<in> set ?tagged" by simp
      then have f: "length (fieldIndex f) = ?depth" "isTagged f" by auto
      have "count_list ?tagged f = 1" using 2 by simp
      then have count: "count_list fs f = 1" using f by (simp add: count_list_filter)
      have "beats f g" if "g \<in> set fs" "g \<noteq> f" for g
      proof (cases "length (fieldIndex g) = ?depth \<and> isTagged g")
        case True
        then have "g \<in> set ?tagged" using that(1) by simp
        then show ?thesis using that(2) unfolding 2 by simp
      next
        case False
        then show ?thesis using least [OF that(1)] f by (auto simp: beats_def)
      qed
      then show ?thesis using count by blast
    qed
  next
    assume wins: "count_list fs f = 1 \<and> (\<forall>g \<in> set fs. g \<noteq> f \<longrightarrow> beats f g)"
    then have mem: "f \<in> set fs" by (metis count_list_0_iff zero_neq_one)
    have hd: "hd fs \<in> set fs" using assms(2) by simp
    have depth: "length (fieldIndex f) = ?depth"
      using least [OF mem] wins hd by (cases "hd fs = f") (auto simp: beats_def)
    show "dominantField fs = Some f"
    proof (cases "length ?shallowest = 1")
      case True
      have "f \<in> set ?shallowest" using mem depth by simp
      then have "?shallowest = [f]" using True by (cases ?shallowest) (simp_all del: filter.simps)
      then show ?thesis unfolding dominant by blast
    next
      case False
      have count: "count_list ?shallowest f = 1" using wins depth by (simp add: count_list_filter)
      have "\<not> set ?shallowest \<subseteq> {f}" using False count_one [OF count] by auto
      then obtain g where g: "g \<in> set fs" "length (fieldIndex g) = ?depth" "g \<noteq> f" by auto
      then have tagged: "isTagged f" using wins depth by (auto simp: beats_def)
      have "count_list ?tagged f = 1" using count tagged by (simp add: count_list_filter)
      moreover have "set ?tagged \<subseteq> {f}"
      proof
        fix g
        assume "g \<in> set ?tagged"
        then have "g \<in> set fs" "length (fieldIndex g) = ?depth" "isTagged g" by auto
        then show "g \<in> {f}" using wins depth by (auto simp: beats_def)
      qed
      ultimately have "?tagged = [f]" by (rule count_one)
      then show ?thesis using False unfolding dominant by blast
    qed
  qed
qed

lemma found_ok_field:
  assumes "found_ok p t cs f"
  obtains sf b u where "member_at p t (fieldIndex f) = Some (sf, b)" "f = field_for p sf b (fieldIndex f)" "fieldIndex f \<noteq> []"
    "struct_at p t (butlast (fieldIndex f)) = Some (u, b)" "at_depth p t (length (fieldIndex f) - 1) u"
    "count_list cs f \<le> 1 \<longleftrightarrow> only_path p t (butlast (fieldIndex f)) u"
  using assms unfolding found_ok_def by blast

lemma member_at_D:
  assumes "member_at p t index = Some (sf, b)"
  obtains u where "index \<noteq> []" "struct_at p t (butlast index) = Some (u, b)" "last index < length (fields_of p u)"
    "is_member p (fields_of p u ! last index)" "sf = fields_of p u ! last index"
  using assms by (auto simp: member_at_def split: if_splits option.splits)

lemma same_index: "butlast xs = butlast ys \<Longrightarrow> last xs = last ys \<Longrightarrow> xs \<noteq> [] \<Longrightarrow> ys \<noteq> [] \<Longrightarrow> xs = ys"
  by (metis append_butlast_last_id)

text \<open>A field at the end of any path is also found at the depth of its struct, and by that path only if it is the only one.\<close>

lemma found_cover:
  assumes found: "found_all p t d cs" and deep: "\<forall>u e. at_depth p t e u \<longrightarrow> e < d" and at: "member_at p t index = Some (sf, b)"
  shows "\<exists>f \<in> set cs. \<exists>b'. member_at p t (fieldIndex f) = Some (sf, b') \<and> length (fieldIndex f) \<le> length index
    \<and> (length (fieldIndex f) = length index \<longrightarrow> count_list cs f = 1 \<longrightarrow> fieldIndex f = index)"
proof -
  from at obtain u where u: "index \<noteq> []" "struct_at p t (butlast index) = Some (u, b)" "last index < length (fields_of p u)"
    "is_member p (fields_of p u ! last index)" "sf = fields_of p u ! last index" by (rule member_at_D)
  then have leads: "leads p t (butlast index) u" by (simp add: leads_def)
  then obtain e where e: "e \<le> length (butlast index)" "at_depth p t e u" using at_depth_exists by blast
  have "\<exists>f \<in> set cs. leads p t (butlast (fieldIndex f)) u \<and> length (fieldIndex f) = Suc e \<and> last (fieldIndex f) = last index"
    using found deep e(2) u(3,4) unfolding found_all_def by blast
  then obtain f where f: "f \<in> set cs" "leads p t (butlast (fieldIndex f)) u" "length (fieldIndex f) = Suc e" "last (fieldIndex f) = last index"
    by blast
  have "found_ok p t cs f" using found f(1) by (simp add: found_all_def)
  then obtain sf' b' v where g: "member_at p t (fieldIndex f) = Some (sf', b')" "fieldIndex f \<noteq> []"
    "struct_at p t (butlast (fieldIndex f)) = Some (v, b')" "count_list cs f \<le> 1 \<longleftrightarrow> only_path p t (butlast (fieldIndex f)) v"
    by (rule found_ok_field)
  have v: "v = u" using f(2) g(3) by (auto simp: leads_def)
  have "sf' = sf" using g(1,3) f(4) u(5) v by (auto elim!: member_at_D)
  moreover have "length (fieldIndex f) \<le> length index" using e(1) f(3) u(1) by (cases index rule: rev_cases) auto
  moreover have "fieldIndex f = index" if "length (fieldIndex f) = length index" "count_list cs f = 1"
  proof -
    have "only_path p t (butlast (fieldIndex f)) u" using g(4) that(2) v by simp
    then have "butlast index = butlast (fieldIndex f)" using leads that(1) unfolding only_path_def by simp
    then show ?thesis using same_index [of "fieldIndex f" index] f(4) g(2) u(1) by simp
  qed
  ultimately show ?thesis using f(1) g(1) by blast
qed

lemma found_by_index:
  assumes "found_all p t d cs" and "f \<in> set cs" "g \<in> set cs" and "fieldIndex f = fieldIndex g"
  shows "f = g"
proof -
  have "found_ok p t cs f" "found_ok p t cs g" using assms(1-3) by (simp_all add: found_all_def)
  then show ?thesis using assms(4) by (auto elim!: found_ok_field)
qed

text \<open>A field that is found more than once is reached by another path of the same length.\<close>

lemma found_twice:
  assumes "found_all p t d cs" and "f \<in> set cs" and "count_list cs f \<noteq> 1" and "member_at p t (fieldIndex f) = Some (sf, b)"
  shows "\<exists>index b'. index \<noteq> fieldIndex f \<and> length index = length (fieldIndex f) \<and> member_at p t index = Some (sf, b')"
proof -
  have "found_ok p t cs f" using assms(1,2) by (simp add: found_all_def)
  then obtain sf' b0 u where f: "fieldIndex f \<noteq> []" "struct_at p t (butlast (fieldIndex f)) = Some (u, b0)"
    "count_list cs f \<le> 1 \<longleftrightarrow> only_path p t (butlast (fieldIndex f)) u" by (rule found_ok_field)
  have "count_list cs f \<noteq> 0" using assms(2) by (simp add: count_list_0_iff)
  then have "\<not> only_path p t (butlast (fieldIndex f)) u" using f(3) assms(3) by linarith
  then obtain path b' where path: "struct_at p t path = Some (u, b')" "length path = length (butlast (fieldIndex f))" "path \<noteq> butlast (fieldIndex f)"
    by (auto simp: only_path_def leads_def)
  let ?index = "path @ [last (fieldIndex f)]"
  have "member_at p t ?index = Some (sf, b')"
    using assms(4) f(1,2) path(1) by (auto simp: member_at_def split: if_splits)
  moreover have "?index \<noteq> fieldIndex f" using path(3) by (metis butlast_snoc)
  moreover have "length ?index = length (fieldIndex f)" using path(2) f(1) by (simp add: Suc_diff_1)
  ultimately show ?thesis by blast
qed

text \<open>So a field wins among those of its name exactly if it is written.\<close>

lemma wins_visible:
  assumes found: "found_all p t d cs" and deep: "\<forall>u e. at_depth p t e u \<longrightarrow> e < d" and f: "f \<in> set cs"
  shows "count_list cs f = 1 \<and> (\<forall>g \<in> set cs. fieldName g = fieldName f \<longrightarrow> g \<noteq> f \<longrightarrow> beats f g) \<longleftrightarrow> visible p t (fieldIndex f)"
proof -
  have ok: "\<exists>sf b. member_at p t (fieldIndex g) = Some (sf, b) \<and> fieldName g = json_name sf \<and> isTagged g = (json_tag sf \<noteq> [])"
    if "g \<in> set cs" for g
  proof -
    have "found_ok p t cs g" using found that by (simp add: found_all_def)
    then obtain sf b where "member_at p t (fieldIndex g) = Some (sf, b)" "g = field_for p sf b (fieldIndex g)" by (rule found_ok_field)
    then show ?thesis by (metis field_for_simps(1,3))
  qed
  then obtain sf b where sf: "member_at p t (fieldIndex f) = Some (sf, b)" "fieldName f = json_name sf" "isTagged f = (json_tag sf \<noteq> [])"
    using f by blast
  show ?thesis
  proof
    assume wins: "count_list cs f = 1 \<and> (\<forall>g \<in> set cs. fieldName g = fieldName f \<longrightarrow> g \<noteq> f \<longrightarrow> beats f g)"
    have "length (fieldIndex f) < length index \<or> length (fieldIndex f) = length index \<and> json_tag sf \<noteq> [] \<and> json_tag sf' = []"
      if at: "member_at p t index = Some (sf', b')" "json_name sf' = json_name sf" "index \<noteq> fieldIndex f" for index sf' b'
    proof -
      obtain g b0 where g: "g \<in> set cs" "member_at p t (fieldIndex g) = Some (sf', b0)" "length (fieldIndex g) \<le> length index"
        "length (fieldIndex g) = length index \<longrightarrow> count_list cs g = 1 \<longrightarrow> fieldIndex g = index"
        using found_cover [OF found deep at(1)] by blast
      have name: "fieldName g = fieldName f" "isTagged g = (json_tag sf' \<noteq> [])" using ok [OF g(1)] g(2) at(2) sf(2) by auto
      show ?thesis
      proof (cases "g = f")
        case True
        then show ?thesis using g(3,4) at(3) wins by fastforce
      next
        case False
        then have "beats f g" using wins g(1) name(1) by blast
        then show ?thesis using g(3) name(2) sf(3) by (auto simp: beats_def)
      qed
    qed
    then show "visible p t (fieldIndex f)" unfolding visible_def using sf(1) by blast
  next
    assume "visible p t (fieldIndex f)"
    then have vis: "length (fieldIndex f) < length index \<or> length (fieldIndex f) = length index \<and> json_tag sf \<noteq> [] \<and> json_tag sf' = []"
      if "member_at p t index = Some (sf', b')" "json_name sf' = json_name sf" "index \<noteq> fieldIndex f" for index sf' b'
      using that sf(1) unfolding visible_def by auto
    have "count_list cs f = 1"
    proof (rule ccontr)
      assume "count_list cs f \<noteq> 1"
      from found_twice [OF found f this sf(1)] show False using vis by fastforce
    qed
    moreover have "beats f g" if g: "g \<in> set cs" "fieldName g = fieldName f" "g \<noteq> f" for g
    proof -
      obtain sf' b' where "member_at p t (fieldIndex g) = Some (sf', b')" "fieldName g = json_name sf'" "isTagged g = (json_tag sf' \<noteq> [])"
        using ok [OF g(1)] by blast
      moreover have "fieldIndex g \<noteq> fieldIndex f" using found_by_index [OF found g(1) f] g(3) by blast
      ultimately show ?thesis using vis [of "fieldIndex g" sf' b'] g(2) sf(2,3) by (auto simp: beats_def)
    qed
    ultimately show "count_list cs f = 1 \<and> (\<forall>g \<in> set cs. fieldName g = fieldName f \<longrightarrow> g \<noteq> f \<longrightarrow> beats f g)" by blast
  qed
qed

lemma set_names_in_order: "set (names_in_order names fs) = set names \<union> fieldName ` set fs"
  by (induction names fs rule: names_in_order.induct) auto

lemma winners_visible:
  assumes found: "found_all p t d cs" and deep: "\<forall>u e. at_depth p t e u \<longrightarrow> e < d"
  shows "set (winners cs) = {f \<in> set cs. visible p t (fieldIndex f)}"
proof -
  have dominant: "dominantField (filter (\<lambda>g. fieldName g = name) cs) = Some f \<longleftrightarrow> f \<in> set cs \<and> fieldName f = name \<and> visible p t (fieldIndex f)"
    if name: "name \<in> fieldName ` set cs" for f name
  proof -
    let ?named = "filter (\<lambda>g. fieldName g = name) cs"
    have "sorted (map (length \<circ> fieldIndex) ?named)" using found by (auto simp: found_all_def sorted_map intro: sorted_wrt_filter)
    moreover have "?named \<noteq> []" using name by (auto simp: filter_empty_conv)
    ultimately have "dominantField ?named = Some f \<longleftrightarrow> count_list ?named f = 1 \<and> (\<forall>g \<in> set ?named. g \<noteq> f \<longrightarrow> beats f g)"
      by (rule dominantField_iff)
    also have "\<dots> \<longleftrightarrow> f \<in> set cs \<and> fieldName f = name \<and> count_list cs f = 1 \<and> (\<forall>g \<in> set cs. fieldName g = fieldName f \<longrightarrow> g \<noteq> f \<longrightarrow> beats f g)"
      by (auto simp: count_list_filter split: if_splits) (metis count_list_0_iff Zero_not_Suc)
    also have "\<dots> \<longleftrightarrow> f \<in> set cs \<and> fieldName f = name \<and> visible p t (fieldIndex f)" using wins_visible [OF found deep] by blast
    finally show ?thesis .
  qed
  show ?thesis
    unfolding winners_def using dominant by (fastforce simp: List.map_filter_def set_names_in_order image_iff)
qed

text \<open>
  \<open>jsonFields\<close> finds exactly the fields that are written, in the order of the fields, with their names,
  and tells which of them may be left out and which are quoted.
\<close>

lemma jsonFields_visible:
  assumes "jsonFields p t = Inr fs" and "repeats_flat p t"
  shows "fieldIndex ` set fs = {index. visible p t index}"
    and "f \<in> set fs \<Longrightarrow> \<exists>sf b. member_at p t (fieldIndex f) = Some (sf, b) \<and> f = field_for p sf b (fieldIndex f)"
proof -
  obtain cs where walk: "walk p [] [\<lparr>embType = t, embIndex = [], isBehindAPointer = False\<rparr>] ((\<lambda>_. 0)(t := 1)) [] = Inr cs"
    and fs: "fs = sort_fields (winners cs)"
    using assms(1) by (auto simp: jsonFields_def split: sum.splits)
  obtain d where found: "found_all p t d cs" and deep: "\<forall>u e. at_depth p t e u \<longrightarrow> e < d"
    using walk_spec [OF walk walk_starts(1) assms(2) walk_starts(2)] by blast
  have set: "set fs = {f \<in> set cs. visible p t (fieldIndex f)}" using winners_visible [OF found deep] fs by simp
  have "index \<in> fieldIndex ` set fs" if index: "visible p t index" for index
  proof -
    obtain sf b where at: "member_at p t index = Some (sf, b)" using index unfolding visible_def by blast
    obtain f b' where f: "f \<in> set cs" "member_at p t (fieldIndex f) = Some (sf, b')" "length (fieldIndex f) \<le> length index"
      using found_cover [OF found deep at] by blast
    have "fieldIndex f = index" using index at f(2,3) unfolding visible_def by fastforce
    then show ?thesis using f(1) index unfolding set by blast
  qed
  then show "fieldIndex ` set fs = {index. visible p t index}" using set by auto
  show "\<exists>sf b. member_at p t (fieldIndex f) = Some (sf, b) \<and> f = field_for p sf b (fieldIndex f)" if "f \<in> set fs"
  proof -
    have "found_ok p t cs f" using found that unfolding set by (simp add: found_all_def)
    then show ?thesis by (auto elim!: found_ok_field)
  qed
qed

section \<open>Programs without repeated structs\<close>

text \<open>If no struct embeds more than one other struct, all paths of one length are the same.\<close>

lemma one_path:
  assumes "\<And>u i j. i < length (fields_of p u) \<Longrightarrow> j < length (fields_of p u) \<Longrightarrow> embeds p (fields_of p u ! i) \<Longrightarrow>
      embeds p (fields_of p u ! j) \<Longrightarrow> i = j"
  shows "struct_at p t xs = Some (u, b) \<Longrightarrow> struct_at p t ys = Some (v, c) \<Longrightarrow> length xs = length ys \<Longrightarrow> xs = ys"
proof (induction xs arbitrary: t ys u b v c)
  case (Cons i xs)
  then obtain j ys' where ys: "ys = j # ys'" by (cases ys) auto
  then have "i = j" using Cons.prems(1,2) assms [of i t j] by (auto split: if_splits)
  moreover have "xs = ys'" using Cons ys \<open>i = j\<close> by (auto split: if_splits)
  ultimately show ?case using ys by simp
qed simp

lemma repeats_flat_single:
  assumes "list_all (\<lambda>u. length (filter (embeds p) (fields_of p u)) \<le> 1) [0..<length (types p)]"
  shows "repeats_flat p t"
proof -
  have "i = j" if ij: "i < length (fields_of p u)" "j < length (fields_of p u)" "embeds p (fields_of p u ! i)" "embeds p (fields_of p u ! j)" for u i j
  proof (rule ccontr)
    assume "i \<noteq> j"
    have "u < length (types p)" by (rule fields_of_program) (use ij(1) in auto)
    then have "length (filter (embeds p) (fields_of p u)) \<le> 1" using assms by (simp add: list_all_iff)
    then have "card {k. k < length (fields_of p u) \<and> embeds p (fields_of p u ! k)} \<le> 1" by (simp add: length_filter_conv_card)
    moreover have "{i, j} \<subseteq> {k. k < length (fields_of p u) \<and> embeds p (fields_of p u ! k)}" using ij by auto
    then have "card {i, j} \<le> card {k. k < length (fields_of p u) \<and> embeds p (fields_of p u ! k)}" by (intro card_mono) auto
    ultimately show False using \<open>i \<noteq> j\<close> by simp
  qed
  then have "xs = ys" if "struct_at p t xs = Some (u, b)" "struct_at p t ys = Some (v, c)" "length xs = length ys" for xs ys u b v c
    using one_path [of p t xs u b ys v c] that by blast
  then show ?thesis unfolding repeats_flat_def by blast
qed

lemma no_pointer_behind:
  assumes "\<And>u. \<not> unnamed_pointer p u"
  shows "struct_at p t path = Some (u, b) \<Longrightarrow> \<not> b" and "member_at p t index = Some (sf, b) \<Longrightarrow> \<not> b"
proof -
  show path: "struct_at p t path = Some (u, b) \<Longrightarrow> \<not> b" for t path u b
    using assms by (induction p t path arbitrary: u b rule: struct_at.induct) (auto split: if_splits)
  show "member_at p t index = Some (sf, b) \<Longrightarrow> \<not> b" using path by (auto elim!: member_at_D)
qed

section \<open>A struct within a struct that is embedded twice\<close>

definition struct_type :: "string \<Rightarrow> struct_field list \<Rightarrow> type_info" where
  "struct_type name sfs =
     \<lparr>TypeString = name, TypeName = name, TypeKind = KindStruct sfs, Implements = [], PointerImplements = [], Promoted = False,
      PointerPromoted = False, SchemaResult = None\<rparr>"

definition embedded_field :: "string \<Rightarrow> tid \<Rightarrow> struct_field" where
  "embedded_field name t = \<lparr>FieldName = name, FieldType = t, Anonymous = True, IsExported = True, JsonTag = []\<rparr>"

text \<open>\<open>Left\<close> and \<open>Right\<close> embed \<open>Middle\<close>, which embeds \<open>Inner\<close> with the field \<open>X\<close>; \<open>Event\<close> embeds both.\<close>

definition twice_program :: program where
  "twice_program =
     \<lparr>types =
        [struct_type ''Inner'' [\<lparr>FieldName = ''X'', FieldType = 5, Anonymous = False, IsExported = True, JsonTag = []\<rparr>],
         struct_type ''Middle'' [embedded_field ''Inner'' 0], struct_type ''Left'' [embedded_field ''Middle'' 1],
         struct_type ''Right'' [embedded_field ''Middle'' 1],
         struct_type ''Event'' [embedded_field ''Left'' 2, embedded_field ''Right'' 3],
         (struct_type ''string'' [])\<lparr>TypeKind := KindBasic KString\<rparr>],
      timeID = 98, numberID = 99, rawMessageID = 97, wideLetters = (\<lambda>_. True)\<rparr>"

text \<open>
  The field \<open>X\<close> is embedded twice at the same depth, so none of the two is to be written, but \<open>jsonFields\<close>
  has counted \<open>Inner\<close> once, since it walks through \<open>Middle\<close> once.
\<close>

lemma twice_embedded:
  "\<exists>f. jsonFields twice_program 4 = Inr [f] \<and> fieldName f = ''X'' \<and> \<not> visible twice_program 4 (fieldIndex f)"
proof -
  have fields: "map_option (map (\<lambda>f. (fieldName f, fieldIndex f))) (case jsonFields twice_program 4 of Inl _ \<Rightarrow> None | Inr fs \<Rightarrow> Some fs)
      = Some [(''X'', [0, 0, 0, 0])]" by code_simp
  then obtain f where f: "jsonFields twice_program 4 = Inr [f]" "fieldName f = ''X''" "fieldIndex f = [0, 0, 0, 0]"
    by (auto split: sum.splits)
  let ?x = "\<lparr>FieldName = ''X'', FieldType = 5, Anonymous = False, IsExported = True, JsonTag = []\<rparr>"
  have at: "member_at twice_program 4 [0, 0, 0, 0] = Some (?x, False)" "member_at twice_program 4 [1, 0, 0, 0] = Some (?x, False)"
    by code_simp+
  have "\<not> visible twice_program 4 [0, 0, 0, 0]"
  proof
    assume "visible twice_program 4 [0, 0, 0, 0]"
    then obtain sf b where sf: "member_at twice_program 4 [0, 0, 0, 0] = Some (sf, b)"
      and wins: "\<And>index sf' b'. member_at twice_program 4 index = Some (sf', b') \<Longrightarrow> json_name sf' = json_name sf \<Longrightarrow> index \<noteq> [0, 0, 0, 0] \<Longrightarrow>
        length [0, 0, 0, 0 :: nat] < length index \<or> length [0, 0, 0, 0 :: nat] = length index \<and> json_tag sf \<noteq> [] \<and> json_tag sf' = []"
      unfolding visible_def by blast
    have "sf = ?x" using sf at(1) by simp
    then show False using wins [OF at(2)] by simp
  qed
  then show ?thesis using f by auto
qed

end
