(* ===== verification/Schema_Sound.thy ===== *)
theory Schema_Sound
  imports Derive_Schema Encoding_Json
begin

text \<open>
  What a derived schema means: which JSON it accepts, which JSON \<open>encoding/json\<close> writes for the
  values of a type, and that the one describes the other.
\<close>

section \<open>What a schema accepts\<close>

fun has_json_type :: "string \<Rightarrow> json \<Rightarrow> bool" where
  "has_json_type ty JNull = (ty = ''null'')"
| "has_json_type ty (JBool _) = (ty = ''boolean'')"
| "has_json_type ty (JInteger _) = (ty = ''integer'' \<or> ty = ''number'')"
| "has_json_type ty (JDecimal _) = (ty = ''number'')"
| "has_json_type ty (JString _) = (ty = ''string'')"
| "has_json_type ty (JArray _) = (ty = ''array'')"
| "has_json_type ty (JObject _) = (ty = ''object'')"
| "has_json_type ty (JOther _) = False"

definition property_names :: "schema \<Rightarrow> string list" where
  "property_names kws = (case map_of kws ''properties'' of Some (JObject ps) \<Rightarrow> map fst ps | _ \<Rightarrow> [])"

lemma size_in_schema: "(k, v) \<in> set kws \<Longrightarrow> size v < size (JObject kws)"
  by (induction kws) auto

lemma size_in_array: "s \<in> set ss \<Longrightarrow> size s < size (JArray ss)"
  by (induction ss) auto

text \<open>The keywords that derived schemas use, as JSON Schema defines them. A format is not checked.\<close>

function (sequential) valid :: "json \<Rightarrow> json \<Rightarrow> bool" and valid_keyword :: "string list \<Rightarrow> string \<Rightarrow> json \<Rightarrow> json \<Rightarrow> bool" where
  "valid (JObject kws) j = list_all (\<lambda>(k, v). valid_keyword (property_names kws) k v j) kws"
| "valid (JBool b) j = b"
| "valid _ j = True"
| "valid_keyword names k v j =
     (if k = ''type'' then (case v of JString ty \<Rightarrow> has_json_type ty j | _ \<Rightarrow> True)
      else if k = ''anyOf'' then (case v of JArray ss \<Rightarrow> list_ex (\<lambda>s. valid s j) ss | _ \<Rightarrow> True)
      else if k = ''items'' then (case j of JArray xs \<Rightarrow> list_all (\<lambda>x. valid v x) xs | _ \<Rightarrow> True)
      else if k = ''minItems'' then (case (v, j) of (JInteger n, JArray xs) \<Rightarrow> n \<le> int (length xs) | _ \<Rightarrow> True)
      else if k = ''maxItems'' then (case (v, j) of (JInteger n, JArray xs) \<Rightarrow> int (length xs) \<le> n | _ \<Rightarrow> True)
      else if k = ''properties'' then
        (case j of
           JObject kvs \<Rightarrow>
             (case v of
                JObject ps \<Rightarrow> list_all (\<lambda>(name, s). list_all (\<lambda>(n, x). n \<noteq> name \<or> valid s x) kvs) ps
              | _ \<Rightarrow> True)
         | _ \<Rightarrow> True)
      else if k = ''required'' then
        (case (v, j) of (JArray ns, JObject kvs) \<Rightarrow> list_all (\<lambda>n. n \<in> set (map (JString \<circ> fst) kvs)) ns | _ \<Rightarrow> True)
      else if k = ''additionalProperties'' then
        (case j of JObject kvs \<Rightarrow> list_all (\<lambda>(n, x). n \<in> set names \<or> valid v x) kvs | _ \<Rightarrow> True)
      else True)"
  by pat_completeness auto
termination
  by (relation "measure (\<lambda>x. case x of Inl (s, j) \<Rightarrow> 2 * size s | Inr (names, k, v, j) \<Rightarrow> 2 * size v + 1)")
    (auto dest!: size_in_schema size_in_array)

declare valid_keyword.simps [simp del]

lemma valid_keyword_simps [simp]:
  "valid_keyword names ''type'' (JString ty) j = has_json_type ty j"
  "valid_keyword names ''format'' v j = True"
  "valid_keyword names ''anyOf'' (JArray ss) j = list_ex (\<lambda>s. valid s j) ss"
  "valid_keyword names ''items'' v (JArray xs) = list_all (valid v) xs"
  "valid_keyword names ''minItems'' (JInteger n) (JArray xs) = (n \<le> int (length xs))"
  "valid_keyword names ''maxItems'' (JInteger n) (JArray xs) = (int (length xs) \<le> n)"
  "valid_keyword names ''properties'' (JObject ps) (JObject kvs) =
     list_all (\<lambda>(name, s). list_all (\<lambda>(n, x). n \<noteq> name \<or> valid s x) kvs) ps"
  "valid_keyword names ''required'' (JArray ns) (JObject kvs) = list_all (\<lambda>n. n \<in> set (map (JString \<circ> fst) kvs)) ns"
  "valid_keyword names ''additionalProperties'' v (JObject kvs) = list_all (\<lambda>(n, x). n \<in> set names \<or> valid v x) kvs"
  by (simp_all add: valid_keyword.simps)

lemma valid_nullable [simp]: "valid (JObject (nullable s)) j \<longleftrightarrow> valid (JObject s) j \<or> j = JNull"
  by (cases j) (simp_all add: nullable_def)

declare valid.simps(1) [simp del]

lemma withoutNull_nullable [simp]: "withoutNull (nullable s) = Ret s"
  by (simp add: withoutNull_def nullable_def)

lemma withoutNull_other [simp]: "map_of s ''anyOf'' = None \<Longrightarrow> withoutNull s = Ret s"
  by (simp add: withoutNull_def)

section \<open>What is written\<close>

text \<open>Types whose encoding is known although they encode themselves, and types that do not encode themselves.\<close>

definition special :: "program \<Rightarrow> tid \<Rightarrow> bool" where
  "special p t \<longleftrightarrow> t \<in> {timeID p, numberID p, rawMessageID p}"

definition marshals_json :: "program \<Rightarrow> tid \<Rightarrow> bool" where
  "marshals_json p t \<longleftrightarrow> has_encoder [JsonMarshaler, JsonMarshalerTo] p t"

definition marshals_text :: "program \<Rightarrow> tid \<Rightarrow> bool" where
  "marshals_text p t \<longleftrightarrow> list_ex (\<lambda>m. List.member [TextMarshaler, TextAppender] m) (Implements (info p t))"

definition marshals_text_addressed :: "program \<Rightarrow> tid \<Rightarrow> bool" where
  "marshals_text_addressed p t \<longleftrightarrow> list_ex (\<lambda>m. List.member [TextMarshaler, TextAppender] m) (PointerImplements (info p t))"

definition plain :: "program \<Rightarrow> tid \<Rightarrow> bool" where
  "plain p t \<longleftrightarrow> \<not> special p t \<and> \<not> marshals_json p t \<and> \<not> marshals_text p t"

text \<open>The elements of a slice that is written as a string in base 64.\<close>

definition is_byte :: "program \<Rightarrow> tid \<Rightarrow> bool" where
  "is_byte p t \<longleftrightarrow> type_kind_of p t = KindBasic KUint8 \<and> \<not> has_encoder [JsonMarshaler, JsonMarshalerTo, TextMarshaler, TextAppender] p t"

definition is_key :: "program \<Rightarrow> tid \<Rightarrow> bool" where
  "is_key p t \<longleftrightarrow>
     (case type_kind_of p t of KindBasic k \<Rightarrow> \<not> List.member [KBool, KFloat32, KFloat64, KComplex64, KComplex128] k | _ \<Rightarrow> False)
     \<or> marshals_text p t"

text \<open>
  Whether a value of a type may be nil such that it is written as null. A field that is tagged \<open>omitempty\<close>
  or \<open>omitzero\<close> is left out then, except for a slice or a map with \<open>omitzero\<close> alone whose type has an
  \<open>IsZero\<close> method, which may deny that nil is zero: \<open>ownZero\<close> tells which types have one.
\<close>

definition nillable :: "program \<Rightarrow> tid \<Rightarrow> bool" where
  "nillable p t =
     (case type_kind_of p t of KindPointer _ \<Rightarrow> True | KindSlice _ \<Rightarrow> plain p t | KindMap _ _ \<Rightarrow> plain p t | _ \<Rightarrow> False)"

definition keeps_nil :: "(tid \<Rightarrow> bool) \<Rightarrow> struct_field \<Rightarrow> bool" where
  "keeps_nil ownZero sf \<longleftrightarrow> has_tag_option sf ''omitzero'' \<and> \<not> has_tag_option sf ''omitempty'' \<and> ownZero (FieldType sf)"

text \<open>
  The JSON that \<open>encoding/json\<close> may write for a value of a type, and for the fields of a struct, given by
  their indexes, as its documentation has it. \<open>custom\<close> is what a \<open>MarshalJSON\<close> function writes. The fields
  of an embedded pointer are left out if that is nil; the \<open>string\<close> option writes a string, or null for a nil
  pointer. A nil interface is written as null. A type with \<open>MarshalText\<close> on a pointer only is written as
  text or not, depending on where its value is.
\<close>

inductive writes :: "program \<Rightarrow> (tid \<Rightarrow> json \<Rightarrow> bool) \<Rightarrow> (tid \<Rightarrow> bool) \<Rightarrow> tid \<Rightarrow> json \<Rightarrow> bool"
  and writes_fields :: "program \<Rightarrow> (tid \<Rightarrow> json \<Rightarrow> bool) \<Rightarrow> (tid \<Rightarrow> bool) \<Rightarrow> tid \<Rightarrow> nat list list \<Rightarrow> (string \<times> json) list \<Rightarrow> bool"
  for p :: program and custom :: "tid \<Rightarrow> json \<Rightarrow> bool" and ownZero :: "tid \<Rightarrow> bool" where
  w_nil: "type_kind_of p t = KindPointer e \<Longrightarrow> writes p custom ownZero t JNull"
| w_pointer: "type_kind_of p t = KindPointer e \<Longrightarrow> writes p custom ownZero e j \<Longrightarrow> writes p custom ownZero t j"
| w_time: "\<not> is_pointer p t \<Longrightarrow> t = timeID p \<Longrightarrow> writes p custom ownZero t (JString s)"
| w_number: "\<not> is_pointer p t \<Longrightarrow> t = numberID p \<Longrightarrow> t \<noteq> timeID p \<Longrightarrow> has_json_type ''number'' j \<Longrightarrow> writes p custom ownZero t j"
| w_raw: "\<not> is_pointer p t \<Longrightarrow> t = rawMessageID p \<Longrightarrow> t \<noteq> timeID p \<Longrightarrow> t \<noteq> numberID p \<Longrightarrow> writes p custom ownZero t j"
| w_custom: "\<not> is_pointer p t \<Longrightarrow> \<not> special p t \<Longrightarrow> marshals_json p t \<Longrightarrow> custom t j \<Longrightarrow> writes p custom ownZero t j"
| w_text: "\<not> is_pointer p t \<Longrightarrow> \<not> special p t \<Longrightarrow> \<not> marshals_json p t \<Longrightarrow> marshals_text p t \<or> marshals_text_addressed p t \<Longrightarrow>
    writes p custom ownZero t (JString s)"
| w_text_nil: "is_interface p t \<Longrightarrow> \<not> special p t \<Longrightarrow> \<not> marshals_json p t \<Longrightarrow> marshals_text p t \<Longrightarrow> writes p custom ownZero t JNull"
| w_bool: "type_kind_of p t = KindBasic KBool \<Longrightarrow> plain p t \<Longrightarrow> writes p custom ownZero t (JBool b)"
| w_integer: "type_kind_of p t = KindBasic k \<Longrightarrow> k \<notin> {KBool, KFloat32, KFloat64, KComplex64, KComplex128, KString} \<Longrightarrow> plain p t \<Longrightarrow>
    writes p custom ownZero t (JInteger n)"
| w_float: "type_kind_of p t = KindBasic k \<Longrightarrow> k = KFloat32 \<or> k = KFloat64 \<Longrightarrow> plain p t \<Longrightarrow> has_json_type ''number'' j \<Longrightarrow>
    writes p custom ownZero t j"
| w_string: "type_kind_of p t = KindBasic KString \<Longrightarrow> plain p t \<Longrightarrow> writes p custom ownZero t (JString s)"
| w_interface: "is_interface p t \<Longrightarrow> plain p t \<Longrightarrow> writes p custom ownZero t j"
| w_nil_slice: "type_kind_of p t = KindSlice e \<Longrightarrow> plain p t \<Longrightarrow> writes p custom ownZero t JNull"
| w_bytes: "type_kind_of p t = KindSlice e \<Longrightarrow> plain p t \<Longrightarrow> is_byte p e \<Longrightarrow> writes p custom ownZero t (JString s)"
| w_slice: "type_kind_of p t = KindSlice e \<Longrightarrow> plain p t \<Longrightarrow> \<not> is_byte p e \<Longrightarrow>
    \<forall>x \<in> set xs. writes p custom ownZero e x \<Longrightarrow> writes p custom ownZero t (JArray xs)"
| w_array: "type_kind_of p t = KindArray n e \<Longrightarrow> plain p t \<Longrightarrow> length xs = n \<Longrightarrow> \<forall>x \<in> set xs. writes p custom ownZero e x \<Longrightarrow>
    writes p custom ownZero t (JArray xs)"
| w_nil_map: "type_kind_of p t = KindMap k e \<Longrightarrow> plain p t \<Longrightarrow> writes p custom ownZero t JNull"
| w_map: "type_kind_of p t = KindMap k e \<Longrightarrow> plain p t \<Longrightarrow> is_key p k \<Longrightarrow> \<forall>x \<in> snd ` set kvs. writes p custom ownZero e x \<Longrightarrow>
    writes p custom ownZero t (JObject kvs)"
| w_struct: "type_kind_of p t = KindStruct sfs \<Longrightarrow> plain p t \<Longrightarrow> distinct indexes \<Longrightarrow> set indexes = {index. visible p t index} \<Longrightarrow>
    writes_fields p custom ownZero t indexes kvs \<Longrightarrow> writes p custom ownZero t (JObject kvs)"
| f_none: "writes_fields p custom ownZero t [] []"
| f_left_out: "member_at p t index = Some (sf, behind) \<Longrightarrow> is_left_out sf \<or> behind \<Longrightarrow> writes_fields p custom ownZero t indexes kvs \<Longrightarrow>
    writes_fields p custom ownZero t (index # indexes) kvs"
| f_value: "member_at p t index = Some (sf, behind) \<Longrightarrow> \<not> is_quoted p sf \<Longrightarrow> \<not> is_left_out sf \<Longrightarrow> writes p custom ownZero (FieldType sf) j \<Longrightarrow>
    writes_fields p custom ownZero t indexes kvs \<Longrightarrow> writes_fields p custom ownZero t (index # indexes) ((json_name sf, j) # kvs)"
| f_pointer: "member_at p t index = Some (sf, behind) \<Longrightarrow> \<not> is_quoted p sf \<Longrightarrow> is_left_out sf \<Longrightarrow>
    type_kind_of p (FieldType sf) = KindPointer e \<Longrightarrow> writes p custom ownZero e j \<Longrightarrow>
    writes_fields p custom ownZero t indexes kvs \<Longrightarrow> writes_fields p custom ownZero t (index # indexes) ((json_name sf, j) # kvs)"
| f_present: "member_at p t index = Some (sf, behind) \<Longrightarrow> \<not> is_quoted p sf \<Longrightarrow> is_left_out sf \<Longrightarrow> \<not> is_pointer p (FieldType sf) \<Longrightarrow>
    nillable p (FieldType sf) \<longrightarrow> j \<noteq> JNull \<or> keeps_nil ownZero sf \<Longrightarrow> writes p custom ownZero (FieldType sf) j \<Longrightarrow>
    writes_fields p custom ownZero t indexes kvs \<Longrightarrow> writes_fields p custom ownZero t (index # indexes) ((json_name sf, j) # kvs)"
| f_quoted: "member_at p t index = Some (sf, behind) \<Longrightarrow> is_quoted p sf \<Longrightarrow> writes_fields p custom ownZero t indexes kvs \<Longrightarrow>
    writes_fields p custom ownZero t (index # indexes) ((json_name sf, JString s) # kvs)"
| f_quoted_nil: "member_at p t index = Some (sf, behind) \<Longrightarrow> is_quoted p sf \<Longrightarrow> is_pointer p (FieldType sf) \<Longrightarrow> \<not> is_left_out sf \<Longrightarrow>
    writes_fields p custom ownZero t indexes kvs \<Longrightarrow> writes_fields p custom ownZero t (index # indexes) ((json_name sf, JNull) # kvs)"

section \<open>What the deriver asks of a type\<close>

lemma marshals_kit [simp]:
  "marshals_json p t \<longleftrightarrow> encodesAsJSON p t" "marshals_text p t \<longleftrightarrow> encodesAsText p t"
  by (auto simp: marshals_json_def marshals_text_def has_encoder_def encodesAsJSON_def encodesAsText_def list_ex_iff)

lemma plain_kit: "plain p t \<longleftrightarrow> \<not> special p t \<and> \<not> encodesAsJSON p t \<and> \<not> encodesAsText p t"
  by (simp add: plain_def)

lemma marshals_text_addressed_kit: "marshals_text_addressed p t \<Longrightarrow> encodesAsText p t \<or> encodesAsTextOnPointer p t"
  by (auto simp: marshals_text_addressed_def encodesAsText_def encodesAsTextOnPointer_def list_ex_iff)

lemma is_byte_kit: "is_byte p t \<longleftrightarrow> type_kind_of p t = KindBasic KUint8 \<and> \<not> encodesItself p t"
  by (simp add: is_byte_def encodesItself_encoder)

lemma integer_kinds: "k \<notin> {KBool, KFloat32, KFloat64, KComplex64, KComplex128, KString} \<longleftrightarrow> is_integer_kind k"
  by (cases k) (simp_all add: is_integer_kind_def)

section \<open>A derived schema describes what is written\<close>

text \<open>What a schema says about one JSON value, wherever the type is derived.\<close>

definition described :: "program \<Rightarrow> tid \<Rightarrow> json \<Rightarrow> bool" where
  "described p t j \<longleftrightarrow> (\<forall>inProgress s. deriver_structure p inProgress t = Ret (Inr s) \<longrightarrow> valid (JObject s) j)"

text \<open>The \<open>Schema\<close> functions describe what is written for their types.\<close>

definition own_schemas_ok :: "program \<Rightarrow> (tid \<Rightarrow> json \<Rightarrow> bool) \<Rightarrow> (tid \<Rightarrow> bool) \<Rightarrow> bool" where
  "own_schemas_ok p custom ownZero \<longleftrightarrow> (\<forall>t s j. ownSchema p t = Some (Some s) \<longrightarrow> writes p custom ownZero t j \<longrightarrow> valid (JObject s) j)"

text \<open>
  The shapes of a type whose derived schema leaves out a null that is written: an interface with
  \<open>MarshalText\<close>; a field that may be nil, is not left out then, and belongs to an embedded pointer; and a
  slice or a map that is tagged \<open>omitzero\<close> alone and whose type has an \<open>IsZero\<close> method.
\<close>

definition field_nulls_ok :: "program \<Rightarrow> (tid \<Rightarrow> bool) \<Rightarrow> struct_field \<Rightarrow> bool \<Rightarrow> bool" where
  "field_nulls_ok p ownZero sf behind \<longleftrightarrow>
     \<not> nillable p (FieldType sf)
     \<or> (behind \<longrightarrow> is_left_out sf) \<and> (keeps_nil ownZero sf \<longrightarrow> is_pointer p (FieldType sf))"

definition nulls_ok :: "program \<Rightarrow> (tid \<Rightarrow> bool) \<Rightarrow> bool" where
  "nulls_ok p ownZero \<longleftrightarrow>
     (\<forall>t. is_interface p t \<longrightarrow> \<not> marshals_text p t)
     \<and> (\<forall>t index sf behind. member_at p t index = Some (sf, behind) \<longrightarrow> field_nulls_ok p ownZero sf behind)"

lemma structure_unfold:
  "deriver_structure p inProgress t = Ret (Inr s) \<Longrightarrow> structure_of p (deriver_structure p (t # inProgress)) t = Ret (Inr s)"
  by (subst (asm) deriver_structure.simps) (auto simp: cannot_derive_def split: if_splits)

lemma describedI:
  "(\<And>inProgress s. structure_of p (deriver_structure p inProgress) t = Ret (Inr s) \<Longrightarrow> valid (JObject s) j) \<Longrightarrow> described p t j"
  using structure_unfold unfolding described_def by blast

lemma schemaOf_valid:
  assumes "schemaOf p (deriver_structure p inProgress) t = Ret (Inr s)" and "writes p custom ownZero t j" and "described p t j"
    and "own_schemas_ok p custom ownZero"
  shows "valid (JObject s) j"
  using assms by (auto simp: schemaOf_def own_schemas_ok_def described_def split: option.splits)

lemma structure_pointer:
  "type_kind_of p t = KindPointer e \<Longrightarrow> structure_of p rec t = try_bind (schemaOf p rec e) (\<lambda>s. Ret (Inr (nullable s)))"
  by (simp add: structure_of_def)

lemma structure_of_plain:
  assumes "\<not> is_pointer p t" and "plain p t" and "structure_of p rec t = Ret (Inr s)"
  shows "structure_kind p rec t = Ret (Inr s)"
  using assms
  by (auto simp: structure_of_def plain_kit special_def is_pointer_def cannot_derive_def split: type_kind.splits if_splits)

lemma structure_of_special:
  assumes "\<not> is_pointer p t"
  shows "t = timeID p \<Longrightarrow> structure_of p rec t = Ret (Inr [(''type'', JString ''string''), (''format'', JString ''date-time'')])"
    and "t = numberID p \<Longrightarrow> t \<noteq> timeID p \<Longrightarrow> structure_of p rec t = Ret (Inr [(''type'', JString ''number'')])"
    and "t = rawMessageID p \<Longrightarrow> t \<noteq> timeID p \<Longrightarrow> t \<noteq> numberID p \<Longrightarrow> structure_of p rec t = Ret (Inr [])"
  using assms by (auto simp: structure_of_def is_pointer_def split: type_kind.split)

lemma structure_of_encodes:
  assumes "\<not> is_pointer p t" and "\<not> special p t"
  shows "encodesAsJSON p t \<Longrightarrow> structure_of p rec t \<noteq> Ret (Inr s)"
    and "\<not> encodesAsJSON p t \<Longrightarrow> encodesAsText p t \<Longrightarrow> structure_of p rec t = Ret (Inr [(''type'', JString ''string'')])"
    and "\<not> encodesAsJSON p t \<Longrightarrow> \<not> encodesAsText p t \<Longrightarrow> encodesAsTextOnPointer p t \<Longrightarrow> structure_of p rec t \<noteq> Ret (Inr s)"
  using assms by (auto simp: structure_of_def is_pointer_def special_def cannot_derive_def split: type_kind.split)

lemma structure_not_nullable:
  assumes "\<not> is_pointer p t" and "\<not> plain p t" and "structure_of p rec t = Ret (Inr s)"
  shows "map_of s ''anyOf'' = None"
proof -
  consider (time) "t = timeID p" | (number) "t = numberID p" "t \<noteq> timeID p" | (raw) "t = rawMessageID p" "t \<noteq> timeID p" "t \<noteq> numberID p"
    | (json) "\<not> special p t" "encodesAsJSON p t" | (string) "\<not> special p t" "\<not> encodesAsJSON p t" "encodesAsText p t"
    using assms(2) unfolding plain_kit special_def by blast
  then show ?thesis
  proof cases
    case time
    then show ?thesis using structure_of_special(1) [OF assms(1) time] assms(3) by auto
  next
    case number
    then show ?thesis using structure_of_special(2) [OF assms(1) number] assms(3) by auto
  next
    case raw
    then show ?thesis using structure_of_special(3) [OF assms(1) raw] assms(3) by auto
  next
    case json
    then show ?thesis using structure_of_encodes(1) [OF assms(1) json] assms(3) by blast
  next
    case string
    then show ?thesis using structure_of_encodes(2) [OF assms(1) string] assms(3) by auto
  qed
qed

text \<open>What the schema of a field says about one JSON value.\<close>

definition field_described :: "program \<Rightarrow> jsonField \<Rightarrow> json \<Rightarrow> bool" where
  "field_described p f j \<longleftrightarrow>
     (\<forall>inProgress s. fieldSchema p (deriver_structure p inProgress) f = Ret (Inr s) \<longrightarrow> valid (JObject s) j)"

lemma present_Inr:
  "try_bind r (\<lambda>s. go_bind (withoutNull s) (\<lambda>s'. Ret (Inr s'))) = Ret (Inr y) \<longleftrightarrow> (\<exists>x. r = Ret (Inr x) \<and> withoutNull x = Ret y)"
proof -
  have "go_bind g (\<lambda>s'. Ret (Inr s') :: schema derived) = Ret (Inr y) \<longleftrightarrow> g = Ret y" for g :: "schema go" by (cases g) simp_all
  then show ?thesis by (simp add: try_bind_Inr)
qed

lemma schemaOfPresent_valid:
  assumes "schemaOfPresent p (deriver_structure p inProgress) t = Ret (Inr s)" and "writes p custom ownZero t j" and "described p t j"
    and "own_schemas_ok p custom ownZero" and "\<not> is_pointer p t" and "nillable p t \<longrightarrow> j \<noteq> JNull"
  shows "valid (JObject s) j"
proof (cases "ownSchema p t \<noteq> None \<or> \<not> (\<exists>e k. type_kind_of p t = KindSlice e \<or> type_kind_of p t = KindMap k e)")
  case True
  then have "schemaOf p (deriver_structure p inProgress) t = Ret (Inr s)"
    using assms(1,5) by (auto simp: schemaOfPresent_def is_pointer_def split: type_kind.splits if_splits)
  then show ?thesis using assms schemaOf_valid by blast
next
  case False
  then obtain s0 where s0: "schemaOf p (deriver_structure p inProgress) t = Ret (Inr s0)" "withoutNull s0 = Ret s"
    using assms(1) by (auto simp: schemaOfPresent_def present_Inr)
  have valid: "valid (JObject s0) j" by (rule schemaOf_valid [OF s0(1) assms(2-4)])
  have "deriver_structure p inProgress t = Ret (Inr s0)"
    using s0(1) False by (auto simp: schemaOf_def split: option.splits)
  then have st: "structure_of p (deriver_structure p (t # inProgress)) t = Ret (Inr s0)" by (rule structure_unfold)
  show ?thesis
  proof (cases "plain p t")
    case True
    then have "structure_kind p (deriver_structure p (t # inProgress)) t = Ret (Inr s0)"
      using structure_of_plain [OF assms(5)] st by simp
    then obtain inner where inner: "s0 = nullable inner"
      using False by (auto simp: structure_kind_def try_bind_Inr cannot_derive_def split: if_splits)
    moreover have "nillable p t" using True False by (auto simp: nillable_def)
    ultimately show ?thesis using valid s0(2) assms(6) by simp
  next
    case other: False
    have "map_of s0 ''anyOf'' = None" by (rule structure_not_nullable [OF assms(5) other st])
    then show ?thesis using valid s0(2) by simp
  qed
qed

lemma field_value_described:
  assumes "\<not> isQuoted f" and "writes p custom ownZero (fieldValueType f) j" and "described p (fieldValueType f) j" and "own_schemas_ok p custom ownZero"
    and "isOptional f \<Longrightarrow> \<not> is_pointer p (fieldValueType f) \<and> (nillable p (fieldValueType f) \<longrightarrow> j \<noteq> JNull)"
  shows "field_described p f j"
  using assms schemaOf_valid schemaOfPresent_valid unfolding field_described_def fieldSchema_def by (auto split: if_splits)

lemma field_pointer_described:
  assumes "\<not> isQuoted f" and "isOptional f" and "type_kind_of p (fieldValueType f) = KindPointer e"
    and "writes p custom ownZero e j" and "described p e j" and "own_schemas_ok p custom ownZero"
  shows "field_described p f j"
proof -
  have "ownSchema p (fieldValueType f) = None" using assms(3) by (simp add: ownSchema_def is_pointer_def)
  then have "fieldSchema p rec f = schemaOf p rec e" for rec using assms(1-3) by (simp add: fieldSchema_def schemaOfPresent_def)
  then show ?thesis using schemaOf_valid [OF _ assms(4-6)] by (simp add: field_described_def)
qed

text \<open>The fields that are written are described one by one, and no required one is missing.\<close>

definition fields_described :: "program \<Rightarrow> tid \<Rightarrow> nat list list \<Rightarrow> (string \<times> json) list \<Rightarrow> bool" where
  "fields_described p t indexes kvs \<longleftrightarrow>
     list_all (\<lambda>(n, x). \<exists>index \<in> set indexes. \<exists>sf b. member_at p t index = Some (sf, b) \<and> json_name sf = n
       \<and> field_described p (field_for p sf b index) x) kvs
     \<and> (\<forall>index \<in> set indexes. \<forall>sf b. member_at p t index = Some (sf, b) \<longrightarrow> \<not> b \<longrightarrow> \<not> is_left_out sf \<longrightarrow> json_name sf \<in> fst ` set kvs)"

lemma object_loop_properties:
  "object_loop p rec t fs = Ret (Inr (props, req)) \<Longrightarrow>
     map fst props = map fieldName fs
     \<and> (\<forall>(n, v) \<in> set props. \<exists>f \<in> set fs. \<exists>s. n = fieldName f \<and> v = JObject s \<and> fieldSchema p rec f = Ret (Inr s))
     \<and> req = map fieldName (filter (\<lambda>f. \<not> isOptional f) fs)"
proof (induction fs arbitrary: props req)
  case (Cons f fs)
  then obtain s where s: "fieldSchema p rec f = Ret (Inr s)" by (auto split: go.splits sum.splits)
  then obtain props' req' where rest: "object_loop p rec t fs = Ret (Inr (props', req'))"
    and eq: "props = (fieldName f, JObject s) # props'" "req = (if isOptional f then req' else fieldName f # req')"
    using Cons.prems by (auto simp: try_bind_Inr)
  show ?case using Cons.IH [OF rest] s eq by fastforce
qed simp

lemma fields_described_found:
  assumes "fields_described p t indexes kvs" and "set indexes = {index. visible p t index}"
    and "fieldIndex ` set fs = {index. visible p t index}"
    and "\<And>f. f \<in> set fs \<Longrightarrow> \<exists>sf b. member_at p t (fieldIndex f) = Some (sf, b) \<and> f = field_for p sf b (fieldIndex f)"
  shows "list_all (\<lambda>(n, x). \<exists>f \<in> set fs. fieldName f = n \<and> field_described p f x) kvs
    \<and> (\<forall>f \<in> set fs. \<not> isOptional f \<longrightarrow> fieldName f \<in> fst ` set kvs)"
proof
  show "list_all (\<lambda>(n, x). \<exists>f \<in> set fs. fieldName f = n \<and> field_described p f x) kvs"
    unfolding list_all_iff
  proof clarify
    fix n x
    assume "(n, x) \<in> set kvs"
    then obtain index sf b where x: "index \<in> set indexes" "member_at p t index = Some (sf, b)" "json_name sf = n"
      "field_described p (field_for p sf b index) x"
      using assms(1) by (fastforce simp: fields_described_def list_all_iff)
    then obtain f where f: "f \<in> set fs" "fieldIndex f = index" using assms(2,3) by (metis (no_types, lifting) imageE)
    then have "f = field_for p sf b index" using assms(4) [OF f(1)] x(2) by auto
    then show "\<exists>f \<in> set fs. fieldName f = n \<and> field_described p f x" using f(1) x(3,4) by (intro bexI [of _ f]) auto
  qed
  show "\<forall>f \<in> set fs. \<not> isOptional f \<longrightarrow> fieldName f \<in> fst ` set kvs"
  proof clarify
    fix f
    assume f: "f \<in> set fs" "\<not> isOptional f"
    then obtain sf b where sf: "member_at p t (fieldIndex f) = Some (sf, b)" "f = field_for p sf b (fieldIndex f)" using assms(4) by blast
    then have "\<not> b" "\<not> is_left_out sf" "fieldName f = json_name sf" using f(2) by (metis field_for_simps(5), metis field_for_simps(5), metis field_for_simps(1))
    moreover have "fieldIndex f \<in> set indexes" using f(1) assms(2,3) by auto
    ultimately show "fieldName f \<in> fst ` set kvs" using assms(1) sf(1) by (auto simp: fields_described_def)
  qed
qed

lemma object_described:
  assumes "fields_described p t indexes kvs" and "set indexes = {index. visible p t index}" and "repeats_flat p t"
    and "object p (deriver_structure p inProgress) t = Ret (Inr s)"
  shows "valid (JObject s) (JObject kvs)"
proof -
  obtain fs where fields: "jsonFields p t = Inr fs" using assms(4) by (auto simp: object_def split: sum.splits)
  obtain props req where loop: "object_loop p (deriver_structure p inProgress) t fs = Ret (Inr (props, req))"
    and s: "s = [(''type'', JString ''object''), (''properties'', JObject props), (''additionalProperties'', JBool False)] @
      (if req = [] then [] else [(''required'', JArray (map JString req))])"
    using fields assms(4) by (auto simp: object_def try_bind_Inr)
  note props = object_loop_properties [OF loop]
  note found = jsonFields_visible [OF fields assms(3)]
  have fs: "list_all (\<lambda>(n, x). \<exists>f \<in> set fs. fieldName f = n \<and> field_described p f x) kvs"
    "\<forall>f \<in> set fs. \<not> isOptional f \<longrightarrow> fieldName f \<in> fst ` set kvs"
    using fields_described_found [OF assms(1,2) found] by blast+
  have names: "property_names s = map fieldName fs" using s props by (simp add: property_names_def)
  have distinct: "distinct (map fieldName fs)" by (rule jsonFields_names [OF fields])
  have "valid v x" if in_props: "(n, v) \<in> set props" and written: "(n, x) \<in> set kvs" for n v x
  proof -
    obtain f s' where f: "f \<in> set fs" "n = fieldName f" "v = JObject s'" "fieldSchema p (deriver_structure p inProgress) f = Ret (Inr s')"
      using props in_props by blast
    obtain g where g: "g \<in> set fs" "fieldName g = n" "field_described p g x" using fs(1) written by (auto simp: list_all_iff)
    have "g = f" using distinct f(1,2) g(1,2) by (simp add: distinct_map inj_on_def)
    then show ?thesis using f g(3) by (simp add: field_described_def)
  qed
  moreover have "n \<in> set (map fieldName fs)" if "(n, x) \<in> set kvs" for n x using fs(1) that by (auto simp: list_all_iff)
  moreover have "set req \<subseteq> fst ` set kvs" using props fs(2) by auto
  ultimately show ?thesis unfolding s using names s
    by (fastforce simp: valid.simps(1) list_all_iff image_iff)
qed

lemma plain_described:
  assumes "\<not> is_pointer p t" and "plain p t"
    and "\<And>inProgress s. structure_kind p (deriver_structure p inProgress) t = Ret (Inr s) \<Longrightarrow> valid (JObject s) j"
  shows "described p t j"
  using assms structure_of_plain by (intro describedI) blast

text \<open>The schema of one keyword.\<close>

lemma valid_type: "valid (JObject [(''type'', JString ty)]) j \<longleftrightarrow> has_json_type ty j"
  by (simp add: valid.simps(1))

lemma valid_any: "valid (JObject []) j"
  by (simp add: valid.simps(1))

lemma items_valid:
  assumes "\<And>x. x \<in> set xs \<Longrightarrow> valid (JObject items) x"
  shows "valid (JObject [(''type'', JString ''array''), (''items'', JObject items)]) (JArray xs)"
    and "valid (JObject [(''type'', JString ''array''), (''items'', JObject items), (''minItems'', JInteger (int (length xs))),
      (''maxItems'', JInteger (int (length xs)))]) (JArray xs)"
  using assms by (simp_all add: valid.simps(1) list_all_iff)

lemma values_valid:
  assumes "\<And>x. x \<in> snd ` set kvs \<Longrightarrow> valid (JObject values) x"
  shows "valid (JObject [(''type'', JString ''object''), (''additionalProperties'', JObject values)]) (JObject kvs)"
proof -
  have "valid (JObject values) x" if "(n, x) \<in> set kvs" for n x using assms that by force
  then show ?thesis by (subst valid.simps(1)) (auto simp: list_all_iff)
qed

lemma fields_described_Cons:
  assumes "fields_described p t indexes kvs" and "member_at p t index = Some (sf, b)" and "field_described p (field_for p sf b index) j"
  shows "fields_described p t (index # indexes) ((json_name sf, j) # kvs)"
  using assms unfolding fields_described_def by (auto simp: list_all_iff)

lemma fields_described_skip:
  assumes "fields_described p t indexes kvs" and "member_at p t index = Some (sf, b)" and "is_left_out sf \<or> b"
  shows "fields_described p t (index # indexes) kvs"
  using assms unfolding fields_described_def by (auto simp: list_all_iff)

lemma kind_simps [simp]:
  "type_kind_of p t = KindPointer e \<Longrightarrow> is_pointer p t"
  "type_kind_of p t = KindBasic k \<Longrightarrow> \<not> is_pointer p t" "type_kind_of p t = KindSlice e \<Longrightarrow> \<not> is_pointer p t"
  "type_kind_of p t = KindArray n e \<Longrightarrow> \<not> is_pointer p t" "type_kind_of p t = KindMap m e \<Longrightarrow> \<not> is_pointer p t"
  "type_kind_of p t = KindStruct sfs \<Longrightarrow> \<not> is_pointer p t" "is_interface p t \<Longrightarrow> \<not> is_pointer p t"
  by (simp_all add: is_pointer_def is_interface_def)

lemma is_pointer_nillable: "is_pointer p t \<Longrightarrow> nillable p t"
  by (auto simp: is_pointer_def nillable_def split: type_kind.splits)

lemma written_described:
  assumes own: "own_schemas_ok p custom ownZero" and nulls: "nulls_ok p ownZero" and flat: "\<And>u. repeats_flat p u"
  shows "(writes p custom ownZero t j \<longrightarrow> described p t j) \<and> (writes_fields p custom ownZero t' indexes kvs \<longrightarrow> fields_described p t' indexes kvs)"
proof (induction rule: writes_writes_fields.induct)
  case (w_nil t e)
  then show ?case by (auto intro!: describedI simp: structure_pointer try_bind_Inr)
next
  case (w_pointer t e j)
  then show ?case using schemaOf_valid [OF _ _ _ own] by (auto intro!: describedI simp: structure_pointer try_bind_Inr)
next
  case (w_time t s)
  then show ?case by (intro describedI) (auto simp: structure_of_special valid.simps(1))
next
  case (w_number t j)
  then show ?case by (intro describedI) (auto simp: structure_of_special valid_type)
next
  case (w_raw t j)
  then show ?case by (intro describedI) (auto simp: structure_of_special valid_any)
next
  case (w_custom t j)
  then have "encodesAsJSON p t" by simp
  then show ?case using structure_of_encodes(1) [OF w_custom(1,2)] by (blast intro: describedI)
next
  case (w_text t s)
  show ?case
  proof (rule describedI)
    fix inProgress s'
    assume s': "structure_of p (deriver_structure p inProgress) t = Ret (Inr s')"
    have json: "\<not> encodesAsJSON p t" using w_text(3) by simp
    then have "encodesAsText p t"
      using w_text(4) s' structure_of_encodes(3) [OF w_text(1,2)] marshals_text_addressed_kit [of p t] by auto
    then show "valid (JObject s') (JString s)" using s' structure_of_encodes(2) [OF w_text(1,2) json] by (auto simp: valid_type)
  qed
next
  case (w_text_nil t)
  then show ?case using nulls by (simp add: nulls_ok_def)
next
  case (w_bool t b)
  then show ?case by (intro plain_described) (auto simp: structure_kind_def valid_type)
next
  case (w_integer t k n)
  then have "is_integer_kind k" "k \<noteq> KBool" using integer_kinds by auto
  then show ?case using w_integer by (intro plain_described) (auto simp: structure_kind_def valid_type)
next
  case (w_float t k j)
  then show ?case by (intro plain_described) (auto simp: structure_kind_def valid_type is_integer_kind_def split: if_splits)
next
  case (w_string t s)
  then show ?case by (intro plain_described) (auto simp: structure_kind_def valid_type is_integer_kind_def split: if_splits)
next
  case (w_interface t j)
  then show ?case by (intro plain_described) (auto simp: structure_kind_def is_interface_def valid_any)
next
  case (w_nil_slice t e)
  then show ?case by (intro plain_described) (auto simp: structure_kind_def try_bind_Inr split: if_splits)
next
  case (w_bytes t e s)
  then show ?case by (intro plain_described) (auto simp: structure_kind_def is_byte_kit valid_type)
next
  case (w_slice t e xs)
  then show ?case using schemaOf_valid [OF _ _ _ own]
    by (intro plain_described) (auto simp: structure_kind_def is_byte_kit try_bind_Inr intro!: items_valid(1) split: if_splits)
next
  case (w_array t n e xs)
  then show ?case using schemaOf_valid [OF _ _ _ own]
    by (intro plain_described) (auto simp: structure_kind_def try_bind_Inr intro!: items_valid(2))
next
  case (w_nil_map t k e)
  then show ?case by (intro plain_described) (auto simp: structure_kind_def try_bind_Inr cannot_derive_def split: if_splits)
next
  case (w_map t k e kvs)
  then show ?case using schemaOf_valid [OF _ _ _ own]
    by (intro plain_described) (force simp: structure_kind_def try_bind_Inr cannot_derive_def split: if_splits intro!: values_valid)+
next
  case (w_struct t sfs indexes kvs)
  have "valid (JObject s) (JObject kvs)" if "structure_kind p (deriver_structure p inProgress) t = Ret (Inr s)" for inProgress s
    using object_described [OF _ _ flat [of t]] w_struct that by (auto simp: structure_kind_def)
  then show ?case using w_struct by (intro plain_described) auto
next
  case (f_none t)
  then show ?case by (simp add: fields_described_def)
next
  case (f_left_out t index sf behind indexes kvs)
  then show ?case using fields_described_skip by blast
next
  case (f_value t index sf behind j indexes kvs)
  then have "field_nulls_ok p ownZero sf behind" using nulls by (simp add: nulls_ok_def)
  then have "\<not> nillable p (FieldType sf)" if "behind" using that f_value by (auto simp: field_nulls_ok_def)
  then have "field_described p (field_for p sf behind index) j"
    using is_pointer_nillable f_value by (intro field_value_described [OF _ _ _ own]) auto
  then show ?case using fields_described_Cons f_value by blast
next
  case (f_pointer t index sf behind e j indexes kvs)
  then have "field_described p (field_for p sf behind index) j" by (intro field_pointer_described [OF _ _ _ _ _ own]) auto
  then show ?case using fields_described_Cons f_pointer by blast
next
  case (f_present t index sf behind j indexes kvs)
  then have "field_nulls_ok p ownZero sf behind" using nulls by (simp add: nulls_ok_def)
  then have "nillable p (FieldType sf) \<longrightarrow> j \<noteq> JNull" using f_present by (auto simp: field_nulls_ok_def)
  then have "field_described p (field_for p sf behind index) j" using f_present by (intro field_value_described [OF _ _ _ own]) auto
  then show ?case using fields_described_Cons f_present by blast
next
  case (f_quoted t index sf behind indexes kvs s)
  have "field_described p (field_for p sf behind index) (JString s)"
    using f_quoted by (auto simp: field_described_def fieldSchema_def valid_type split: if_splits)
  then show ?case using fields_described_Cons f_quoted by blast
next
  case (f_quoted_nil t index sf behind indexes kvs)
  then have "field_nulls_ok p ownZero sf behind" using nulls by (simp add: nulls_ok_def)
  then have "\<not> behind" using f_quoted_nil is_pointer_nillable by (auto simp: field_nulls_ok_def)
  then have "field_described p (field_for p sf behind index) JNull"
    using f_quoted_nil by (auto simp: field_described_def fieldSchema_def split: if_splits)
  then show ?case using fields_described_Cons f_quoted_nil by blast
qed

text \<open>
  C6. The schema that is derived for a type describes what \<open>encoding/json\<close> writes for its values, whatever
  JSON that is, for structs with embedded fields, optional and quoted ones, pointers, slices, arrays and
  maps of any nesting. Which fields are written follows from the documented rules for embedded structs and
  tags alone (\<open>visible\<close>), not from what the deriver finds. It takes that the \<open>Schema\<close> functions of the types
  of fields are right, that no type has one of the three shapes whose null the schema leaves out, and that a
  struct that is embedded several times at one depth embeds no other struct.
\<close>

theorem derived_schema_describes:
  assumes "deriver_structure p [] t = Ret (Inr s)" and "writes p custom ownZero t j"
    and "own_schemas_ok p custom ownZero" and "nulls_ok p ownZero" and "\<And>u. repeats_flat p u"
  shows "valid (JObject s) j"
  using written_described [OF assms(3-5)] assms(1,2) unfolding described_def by blast

section \<open>A schema that leaves out a null\<close>

definition plain_type :: "string \<Rightarrow> type_kind \<Rightarrow> type_info" where
  "plain_type name k =
     \<lparr>TypeString = name, TypeName = name, TypeKind = k, Implements = [], PointerImplements = [], Promoted = False, PointerPromoted = False,
      SchemaResult = None\<rparr>"

definition field_of :: "string \<Rightarrow> tid \<Rightarrow> bool \<Rightarrow> string \<Rightarrow> struct_field" where
  "field_of name t embedded tag = \<lparr>FieldName = name, FieldType = t, Anonymous = embedded, IsExported = True, JsonTag = tag\<rparr>"

text \<open>
  A program with the types \<open>string\<close>, \<open>[]string\<close>, \<open>struct { Tags []string }\<close>, named \<open>Base\<close>, a pointer
  to it, and an event that embeds the pointer.
\<close>

definition embedding_program :: program where
  "embedding_program =
     \<lparr>types = [plain_type ''string'' (KindBasic KString), plain_type [] (KindSlice 0),
         plain_type ''Base'' (KindStruct [field_of ''Tags'' 1 False []]), plain_type [] (KindPointer 2),
         plain_type ''Event'' (KindStruct [field_of ''Base'' 3 True []])],
      timeID = 5, numberID = 6, rawMessageID = 7, wideLetters = (\<lambda>s. s = [])\<rparr>"

definition tags_field :: jsonField where
  "tags_field =
     \<lparr>fieldName = ''Tags'', goName = ''Tags'', fieldValueType = 1, fieldIndex = [0, 0], isTagged = False, isOptional = True, isQuoted = False\<rparr>"

lemma embedding_eval:
  "jsonFields embedding_program 4 = Inr [tags_field]"
  "deriver_structure embedding_program [] 4 =
     Ret (Inr [(''type'', JString ''object''),
       (''properties'', JObject [(''Tags'', JObject [(''type'', JString ''array''), (''items'', JObject [(''type'', JString ''string'')])])]),
       (''additionalProperties'', JBool False)])"
  "member_at embedding_program 4 [0, 0] = Some (field_of ''Tags'' 1 False [], True)"
  "list_all (\<lambda>u. length (filter (embeds embedding_program) (fields_of embedding_program u)) \<le> 1) [0..<length (types embedding_program)]"
  "plain embedding_program 1" "plain embedding_program 4"
  by code_simp+

text \<open>
  The schema of an event does not describe what is written for it if the event embeds a pointer to a
  struct with a field that may be nil: such a field is taken as optional, which leaves out null, but if
  the pointer is set and the field is nil, \<open>encoding/json\<close> writes null for it.
\<close>

theorem embedded_pointer_null:
  "\<exists>s. deriver_structure embedding_program [] 4 = Ret (Inr s) \<and> writes embedding_program custom ownZero 4 (JObject [(''Tags'', JNull)])
     \<and> \<not> valid (JObject s) (JObject [(''Tags'', JNull)])"
proof -
  let ?tags = "field_of ''Tags'' 1 False []"
  have kinds: "type_kind_of embedding_program 1 = KindSlice 0" "type_kind_of embedding_program 4 = KindStruct [field_of ''Base'' 3 True []]"
    by (simp_all add: type_kind_of_def info_def embedding_program_def plain_type_def)
  have tags: "\<not> is_quoted embedding_program ?tags" "\<not> is_left_out ?tags" "json_name ?tags = ''Tags''" "FieldType ?tags = 1"
    by (simp_all add: is_quoted_def is_left_out_def has_tag_option_def json_name_def json_tag_def tag_parts_def field_of_def)
  have visible: "set [[0, 0]] = {index. visible embedding_program 4 index}"
    using jsonFields_visible(1) [OF embedding_eval(1) repeats_flat_single [OF embedding_eval(4)]] by (simp add: tags_field_def)
  have "writes embedding_program custom ownZero 1 JNull" by (rule w_nil_slice [OF kinds(1) embedding_eval(5)])
  then have "writes_fields embedding_program custom ownZero 4 [[0, 0]] [(json_name ?tags, JNull)]"
    using tags by (intro f_value [OF embedding_eval(3)] f_none) simp_all
  then have "writes embedding_program custom ownZero 4 (JObject [(''Tags'', JNull)])"
    using w_struct [OF kinds(2) embedding_eval(6) _ visible] tags(3) by simp
  then show ?thesis by (simp add: embedding_eval(2) valid.simps(1))
qed

text \<open>
  Nor does it for a field that is tagged \<open>omitzero\<close> and whose type is a slice with an \<open>IsZero\<close> method that
  denies that nil is zero.
\<close>

definition zero_program :: program where
  "zero_program =
     \<lparr>types = [plain_type ''string'' (KindBasic KString), plain_type ''Tags'' (KindSlice 0),
         plain_type ''Event'' (KindStruct [field_of ''Tags'' 1 False ''tags,omitzero''])],
      timeID = 5, numberID = 6, rawMessageID = 7, wideLetters = (\<lambda>s. s = [])\<rparr>"

lemma zero_eval:
  "case jsonFields zero_program 2 of Inl _ \<Rightarrow> False | Inr fs \<Rightarrow> map fieldIndex fs = [[0]]"
  "deriver_structure zero_program [] 2 =
     Ret (Inr [(''type'', JString ''object''),
       (''properties'', JObject [(''tags'', JObject [(''type'', JString ''array''), (''items'', JObject [(''type'', JString ''string'')])])]),
       (''additionalProperties'', JBool False)])"
  "member_at zero_program 2 [0] = Some (field_of ''Tags'' 1 False ''tags,omitzero'', False)"
  "list_all (\<lambda>u. length (filter (embeds zero_program) (fields_of zero_program u)) \<le> 1) [0..<length (types zero_program)]"
  "plain zero_program 1" "plain zero_program 2" "\<not> is_pointer zero_program 1"
  "\<not> is_quoted zero_program (field_of ''Tags'' 1 False ''tags,omitzero'')" "is_left_out (field_of ''Tags'' 1 False ''tags,omitzero'')"
  "keeps_nil (\<lambda>_. True) (field_of ''Tags'' 1 False ''tags,omitzero'')" "json_name (field_of ''Tags'' 1 False ''tags,omitzero'') = ''tags''"
  "FieldType (field_of ''Tags'' 1 False ''tags,omitzero'') = 1"
  by code_simp+

theorem omitzero_null:
  "\<exists>s. deriver_structure zero_program [] 2 = Ret (Inr s) \<and> writes zero_program custom (\<lambda>_. True) 2 (JObject [(''tags'', JNull)])
     \<and> \<not> valid (JObject s) (JObject [(''tags'', JNull)])"
proof -
  let ?tags = "field_of ''Tags'' 1 False ''tags,omitzero''"
  have kinds: "type_kind_of zero_program 1 = KindSlice 0" "type_kind_of zero_program 2 = KindStruct [?tags]"
    by (simp_all add: type_kind_of_def info_def zero_program_def plain_type_def)
  obtain fs where fs: "jsonFields zero_program 2 = Inr fs" "map fieldIndex fs = [[0]]" using zero_eval(1) by (auto split: sum.splits)
  have visible: "set [[0]] = {index. visible zero_program 2 index}"
    using jsonFields_visible(1) [OF fs(1) repeats_flat_single [OF zero_eval(4)]] fs(2) by (metis list.set_map)
  have "writes zero_program custom (\<lambda>_. True) 1 JNull" by (rule w_nil_slice [OF kinds(1) zero_eval(5)])
  then have "writes_fields zero_program custom (\<lambda>_. True) 2 [[0]] [(json_name ?tags, JNull)]"
    using zero_eval by (intro f_present [OF zero_eval(3)] f_none) simp_all
  then have "writes zero_program custom (\<lambda>_. True) 2 (JObject [(''tags'', JNull)])"
    using w_struct [OF kinds(2) zero_eval(6) _ visible] zero_eval(11) by simp
  then show ?thesis by (simp add: zero_eval(2) valid.simps(1))
qed

section \<open>A program without such types\<close>

text \<open>
  An event with a field that may be null, one that is left out if it is empty, one that is never written, and
  an embedded struct, whose field \<open>notes\<close> the event hides with its own.
\<close>

definition tagged_program :: program where
  "tagged_program =
     \<lparr>types = [plain_type ''string'' (KindBasic KString), plain_type [] (KindSlice 0),
         plain_type ''Event'' (KindStruct [field_of ''Tags'' 1 False ''tags'', field_of ''Notes'' 1 False ''notes,omitempty'',
           field_of ''Secret'' 0 False ''-'', field_of ''Base'' 3 True []]),
         plain_type ''Base'' (KindStruct [field_of ''Notes'' 1 False ''notes'', field_of ''Kind'' 0 False ''kind''])],
      timeID = 5, numberID = 6, rawMessageID = 7, wideLetters = (\<lambda>s. s = [])\<rparr>"

lemma tagged_none: "Implements (info tagged_program t) = []" "PointerImplements (info tagged_program t) = []"
  by (auto simp: info_def tagged_program_def plain_type_def nth_Cons' split: if_splits)

lemma tagged_no_pointer: "\<not> unnamed_pointer tagged_program t"
  by (auto simp: unnamed_pointer_def type_kind_of_def info_def tagged_program_def plain_type_def nth_Cons' split: if_splits type_kind.splits)

lemma tagged_eval:
  "deriver_structure tagged_program [] 2 =
     Ret (Inr [(''type'', JString ''object''),
       (''properties'', JObject
         [(''tags'', JObject (nullable [(''type'', JString ''array''), (''items'', JObject [(''type'', JString ''string'')])])),
          (''notes'', JObject [(''type'', JString ''array''), (''items'', JObject [(''type'', JString ''string'')])]),
          (''kind'', JObject [(''type'', JString ''string'')])]),
       (''additionalProperties'', JBool False), (''required'', JArray [JString ''tags'', JString ''kind''])])"
  "list_all (\<lambda>u. length (filter (embeds tagged_program) (fields_of tagged_program u)) \<le> 1) [0..<length (types tagged_program)]"
  "case jsonFields tagged_program 2 of Inl _ \<Rightarrow> False | Inr fs \<Rightarrow> map fieldIndex fs = [[0], [1], [3, 1]]"
  "member_at tagged_program 2 [0] = Some (field_of ''Tags'' 1 False ''tags'', False)"
  "member_at tagged_program 2 [1] = Some (field_of ''Notes'' 1 False ''notes,omitempty'', False)"
  "member_at tagged_program 2 [3, 1] = Some (field_of ''Kind'' 0 False ''kind'', False)"
  "plain tagged_program 0" "plain tagged_program 1" "plain tagged_program 2"
  by code_simp+

lemma tagged_ok: "nulls_ok tagged_program (\<lambda>_. False)" "own_schemas_ok tagged_program custom ownZero" "repeats_flat tagged_program t"
proof -
  have "\<not> behind" if "member_at tagged_program t index = Some (sf, behind)" for t index sf behind
    using no_pointer_behind(2) [OF tagged_no_pointer that] .
  then show "nulls_ok tagged_program (\<lambda>_. False)" by (auto simp: nulls_ok_def field_nulls_ok_def keeps_nil_def encodesAsText_def tagged_none)
  have "ownSchema tagged_program t = None" for t by (simp add: ownSchema_def tagged_none)
  then show "own_schemas_ok tagged_program custom ownZero" by (simp add: own_schemas_ok_def)
  show "repeats_flat tagged_program t" by (rule repeats_flat_single [OF tagged_eval(2)])
qed

theorem derived_schema_describes_witness:
  "\<exists>s j. deriver_structure tagged_program [] 2 = Ret (Inr s) \<and> writes tagged_program (\<lambda>_ _. False) (\<lambda>_. False) 2 j \<and> valid (JObject s) j
     \<and> j = JObject [(''tags'', JNull), (''kind'', JString ''x'')]"
proof -
  let ?w = "writes tagged_program (\<lambda>_ _. False) (\<lambda>_. False)"
  have kinds: "type_kind_of tagged_program 0 = KindBasic KString" "type_kind_of tagged_program 1 = KindSlice 0"
    "\<exists>sfs. type_kind_of tagged_program 2 = KindStruct sfs"
    by (simp_all add: type_kind_of_def info_def tagged_program_def plain_type_def)
  then obtain sfs where struct: "type_kind_of tagged_program 2 = KindStruct sfs" by blast
  obtain fs where fs: "jsonFields tagged_program 2 = Inr fs" "map fieldIndex fs = [[0], [1], [3, 1]]"
    using tagged_eval(3) by (auto split: sum.splits)
  have visible: "set [[0], [1], [3, 1]] = {index. visible tagged_program 2 index}"
    using jsonFields_visible(1) [OF fs(1) tagged_ok(3)] fs(2) by (metis list.set_map)
  have "?w 1 JNull" "?w 0 (JString ''x'')"
    using w_nil_slice [OF kinds(2) tagged_eval(8)] w_string [OF kinds(1) tagged_eval(7)] by blast+
  then have "writes_fields tagged_program (\<lambda>_ _. False) (\<lambda>_. False) 2 [[0], [1], [3, 1]]
      [(json_name (field_of ''Tags'' 1 False ''tags''), JNull), (json_name (field_of ''Kind'' 0 False ''kind''), JString ''x'')]"
    by (intro f_value [OF tagged_eval(4)] f_left_out [OF tagged_eval(5)] f_value [OF tagged_eval(6)] f_none)
      (simp_all add: is_quoted_def is_left_out_def has_tag_option_def tag_parts_def field_of_def)
  then have w: "?w 2 (JObject [(''tags'', JNull), (''kind'', JString ''x'')])"
    using w_struct [OF struct tagged_eval(9) _ visible] by (simp add: json_name_def json_tag_def tag_parts_def field_of_def)
  from derived_schema_describes [OF tagged_eval(1) w tagged_ok(2,1,3)] show ?thesis using w tagged_eval(1) by blast
qed

end
