(* ===== verification/Schema_Totality.thy ===== *)
theory Schema_Totality
  imports Schema_Sound
begin

text \<open>
  Deriving a schema always ends and never panics: recursive types are refused, the search for a
  promoted \<open>Schema\<close> function finds the type that declares it, and the cache does not change what is
  derived.
\<close>

section \<open>No panic\<close>

definition safe_schema :: "schema \<Rightarrow> bool" where
  "safe_schema s \<longleftrightarrow> (\<exists>s'. withoutNull s = Ret s')"

definition safe_result :: "schema derived \<Rightarrow> bool" where
  "safe_result r \<longleftrightarrow> (case r of Panic _ \<Rightarrow> False | Ret (Inl _) \<Rightarrow> True | Ret (Inr s) \<Rightarrow> safe_schema s)"

lemma safe_schema_nullable [simp]: "safe_schema (nullable s)"
  by (simp add: safe_schema_def)

lemma safe_schema_other: "map_of s ''anyOf'' = None \<Longrightarrow> safe_schema s"
  by (simp add: safe_schema_def)

lemma safe_result_simps [simp]:
  "safe_result (Ret (Inl err))" "safe_result (Ret (Inr s)) = safe_schema s" "\<not> safe_result (Panic v)"
  by (simp_all add: safe_result_def)

text \<open>A result that is no panic.\<close>

definition returns :: "'a go \<Rightarrow> bool" where
  "returns r \<longleftrightarrow> (\<exists>x. r = Ret x)"

lemma returns_simps [simp]: "returns (Ret x)" "\<not> returns (Panic v)"
  by (simp_all add: returns_def)

lemma returns_try_bind: "returns r \<Longrightarrow> (\<And>x. r = Ret (Inr x) \<Longrightarrow> returns (f x)) \<Longrightarrow> returns (try_bind r f)"
  by (auto simp: returns_def try_bind_def split: go.splits sum.splits)

lemma safe_returns: "safe_result r \<Longrightarrow> returns r"
  by (auto simp: safe_result_def returns_def split: go.splits)

lemma safe_try_bind:
  "returns r \<Longrightarrow> (\<And>x. r = Ret (Inr x) \<Longrightarrow> safe_result (f x)) \<Longrightarrow> safe_result (try_bind r f)"
  by (auto simp: returns_def try_bind_def split: go.splits sum.splits)

lemma schemaOf_returns: "safe_result (rec t) \<Longrightarrow> returns (schemaOf p rec t)"
  using safe_returns by (auto simp: schemaOf_def split: option.splits)

lemma schemaOfPresent_returns:
  assumes "\<And>u. safe_result (rec u)"
  shows "returns (schemaOfPresent p rec t)"
proof -
  have plain: "returns (schemaOf p rec u)" for u by (rule schemaOf_returns [OF assms])
  have "returns (try_bind (schemaOf p rec t) (\<lambda>s. go_bind (withoutNull s) (\<lambda>s'. Ret (Inr s'))))" if "ownSchema p t = None"
  proof (rule returns_try_bind [OF plain])
    fix s
    assume "schemaOf p rec t = Ret (Inr s)"
    then have "rec t = Ret (Inr s)" using that by (auto simp: schemaOf_def split: option.splits)
    then have "safe_schema s" using assms [of t] by simp
    then obtain s' where "withoutNull s = Ret s'" by (auto simp: safe_schema_def)
    then show "returns (go_bind (withoutNull s) (\<lambda>s'. Ret (Inr s')))" by simp
  qed
  then show ?thesis using plain by (auto simp: schemaOfPresent_def split: type_kind.split)
qed

lemma fieldSchema_returns: "(\<And>u. safe_result (rec u)) \<Longrightarrow> returns (fieldSchema p rec f)"
  using schemaOf_returns schemaOfPresent_returns by (auto simp: fieldSchema_def)

lemma object_loop_returns: "(\<And>u. safe_result (rec u)) \<Longrightarrow> returns (object_loop p rec t fs)"
proof (induction fs)
  case (Cons f fs)
  obtain r where "fieldSchema p rec f = Ret r" using fieldSchema_returns [of rec p f] Cons.prems by (auto simp: returns_def)
  then show ?case using Cons by (auto intro: returns_try_bind split: sum.split)
qed simp

lemma object_safe: "(\<And>u. safe_result (rec u)) \<Longrightarrow> safe_result (object p rec t)"
  using object_loop_returns [of rec p t]
  by (auto simp: object_def intro!: safe_try_bind safe_schema_other split: sum.split)

lemma structure_kind_safe: "(\<And>u. safe_result (rec u)) \<Longrightarrow> safe_result (structure_kind p rec t)"
  using schemaOf_returns [of rec] object_safe [of rec p t]
  by (auto simp: structure_kind_def cannot_derive_def intro!: safe_try_bind safe_schema_other split: type_kind.split)

lemma structure_of_safe:
  assumes "\<And>u. safe_result (rec u)"
  shows "safe_result (structure_of p rec t)"
proof (cases "is_pointer p t")
  case True
  then obtain e where "type_kind_of p t = KindPointer e" by (auto simp: is_pointer_def split: type_kind.splits)
  then show ?thesis using schemaOf_returns [OF assms] by (auto simp: structure_pointer intro!: safe_try_bind)
next
  case pointer: False
  have kind: "safe_result (structure_kind p rec t)" by (rule structure_kind_safe) (rule assms)
  show ?thesis
  proof (cases "structure_of p rec t")
    case (Ret r)
    show ?thesis
    proof (cases r)
      case (Inr s)
      then have st: "structure_of p rec t = Ret (Inr s)" using Ret by simp
      show ?thesis
      proof (cases "plain p t")
        case True
        then show ?thesis using structure_of_plain [OF pointer True st] kind st by simp
      next
        case False
        then show ?thesis using structure_not_nullable [OF pointer False st] st by (simp add: safe_schema_other)
      qed
    qed (use Ret in simp)
  next
    case (Panic v)
    then have "structure_kind p rec t = Panic v"
      using pointer by (auto simp: structure_of_def is_pointer_def cannot_derive_def split: type_kind.splits if_splits)
    then show ?thesis using kind by simp
  qed
qed

lemma deriver_safe: "safe_result (deriver_structure p inProgress t)"
proof (induction p inProgress t rule: deriver_structure.induct)
  case (1 p inProgress t)
  show ?case
  proof (cases "t \<notin> set inProgress \<and> t < length (types p)")
    case True
    then have "safe_result (structure_of p (deriver_structure p (t # inProgress)) t)"
      using 1 by (intro structure_of_safe) blast
    then show ?thesis using True by (simp add: deriver_structure.simps [of p inProgress t])
  next
    case False
    then show ?thesis by (auto simp: deriver_structure.simps [of p inProgress t] cannot_derive_def)
  qed
qed

section \<open>Recursive types\<close>

text \<open>The types that deriving the structure of a type asks for, and those of them that are derived as well.\<close>

definition asked_field :: "program \<Rightarrow> jsonField \<Rightarrow> tid" where
  "asked_field p f =
     (case type_kind_of p (fieldValueType f) of
        KindPointer e \<Rightarrow> if isOptional f then e else fieldValueType f
      | _ \<Rightarrow> fieldValueType f)"

definition asked :: "program \<Rightarrow> tid \<Rightarrow> tid list" where
  "asked p t =
     (case type_kind_of p t of
        KindPointer e \<Rightarrow> [e]
      | k \<Rightarrow>
          if \<not> plain p t \<or> encodesAsTextOnPointer p t then []
          else
            (case k of
               KindSlice e \<Rightarrow> if type_kind_of p e = KindBasic KUint8 \<and> \<not> encodesItself p e then [] else [e]
             | KindArray n e \<Rightarrow> [e]
             | KindMap key e \<Rightarrow> [e]
             | KindStruct _ \<Rightarrow>
                 (case jsonFields p t of Inl _ \<Rightarrow> [] | Inr fs \<Rightarrow> map (asked_field p) (filter (\<lambda>f. \<not> isQuoted f) fs))
             | _ \<Rightarrow> []))"

definition part_of :: "program \<Rightarrow> (tid \<times> tid) set" where
  "part_of p = {(t, u). u \<in> set (asked p t) \<and> ownSchema p u = None}"

lemma schemaOf_derived: "schemaOf p rec u = Ret (Inr s) \<Longrightarrow> ownSchema p u = None \<Longrightarrow> rec u = Ret (Inr s)"
  by (auto simp: schemaOf_def split: option.splits)

lemma asked_field_not_pointer: "\<not> is_pointer p (fieldValueType f) \<Longrightarrow> asked_field p f = fieldValueType f"
  by (auto simp: asked_field_def is_pointer_def split: type_kind.splits)

lemma ownSchema_pointer: "is_pointer p t \<Longrightarrow> ownSchema p t = None"
  by (simp add: ownSchema_def)

lemma fieldSchema_derived:
  assumes "fieldSchema p rec f = Ret (Inr s)" and "\<not> isQuoted f" and "ownSchema p (asked_field p f) = None"
  shows "\<exists>s'. rec (asked_field p f) = Ret (Inr s')"
proof -
  have "\<exists>s'. schemaOf p rec (asked_field p f) = Ret (Inr s')"
  proof (cases "isOptional f")
    case False
    then show ?thesis using assms(1,2) by (auto simp: fieldSchema_def asked_field_def split: type_kind.split)
  next
    case True
    then have "schemaOfPresent p rec (fieldValueType f) = Ret (Inr s)" using assms(1,2) by (simp add: fieldSchema_def)
    moreover have "ownSchema p (fieldValueType f) = None"
      using assms(3) asked_field_not_pointer [of p f] ownSchema_pointer [of p "fieldValueType f"] by fastforce
    ultimately show ?thesis
      using True by (auto simp: schemaOfPresent_def asked_field_def present_Inr split: type_kind.splits)
  qed
  then show ?thesis using schemaOf_derived assms(3) by blast
qed

lemma object_derived:
  assumes "object p rec t = Ret (Inr s)" and "jsonFields p t = Inr fs" and "f \<in> set fs"
  shows "\<exists>s'. fieldSchema p rec f = Ret (Inr s')"
proof -
  have "object_loop p rec t gs = Ret (Inr x) \<Longrightarrow> f \<in> set gs \<Longrightarrow> \<exists>s'. fieldSchema p rec f = Ret (Inr s')" for gs x
    by (induction gs arbitrary: x) (auto simp: try_bind_Inr split: go.splits sum.splits)
  then show ?thesis using assms by (auto simp: object_def try_bind_Inr)
qed

lemma structure_part:
  assumes "structure_of p rec t = Ret (Inr s)" and "(t, u) \<in> part_of p"
  shows "\<exists>s'. rec u = Ret (Inr s')"
proof -
  have own: "ownSchema p u = None" and u: "u \<in> set (asked p t)" using assms(2) by (simp_all add: part_of_def)
  show ?thesis
  proof (cases "is_pointer p t")
    case True
    then obtain e where "type_kind_of p t = KindPointer e" by (auto simp: is_pointer_def split: type_kind.splits)
    then show ?thesis using assms(1) u own schemaOf_derived [of p rec u] by (auto simp: asked_def structure_pointer try_bind_Inr)
  next
    case False
    then have plain: "plain p t" using u by (auto simp: asked_def is_pointer_def split: type_kind.splits if_splits)
    have kind: "structure_kind p rec t = Ret (Inr s)" by (rule structure_of_plain [OF False plain assms(1)])
    show ?thesis
    proof (cases "\<exists>sfs. type_kind_of p t = KindStruct sfs")
      case True
      then obtain fs f where fs: "jsonFields p t = Inr fs" "f \<in> set fs" "\<not> isQuoted f" "u = asked_field p f"
        using u plain by (cases "jsonFields p t") (auto simp: asked_def split: if_splits)
      have "object p rec t = Ret (Inr s)" using kind True by (auto simp: structure_kind_def)
      from object_derived [OF this fs(1,2)] show ?thesis using fieldSchema_derived fs own by blast
    next
      case other: False
      then show ?thesis using kind u own False schemaOf_derived [of p rec u]
        by (cases "type_kind_of p t") (auto simp: asked_def structure_kind_def try_bind_Inr is_pointer_def cannot_derive_def split: if_splits)
    qed
  qed
qed

lemma derived_chain:
  assumes "(t, u) \<in> (part_of p)\<^sup>+" and "deriver_structure p inProgress t = Ret (Inr s)"
  shows "\<exists>inner s'. t \<in> set inner \<and> deriver_structure p inner u = Ret (Inr s')"
  using assms(1)
proof (induction rule: trancl_induct)
  case (base u)
  from structure_part [OF structure_unfold [OF assms(2)] base] show ?case by (metis list.set_intros(1))
next
  case (step u v)
  then obtain inner s' where inner: "t \<in> set inner" "deriver_structure p inner u = Ret (Inr s')" by blast
  from structure_part [OF structure_unfold [OF inner(2)] step(2)] obtain s'' where "deriver_structure p (u # inner) v = Ret (Inr s'')" by blast
  then show ?case using inner(1) by (metis list.set_intros(2))
qed

text \<open>
  C11. Deriving a schema always ends, without a panic, and with an error for a recursive type: one that is
  reached again through the types its structure asks for, none of which has a \<open>Schema\<close> function.
\<close>

theorem recursive_refused:
  "(\<exists>r. deriver_structure p inProgress t = Ret r)
   \<and> ((t, t) \<in> (part_of p)\<^sup>+ \<longrightarrow> (\<exists>err. deriver_structure p inProgress t = Ret (Inl err)))"
proof -
  obtain r where r: "deriver_structure p inProgress t = Ret r" using safe_returns [OF deriver_safe, of p inProgress t] by (auto simp: returns_def)
  have "\<exists>err. r = Inl err" if rec: "(t, t) \<in> (part_of p)\<^sup>+"
  proof (cases r)
    case (Inr s)
    then obtain inner s' where "t \<in> set inner" "deriver_structure p inner t = Ret (Inr s')"
      using derived_chain [OF rec] r by blast
    then show ?thesis by (simp add: deriver_structure.simps [of p inner t] cannot_derive_def)
  qed simp
  then show ?thesis using r by auto
qed

theorem recursive_refused_witness:
  "\<exists>p err. (2, 2) \<in> (part_of p)\<^sup>+ \<and> deriver_structure p [] 2 = Ret (Inl err)"
proof -
  let ?p = "\<lparr>types = [plain_type [] (KindPointer 2), plain_type ''string'' (KindBasic KString),
      plain_type ''Node'' (KindStruct [field_of ''Name'' 1 False [], field_of ''Next'' 0 False []])],
    timeID = 5, numberID = 6, rawMessageID = 7, wideLetters = (\<lambda>s. s = [])\<rparr>"
  have "list_all (\<lambda>(t, u). u \<in> set (asked ?p t) \<and> ownSchema ?p u = None) [(2, 0), (0, 2)]" by code_simp
  then have "(2, 0) \<in> part_of ?p" "(0, 2) \<in> part_of ?p" by (simp_all add: part_of_def)
  then have "(2, 2) \<in> (part_of ?p)\<^sup>+" by (meson trancl.simps)
  then show ?thesis using recursive_refused [of ?p "[]" 2] by blast
qed

section \<open>Promoted functions\<close>

definition declares :: "program \<Rightarrow> tid \<Rightarrow> bool" where
  "declares p t \<longleftrightarrow> (\<exists>m. schemaFunction p t = Some m \<and> \<not> isPromoted m)"

definition promotes :: "program \<Rightarrow> tid \<Rightarrow> bool" where
  "promotes p t \<longleftrightarrow> (\<exists>m. schemaFunction p t = Some m \<and> isPromoted m)"

text \<open>At which depth of embedded fields a type that declares the function is found.\<close>

inductive found_at :: "program \<Rightarrow> nat \<Rightarrow> tid \<Rightarrow> bool" for p where
  here: "declares p t \<Longrightarrow> found_at p 0 t"
| deeper: "promotes p t \<Longrightarrow> u \<in> fst ` set (embedded_types p t) \<Longrightarrow> found_at p d u \<Longrightarrow> found_at p (Suc d) t"

inductive_cases found_at_0 [elim!]: "found_at p 0 t"
inductive_cases found_at_Suc [elim!]: "found_at p (Suc d) t"

text \<open>Go promotes a function only from an embedded field that has it.\<close>

definition promotion_ok :: "program \<Rightarrow> bool" where
  "promotion_ok p \<longleftrightarrow> (\<forall>t. promotes p t \<longrightarrow> (\<exists>d. found_at p d t))"

lemma has_function_type: "schemaFunction p t \<noteq> None \<Longrightarrow> t < length (types p)"
  by (auto simp: schemaFunction_def info_def split: if_splits)

lemma found_at_type: "found_at p d t \<Longrightarrow> t < length (types p)"
  by (erule found_at.cases) (auto simp: declares_def promotes_def intro: has_function_type)

definition depth_of :: "program \<Rightarrow> tid \<Rightarrow> nat" where
  "depth_of p t = (LEAST d. found_at p d t)"

lemma depth_found: "found_at p d t \<Longrightarrow> found_at p (depth_of p t) t \<and> depth_of p t \<le> d"
  unfolding depth_of_def by (metis LeastI Least_le)

text \<open>The depths below that of a type are those of other types, so there are at most as many as types.\<close>

lemma depth_below:
  assumes "found_at p d t" and "k \<le> depth_of p t"
  shows "\<exists>u. found_at p k u \<and> depth_of p u = k"
  using assms(2)
proof (induction "depth_of p t - k" arbitrary: k)
  case 0
  then show ?case using depth_found [OF assms(1)] by auto
next
  case (Suc n)
  then have "n = depth_of p t - Suc k" "Suc k \<le> depth_of p t" by arith+
  from Suc.hyps(1) [OF this] obtain v where v: "found_at p (Suc k) v" "depth_of p v = Suc k" by metis
  then obtain u where u: "promotes p v" "u \<in> fst ` set (embedded_types p v)" "found_at p k u" by auto
  have "k \<le> depth_of p u"
  proof (rule ccontr)
    assume "\<not> k \<le> depth_of p u"
    then have "found_at p (Suc (depth_of p u)) v" "Suc (depth_of p u) < Suc k"
      using found_at.deeper [OF u(1,2)] depth_found [OF u(3)] by simp_all
    then show False using v(2) depth_found [of p "Suc (depth_of p u)" v] by simp
  qed
  then show ?case using u(3) depth_found [OF u(3)] by (intro exI [of _ u]) simp
qed

lemma depth_bound:
  assumes "found_at p d t"
  shows "depth_of p t < length (types p)"
proof -
  obtain f where f: "\<And>k. k \<le> depth_of p t \<Longrightarrow> found_at p k (f k) \<and> depth_of p (f k) = k"
    using depth_below [OF assms] by metis
  have "inj_on f {..depth_of p t}" by (rule inj_onI) (metis atMost_iff f)
  moreover have "f ` {..depth_of p t} \<subseteq> {..<length (types p)}" using f found_at_type by blast
  ultimately have "card {..depth_of p t} \<le> card {..<length (types p)}" by (rule card_inj_on_le) simp
  then show ?thesis by simp
qed

lemma search_depth_Inr:
  "search_depth p acc current = Inr deeper \<Longrightarrow>
     set acc \<subseteq> set deeper \<and> (\<forall>(t, path) \<in> set current. \<not> declares p t
       \<and> (promotes p t \<longrightarrow> (\<forall>(u, name) \<in> set (embedded_types p t). (u, path @ [name]) \<in> set deeper)))"
proof (induction p acc current rule: search_depth.induct)
  case (2 p acc t path current)
  show ?case
  proof (cases "schemaFunction p t")
    case None
    then show ?thesis using 2 by (auto simp: declares_def promotes_def)
  next
    case (Some m)
    then have m: "isPromoted m" using 2(3) by (auto split: if_splits)
    let ?acc = "acc @ map (\<lambda>(u, name). (u, path @ [name])) (embedded_types p t)"
    have "search_depth p ?acc current = Inr deeper" using 2(3) Some m by simp
    note rest = 2(2) [OF Some _ this] m
    then have sub: "set ?acc \<subseteq> set deeper" by blast
    have t: "\<not> declares p t" using Some m by (simp add: declares_def)
    have "(u, path @ [name]) \<in> set deeper" if "(u, name) \<in> set (embedded_types p t)" for u name
      using sub that by force
    then show ?thesis using rest sub t by auto
  qed
qed simp

lemma search_depth_paths:
  "\<forall>(t, path) \<in> set acc. path \<noteq> [] \<Longrightarrow> search_depth p acc current = Inr deeper \<Longrightarrow> \<forall>(t, path) \<in> set deeper. path \<noteq> []"
proof (induction p acc current rule: search_depth.induct)
  case (2 p acc t path current)
  show ?case
  proof (cases "schemaFunction p t")
    case None
    then show ?thesis using 2 by simp
  next
    case (Some m)
    then have m: "isPromoted m" using 2(4) by (auto split: if_splits)
    let ?acc = "acc @ map (\<lambda>(u, name). (u, path @ [name])) (embedded_types p t)"
    have "search_depth p ?acc current = Inr deeper" using 2(4) Some m by simp
    moreover have "\<forall>(t, path) \<in> set ?acc. path \<noteq> []" using 2(3) by auto
    ultimately show ?thesis using 2(2) [OF Some] m by blast
  qed
qed simp

lemma search_depth_Inl:
  "search_depth p acc current = Inl path \<Longrightarrow> \<exists>t. (t, path) \<in> set current \<and> declares p t"
proof (induction p acc current rule: search_depth.induct)
  case (2 p acc t path' current)
  show ?case
  proof (cases "schemaFunction p t")
    case None
    then show ?thesis using 2 by auto
  next
    case (Some m)
    then show ?thesis using 2 by (cases "isPromoted m") (auto simp: declares_def)
  qed
qed simp

lemma search_finds:
  assumes "(t, path) \<in> set current" and "found_at p d t" and "d < fuel" and "\<forall>(u, path) \<in> set current. path \<noteq> []"
  shows "\<exists>field. search fuel p current = Some (field, True)"
  using assms
proof (induction fuel arbitrary: current t path d)
  case (Suc fuel)
  then obtain x xs where current: "current = x # xs" by (cases current) auto
  show ?case
  proof (cases "search_depth p [] current")
    case (Inl path')
    then have "path' \<noteq> []" using search_depth_Inl [OF Inl] Suc.prems(4) by auto
    then show ?thesis using current Inl by simp
  next
    case (Inr deeper)
    note d = search_depth_Inr [OF Inr]
    then obtain d' u name where "d = Suc d'" "(u, name) \<in> set (embedded_types p t)" "found_at p d' u" "promotes p t"
      using Suc.prems(1,2) by (cases d) auto
    then have "(u, path @ [name]) \<in> set deeper" using d Suc.prems(1) by blast
    moreover have "\<forall>(u, path) \<in> set deeper. path \<noteq> []" using search_depth_paths [OF _ Inr] by simp
    ultimately have "\<exists>field. search fuel p deeper = Some (field, True)"
      using Suc.IH \<open>found_at p d' u\<close> \<open>d = Suc d'\<close> Suc.prems(3) by auto
    then show ?thesis using current Inr by simp
  qed
qed simp

text \<open>
  A type is refused for its \<open>Schema\<close> function exactly if it is not a pointer and has the function only
  from an embedded field. In particular, the search ends, even if types embed each other.
\<close>

theorem promoted_refused:
  assumes "promotion_ok p"
  shows "refuseEmbeddedSchema p t \<noteq> None \<longleftrightarrow> \<not> is_pointer p t \<and> promotes p t"
proof -
  have "snd (embeddedSchemaField p t) \<longleftrightarrow> promotes p t" if "\<not> is_pointer p t"
  proof (cases "schemaFunction p t")
    case None
    then show ?thesis using that by (simp add: embeddedSchemaField_def promotes_def)
  next
    case (Some m)
    show ?thesis
    proof (cases "isPromoted m")
      case False
      then show ?thesis using that Some by (simp add: embeddedSchemaField_def promotes_def)
    next
      case True
      then have "promotes p t" using Some by (simp add: promotes_def)
      then obtain d where "found_at p d t" using assms by (auto simp: promotion_ok_def)
      then have found: "found_at p (depth_of p t) t" "depth_of p t < length (types p)" using depth_found depth_bound by blast+
      then obtain d' u where d': "depth_of p t = Suc d'" "u \<in> fst ` set (embedded_types p t)" "found_at p d' u"
        using \<open>promotes p t\<close> by (cases "depth_of p t") (auto simp: promotes_def declares_def)
      then obtain name where "(u, [name]) \<in> set (map (\<lambda>(u, name). (u, [name])) (embedded_types p t))" by force
      moreover have "\<forall>(u, path) \<in> set (map (\<lambda>(u, name). (u, [name])) (embedded_types p t)). path \<noteq> []" by auto
      ultimately obtain field where "search (length (types p)) p (map (\<lambda>(u, name). (u, [name])) (embedded_types p t)) = Some (field, True)"
        using search_finds [OF _ d'(3)] found(2) d'(1) by (metis Suc_lessD)
      then show ?thesis using that Some True \<open>promotes p t\<close> by (simp add: embeddedSchemaField_def)
    qed
  qed
  moreover have "\<not> snd (embeddedSchemaField p t)" if "is_pointer p t" using that by (simp add: embeddedSchemaField_def)
  moreover have "refuseEmbeddedSchema p t \<noteq> None \<longleftrightarrow> snd (embeddedSchemaField p t)"
    by (auto simp: refuseEmbeddedSchema_def split: prod.splits)
  ultimately show ?thesis by blast
qed

section \<open>The cache\<close>

definition cache_ok :: "program \<Rightarrow> schema_cache \<Rightarrow> bool" where
  "cache_ok p cache \<longleftrightarrow> (\<forall>t r. cache t = Some r \<longrightarrow> deriver_structure p [] t = Ret r)"

text \<open>
  The cache does not change what is derived: starting from a cache that holds what was derived, and
  with other goroutines that store what they derive, the result is that of deriving anew, and the cache
  stays such.
\<close>

theorem cache_transparent:
  assumes "cache_ok p cache" and "cache_ok p cache \<Longrightarrow> cache_ok p (meanwhile cache)"
  shows "fst (deriveStructure p meanwhile t cache) =
      (case refuseEmbeddedSchema p t of
         Some err \<Rightarrow> Ret (Inl err)
       | None \<Rightarrow> try_bind (deriver_structure p [] t) (copyOfSchema p t))
    \<and> cache_ok p (snd (deriveStructure p meanwhile t cache))"
proof (cases "refuseEmbeddedSchema p t")
  case (Some err)
  then show ?thesis using assms(1) by (simp add: deriveStructure_def Let_def)
next
  case None
  obtain r where r: "deriver_structure p [] t = Ret r" using safe_returns [OF deriver_safe, of p "[]" t] by (auto simp: returns_def)
  have hit: "cache t = Some r' \<Longrightarrow> r' = r" "meanwhile cache t = Some r' \<Longrightarrow> r' = r" for r'
    using assms r unfolding cache_ok_def by fastforce+
  have "cache_ok p ((meanwhile cache)(t \<mapsto> r))" using assms r by (simp add: cache_ok_def)
  then show ?thesis
    using None r hit assms by (auto simp: deriveStructure_def Let_def try_bind_def split: option.splits sum.splits)
qed

end
