(* ===== verification/Spell_Out.thy ===== *)
theory Spell_Out
  imports Same_Value "HOL-Library.Multiset"
begin

text \<open>
  Spelling out the query that an entity tag answers (\<open>httpapi/spell_out.go\<close>), on the values and the
  heap of \<open>Same_Value\<close>. What is written is the result, or \<open>None\<close> where the code reports false, whose
  text nobody uses.
\<close>

section \<open>Texts of types and numbers\<close>

text \<open>
  What reflection tells about the types of the program by their names: which basic types are strings, the
  names and the types of the fields of a struct, and what a pointer, a slice, an array or a map holds; and \<open>strconv.FormatFloat\<close> and \<open>strconv.FormatComplex\<close>. A value of a basic
  type is held as its text, in base ten for a number. The name of a type is what \<open>Type.String\<close> returns.
\<close>

type_synonym type_id = "rkind \<times> string"

record spelling =
  isStringType :: "string \<Rightarrow> bool"
  structFields :: "string \<Rightarrow> (string \<times> type_id) list"
  elemType :: "string \<Rightarrow> type_id"
  keyType :: "string \<Rightarrow> type_id"
  FormatFloat :: "gofloat \<Rightarrow> string"
  FormatComplex :: "gofloat \<Rightarrow> gofloat \<Rightarrow> string"

definition typeString :: "rvalue \<Rightarrow> string" where
  "typeString v = snd (valueTypeOf v)"

section \<open>Spelling\<close>

text \<open>A loop that stops at the first element that can not be written.\<close>

fun all_some :: "('a \<Rightarrow> 'b option) \<Rightarrow> 'a list \<Rightarrow> 'b list option" where
  "all_some f [] = Some []"
| "all_some f (x # xs) =
     (case f x of None \<Rightarrow> None | Some y \<Rightarrow> (case all_some f xs of None \<Rightarrow> None | Some ys \<Rightarrow> Some (y # ys)))"

lemma all_some_cong [fundef_cong]:
  assumes "xs = ys" and "\<And>x. x \<in> set ys \<Longrightarrow> f x = g x"
  shows "all_some f xs = all_some g ys"
proof -
  have "(\<And>x. x \<in> set ys \<Longrightarrow> f x = g x) \<Longrightarrow> all_some f ys = all_some g ys"
    by (induction ys) (auto split: option.split)
  with assms show ?thesis by simp
qed

lemma all_some_Cons: "all_some f (x # xs) = Some zs \<longleftrightarrow> (\<exists>y ys. f x = Some y \<and> all_some f xs = Some ys \<and> zs = y # ys)"
  by (auto split: option.splits)

lemma all_some_Some: "all_some f xs = Some ys \<longleftrightarrow> list_all2 (\<lambda>x y. f x = Some y) xs ys"
  by (induction xs arbitrary: ys) (auto simp: all_some_Cons list_all2_Cons1 simp del: all_some.simps(2))

definition comma_list :: "string list \<Rightarrow> string" where
  "comma_list texts = strings_Join texts '',''"

text \<open>The fields of a struct, each after its name, and the entries of a map, sorted by how their keys are written.\<close>

definition spell_struct :: "string list \<Rightarrow> string list \<Rightarrow> string" where
  "spell_struct names texts = ''{'' @ comma_list (map2 (\<lambda>name t. name @ '':'' @ t) names texts) @ ''}''"

definition spell_elements :: "string list \<Rightarrow> string" where
  "spell_elements texts = ''['' @ comma_list texts @ '']''"

fun text_le :: "string \<Rightarrow> string \<Rightarrow> bool" where
  "text_le [] t = True"
| "text_le (c # s) [] = False"
| "text_le (c # s) (d # t) = ((of_char c :: nat) < of_char d \<or> c = d \<and> text_le s t)"

fun insert_entry :: "string \<times> string \<Rightarrow> (string \<times> string) list \<Rightarrow> (string \<times> string) list" where
  "insert_entry e [] = [e]"
| "insert_entry e (f # fs) = (if text_le (fst e) (fst f) then e # f # fs else f # insert_entry e fs)"

definition sort_entries :: "(string \<times> string) list \<Rightarrow> (string \<times> string) list" where
  "sort_entries es = fold insert_entry es []"

definition spell_entries :: "(string \<times> string) list \<Rightarrow> string" where
  "spell_entries es = ''{'' @ comma_list (map (\<lambda>(k, v). k @ '':'' @ v) (sort_entries es)) @ ''}''"

text \<open>The addresses that the heap holds.\<close>

definition addresses :: "heap \<Rightarrow> nat set" where
  "addresses h = fst ` set (heapCells h) \<union> fst ` set (heapArrays h) \<union> fst ` set (heapMaps h)"

lemma map_of_address: "map_of cells a = Some x \<Longrightarrow> a \<in> fst ` set cells"
  by (auto dest: map_of_SomeD intro: rev_image_eqI)

lemma pointee_address: "pointee h (Some a) = Some v \<Longrightarrow> a \<in> addresses h"
  using map_of_address [of "heapCells h" a v] by (simp add: pointee_def addresses_def)

lemma elements_address: "v \<in> set (elements h (Some a) len) \<Longrightarrow> a \<in> addresses h"
  by (cases "map_of (heapArrays h) a") (auto simp: elements_def addresses_def dest: map_of_address)

lemma entries_address: "e \<in> set (map_entries h (Some a)) \<Longrightarrow> a \<in> addresses h"
  by (cases "map_of (heapMaps h) a") (auto simp: map_entries_def addresses_def dest: map_of_address)

lemma fewer_left:
  assumes "a \<in> addresses h" and "a \<notin> set onPath"
  shows "card (addresses h - insert a (set onPath)) < card (addresses h - set onPath)"
proof -
  have "finite (addresses h)" by (simp add: addresses_def)
  then show ?thesis using assms by (intro psubset_card_mono) auto
qed

text \<open>
  \<open>spell\<close>, with the addresses on the path, which \<open>spellReferenced\<close> looks up before it follows a pointer, a
  slice or a map.
\<close>

function spell :: "spelling \<Rightarrow> heap \<Rightarrow> nat list \<Rightarrow> rvalue \<Rightarrow> string option" where
  "spell sp h onPath (BasicV t x) = Some (if isStringType sp t then strconv_Quote x else x)"
| "spell sp h onPath (FloatV t f) = Some (FormatFloat sp f)"
| "spell sp h onPath (ComplexV t f g) = Some (FormatComplex sp f g)"
| "spell sp h onPath (PointerV t a) =
     (case a of
        None \<Rightarrow> Some ''nil''
      | Some address \<Rightarrow>
          if address \<in> set onPath then None
          else (case pointee h (Some address) of
                  None \<Rightarrow> None
                | Some v \<Rightarrow> map_option (\<lambda>s. ''&'' @ s) (spell sp h (address # onPath) v)))"
| "spell sp h onPath (InterfaceV t x) =
     (case x of None \<Rightarrow> Some ''nil'' | Some v \<Rightarrow> map_option (\<lambda>s. typeString v @ s) (spell sp h onPath v))"
| "spell sp h onPath (StructV t vs) =
     map_option (\<lambda>texts. spell_struct (map fst (structFields sp t)) texts) (all_some (\<lambda>v. spell sp h onPath v) vs)"
| "spell sp h onPath (SliceV t a len cap) =
     (case a of
        None \<Rightarrow> Some ''nil''
      | Some address \<Rightarrow>
          if address \<in> set onPath then None
          else map_option spell_elements (all_some (\<lambda>v. spell sp h (address # onPath) v) (elements h (Some address) len)))"
| "spell sp h onPath (ArrayV t vs) = map_option spell_elements (all_some (\<lambda>v. spell sp h onPath v) vs)"
| "spell sp h onPath (MapV t a) =
     (case a of
        None \<Rightarrow> Some ''nil''
      | Some address \<Rightarrow>
          if address \<in> set onPath then None
          else
            map_option spell_entries
              (all_some (\<lambda>e. case e of (k, v) \<Rightarrow>
                  (case spell sp h (address # onPath) k of
                     None \<Rightarrow> None
                   | Some key \<Rightarrow> map_option (Pair key) (spell sp h (address # onPath) v)))
                 (map_entries h (Some address))))"
| "spell sp h onPath (FuncV t nil) = None"
| "spell sp h onPath (ChanV t a) = None"
| "spell sp h onPath (UnsafePointerV t a) = None"
  by pat_completeness auto
termination
  by (relation "measures [\<lambda>(sp, h, onPath, v). card (addresses h - set onPath), \<lambda>(sp, h, onPath, v). size v]")
     (auto intro: fewer_left dest: pointee_address elements_address entries_address simp: termination_simp)

definition spellOut :: "spelling \<Rightarrow> heap \<Rightarrow> rvalue option \<Rightarrow> string option" where
  "spellOut sp h written =
     (case written of None \<Rightarrow> Some ''nil'' | Some v \<Rightarrow> map_option (\<lambda>s. typeString v @ s) (spell sp h [] v))"

section \<open>What a text tells\<close>

text \<open>
  A value is followed by the end of the text, a comma, a colon or a closing bracket. Two texts are apart if
  it can be told where each of them ends, so that the texts that they begin are the same only if they are.
\<close>

definition delimiters :: string where
  "delimiters = '',:}]''"

definition ends_here :: "string \<Rightarrow> bool" where
  "ends_here rest \<longleftrightarrow> rest = [] \<or> hd rest \<in> set delimiters"

definition plain_text :: "string \<Rightarrow> bool" where
  "plain_text s \<longleftrightarrow> s \<noteq> [] \<and> (\<forall>c \<in> set s. c \<notin> set delimiters)"

definition told_apart :: "string \<Rightarrow> string \<Rightarrow> bool" where
  "told_apart s t \<longleftrightarrow> (\<forall>rest rest'. ends_here rest \<longrightarrow> ends_here rest' \<longrightarrow> s @ rest = t @ rest' \<longrightarrow> s = t)"

lemma ends_here_simps [simp]:
  "ends_here []" "ends_here (c # s) \<longleftrightarrow> c \<in> set delimiters"
  by (simp_all add: ends_here_def)

lemma delimiters_member [simp]:
  "CHR '','' \<in> set delimiters" "CHR '':'' \<in> set delimiters" "CHR ''}'' \<in> set delimiters" "CHR '']'' \<in> set delimiters"
  by (simp_all add: delimiters_def)

lemma begins_value: "\<not> ends_here s \<Longrightarrow> \<not> ends_here (s @ r)"
  by (cases s) simp_all

lemma plain_begins: "plain_text s \<Longrightarrow> \<not> ends_here s"
  by (cases s) (simp_all add: plain_text_def)

lemma told_apartD: "told_apart s t \<Longrightarrow> s @ rest = t @ rest' \<Longrightarrow> ends_here rest \<Longrightarrow> ends_here rest' \<Longrightarrow> s = t \<and> rest = rest'"
  unfolding told_apart_def by blast

lemma told_apart_refl [simp]: "told_apart s s"
  by (simp add: told_apart_def)

lemma told_apart_same_start: "told_apart s t \<Longrightarrow> told_apart (start @ s) (start @ t)"
  by (auto simp: told_apart_def)

lemma told_apart_heads: "s \<noteq> [] \<Longrightarrow> t \<noteq> [] \<Longrightarrow> hd s \<noteq> hd t \<Longrightarrow> told_apart s t"
  by (cases s; cases t) (auto simp: told_apart_def)

lemma plain_longer:
  assumes "\<forall>c \<in> set u. c \<notin> set delimiters" and "ends_here (u @ r)"
  shows "u = []"
  using assms by (cases u) simp_all

lemma plain_told_apart:
  assumes "plain_text s" and "plain_text t"
  shows "told_apart s t"
  unfolding told_apart_def
proof (intro allI impI)
  fix rest rest' assume ends: "ends_here rest" "ends_here rest'" and eq: "s @ rest = t @ rest'"
  from eq consider (longer) u where "s = t @ u" "u @ rest = rest'" | (shorter) u where "t = s @ u" "rest = u @ rest'"
    unfolding append_eq_append_conv2 by metis
  then show "s = t"
  proof cases
    case longer
    then have "u = []" using assms(1) ends by (intro plain_longer [of u rest]) (simp_all add: plain_text_def)
    then show ?thesis using longer by simp
  next
    case shorter
    then have "u = []" using assms(2) ends by (intro plain_longer [of u rest']) (simp_all add: plain_text_def)
    then show ?thesis using shorter by simp
  qed
qed

lemma told_apart_pair:
  assumes "told_apart k k'" and "told_apart v v'"
  shows "told_apart (k @ '':'' @ v) (k' @ '':'' @ v')"
  unfolding told_apart_def
proof (intro allI impI)
  fix rest rest' assume ends: "ends_here rest" "ends_here rest'" and "(k @ '':'' @ v) @ rest = (k' @ '':'' @ v') @ rest'"
  then have "k @ (CHR '':'' # v @ rest) = k' @ (CHR '':'' # v' @ rest')" by simp
  from told_apartD [OF assms(1) this] have same: "k = k'" "v @ rest = v' @ rest'" by simp_all
  from told_apartD [OF assms(2) same(2) ends] same(1) show "k @ '':'' @ v = k' @ '':'' @ v'" by simp
qed

subsection \<open>Lists\<close>

lemma comma_list_simps [simp]:
  "comma_list [] = []"
  "comma_list (s # ss) = s @ concat (map (Cons CHR '','') ss)"
proof -
  show "comma_list (s # ss) = s @ concat (map (Cons CHR '','') ss)"
    by (induction ss arbitrary: s) (simp_all add: comma_list_def)
qed (simp add: comma_list_def)

lemma comma_tail_told_apart:
  assumes "\<And>i. i < length ss \<Longrightarrow> i < length ts \<Longrightarrow> told_apart (ss ! i) (ts ! i)"
    and "concat (map (Cons CHR '','') ss) @ c # rest = concat (map (Cons CHR '','') ts) @ c # rest'"
    and "c \<in> {CHR ''}'', CHR '']''}"
  shows "ss = ts"
  using assms
proof (induction ss ts rule: list_induct2')
  case (4 s ss t ts)
  let ?tail = "\<lambda>us. concat (map (Cons CHR '','') us)"
  have eq: "s @ (?tail ss @ c # rest) = t @ (?tail ts @ c # rest')" using 4(3) by simp
  have ends: "ends_here (?tail us @ c # r)" for us r using 4(4) by (cases us) auto
  have "told_apart s t" using 4(2) [of 0] by simp
  from told_apartD [OF this eq ends ends] have same: "s = t" "?tail ss @ c # rest = ?tail ts @ c # rest'" by simp_all
  have "told_apart (ss ! i) (ts ! i)" if "i < length ss" "i < length ts" for i using 4(2) [of "Suc i"] that by simp
  from 4(1) [OF this same(2) 4(4)] same(1) show ?case by simp
qed auto

lemma comma_list_told_apart:
  assumes "\<And>i. i < length ss \<Longrightarrow> i < length ts \<Longrightarrow> told_apart (ss ! i) (ts ! i)"
    and eq: "comma_list ss @ c # rest = comma_list ts @ c # rest'"
    and c: "c \<in> {CHR ''}'', CHR '']''}" and begins: "\<forall>s \<in> set ss \<union> set ts. \<not> ends_here s"
  shows "ss = ts"
proof -
  have close: "ends_here (c # r)" for r using c by auto
  have not_close: "s @ r \<noteq> c # r'" if "s \<in> set ss \<union> set ts" for s r r'
    using begins_value [of s r] begins that close [of r'] by metis
  show ?thesis
  proof (cases ss)
    case Nil
    then show ?thesis using eq not_close by (cases ts) (simp_all, metis list.set_intros(1))
  next
    case ss: (Cons s ss')
    show ?thesis
    proof (cases ts)
      case Nil
      then show ?thesis using eq not_close [of s] ss by simp
    next
      case ts: (Cons t ts')
      let ?tail = "\<lambda>us. concat (map (Cons CHR '','') us)"
      have eq': "s @ (?tail ss' @ c # rest) = t @ (?tail ts' @ c # rest')" using eq ss ts by simp
      have ends: "ends_here (?tail us @ c # r)" for us r using close by (cases us) simp_all
      have "told_apart s t" using assms(1) [of 0] ss ts by simp
      from told_apartD [OF this eq' ends ends] have "s = t" "?tail ss' @ c # rest = ?tail ts' @ c # rest'" by simp_all
      moreover have "told_apart (ss' ! i) (ts' ! i)" if "i < length ss'" "i < length ts'" for i
        using assms(1) [of "Suc i"] that ss ts by simp
      ultimately show ?thesis using comma_tail_told_apart [of ss' ts' c rest rest'] c ss ts by simp
    qed
  qed
qed

subsection \<open>Quoted strings\<close>

text \<open>Reading a quoted character back.\<close>

definition hex_value :: "char \<Rightarrow> nat" where
  "hex_value c = (let n = of_char c in if n < 58 then n - 48 else n - 87)"

definition escaped :: "char \<Rightarrow> char" where
  "escaped c =
     (if c = CHR ''a'' then char_of (7::nat) else if c = CHR ''b'' then char_of (8::nat)
      else if c = CHR ''f'' then char_of (12::nat) else if c = CHR ''n'' then char_of (10::nat)
      else if c = CHR ''r'' then char_of (13::nat) else if c = CHR ''t'' then char_of (9::nat)
      else if c = CHR ''v'' then char_of (11::nat) else c)"

fun unquote_char :: "string \<Rightarrow> char \<times> string" where
  "unquote_char (c # d # s) =
     (if c \<noteq> CHR 0x5C then (c, d # s)
      else if d \<noteq> CHR ''x'' then (escaped d, s)
      else (char_of (16 * hex_value (hd s) + hex_value (hd (tl s))), drop 2 s))"
| "unquote_char s = (hd s, tl s)"

lemma hex_value_digit [simp]: "d < 16 \<Longrightarrow> hex_value (hex_digit d) = d"
  by (simp add: hex_value_def hex_digit_def)

lemma quoted_chars [simp]:
  "char_of (92::nat) = CHR 0x5C" "char_of (34::nat) = CHR 0x22" "char_of (7::nat) = CHR 0x07" "char_of (8::nat) = CHR 0x08"
  "char_of (9::nat) = CHR 0x09" "char_of (10::nat) = CHR 0x0A" "char_of (11::nat) = CHR 0x0B" "char_of (12::nat) = CHR 0x0C"
  "char_of (13::nat) = CHR 0x0D"
  by code_simp+

lemma unquote_quote_char:
  assumes "s \<noteq> []"
  shows "unquote_char (quote_char c @ s) = (c, s)"
proof -
  obtain d s' where s: "s = d # s'" using assms by (cases s) auto
  define n :: nat where "n = of_char c"
  have c: "c = char_of n" and n: "n < 256" by (simp_all add: n_def)
  have hex: "16 * (n div 16) + n mod 16 = n" "n div 16 < 16" using n by simp_all
  consider "n = 34" | "n = 92" | "32 \<le> n" "n < 127" "n \<noteq> 34" "n \<noteq> 92" | "n = 7" | "n = 8" | "n = 12" | "n = 10" | "n = 13" | "n = 9" | "n = 11"
    | "\<not> (32 \<le> n \<and> n < 127)" "n \<notin> {7, 8, 9, 10, 11, 12, 13}" by (auto simp only: insert_iff empty_iff)
  then show ?thesis
  proof cases
    case 3
    then have "quote_char c = [c]" by (simp add: quote_char_def n_def)
    moreover have "c \<noteq> CHR 0x5C" using 3(4) by (auto simp: n_def)
    ultimately show ?thesis by (simp add: s)
  next
    case 11
    then have "n \<noteq> 92" "n \<noteq> 34" by auto
    with 11 have "quote_char c = [CHR 0x5C, CHR ''x'', hex_digit (n div 16), hex_digit (n mod 16)]"
      by (simp add: quote_char_def n_def [symmetric] Let_def)
    then show ?thesis using hex by (simp add: c)
  qed (simp_all add: quote_char_def c s escaped_def Let_def)
qed

lemma quote_char_head: "quote_char c \<noteq> [] \<and> hd (quote_char c) \<noteq> CHR 0x22"
  by (auto simp: quote_char_def Let_def)

lemma quote_char_not_quote: "quote_char c @ s \<noteq> CHR 0x22 # t"
  using quote_char_head [of c] by (cases "quote_char c") simp_all

lemma quoted_unique:
  "concat (map quote_char s) @ CHR 0x22 # rest = concat (map quote_char t) @ CHR 0x22 # rest' \<Longrightarrow> s = t"
proof (induction s t rule: list_induct2')
  case (4 c s d t)
  then have eq: "quote_char c @ (concat (map quote_char s) @ CHR 0x22 # rest) = quote_char d @ (concat (map quote_char t) @ CHR 0x22 # rest')"
    by simp
  from arg_cong [OF eq, of unquote_char]
  have "c = d" "concat (map quote_char s) @ CHR 0x22 # rest = concat (map quote_char t) @ CHR 0x22 # rest'"
    by (simp_all add: unquote_quote_char)
  then show ?case using 4(1) by simp
qed (simp_all add: quote_char_not_quote quote_char_not_quote [symmetric])

lemma Quote_told_apart: "told_apart (strconv_Quote s) (strconv_Quote t)"
  unfolding told_apart_def
proof (intro allI impI)
  fix rest rest' assume "strconv_Quote s @ rest = strconv_Quote t @ rest'"
  then have "concat (map quote_char s) @ CHR 0x22 # rest = concat (map quote_char t) @ CHR 0x22 # rest'"
    by (simp add: strconv_Quote_def)
  then show "strconv_Quote s = strconv_Quote t" using quoted_unique by metis
qed

lemma Quote_inj: "strconv_Quote s = strconv_Quote t \<Longrightarrow> s = t"
  using quoted_unique [of s "[]" t "[]"] by (simp add: strconv_Quote_def)

end
