(* ===== verification/Spell_Exact.thy ===== *)
theory Spell_Exact
  imports Spell_Out Http_Tags "HOL-Library.Countable"
begin

text \<open>
  What the texts of \<open>Spell_Out\<close> tell about the values: values of the same type that hold no interface are
  written the same only if they have the same content, a value that contains itself is not written, and
  the order in which a map hands out its entries does not matter.
\<close>

section \<open>Content\<close>

text \<open>
  Two values have the same content if they are equal in every field: pointers if they point at the same
  content, slices if they hold the same elements, maps if the entries of one are those of the other in some
  order.
\<close>

inductive same_content :: "heap \<Rightarrow> rvalue \<Rightarrow> rvalue \<Rightarrow> bool" for h where
  basic: "same_content h (BasicV t x) (BasicV t x)"
| float: "same_content h (FloatV t f) (FloatV t f)"
| complex: "same_content h (ComplexV t f g) (ComplexV t f g)"
| pointer_nil: "same_content h (PointerV t None) (PointerV t None)"
| pointer: "pointee h (Some a) = Some v \<Longrightarrow> pointee h (Some b) = Some w \<Longrightarrow> same_content h v w
    \<Longrightarrow> same_content h (PointerV t (Some a)) (PointerV t (Some b))"
| interface_nil: "same_content h (InterfaceV t None) (InterfaceV t None)"
| interface: "same_content h v w \<Longrightarrow> same_content h (InterfaceV t (Some v)) (InterfaceV t (Some w))"
| struct: "list_all2 (same_content h) vs ws \<Longrightarrow> same_content h (StructV t vs) (StructV t ws)"
| slice_nil: "same_content h (SliceV t None l c) (SliceV t None l' c')"
| slice: "list_all2 (same_content h) (elements h (Some a) l) (elements h (Some b) l')
    \<Longrightarrow> same_content h (SliceV t (Some a) l c) (SliceV t (Some b) l' c')"
| array: "list_all2 (same_content h) vs ws \<Longrightarrow> same_content h (ArrayV t vs) (ArrayV t ws)"
| map_nil: "same_content h (MapV t None) (MapV t None)"
| map: "mset es = mset (map_entries h (Some b))
    \<Longrightarrow> list_all2 (\<lambda>e e'. same_content h (fst e) (fst e') \<and> same_content h (snd e) (snd e')) (map_entries h (Some a)) es
    \<Longrightarrow> same_content h (MapV t (Some a)) (MapV t (Some b))"

text \<open>
  A value fits its type if what it holds is of the types that the type declares; numbers and truth values are
  words without delimiters, and strings are ASCII. A value is concrete if it holds no interface. Both are
  asked of every value on the heap.
\<close>

fun fits :: "spelling \<Rightarrow> heap \<Rightarrow> rvalue \<Rightarrow> bool" where
  "fits sp h (BasicV t x) \<longleftrightarrow> (if isStringType sp t then \<forall>c \<in> set x. (of_char c :: nat) < 128 else plain_text x)"
| "fits sp h (PointerV t a) \<longleftrightarrow> (case pointee h a of None \<Rightarrow> True | Some v \<Rightarrow> valueTypeOf v = elemType sp t)"
| "fits sp h (InterfaceV t x) \<longleftrightarrow> (case x of None \<Rightarrow> True | Some v \<Rightarrow> fits sp h v)"
| "fits sp h (StructV t vs) \<longleftrightarrow> map valueTypeOf vs = map snd (structFields sp t) \<and> (\<forall>v \<in> set vs. fits sp h v)"
| "fits sp h (SliceV t a len cap) \<longleftrightarrow> (\<forall>v \<in> set (elements h a len). valueTypeOf v = elemType sp t)"
| "fits sp h (ArrayV t vs) \<longleftrightarrow> (\<forall>v \<in> set vs. valueTypeOf v = elemType sp t \<and> fits sp h v)"
| "fits sp h (MapV t a) \<longleftrightarrow> (\<forall>e \<in> set (map_entries h a). valueTypeOf (fst e) = keyType sp t \<and> valueTypeOf (snd e) = elemType sp t)"
| "fits sp h _ \<longleftrightarrow> True"

fun concrete :: "rvalue \<Rightarrow> bool" where
  "concrete (InterfaceV t x) \<longleftrightarrow> False"
| "concrete (StructV t vs) \<longleftrightarrow> (\<forall>v \<in> set vs. concrete v)"
| "concrete (ArrayV t vs) \<longleftrightarrow> (\<forall>v \<in> set vs. concrete v)"
| "concrete _ \<longleftrightarrow> True"

definition stored :: "heap \<Rightarrow> rvalue list" where
  "stored h = map snd (heapCells h) @ concat (map snd (heapArrays h))
     @ concat (map (\<lambda>(a, es). map fst es @ map snd es) (heapMaps h))"

definition heap_fits :: "spelling \<Rightarrow> heap \<Rightarrow> bool" where
  "heap_fits sp h \<longleftrightarrow> (\<forall>v \<in> set (stored h). fits sp h v \<and> concrete v)"

text \<open>
  What the code relies on of the language and of \<open>strconv\<close>: field names are words, and two floats or complex
  numbers are written the same only if they are the same.
\<close>

definition spells_apart :: "spelling \<Rightarrow> bool" where
  "spells_apart sp \<longleftrightarrow>
     (\<forall>t. \<forall>f \<in> set (structFields sp t). plain_text (fst f))
   \<and> inj (FormatFloat sp) \<and> (\<forall>f. plain_text (FormatFloat sp f))
   \<and> inj (\<lambda>(f, g). FormatComplex sp f g) \<and> (\<forall>f g. plain_text (FormatComplex sp f g))"

lemma spells_apartD:
  assumes "spells_apart sp"
  shows "\<forall>n \<in> set (map fst (structFields sp t)). plain_text n"
    and "plain_text (FormatFloat sp f)" and "FormatFloat sp f = FormatFloat sp g \<longleftrightarrow> f = g"
    and "plain_text (FormatComplex sp f g)" and "FormatComplex sp f g = FormatComplex sp f' g' \<longleftrightarrow> f = f' \<and> g = g'"
proof -
  show "FormatComplex sp f g = FormatComplex sp f' g' \<longleftrightarrow> f = f' \<and> g = g'"
    using assms inj_eq [of "\<lambda>(f, g). FormatComplex sp f g" "(f, g)" "(f', g')"] by (simp add: spells_apart_def)
qed (use assms in \<open>simp_all add: spells_apart_def inj_eq\<close>)

lemma map_of_snd: "map_of cells a = Some x \<Longrightarrow> x \<in> snd ` set cells"
  by (auto dest: map_of_SomeD intro: rev_image_eqI)

lemma stored_pointee: "pointee h (Some a) = Some v \<Longrightarrow> v \<in> set (stored h)"
  using map_of_snd [of "heapCells h" a v] by (simp add: pointee_def stored_def)

lemma stored_elements:
  assumes "v \<in> set (elements h (Some a) len)"
  shows "v \<in> set (stored h)"
proof -
  obtain vs where "map_of (heapArrays h) a = Some vs" "v \<in> set (take len vs)"
    using assms by (cases "map_of (heapArrays h) a") (simp_all add: elements_def)
  then have "vs \<in> set (map snd (heapArrays h))" "v \<in> set vs" using map_of_snd in_set_takeD by (fastforce, metis)
  then have "v \<in> set (concat (map snd (heapArrays h)))" unfolding set_concat by (rule UN_I)
  then show ?thesis by (simp only: stored_def set_append Un_iff simp_thms)
qed

lemma stored_entries:
  assumes "e \<in> set (map_entries h (Some a))"
  shows "fst e \<in> set (stored h) \<and> snd e \<in> set (stored h)"
proof -
  obtain es where es: "map_of (heapMaps h) a = Some es" "e \<in> set es"
    using assms by (cases "map_of (heapMaps h) a") (simp_all add: map_entries_def)
  then have "(a, es) \<in> set (heapMaps h)" by (simp add: map_of_SomeD)
  then have listed: "map fst es @ map snd es \<in> set (map (\<lambda>(a, es). map fst es @ map snd es) (heapMaps h))"
    unfolding set_map by (rule rev_image_eqI) simp
  have "v \<in> set (stored h)" if "v \<in> set (map fst es @ map snd es)" for v
  proof -
    have "v \<in> set (concat (map (\<lambda>(a, es). map fst es @ map snd es) (heapMaps h)))"
      unfolding set_concat using listed that by (rule UN_I)
    then show ?thesis by (simp only: stored_def set_append Un_iff simp_thms)
  qed
  then show ?thesis using es(2) by simp
qed

lemmas stored = stored_pointee stored_elements stored_entries

section \<open>Equal texts mean equal content\<close>

text \<open>What is shown of two values and their texts: it can be told where they end, and equal texts mean equal content.\<close>

definition text_tells :: "heap \<Rightarrow> rvalue \<Rightarrow> string \<Rightarrow> rvalue \<Rightarrow> string \<Rightarrow> bool" where
  "text_tells h v s w t \<longleftrightarrow> told_apart s t \<and> (s = t \<longrightarrow> same_content h v w)"

lemma nil_apart: "hd s \<noteq> CHR ''n'' \<Longrightarrow> s \<noteq> [] \<Longrightarrow> told_apart ''nil'' s \<and> told_apart s ''nil'' \<and> s \<noteq> ''nil''"
  by (auto intro!: told_apart_heads)

lemma elements_apart:
  assumes "\<And>i. i < length ss \<Longrightarrow> i < length ts \<Longrightarrow> told_apart (ss ! i) (ts ! i)"
    and "\<forall>s \<in> set ss \<union> set ts. \<not> ends_here s"
  shows "told_apart (spell_elements ss) (spell_elements ts)" "spell_elements ss = spell_elements ts \<Longrightarrow> ss = ts"
proof -
  have same: "ss = ts" if "spell_elements ss @ rest = spell_elements ts @ rest'" for rest rest'
    using comma_list_told_apart [OF assms(1) _ _ assms(2), of "CHR '']''" rest rest'] that by (simp add: spell_elements_def)
  then show "told_apart (spell_elements ss) (spell_elements ts)" unfolding told_apart_def by blast
  show "spell_elements ss = spell_elements ts \<Longrightarrow> ss = ts" using same [of "[]" "[]"] by simp
qed

lemma struct_apart:
  assumes "\<And>i. i < length names \<Longrightarrow> told_apart (ss ! i) (ts ! i)"
    and "\<forall>n \<in> set names. plain_text n" and len: "length ss = length names" "length ts = length names"
  shows "told_apart (spell_struct names ss) (spell_struct names ts)" "spell_struct names ss = spell_struct names ts \<Longrightarrow> ss = ts"
proof -
  let ?field = "\<lambda>name t. name @ '':'' @ t"
  have apart: "told_apart (map2 ?field names ss ! i) (map2 ?field names ts ! i)" if "i < length (map2 ?field names ss)" for i
    using that assms(1) [of i] len told_apart_same_start [of "ss ! i" "ts ! i" "names ! i @ '':''"] by simp
  have begins: "\<not> ends_here u" if "u \<in> set (map2 ?field names ss) \<union> set (map2 ?field names ts)" for u
    using that assms(2) begins_value [OF plain_begins] by (auto dest!: set_zip_leftD)
  have same: "ss = ts" if "spell_struct names ss @ rest = spell_struct names ts @ rest'" for rest rest'
  proof -
    have "map2 ?field names ss = map2 ?field names ts"
    proof (rule comma_list_told_apart [of _ _ "CHR ''}''" rest rest'])
      show "told_apart (map2 ?field names ss ! i) (map2 ?field names ts ! i)" if "i < length (map2 ?field names ss)" for i
        using that by (rule apart)
    qed (use that begins in \<open>simp_all add: spell_struct_def\<close>)
    then have fields: "map2 ?field names ss ! i = map2 ?field names ts ! i" for i by simp
    have "ss ! i = ts ! i" if "i < length names" for i using fields [of i] that len by simp
    then show ?thesis using len by (intro nth_equalityI) simp_all
  qed
  then show "told_apart (spell_struct names ss) (spell_struct names ts)" unfolding told_apart_def by blast
  show "spell_struct names ss = spell_struct names ts \<Longrightarrow> ss = ts" using same [of "[]" "[]"] by simp
qed

lemma insert_entry_mset: "mset (insert_entry e es) = add_mset e (mset es)"
  by (induction es) auto

lemma fold_insert_mset: "mset (fold insert_entry es fs) = mset es + mset fs"
  by (induction es arbitrary: fs) (simp_all add: insert_entry_mset)

lemma sort_entries_mset [simp]: "mset (sort_entries es) = mset es"
  by (simp add: sort_entries_def fold_insert_mset)

lemma sort_entries_set [simp]: "set (sort_entries es) = set es"
  by (metis set_mset_mset sort_entries_mset)

lemma entries_apart:
  assumes apart: "\<And>e e'. e \<in> set xs \<Longrightarrow> e' \<in> set ys \<Longrightarrow> told_apart (fst e) (fst e') \<and> told_apart (snd e) (snd e')"
    and begins: "\<forall>e \<in> set xs \<union> set ys. \<not> ends_here (fst e)"
  shows "told_apart (spell_entries xs) (spell_entries ys)" "spell_entries xs = spell_entries ys \<Longrightarrow> mset xs = mset ys"
proof -
  let ?entry = "\<lambda>(k, v). k @ '':'' @ v"
  have pair: "told_apart (?entry e) (?entry e')" "?entry e = ?entry e' \<Longrightarrow> e = e'" if "e \<in> set xs" "e' \<in> set ys" for e e'
  proof -
    obtain k v k' v' where e: "e = (k, v)" "e' = (k', v')" by (metis surj_pair)
    then have two: "told_apart k k'" "told_apart v v'" using apart [OF that] by simp_all
    then show "told_apart (?entry e) (?entry e')" using told_apart_pair e by simp
    show "e = e'" if "?entry e = ?entry e'" using told_apartD [OF two(1), of "CHR '':'' # v" "CHR '':'' # v'"] that e by simp
  qed
  have listed: "sort_entries xs ! i \<in> set xs" "sort_entries ys ! j \<in> set ys"
    if "i < length (sort_entries xs)" "j < length (sort_entries ys)" for i j using that nth_mem by fastforce+
  have same: "sort_entries xs = sort_entries ys" if eq: "spell_entries xs @ rest = spell_entries ys @ rest'" for rest rest'
  proof -
    have texts: "map ?entry (sort_entries xs) = map ?entry (sort_entries ys)"
    proof (rule comma_list_told_apart [of _ _ "CHR ''}''" rest rest'])
      show "told_apart (map ?entry (sort_entries xs) ! i) (map ?entry (sort_entries ys) ! i)"
        if "i < length (map ?entry (sort_entries xs))" "i < length (map ?entry (sort_entries ys))" for i
        using that pair(1) listed by simp
      show "\<forall>s \<in> set (map ?entry (sort_entries xs)) \<union> set (map ?entry (sort_entries ys)). \<not> ends_here s"
        using begins begins_value by (auto simp: ball_Un split: prod.splits)
    qed (use eq in \<open>simp_all add: spell_entries_def\<close>)
    then have len: "length (sort_entries xs) = length (sort_entries ys)" by (rule map_eq_imp_length_eq)
    have "sort_entries xs ! i = sort_entries ys ! i" if "i < length (sort_entries xs)" for i
    proof -
      have "map ?entry (sort_entries xs) ! i = map ?entry (sort_entries ys) ! i" using texts by simp
      then have "?entry (sort_entries xs ! i) = ?entry (sort_entries ys ! i)" using that len by simp
      moreover have "sort_entries xs ! i \<in> set xs" "sort_entries ys ! i \<in> set ys" using listed that len by simp_all
      ultimately show ?thesis using pair(2) by blast
    qed
    then show ?thesis using len by (intro nth_equalityI)
  qed
  have "spell_entries xs = spell_entries ys" if "spell_entries xs @ rest = spell_entries ys @ rest'" for rest rest'
    using same [OF that] by (simp add: spell_entries_def)
  then show "told_apart (spell_entries xs) (spell_entries ys)" unfolding told_apart_def by blast
  show "spell_entries xs = spell_entries ys \<Longrightarrow> mset xs = mset ys" using same [of "[]" "[]"] sort_entries_mset by metis
qed

text \<open>Every text begins a value, and lists of values that are told apart position by position are told apart.\<close>

lemma spelled_begins:
  assumes "spells_apart sp" and "spell sp h onPath v = Some s" and "fits sp h v" and "concrete v"
  shows "\<not> ends_here s"
proof -
  have open_bracket: "CHR ''{'' \<notin> set delimiters" "CHR ''['' \<notin> set delimiters" "CHR ''&'' \<notin> set delimiters"
    "CHR ''n'' \<notin> set delimiters" "CHR 0x22 \<notin> set delimiters" by (simp_all add: delimiters_def)
  note plain = plain_begins [OF spells_apartD(2) [OF assms(1)]] plain_begins [OF spells_apartD(4) [OF assms(1)]]
  show ?thesis
    using assms(2-4) by (cases v)
      (auto simp: open_bracket plain strconv_Quote_def spell_struct_def spell_elements_def spell_entries_def
        split: if_splits option.splits dest: plain_begins)
qed

lemma lists_tell:
  assumes "list_all2 F vs ss" and "list_all2 G ws ts"
    and tells: "\<And>i. i < length vs \<Longrightarrow> i < length ws \<Longrightarrow> F (vs ! i) (ss ! i) \<Longrightarrow> G (ws ! i) (ts ! i)
      \<Longrightarrow> text_tells h (vs ! i) (ss ! i) (ws ! i) (ts ! i)"
  shows "\<And>i. i < length ss \<Longrightarrow> i < length ts \<Longrightarrow> told_apart (ss ! i) (ts ! i)"
    and "ss = ts \<Longrightarrow> list_all2 (same_content h) vs ws"
  using assms by (auto simp: list_all2_conv_all_nth text_tells_def)

definition entry_spelled :: "spelling \<Rightarrow> heap \<Rightarrow> nat list \<Rightarrow> rvalue \<times> rvalue \<Rightarrow> string \<times> string \<Rightarrow> bool" where
  "entry_spelled sp h onPath e x \<longleftrightarrow> spell sp h onPath (fst e) = Some (fst x) \<and> spell sp h onPath (snd e) = Some (snd x)"

lemma spell_map:
  assumes "spell sp h onPath (MapV t (Some a)) = Some s"
  obtains xs where "s = spell_entries xs" "list_all2 (entry_spelled sp h (a # onPath)) (map_entries h (Some a)) xs" "a \<notin> set onPath"
proof -
  let ?f = "\<lambda>e. case e of (k, v) \<Rightarrow>
      (case spell sp h (a # onPath) k of
         None \<Rightarrow> None
       | Some key \<Rightarrow> map_option (Pair key) (spell sp h (a # onPath) v))"
  obtain xs where xs: "s = spell_entries xs" "all_some ?f (map_entries h (Some a)) = Some xs" "a \<notin> set onPath"
    using assms by (auto split: if_splits)
  have "entry_spelled sp h (a # onPath) e x" if "?f e = Some x" for e x
    using that by (auto simp: entry_spelled_def split: prod.splits option.splits)
  then have "list_all2 (entry_spelled sp h (a # onPath)) (map_entries h (Some a)) xs"
    using xs(2) unfolding all_some_Some by (rule list_all2_mono [rotated])
  with that xs(1,3) show ?thesis by blast
qed

lemma spell_slice:
  assumes "spell sp h onPath (SliceV t (Some a) len cap) = Some s"
  obtains ss where "s = spell_elements ss" "list_all2 (\<lambda>v s. spell sp h (a # onPath) v = Some s) (elements h (Some a) len) ss"
    "a \<notin> set onPath"
  using assms by (auto simp: all_some_Some split: if_splits)

lemma spell_struct_value:
  assumes "spell sp h onPath (StructV t vs) = Some s"
  obtains ss where "s = spell_struct (map fst (structFields sp t)) ss" "list_all2 (\<lambda>v s. spell sp h onPath v = Some s) vs ss"
  using assms by (auto simp: all_some_Some)

lemma spell_array:
  assumes "spell sp h onPath (ArrayV t vs) = Some s"
  obtains ss where "s = spell_elements ss" "list_all2 (\<lambda>v s. spell sp h onPath v = Some s) vs ss"
  using assms by (auto simp: all_some_Some)

lemma spell_pointer:
  assumes "spell sp h onPath (PointerV t (Some a)) = Some s"
  obtains v s' where "s = CHR ''&'' # s'" "pointee h (Some a) = Some v" "spell sp h (a # onPath) v = Some s'" "a \<notin> set onPath"
  using assms by (auto split: if_splits option.splits)

text \<open>The induction, kind by kind: the values that a value holds tell their content, so the value does.\<close>

definition tells_below :: "spelling \<Rightarrow> heap \<Rightarrow> nat list \<Rightarrow> rvalue \<Rightarrow> bool" where
  "tells_below sp h onPath v \<longleftrightarrow>
     (\<forall>onPath' w s t. spell sp h onPath v = Some s \<longrightarrow> spell sp h onPath' w = Some t \<longrightarrow> valueTypeOf v = valueTypeOf w
        \<longrightarrow> fits sp h v \<longrightarrow> fits sp h w \<longrightarrow> concrete v \<longrightarrow> concrete w \<longrightarrow> text_tells h v s w t)"

lemma tells_belowD:
  "tells_below sp h onPath v \<Longrightarrow> spell sp h onPath v = Some s \<Longrightarrow> spell sp h onPath' w = Some t \<Longrightarrow> valueTypeOf v = valueTypeOf w
     \<Longrightarrow> fits sp h v \<Longrightarrow> fits sp h w \<Longrightarrow> concrete v \<Longrightarrow> concrete w \<Longrightarrow> text_tells h v s w t"
  unfolding tells_below_def by blast

lemma heap_fitsD: "heap_fits sp h \<Longrightarrow> v \<in> set (stored h) \<Longrightarrow> fits sp h v \<and> concrete v"
  by (simp add: heap_fits_def)

lemma list_all2_right: "list_all2 F vs ss \<Longrightarrow> s \<in> set ss \<Longrightarrow> \<exists>v \<in> set vs. F v s"
  by (induction rule: list_all2_induct) auto

lemma spelled_all_begin:
  assumes "spells_apart sp" and "list_all2 (\<lambda>v s. spell sp h onPath v = Some s) vs ss" and "\<forall>v \<in> set vs. fits sp h v \<and> concrete v"
    and "s \<in> set ss"
  shows "\<not> ends_here s"
  using list_all2_right [OF assms(2,4)] assms(3) spelled_begins [OF assms(1)] by blast

lemma values_tell:
  assumes apart: "spells_apart sp" and below: "\<And>v. v \<in> set vs \<Longrightarrow> tells_below sp h onPath v"
    and vs: "list_all2 (\<lambda>v s. spell sp h onPath v = Some s) vs ss" and ws: "list_all2 (\<lambda>v s. spell sp h onPath' v = Some s) ws ts"
    and typed: "\<And>i. i < length vs \<Longrightarrow> i < length ws \<Longrightarrow> valueTypeOf (vs ! i) = valueTypeOf (ws ! i)"
    and fit: "\<forall>v \<in> set vs \<union> set ws. fits sp h v \<and> concrete v"
  shows "\<And>i. i < length ss \<Longrightarrow> i < length ts \<Longrightarrow> told_apart (ss ! i) (ts ! i)"
    and "ss = ts \<Longrightarrow> list_all2 (same_content h) vs ws" and "\<forall>s \<in> set ss \<union> set ts. \<not> ends_here s"
proof -
  have tells: "text_tells h (vs ! i) s (ws ! i) t"
    if i: "i < length vs" "i < length ws" and spelled: "spell sp h onPath (vs ! i) = Some s" "spell sp h onPath' (ws ! i) = Some t" for i s t
  proof -
    have "vs ! i \<in> set vs" "ws ! i \<in> set ws" using i by simp_all
    then show ?thesis using below [of "vs ! i"] spelled typed [OF i] fit by (intro tells_belowD [of sp h onPath _ _ onPath']) simp_all
  qed
  show "\<And>i. i < length ss \<Longrightarrow> i < length ts \<Longrightarrow> told_apart (ss ! i) (ts ! i)" using lists_tell(1) [OF vs ws tells] by blast
  show "ss = ts \<Longrightarrow> list_all2 (same_content h) vs ws" using lists_tell(2) [OF vs ws tells] by blast
  show "\<forall>s \<in> set ss \<union> set ts. \<not> ends_here s"
    using spelled_all_begin [OF apart vs] spelled_all_begin [OF apart ws] fit by blast
qed

lemma nil_tells:
  assumes "hd s \<noteq> CHR ''n''" and "s \<noteq> []"
  shows "text_tells h v ''nil'' w s" "text_tells h v s w ''nil''"
  using nil_apart [OF assms] by (auto simp: text_tells_def)

lemma reference_tells:
  assumes "x = None \<Longrightarrow> s = ''nil''" and "y = None \<Longrightarrow> u = ''nil''"
    and "\<And>a. x = Some a \<Longrightarrow> s \<noteq> [] \<and> hd s \<noteq> CHR ''n''" and "\<And>b. y = Some b \<Longrightarrow> u \<noteq> [] \<and> hd u \<noteq> CHR ''n''"
    and "x = None \<Longrightarrow> y = None \<Longrightarrow> same_content h v w" and "\<And>a b. x = Some a \<Longrightarrow> y = Some b \<Longrightarrow> text_tells h v s w u"
  shows "text_tells h v s w u"
proof (cases "x = None \<and> y = None")
  case True
  then show ?thesis using assms(1,2,5) by (simp add: text_tells_def)
next
  case False
  then show ?thesis using assms(1-4,6) nil_tells by (cases x; cases y) simp_all
qed

lemma spell_reference_begins:
  "spell sp h onPath (PointerV t x) = Some s \<Longrightarrow> if x = None then s = ''nil'' else s \<noteq> [] \<and> hd s \<noteq> CHR ''n''"
  "spell sp h onPath (SliceV t x len cap) = Some s \<Longrightarrow> if x = None then s = ''nil'' else s \<noteq> [] \<and> hd s \<noteq> CHR ''n''"
  "spell sp h onPath (MapV t x) = Some s \<Longrightarrow> if x = None then s = ''nil'' else s \<noteq> [] \<and> hd s \<noteq> CHR ''n''"
  by (auto simp: spell_elements_def spell_entries_def split: if_splits option.splits)

lemma tells_below_pointer:
  assumes "heap_fits sp h" and below: "\<And>a v. a \<notin> set onPath \<Longrightarrow> x = Some a \<Longrightarrow> pointee h (Some a) = Some v \<Longrightarrow> tells_below sp h (a # onPath) v"
  shows "tells_below sp h onPath (PointerV t x)"
  unfolding tells_below_def
proof (intro allI impI)
  fix onPath' w s u
  assume s: "spell sp h onPath (PointerV t x) = Some s" and u: "spell sp h onPath' w = Some u"
    and same: "valueTypeOf (PointerV t x) = valueTypeOf w" and fit: "fits sp h (PointerV t x)" "fits sp h w"
  from same obtain y where w: "w = PointerV t y" by (cases w) simp_all
  show "text_tells h (PointerV t x) s w u"
  proof (rule reference_tells [of x _ y])
    fix a b assume xy: "x = Some a" "y = Some b"
    from spell_pointer [OF s [unfolded xy]] obtain v s' where
      v: "s = CHR ''&'' # s'" "pointee h (Some a) = Some v" "spell sp h (a # onPath) v = Some s'" "a \<notin> set onPath" .
    from spell_pointer [OF u [unfolded w xy]] obtain v' u' where
      v': "u = CHR ''&'' # u'" "pointee h (Some b) = Some v'" "spell sp h (b # onPath') v' = Some u'" .
    have "valueTypeOf v = valueTypeOf v'" using fit v(2) v'(2) by (simp add: w xy)
    then have "text_tells h v s' v' u'"
      using below [OF v(4) xy(1) v(2)] v(3) v'(3) heap_fitsD [OF assms(1) stored_pointee [OF v(2)]] heap_fitsD [OF assms(1) stored_pointee [OF v'(2)]]
      by (intro tells_belowD [of sp h "a # onPath" _ _ "b # onPath'"]) simp_all
    then show "text_tells h (PointerV t x) s w u" using v v' told_apart_same_start [of s' u' "''&''"] unfolding w xy
      by (auto simp: text_tells_def intro: same_content.pointer)
  qed (use spell_reference_begins(1) [OF s] spell_reference_begins(1) [OF u [unfolded w]] in \<open>simp_all add: w same_content.pointer_nil split: if_splits\<close>)
qed

lemma tells_below_slice:
  assumes apart: "spells_apart sp" and heap: "heap_fits sp h"
    and below: "\<And>a v. a \<notin> set onPath \<Longrightarrow> x = Some a \<Longrightarrow> v \<in> set (elements h (Some a) len) \<Longrightarrow> tells_below sp h (a # onPath) v"
  shows "tells_below sp h onPath (SliceV t x len cap)"
  unfolding tells_below_def
proof (intro allI impI)
  fix onPath' w s u
  assume s: "spell sp h onPath (SliceV t x len cap) = Some s" and u: "spell sp h onPath' w = Some u"
    and same: "valueTypeOf (SliceV t x len cap) = valueTypeOf w" and fit: "fits sp h (SliceV t x len cap)" "fits sp h w"
  from same obtain y len' cap' where w: "w = SliceV t y len' cap'" by (cases w) simp_all
  show "text_tells h (SliceV t x len cap) s w u"
  proof (rule reference_tells [of x _ y])
    fix a b assume xy: "x = Some a" "y = Some b"
    from spell_slice [OF s [unfolded xy]] obtain ss where
      ss: "s = spell_elements ss" "list_all2 (\<lambda>v s. spell sp h (a # onPath) v = Some s) (elements h (Some a) len) ss" "a \<notin> set onPath" .
    from spell_slice [OF u [unfolded w xy]] obtain ts where
      ts: "u = spell_elements ts" "list_all2 (\<lambda>v s. spell sp h (b # onPath') v = Some s) (elements h (Some b) len') ts" .
    have typed: "valueTypeOf (elements h (Some a) len ! i) = valueTypeOf (elements h (Some b) len' ! i)"
      if "i < length (elements h (Some a) len)" "i < length (elements h (Some b) len')" for i
      using fit that by (simp add: w xy)
    have stored: "\<forall>v \<in> set (elements h (Some a) len) \<union> set (elements h (Some b) len'). fits sp h v \<and> concrete v"
      using heap_fitsD [OF heap] stored_elements by blast
    note tell = values_tell [OF apart below [OF ss(3) xy(1)] ss(2) ts(2) typed stored]
    from elements_apart [OF tell(1,3)] tell(2) show "text_tells h (SliceV t x len cap) s w u"
      unfolding text_tells_def ss(1) ts(1) w xy by (simp add: same_content.slice)
  qed (use spell_reference_begins(2) [OF s] spell_reference_begins(2) [OF u [unfolded w]] in \<open>simp_all add: w same_content.slice_nil split: if_splits\<close>)
qed

lemma tells_below_array:
  assumes apart: "spells_apart sp" and below: "\<And>v. v \<in> set vs \<Longrightarrow> tells_below sp h onPath v"
  shows "tells_below sp h onPath (ArrayV t vs)"
  unfolding tells_below_def
proof (intro allI impI)
  fix onPath' w s u
  assume s: "spell sp h onPath (ArrayV t vs) = Some s" and u: "spell sp h onPath' w = Some u"
    and same: "valueTypeOf (ArrayV t vs) = valueTypeOf w" and fit: "fits sp h (ArrayV t vs)" "fits sp h w"
    and conc: "concrete (ArrayV t vs)" "concrete w"
  from same obtain ws where w: "w = ArrayV t ws" by (cases w) simp_all
  from spell_array [OF s] obtain ss where ss: "s = spell_elements ss" "list_all2 (\<lambda>v s. spell sp h onPath v = Some s) vs ss" .
  from spell_array [OF u [unfolded w]] obtain ts where ts: "u = spell_elements ts" "list_all2 (\<lambda>v s. spell sp h onPath' v = Some s) ws ts" .
  have typed: "valueTypeOf (vs ! i) = valueTypeOf (ws ! i)" if "i < length vs" "i < length ws" for i
    using fit that by (simp add: w)
  have held: "\<forall>v \<in> set vs \<union> set ws. fits sp h v \<and> concrete v" using fit conc by (auto simp: w)
  note tell = values_tell [OF apart below ss(2) ts(2) typed held]
  from elements_apart [OF tell(1,3)] tell(2) show "text_tells h (ArrayV t vs) s w u"
    unfolding text_tells_def ss(1) ts(1) w by (simp add: same_content.array)
qed

lemma tells_below_struct:
  assumes apart: "spells_apart sp" and below: "\<And>v. v \<in> set vs \<Longrightarrow> tells_below sp h onPath v"
  shows "tells_below sp h onPath (StructV t vs)"
  unfolding tells_below_def
proof (intro allI impI)
  fix onPath' w s u
  assume s: "spell sp h onPath (StructV t vs) = Some s" and u: "spell sp h onPath' w = Some u"
    and same: "valueTypeOf (StructV t vs) = valueTypeOf w" and fit: "fits sp h (StructV t vs)" "fits sp h w"
    and conc: "concrete (StructV t vs)" "concrete w"
  let ?names = "map fst (structFields sp t)"
  from same obtain ws where w: "w = StructV t ws" by (cases w) simp_all
  from spell_struct_value [OF s] obtain ss where ss: "s = spell_struct ?names ss" "list_all2 (\<lambda>v s. spell sp h onPath v = Some s) vs ss" .
  from spell_struct_value [OF u [unfolded w]] obtain ts where
    ts: "u = spell_struct ?names ts" "list_all2 (\<lambda>v s. spell sp h onPath' v = Some s) ws ts" .
  have kinds: "map valueTypeOf vs = map snd (structFields sp t)" "map valueTypeOf ws = map snd (structFields sp t)"
    using fit by (simp_all add: w)
  then have "map valueTypeOf vs = map valueTypeOf ws" by simp
  then have typed: "valueTypeOf (vs ! i) = valueTypeOf (ws ! i)" if "i < length vs" "i < length ws" for i
    using that by (metis nth_map)
  have held: "\<forall>v \<in> set vs \<union> set ws. fits sp h v \<and> concrete v" using fit conc by (auto simp: w)
  have len: "length ss = length ?names" "length ts = length ?names"
    using list_all2_lengthD [OF ss(2)] list_all2_lengthD [OF ts(2)] map_eq_imp_length_eq [OF kinds(1)] map_eq_imp_length_eq [OF kinds(2)]
    by simp_all
  note tell = values_tell [OF apart below ss(2) ts(2) typed held]
  have told: "told_apart (ss ! i) (ts ! i)" if "i < length ?names" for i using tell(1) [of i] that len by simp
  from struct_apart [OF told spells_apartD(1) [OF apart] len] tell(2) show "text_tells h (StructV t vs) s w u"
    unfolding text_tells_def ss(1) ts(1) w by (simp add: same_content.struct)
qed

text \<open>The entries of a map, in whatever order they come.\<close>

lemma entry_tells:
  assumes heap: "heap_fits sp h" and e: "e \<in> set (map_entries h (Some a))" and e': "e' \<in> set (map_entries h (Some b))"
    and below: "\<And>v. v \<in> {fst e, snd e} \<Longrightarrow> tells_below sp h onPath v"
    and spelled: "entry_spelled sp h onPath e x" "entry_spelled sp h onPath' e' y"
    and typed: "valueTypeOf (fst e) = valueTypeOf (fst e')" "valueTypeOf (snd e) = valueTypeOf (snd e')"
  shows "text_tells h (fst e) (fst x) (fst e') (fst y) \<and> text_tells h (snd e) (snd x) (snd e') (snd y)"
proof -
  have fit: "fits sp h v \<and> concrete v" if "v \<in> {fst e, snd e, fst e', snd e'}" for v
    using that stored_entries [OF e] stored_entries [OF e'] heap_fitsD [OF heap] by blast
  show ?thesis
    using below spelled typed fit by (auto simp: entry_spelled_def intro!: tells_belowD [of sp h onPath _ _ onPath'])
qed

lemma entries_begin:
  assumes "spells_apart sp" and "heap_fits sp h" and "list_all2 (entry_spelled sp h onPath) (map_entries h (Some a)) xs" and "x \<in> set xs"
  shows "\<not> ends_here (fst x)"
proof -
  obtain e where "e \<in> set (map_entries h (Some a))" "entry_spelled sp h onPath e x" using list_all2_right [OF assms(3,4)] by blast
  then show ?thesis using spelled_begins [OF assms(1)] stored_entries heap_fitsD [OF assms(2)] unfolding entry_spelled_def by blast
qed

lemma tells_below_map:
  assumes apart: "spells_apart sp" and heap: "heap_fits sp h"
    and below: "\<And>a e v. a \<notin> set onPath \<Longrightarrow> x = Some a \<Longrightarrow> e \<in> set (map_entries h (Some a)) \<Longrightarrow> spell sp h (a # onPath) (fst e) \<noteq> None
      \<Longrightarrow> v \<in> {fst e, snd e} \<Longrightarrow> tells_below sp h (a # onPath) v"
  shows "tells_below sp h onPath (MapV t x)"
  unfolding tells_below_def
proof (intro allI impI)
  fix onPath' w s u
  assume s: "spell sp h onPath (MapV t x) = Some s" and u: "spell sp h onPath' w = Some u"
    and same: "valueTypeOf (MapV t x) = valueTypeOf w" and fit: "fits sp h (MapV t x)" "fits sp h w"
  from same obtain y where w: "w = MapV t y" by (cases w) simp_all
  show "text_tells h (MapV t x) s w u"
  proof (rule reference_tells [of x _ y])
    fix a b assume xy: "x = Some a" "y = Some b"
    let ?es = "map_entries h (Some a)" and ?fs = "map_entries h (Some b)"
    from spell_map [OF s [unfolded xy]] obtain xs where
      xs: "s = spell_entries xs" "list_all2 (entry_spelled sp h (a # onPath)) ?es xs" "a \<notin> set onPath" .
    from spell_map [OF u [unfolded w xy]] obtain ys where
      ys: "u = spell_entries ys" "list_all2 (entry_spelled sp h (b # onPath')) ?fs ys" .
    have tells: "text_tells h (fst e) (fst k) (fst e') (fst l) \<and> text_tells h (snd e) (snd k) (snd e') (snd l)"
      if "e \<in> set ?es" "e' \<in> set ?fs" "entry_spelled sp h (a # onPath) e k" "entry_spelled sp h (b # onPath') e' l" for e e' k l
    proof -
      have "spell sp h (a # onPath) (fst e) \<noteq> None" using that(3) by (simp add: entry_spelled_def)
      from that fit below [OF xs(3) xy(1) that(1) this] show ?thesis
        by (intro entry_tells [OF heap, of e a e' b]) (simp_all add: w xy)
    qed
    have told: "told_apart (fst k) (fst l) \<and> told_apart (snd k) (snd l)" if "k \<in> set xs" "l \<in> set ys" for k l
      using list_all2_right [OF xs(2) that(1)] list_all2_right [OF ys(2) that(2)] tells unfolding text_tells_def by blast
    have "\<forall>k \<in> set xs \<union> set ys. \<not> ends_here (fst k)" using entries_begin [OF apart heap] xs(2) ys(2) by blast
    note entries = entries_apart [OF told this]
    have "same_content h (MapV t x) w" if "s = u"
    proof -
      have "mset xs = mset ys" using entries(2) that xs(1) ys(1) by simp
      moreover have "list_all2 (\<lambda>l e. entry_spelled sp h (b # onPath') e l) ys ?fs" using ys(2) by (simp add: list_all2_conv_all_nth)
      ultimately have "\<exists>gs. list_all2 (\<lambda>l e. entry_spelled sp h (b # onPath') e l) xs gs \<and> mset gs = mset ?fs"
        by (intro list_all2_reorder_left_invariance)
      then obtain gs where gs: "list_all2 (\<lambda>l e. entry_spelled sp h (b # onPath') e l) xs gs" "mset gs = mset ?fs" by blast
      have in_fs: "set gs = set ?fs" using gs(2) by (metis set_mset_mset)
      have "same_content h (fst (?es ! i)) (fst (gs ! i)) \<and> same_content h (snd (?es ! i)) (snd (gs ! i))" if "i < length ?es" for i
      proof -
        have "?es ! i \<in> set ?es" "gs ! i \<in> set ?fs" "entry_spelled sp h (a # onPath) (?es ! i) (xs ! i)"
          "entry_spelled sp h (b # onPath') (gs ! i) (xs ! i)"
          using that xs(2) gs(1) in_fs by (auto simp: list_all2_conv_all_nth)
        from tells [OF this] show ?thesis by (simp add: text_tells_def)
      qed
      moreover have "length ?es = length gs" using xs(2) gs(1) by (simp add: list_all2_conv_all_nth)
      ultimately show ?thesis unfolding w xy by (intro same_content.map [OF gs(2)]) (simp add: list_all2_conv_all_nth)
    qed
    then show "text_tells h (MapV t x) s w u" using entries(1) xs(1) ys(1) by (simp add: text_tells_def)
  qed (use spell_reference_begins(3) [OF s] spell_reference_begins(3) [OF u [unfolded w]] in \<open>simp_all add: w same_content.map_nil split: if_splits\<close>)
qed

lemma tells_below_words:
  assumes "spells_apart sp"
  shows "tells_below sp h onPath (BasicV t x)" "tells_below sp h onPath (FloatV t f)" "tells_below sp h onPath (ComplexV t f g)"
proof -
  show "tells_below sp h onPath (BasicV t x)" unfolding tells_below_def
  proof (intro allI impI)
    fix onPath' w s u
    assume s: "spell sp h onPath (BasicV t x) = Some s" "spell sp h onPath' w = Some u"
      and same: "valueTypeOf (BasicV t x) = valueTypeOf w" and fit: "fits sp h (BasicV t x)" "fits sp h w"
    from same obtain y where w: "w = BasicV t y" by (cases w) simp_all
    show "text_tells h (BasicV t x) s w u"
      using s fit Quote_told_apart Quote_inj [of x y] plain_told_apart by (cases "isStringType sp t") (auto simp: w text_tells_def intro: same_content.basic)
  qed
  show "tells_below sp h onPath (FloatV t f)" unfolding tells_below_def
  proof (intro allI impI)
    fix onPath' w s u
    assume s: "spell sp h onPath (FloatV t f) = Some s" "spell sp h onPath' w = Some u" and same: "valueTypeOf (FloatV t f) = valueTypeOf w"
    from same obtain y where w: "w = FloatV t y" by (cases w) simp_all
    show "text_tells h (FloatV t f) s w u"
      using s spells_apartD(2,3) [OF assms] plain_told_apart by (auto simp: w text_tells_def intro: same_content.float)
  qed
  show "tells_below sp h onPath (ComplexV t f g)" unfolding tells_below_def
  proof (intro allI impI)
    fix onPath' w s u
    assume s: "spell sp h onPath (ComplexV t f g) = Some s" "spell sp h onPath' w = Some u"
      and same: "valueTypeOf (ComplexV t f g) = valueTypeOf w"
    from same obtain y z where w: "w = ComplexV t y z" by (cases w) simp_all
    show "text_tells h (ComplexV t f g) s w u"
      using s spells_apartD(4,5) [OF assms] plain_told_apart by (auto simp: w text_tells_def intro: same_content.complex)
  qed
qed

lemma tells_below_none: "spell sp h onPath v = None \<or> \<not> concrete v \<Longrightarrow> tells_below sp h onPath v"
  by (auto simp: tells_below_def)

lemma tells_below_all:
  assumes "spells_apart sp" and "heap_fits sp h"
  shows "tells_below sp h onPath v"
  using assms
proof (induction sp h onPath v rule: spell.induct)
  case (4 sp h onPath t a)
  then show ?case by (intro tells_below_pointer) simp_all
next
  case (6 sp h onPath t vs)
  then show ?case by (intro tells_below_struct) simp_all
next
  case (7 sp h onPath t a len cap)
  then show ?case by (intro tells_below_slice) simp_all
next
  case (8 sp h onPath t vs)
  then show ?case by (intro tells_below_array) simp_all
next
  case (9 sp h onPath t a)
  then show ?case by (intro tells_below_map) auto
qed (simp_all add: tells_below_words tells_below_none)

section \<open>Equal content means equal texts\<close>

lemma text_le_linear: "text_le s t \<or> text_le t s"
  by (induction s t rule: text_le.induct) auto

lemma text_le_empty [simp]: "text_le t [] \<longleftrightarrow> t = []"
  by (cases t) simp_all

lemma text_le_antisym: "text_le s t \<Longrightarrow> text_le t s \<Longrightarrow> s = t"
  by (induction s t rule: text_le.induct) auto

lemma text_le_trans: "text_le s t \<Longrightarrow> text_le t u \<Longrightarrow> text_le s u"
proof (induction s t arbitrary: u rule: text_le.induct)
  case (3 c s d t)
  then show ?case by (cases u) auto
qed auto

lemma insert_entry_commute:
  assumes "fst e \<noteq> fst f"
  shows "insert_entry e (insert_entry f es) = insert_entry f (insert_entry e es)"
proof -
  have one: "text_le (fst e) (fst f) \<longleftrightarrow> \<not> text_le (fst f) (fst e)"
    using assms text_le_linear [of "fst e" "fst f"] text_le_antisym [of "fst e" "fst f"] by blast
  show ?thesis
  proof (induction es)
    case Nil
    then show ?case using one by simp
  next
    case (Cons g es)
    note trans = text_le_trans [of "fst e" "fst f" "fst g"] text_le_trans [of "fst f" "fst e" "fst g"]
    show ?case
      by (cases "text_le (fst e) (fst g)"; cases "text_le (fst f) (fst g)"; cases "text_le (fst f) (fst e)")
         (use one trans Cons in simp_all)
  qed
qed

lemma sort_entries_order:
  assumes "mset xs = mset ys" and "distinct (map fst ys)"
  shows "sort_entries xs = sort_entries ys"
proof -
  have "mset (map fst xs) = mset (map fst ys)" using assms(1) by simp
  then have "distinct (map fst xs)" using assms(2) mset_eq_imp_distinct_iff by blast
  then have apart: "fst e \<noteq> fst f" if "e \<in> set xs" "f \<in> set xs" "e \<noteq> f" for e f
    using that by (auto simp only: distinct_map inj_on_def)
  have "insert_entry e \<circ> insert_entry f = insert_entry f \<circ> insert_entry e" if "e \<in> set xs" "f \<in> set xs" for e f
  proof (cases "e = f")
    case False
    then show ?thesis using insert_entry_commute [OF apart] that by (simp add: fun_eq_iff)
  qed simp
  from fold_multiset_equiv [OF this assms(1)] show ?thesis by (simp add: sort_entries_def)
qed

text \<open>The keys of a map are simple if they are numbers, truth values or strings of one type, each of which occurs once.\<close>

fun simple_key :: "rvalue \<Rightarrow> bool" where
  "simple_key (BasicV t x) \<longleftrightarrow> True"
| "simple_key _ \<longleftrightarrow> False"

definition simple_keys :: "heap \<Rightarrow> bool" where
  "simple_keys h \<longleftrightarrow>
     (\<forall>(a, es) \<in> set (heapMaps h). distinct (map fst es)
        \<and> (\<forall>e \<in> set es. simple_key (fst e) \<and> (\<forall>e' \<in> set es. valueTypeOf (fst e) = valueTypeOf (fst e'))))"

lemma simple_key_text:
  assumes "simple_key k" "simple_key k'" "valueTypeOf k = valueTypeOf k'" "spell sp h p k = Some s" "spell sp h p k' = Some s"
  shows "k = k'"
proof -
  obtain t x where k: "k = BasicV t x" using assms(1) by (cases k) simp_all
  obtain y where k': "k' = BasicV t y" using assms(2,3) k by (cases k') simp_all
  show ?thesis using assms(4,5) Quote_inj [of x y] unfolding k k' by (cases "isStringType sp t") simp_all
qed

lemma simple_keys_entries:
  assumes "simple_keys h"
  shows "distinct (map fst (map_entries h (Some a)))"
    "e \<in> set (map_entries h (Some a)) \<Longrightarrow> e' \<in> set (map_entries h (Some a)) \<Longrightarrow>
      simple_key (fst e) \<and> simple_key (fst e') \<and> valueTypeOf (fst e) = valueTypeOf (fst e')"
proof -
  have "map_entries h (Some a) = [] \<or> (a, map_entries h (Some a)) \<in> set (heapMaps h)"
    by (cases "map_of (heapMaps h) a") (simp_all add: map_entries_def map_of_SomeD)
  then have listed: "map_entries h (Some a) = [] \<or> distinct (map fst (map_entries h (Some a)))
    \<and> (\<forall>e \<in> set (map_entries h (Some a)). simple_key (fst e) \<and> (\<forall>e' \<in> set (map_entries h (Some a)). valueTypeOf (fst e) = valueTypeOf (fst e')))"
    using bspec [OF assms [unfolded simple_keys_def], of "(a, map_entries h (Some a))"] by fast
  then show "distinct (map fst (map_entries h (Some a)))" by fastforce
  show "simple_key (fst e) \<and> simple_key (fst e') \<and> valueTypeOf (fst e) = valueTypeOf (fst e')"
    if "e \<in> set (map_entries h (Some a))" "e' \<in> set (map_entries h (Some a))" using listed that by fastforce
qed

lemma key_texts_distinct:
  assumes "simple_keys h" and "list_all2 (entry_spelled sp h p) (map_entries h (Some a)) ys"
  shows "distinct (map fst ys)"
proof -
  let ?es = "map_entries h (Some a)"
  have len: "length ?es = length ys" and nth: "\<And>i. i < length ys \<Longrightarrow> entry_spelled sp h p (?es ! i) (ys ! i)"
    using assms(2) by (simp_all add: list_all2_conv_all_nth)
  have "i = j" if ij: "i < length ys" "j < length ys" "fst (ys ! i) = fst (ys ! j)" for i j
  proof -
    have "fst (?es ! i) = fst (?es ! j)"
      using nth [OF ij(1)] nth [OF ij(2)] ij len simple_keys_entries(2) [OF assms(1), of "?es ! i" a "?es ! j"]
      by (intro simple_key_text [of _ _ sp h p "fst (ys ! i)"]) (simp_all add: entry_spelled_def)
    then have "map fst ?es ! i = map fst ?es ! j" using ij len by simp
    then show ?thesis
      using nth_eq_iff_index_eq [OF simple_keys_entries(1) [OF assms(1), of a], of i j] ij len by (simp del: nth_map)
  qed
  then show ?thesis by (auto simp: distinct_conv_nth)
qed

lemma same_content_type: "same_content h v w \<Longrightarrow> valueTypeOf v = valueTypeOf w"
  by (induction rule: same_content.induct) simp_all

definition same_text :: "spelling \<Rightarrow> heap \<Rightarrow> rvalue \<Rightarrow> rvalue \<Rightarrow> bool" where
  "same_text sp h v w \<longleftrightarrow> (\<forall>p q s t. spell sp h p v = Some s \<longrightarrow> spell sp h q w = Some t \<longrightarrow> s = t)"

lemma same_textI: "(\<And>p q s t. spell sp h p v = Some s \<Longrightarrow> spell sp h q w = Some t \<Longrightarrow> s = t) \<Longrightarrow> same_text sp h v w"
  by (simp add: same_text_def)

lemma same_textD: "same_text sp h v w \<Longrightarrow> spell sp h p v = Some s \<Longrightarrow> spell sp h q w = Some t \<Longrightarrow> s = t"
  by (simp add: same_text_def)

lemma same_texts:
  assumes "list_all2 (same_text sp h) vs ws" and "list_all2 (\<lambda>v s. spell sp h p v = Some s) vs ss"
    and "list_all2 (\<lambda>v s. spell sp h q v = Some s) ws ts"
  shows "ss = ts"
proof (rule nth_equalityI)
  show "length ss = length ts" using assms by (simp add: list_all2_conv_all_nth)
  fix i assume "i < length ss"
  then show "ss ! i = ts ! i" using assms by (intro same_textD [of sp h "vs ! i" "ws ! i" p _ q]) (simp_all add: list_all2_conv_all_nth)
qed

lemma same_entries:
  assumes "simple_keys h" and es: "mset es = mset (map_entries h (Some b))"
    and same: "list_all2 (\<lambda>e e'. same_text sp h (fst e) (fst e') \<and> same_text sp h (snd e) (snd e')) (map_entries h (Some a)) es"
  shows "same_text sp h (MapV t (Some a)) (MapV t (Some b))"
proof (rule same_textI)
  fix p q s u
  assume s: "spell sp h p (MapV t (Some a)) = Some s" and u: "spell sp h q (MapV t (Some b)) = Some u"
  from spell_map [OF s] obtain xs where xs: "s = spell_entries xs" "list_all2 (entry_spelled sp h (a # p)) (map_entries h (Some a)) xs" .
  from spell_map [OF u] obtain ys where ys: "u = spell_entries ys" "list_all2 (entry_spelled sp h (b # q)) (map_entries h (Some b)) ys" .
  obtain zs where zs: "list_all2 (entry_spelled sp h (b # q)) es zs" "mset zs = mset ys"
    using list_all2_reorder_left_invariance [OF ys(2) es] by blast
  have "xs = zs"
  proof (rule nth_equalityI)
    show "length xs = length zs" using xs(2) zs(1) same by (simp add: list_all2_conv_all_nth)
    fix i assume "i < length xs"
    then have at_i: "entry_spelled sp h (a # p) (map_entries h (Some a) ! i) (xs ! i)" "entry_spelled sp h (b # q) (es ! i) (zs ! i)"
      "same_text sp h (fst (map_entries h (Some a) ! i)) (fst (es ! i))" "same_text sp h (snd (map_entries h (Some a) ! i)) (snd (es ! i))"
      using xs(2) zs(1) same by (simp_all add: list_all2_conv_all_nth)
    have "fst (xs ! i) = fst (zs ! i)" using at_i(1,2) by (intro same_textD [OF at_i(3), of "a # p" _ "b # q"]) (simp_all add: entry_spelled_def)
    moreover have "snd (xs ! i) = snd (zs ! i)"
      using at_i(1,2) by (intro same_textD [OF at_i(4), of "a # p" _ "b # q"]) (simp_all add: entry_spelled_def)
    ultimately show "xs ! i = zs ! i" by (rule prod_eqI)
  qed
  then have "sort_entries xs = sort_entries ys" using zs(2) key_texts_distinct [OF assms(1) ys(2)] by (intro sort_entries_order) simp_all
  then show "s = u" by (simp add: xs(1) ys(1) spell_entries_def)
qed

lemma content_spelled:
  assumes "simple_keys h"
  shows "same_content h v w \<Longrightarrow> same_text sp h v w"
proof (induction rule: same_content.induct)
  case (pointer a v b w u)
  show ?case by (rule same_textI) (auto elim!: spell_pointer dest: same_textD [OF pointer.IH] simp: pointer.hyps simp del: spell.simps)
next
  case (interface v w t)
  show ?case
    by (rule same_textI) (auto simp: typeString_def same_content_type [OF interface.hyps] dest: same_textD [OF interface.IH])
next
  case (struct vs ws t)
  then have "list_all2 (same_text sp h) vs ws" by (auto elim: list_all2_mono)
  then show ?case by (intro same_textI) (auto elim!: spell_struct_value dest: same_texts simp del: spell.simps)
next
  case (slice a l b l' t c c')
  then have "list_all2 (same_text sp h) (elements h (Some a) l) (elements h (Some b) l')" by (auto elim: list_all2_mono)
  then show ?case by (intro same_textI) (auto elim!: spell_slice dest: same_texts simp del: spell.simps)
next
  case (array vs ws t)
  then have "list_all2 (same_text sp h) vs ws" by (auto elim: list_all2_mono)
  then show ?case by (intro same_textI) (auto elim!: spell_array dest: same_texts simp del: spell.simps)
next
  case (map es b a t)
  then have "list_all2 (\<lambda>e e'. same_text sp h (fst e) (fst e') \<and> same_text sp h (snd e) (snd e')) (map_entries h (Some a)) es"
    by (auto elim: list_all2_mono)
  then show ?case by (rule same_entries [OF assms map.hyps(1)])
qed (simp_all add: same_text_def)

section \<open>Values that contain themselves\<close>

fun held :: "heap \<Rightarrow> rvalue \<Rightarrow> rvalue list" where
  "held h (PointerV t (Some a)) = (case pointee h (Some a) of None \<Rightarrow> [] | Some v \<Rightarrow> [v])"
| "held h (InterfaceV t (Some v)) = [v]"
| "held h (StructV t vs) = vs"
| "held h (SliceV t (Some a) len cap) = elements h (Some a) len"
| "held h (ArrayV t vs) = vs"
| "held h (MapV t (Some a)) = concat (map (\<lambda>e. [fst e, snd e]) (map_entries h (Some a)))"
| "held h _ = []"

text \<open>What is held is written on a path that is no shorter; behind a reference the path has an address more.\<close>

definition spelled_below :: "spelling \<Rightarrow> heap \<Rightarrow> nat list \<Rightarrow> rvalue \<Rightarrow> nat list \<Rightarrow> rvalue \<Rightarrow> bool" where
  "spelled_below sp h p v q w \<longleftrightarrow> spell sp h q w \<noteq> None
     \<and> (card (addresses h - set q) < card (addresses h - set p) \<or> q = p \<and> size w < size v)"

lemma list_all2_left: "list_all2 F vs ss \<Longrightarrow> v \<in> set vs \<Longrightarrow> \<exists>s. F v s"
  by (induction rule: list_all2_induct) auto

lemma spelled_below_reference:
  assumes "a \<in> addresses h" and "a \<notin> set p" and "spell sp h (a # p) w = Some t"
  shows "spelled_below sp h p v (a # p) w"
  using fewer_left [OF assms(1,2)] assms(3) by (simp add: spelled_below_def)

lemma spelled_below_held:
  assumes spelled: "spell sp h p v = Some s" and w: "w \<in> set (held h v)"
  shows "\<exists>q. spelled_below sp h p v q w"
  using w
proof (cases "(h, v)" rule: held.cases)
  case (1 h' t a)
  then have v: "v = PointerV t (Some a)" by simp
  from spell_pointer [OF spelled [unfolded v]] obtain x s' where
    x: "pointee h (Some a) = Some x" "spell sp h (a # p) x = Some s'" "a \<notin> set p" .
  with w v have "w = x" by simp
  with x show ?thesis using spelled_below_reference pointee_address by blast
next
  case (2 h' t v')
  then have v: "v = InterfaceV t (Some v')" by simp
  show ?thesis using spelled w unfolding v by (intro exI [of _ p]) (auto simp: spelled_below_def)
next
  case (3 h' t vs)
  then have v: "v = StructV t vs" by simp
  from spell_struct_value [OF spelled [unfolded v]] obtain ss where ss: "list_all2 (\<lambda>v s. spell sp h p v = Some s) vs ss" .
  have "w \<in> set vs" using w v by simp
  then show ?thesis using list_all2_left [OF ss] v size_list_estimation' [of w vs "size w" size]
    by (intro exI [of _ p]) (auto simp: spelled_below_def)
next
  case (4 h' t a len cap)
  then have v: "v = SliceV t (Some a) len cap" by simp
  from spell_slice [OF spelled [unfolded v]] obtain ss where
    ss: "list_all2 (\<lambda>v s. spell sp h (a # p) v = Some s) (elements h (Some a) len) ss" "a \<notin> set p" .
  have held: "w \<in> set (elements h (Some a) len)" using w v by simp
  then show ?thesis using list_all2_left [OF ss(1) held] spelled_below_reference [OF elements_address [OF held] ss(2)] by blast
next
  case (5 h' t vs)
  then have v: "v = ArrayV t vs" by simp
  from spell_array [OF spelled [unfolded v]] obtain ss where ss: "list_all2 (\<lambda>v s. spell sp h p v = Some s) vs ss" .
  have "w \<in> set vs" using w v by simp
  then show ?thesis using list_all2_left [OF ss] v size_list_estimation' [of w vs "size w" size]
    by (intro exI [of _ p]) (auto simp: spelled_below_def)
next
  case (6 h' t a)
  then have v: "v = MapV t (Some a)" by simp
  from spell_map [OF spelled [unfolded v]] obtain xs where
    xs: "list_all2 (entry_spelled sp h (a # p)) (map_entries h (Some a)) xs" "a \<notin> set p" .
  obtain e where e: "e \<in> set (map_entries h (Some a))" "w = fst e \<or> w = snd e" using w v by auto
  from list_all2_left [OF xs(1) e(1)] obtain t where "spell sp h (a # p) w = Some t" using e(2) unfolding entry_spelled_def by blast
  then show ?thesis using spelled_below_reference [OF entries_address [OF e(1)] xs(2)] by blast
qed simp_all

lemma spelled_below_trans:
  "spelled_below sp h p v q w \<Longrightarrow> spelled_below sp h q w r x \<Longrightarrow> spelled_below sp h p v r x"
  by (auto simp: spelled_below_def)

lemma spelled_below_inside:
  assumes "(\<lambda>v w. w \<in> set (held h v))\<^sup>+\<^sup>+ v w" and "spell sp h p v \<noteq> None"
  shows "\<exists>q. spelled_below sp h p v q w"
  using assms
proof (induction rule: tranclp_induct)
  case (base w)
  then show ?case using spelled_below_held by blast
next
  case (step w x)
  then obtain q where q: "spelled_below sp h p v q w" by blast
  then obtain t where "spell sp h q w = Some t" by (auto simp: spelled_below_def)
  then show ?case using spelled_below_held step.hyps(2) q spelled_below_trans by blast
qed

lemma inside_itself_not_spelled:
  assumes inside: "(\<lambda>v w. w \<in> set (held h v))\<^sup>+\<^sup>+ v v"
  shows "spell sp h p v = None"
proof (induction "card (addresses h - set p)" arbitrary: p rule: less_induct)
  case less
  show ?case
  proof (rule ccontr)
    assume "spell sp h p v \<noteq> None"
    from spelled_below_inside [OF inside this] obtain q where "spelled_below sp h p v q v" by blast
    then have "spell sp h q v \<noteq> None" "card (addresses h - set q) < card (addresses h - set p)" by (simp_all add: spelled_below_def)
    then show False using less [of q] by simp
  qed
qed

section \<open>Properties\<close>

text \<open>
  A program with a type of queries, and how it writes numbers: a word for each float. Two queries that are
  equal in every field, held at different addresses and with the entries of a map in different orders.
\<close>

definition float_word :: "gofloat \<Rightarrow> string" where
  "float_word f =
     (case f of
        NaN \<Rightarrow> ''NaN'' | PosInf \<Rightarrow> ''+Inf'' | NegInf \<Rightarrow> ''-Inf'' | NegZero \<Rightarrow> ''-0''
      | Finite r \<Rightarrow> replicate (Suc (case quotient_of r of (a, b) \<Rightarrow> prod_encode (int_encode a, int_encode b))) CHR ''1'')"

definition complex_word :: "gofloat \<Rightarrow> gofloat \<Rightarrow> string" where
  "complex_word f g = ''('' @ float_word f @ ''i'' @ float_word g @ '')''"

definition query_types :: spelling where
  "query_types =
     \<lparr>isStringType = (\<lambda>t. t = ''string''),
      structFields = (\<lambda>t. if t = ''app.Query'' then
         [(''Name'', BasicKind, ''string''), (''limit'', PtrKind, ''*int''), (''Tags'', MapKind, ''map[string]int'')] else []),
      elemType = (\<lambda>t. (BasicKind, ''int'')), keyType = (\<lambda>t. (BasicKind, ''string'')),
      FormatFloat = float_word, FormatComplex = complex_word\<rparr>"

definition query_heap :: heap where
  "query_heap =
     \<lparr>heapCells = [(1, BasicV ''int'' ''5''), (2, BasicV ''int'' ''5''), (5, BasicV ''int'' ''6'')], heapArrays = [],
      heapMaps = [(3, [(BasicV ''string'' ''a'', BasicV ''int'' ''1''), (BasicV ''string'' ''b'', BasicV ''int'' ''2'')]),
                  (4, [(BasicV ''string'' ''b'', BasicV ''int'' ''2''), (BasicV ''string'' ''a'', BasicV ''int'' ''1'')])]\<rparr>"

definition sample_query :: "nat \<Rightarrow> nat \<Rightarrow> rvalue" where
  "sample_query limit tags =
     StructV ''app.Query'' [BasicV ''string'' ''x'', PointerV ''*int'' (Some limit), MapV ''map[string]int'' (Some tags)]"

lemma float_word_chars: "set (float_word f) \<subseteq> set ''NaN+Inf-01''" "float_word f \<noteq> []"
  by (auto simp: float_word_def split: gofloat.split prod.split)

lemma float_word_inj: "float_word f = float_word g \<Longrightarrow> f = g"
  by (auto simp: float_word_def int_encode_eq quotient_of_inject split: gofloat.splits prod.splits)

lemma complex_word_inj: "complex_word f g = complex_word f' g' \<Longrightarrow> f = f' \<and> g = g'"
proof -
  assume same: "complex_word f g = complex_word f' g'"
  have first: "takeWhile (\<lambda>c. c \<noteq> CHR ''i'') (float_word x @ CHR ''i'' # rest) = float_word x" for x rest
    using float_word_chars(1) [of x] by (subst takeWhile_append2) auto
  have "float_word f @ CHR ''i'' # float_word g @ '')'' = float_word f' @ CHR ''i'' # float_word g' @ '')''"
    using same by (simp add: complex_word_def)
  moreover from this have "float_word f = float_word f'" using first by metis
  ultimately show ?thesis using float_word_inj by simp
qed

lemma query_types_apart: "spells_apart query_types"
proof -
  have chars: "set ''NaN+Inf-01'' \<inter> set delimiters = {}" by (simp add: delimiters_def)
  have "plain_text (float_word f)" for f using float_word_chars [of f] chars by (auto simp: plain_text_def)
  moreover have "plain_text (complex_word f g)" for f g
    using float_word_chars(1) [of f] float_word_chars(1) [of g] chars by (auto simp: plain_text_def complex_word_def delimiters_def)
  moreover have "plain_text ''Name''" "plain_text ''limit''" "plain_text ''Tags''" by (simp_all add: plain_text_def delimiters_def)
  moreover have "inj float_word" "inj (\<lambda>(f, g). complex_word f g)"
    using float_word_inj complex_word_inj by (auto intro!: injI)
  ultimately show ?thesis unfolding spells_apart_def query_types_def by auto
qed

text \<open>
  C14. A tag that \<open>etagOf\<close> gives out stands for one revision and one query. For two queries of one type
  that hold no interface, asked by the same request, the tags are the same only if the revisions are, and
  the queries are equal in every field, unless two different texts have the same hash of 64 bits.
\<close>

theorem same_tag_same_query:
  assumes "spells_apart sp" and "heap_fits sp h" and "valueTypeOf v = valueTypeOf w"
    and "fits sp h v" and "fits sp h w" and "concrete v" and "concrete w"
    and tags: "etagOf (spellOut sp h) r revision (Some v) varies = etagOf (spellOut sp h) r revision' (Some w) varies"
    and given: "etagOf (spellOut sp h) r revision (Some v) varies \<noteq> []"
  shows "revision = revision' \<and>
    (same_content h v w \<or>
     (\<exists>resource resource'. resource_of (spellOut sp h) r (Some v) varies = Some resource
        \<and> resource_of (spellOut sp h) r (Some w) varies = Some resource'
        \<and> resource \<noteq> resource' \<and> fnv64a resource = fnv64a resource'))"
proof -
  from etagOf_tells [OF given tags] obtain resource resource' where
    same: "revision = revision'" "resource_of (spellOut sp h) r (Some v) varies = Some resource"
      "resource_of (spellOut sp h) r (Some w) varies = Some resource'" "fnv64a resource = fnv64a resource'" .
  have "same_content h v w" if "resource = resource'"
  proof -
    from same(2,3) obtain s t where st: "spell sp h [] v = Some s" "spell sp h [] w = Some t"
      by (cases "spell sp h [] v"; cases "spell sp h [] w") (simp_all add: resource_of_def spellOut_def)
    moreover from this have "typeString v @ s = typeString w @ t"
      using that same(2,3) by (cases varies) (auto simp: resource_of_def spellOut_def)
    moreover have "typeString v = typeString w" using assms(3) by (simp add: typeString_def)
    ultimately have "text_tells h v s w t" "s = t"
      using tells_belowD [OF tells_below_all [OF assms(1,2)], of "[]" v s "[]" w t] assms(3-7) by simp_all
    then show ?thesis by (simp add: text_tells_def)
  qed
  then show ?thesis using same by blast
qed

theorem same_tag_same_query_witness:
  "same_content query_heap (sample_query 1 3) (sample_query 2 4)"
proof -
  let ?r = sample_request
  have spelled: "spellOut query_types query_heap (Some (sample_query 1 3)) \<noteq> None"
    "spellOut query_types query_heap (Some (sample_query 2 4)) = spellOut query_types query_heap (Some (sample_query 1 3))" by code_simp+
  then have same: "resource_of (spellOut query_types query_heap) ?r (Some (sample_query 1 3)) None
      = resource_of (spellOut query_types query_heap) ?r (Some (sample_query 2 4)) None" by (simp add: resource_of_def)
  then have "etagOf (spellOut query_types query_heap) ?r ''7'' (Some (sample_query 1 3)) None
      = etagOf (spellOut query_types query_heap) ?r ''7'' (Some (sample_query 2 4)) None" by (simp add: etagOf_def)
  moreover have "etagOf (spellOut query_types query_heap) ?r ''7'' (Some (sample_query 1 3)) None \<noteq> []"
    using spelled(1) by (auto simp: etagOf_def resource_of_def)
  moreover note same
  moreover have "heap_fits query_types query_heap" "fits query_types query_heap (sample_query 1 3)"
    "fits query_types query_heap (sample_query 2 4)" "concrete (sample_query 1 3)" "concrete (sample_query 2 4)"
    "valueTypeOf (sample_query 1 3) = valueTypeOf (sample_query 2 4)" by code_simp+
  ultimately show ?thesis
    using same_tag_same_query [OF query_types_apart, of query_heap "sample_query 1 3" "sample_query 2 4" ?r "''7''" None "''7''"] by auto
qed

text \<open>
  C21. \<open>spellOut\<close> writes two values of one type the same exactly if they are equal in every field,
  unexported ones too: whatever pointers, slices and maps point at is compared by its content, and the
  order of the entries of a map does not matter. The values hold no interface, and the keys of their maps
  are numbers, truth values or strings.
\<close>

theorem spellOut_exact:
  assumes "spells_apart sp" and "heap_fits sp h" and "simple_keys h" and "valueTypeOf v = valueTypeOf w"
    and "fits sp h v" and "fits sp h w" and "concrete v" and "concrete w"
    and "spellOut sp h (Some v) = Some s" and "spellOut sp h (Some w) = Some t"
  shows "s = t \<longleftrightarrow> same_content h v w"
proof -
  obtain x y where xy: "s = typeString v @ x" "t = typeString w @ y" "spell sp h [] v = Some x" "spell sp h [] w = Some y"
    using assms(9,10) by (auto simp: spellOut_def)
  have "typeString v = typeString w" using assms(4) by (simp add: typeString_def)
  moreover have "text_tells h v x w y"
    using tells_belowD [OF tells_below_all [OF assms(1,2)] xy(3,4)] assms(4-8) by simp
  ultimately show ?thesis using same_textD [OF content_spelled [OF assms(3)] xy(3,4)] xy(1,2) by (auto simp: text_tells_def)
qed

theorem spellOut_exact_witness:
  "\<not> same_content query_heap (sample_query 1 3) (sample_query 5 3)"
proof -
  let ?spell = "\<lambda>limit. spellOut query_types query_heap (Some (sample_query limit 3))"
  have "?spell 1 = Some (the (?spell 1))" "?spell 5 = Some (the (?spell 5))" "the (?spell 1) \<noteq> the (?spell 5)" by code_simp+
  moreover have "heap_fits query_types query_heap" "simple_keys query_heap" "fits query_types query_heap (sample_query 1 3)"
    "fits query_types query_heap (sample_query 5 3)" "concrete (sample_query 1 3)" "concrete (sample_query 5 3)"
    "valueTypeOf (sample_query 1 3) = valueTypeOf (sample_query 5 3)" by code_simp+
  ultimately show ?thesis
    using spellOut_exact [OF query_types_apart, of query_heap "sample_query 1 3" "sample_query 5 3" "the (?spell 1)" "the (?spell 5)"] by simp
qed

text \<open>
  C35. Spelling out ends for every value, and a value that contains itself, through any number of
  pointers, slices, maps, interfaces and structs, is refused, so that its answer goes without a tag.
\<close>

theorem inside_itself_refused:
  assumes "(\<lambda>v w. w \<in> set (held h v))\<^sup>+\<^sup>+ v v"
  shows "spellOut sp h (Some v) = None \<and> etagOf (spellOut sp h) r revision (Some v) varies = []"
  using inside_itself_not_spelled [OF assms, of sp "[]"] by (simp add: spellOut_def etagOf_def resource_of_def)

theorem inside_itself_refused_witness:
  "spellOut query_types cyclic_heap (Some (PointerV ''*Node'' (Some 1))) = None"
proof -
  let ?p = "PointerV ''*Node'' (Some 1)" and ?holds = "\<lambda>v w. w \<in> set (held cyclic_heap v)"
  let ?n = "hd (held cyclic_heap ?p)"
  have "?n \<in> set (held cyclic_heap ?p)" "?p \<in> set (held cyclic_heap ?n)" by code_simp+
  then have "?holds\<^sup>+\<^sup>+ ?p ?p" by (intro tranclp.trancl_into_trancl [of ?holds ?p ?n ?p] tranclp.r_into_trancl)
  from inside_itself_refused [OF this] show ?thesis by blast
qed

text \<open>
  The limit of the property above. What an interface holds is written after the name of its type with
  nothing between them, so two fields that hold values of different types can come out the same.
\<close>

theorem interface_collision:
  "let q = (\<lambda>t x. Some (StructV ''app.Other'' [InterfaceV ''interface {}'' (Some (BasicV t x))]));
       sp = query_types\<lparr>structFields := (\<lambda>_. [(''Value'', IfaceKind, ''interface {}'')])\<rparr>
   in spellOut sp query_heap (q ''app.T'' ''12'') = spellOut sp query_heap (q ''app.T1'' ''2'')
    \<and> spellOut sp query_heap (q ''app.T'' ''12'') = Some ''app.Other{Value:app.T12}''"
  by code_simp

end
