(* ===== verification/Decoding_Fields.thy ===== *)
theory Decoding_Fields
  imports Encoding_Json
begin

text \<open>
  Which kind of JSON value a type takes, and which field of a struct a member of an object is decoded into
  (\<open>httpapi/decoding.go\<close>), on the types of \<open>Json_Fields\<close>. \<open>VisibleFields\<close> is the function of \<open>reflect\<close>: it walks
  through the embedded structs, and a field hides another one of the same name that lies deeper.
\<close>

section \<open>Visible fields\<close>

record visible_field =
  vField :: struct_field
  vIndex :: "nat list"
  vHidden :: bool

type_synonym visible_state = "(string \<rightharpoonup> nat) \<times> visible_field list"

definition add_visible :: "nat list \<Rightarrow> struct_field \<Rightarrow> visible_state \<Rightarrow> visible_state" where
  "add_visible index f st =
     (let (byName, fs) = st; new = \<lparr>vField = f, vIndex = index, vHidden = False\<rparr> in
      case byName (FieldName f) of
        None \<Rightarrow> (byName(FieldName f \<mapsto> length fs), fs @ [new])
      | Some old \<Rightarrow>
          (let depth = length (vIndex (fs ! old)); hidden = fs[old := (fs ! old)\<lparr>vHidden := True\<rparr>] in
           if length index = depth then (byName, hidden)
           else if length index < depth then (byName(FieldName f \<mapsto> length fs), hidden @ [new])
           else (byName, fs)))"

definition is_struct :: "program \<Rightarrow> tid \<Rightarrow> bool" where
  "is_struct p t = (case type_kind_of p t of KindStruct _ \<Rightarrow> True | _ \<Rightarrow> False)"

definition embedded_struct :: "program \<Rightarrow> struct_field \<Rightarrow> tid option" where
  "embedded_struct p f =
     (let t = (case type_kind_of p (FieldType f) of KindPointer elem \<Rightarrow> elem | _ \<Rightarrow> FieldType f) in
      if Anonymous f \<and> is_struct p t then Some t else None)"

lemma is_struct_program: "is_struct p t \<Longrightarrow> t < length (types p)"
  by (auto simp: is_struct_def type_kind_of_def info_def split: if_splits)

lemma embedded_struct_program: "embedded_struct p f = Some t \<Longrightarrow> t < length (types p)"
  by (auto simp: embedded_struct_def Let_def split: if_splits intro: is_struct_program)

lemma fewer_types:
  "embedded_struct p f = Some t \<Longrightarrow> t \<notin> set visiting \<Longrightarrow>
     card ({..<length (types p)} - insert t (set visiting)) < card ({..<length (types p)} - set visiting)"
  by (intro psubset_card_mono) (auto dest: embedded_struct_program)

function visible_walk ::
  "program \<Rightarrow> tid list \<Rightarrow> nat list \<Rightarrow> nat \<Rightarrow> struct_field list \<Rightarrow> visible_state \<Rightarrow> visible_state" where
  "visible_walk p visiting index i [] st = st"
| "visible_walk p visiting index i (f # fs) st =
     (let st1 = add_visible (index @ [i]) f st in
      case embedded_struct p f of
        None \<Rightarrow> visible_walk p visiting index (i + 1) fs st1
      | Some t \<Rightarrow>
          if t \<in> set visiting then visible_walk p visiting index (i + 1) fs st1
          else visible_walk p visiting index (i + 1) fs (visible_walk p (t # visiting) (index @ [i]) 0 (fields_of p t) st1))"
  by pat_completeness auto
termination
  by (relation "measures [\<lambda>(p, visiting, index, i, fs, st). card ({..<length (types p)} - set visiting),
       \<lambda>(p, visiting, index, i, fs, st). length fs]") (auto dest: fewer_types)

definition VisibleFields :: "program \<Rightarrow> tid \<Rightarrow> visible_field list" where
  "VisibleFields p t = filter (\<lambda>v. \<not> vHidden v) (snd (visible_walk p [t] [] 0 (fields_of p t) (Map.empty, [])))"

section \<open>The field of a name\<close>

text \<open>\<open>strings.EqualFold\<close>, for ASCII names.\<close>

definition ascii_lower :: "char \<Rightarrow> char" where
  "ascii_lower c = (let n = of_char c :: nat in if 65 \<le> n \<and> n \<le> 90 then char_of (n + 32) else c)"

definition strings_EqualFold :: "string \<Rightarrow> string \<Rightarrow> bool" where
  "strings_EqualFold s t \<longleftrightarrow> map ascii_lower s = map ascii_lower t"

definition tag_name :: "struct_field \<Rightarrow> string" where
  "tag_name f = fst (strings_Cut (JsonTag f) CHR '','')"

definition is_decoded :: "struct_field \<Rightarrow> bool" where
  "is_decoded f \<longleftrightarrow> \<not> (\<not> IsExported f \<or> JsonTag f = ''-'' \<or> Anonymous f \<and> tag_name f = [])"

definition decoded_name :: "struct_field \<Rightarrow> string" where
  "decoded_name f = (if tag_name f \<noteq> [] then tag_name f else FieldName f)"

fun field_loop :: "string \<Rightarrow> visible_field option \<Rightarrow> visible_field list \<Rightarrow> visible_field option" where
  "field_loop name namesake [] = namesake"
| "field_loop name namesake (v # vs) =
     (if \<not> is_decoded (vField v) then field_loop name namesake vs
      else if decoded_name (vField v) = name then Some v
      else if namesake = None \<and> strings_EqualFold (decoded_name (vField v)) name then field_loop name (Some v) vs
      else field_loop name namesake vs)"

definition fieldNamed :: "program \<Rightarrow> tid \<Rightarrow> string \<Rightarrow> visible_field option" where
  "fieldNamed p structType name = field_loop name None (VisibleFields p structType)"

section \<open>Pointers\<close>

text \<open>
  What a type is behind any number of pointers. Following them ends unless a pointer type points to itself,
  which no type of a body does; a walk that ends passes every type at most once, so that as many steps as
  there are types are enough.
\<close>

fun deref_within :: "nat \<Rightarrow> program \<Rightarrow> tid \<Rightarrow> tid" where
  "deref_within 0 p t = t"
| "deref_within (Suc n) p t = (case type_kind_of p t of KindPointer elem \<Rightarrow> deref_within n p elem | _ \<Rightarrow> t)"

definition deref :: "program \<Rightarrow> tid \<Rightarrow> tid" where
  "deref p t = deref_within (length (types p)) p t"

section \<open>Kinds\<close>

definition hasMethodsOf :: "encoder \<Rightarrow> program \<Rightarrow> tid \<Rightarrow> bool" where
  "hasMethodsOf methods p t \<longleftrightarrow> methods \<in> set (PointerImplements (info p t))"

definition decodesItself :: "program \<Rightarrow> tid \<Rightarrow> bool" where
  "decodesItself p t \<longleftrightarrow>
     hasMethodsOf JsonUnmarshaler p t \<or> hasMethodsOf JsonUnmarshalerFrom p t \<or> hasMethodsOf TextUnmarshaler p t"

definition kindString :: string where "kindString = ''a string''"

definition kindNumber :: string where "kindNumber = ''a number''"

definition kindBoolean :: string where "kindBoolean = ''a boolean''"

definition kindArray :: string where "kindArray = ''an array''"

definition kindObject :: string where "kindObject = ''an object''"

definition kindsOfValues :: "(string \<times> string) list" where
  "kindsOfValues =
     [(''string'', kindString), (''number'', kindNumber), (''bool'', kindBoolean), (''array'', kindArray), (''object'', kindObject)]"

definition is_number_kind :: "basic_kind \<Rightarrow> bool" where
  "is_number_kind k \<longleftrightarrow> is_integer_kind k \<or> k \<in> set [KFloat32, KFloat64]"

fun kind_within :: "nat \<Rightarrow> program \<Rightarrow> tid \<Rightarrow> string option" where
  "kind_within n p t =
     (if t = timeID p then Some kindString
      else if t = numberID p then Some kindNumber
      else if hasMethodsOf JsonUnmarshaler p t \<or> hasMethodsOf JsonUnmarshalerFrom p t then None
      else if hasMethodsOf TextUnmarshaler p t then Some kindString
      else
        (case type_kind_of p t of
           KindPointer elem \<Rightarrow> (case n of 0 \<Rightarrow> None | Suc m \<Rightarrow> kind_within m p elem)
         | KindBasic k \<Rightarrow>
             if k = KString then Some kindString
             else if k = KBool then Some kindBoolean
             else if is_number_kind k then Some kindNumber
             else None
         | KindSlice elem \<Rightarrow> if type_kind_of p elem = KindBasic KUint8 then Some kindString else Some kindArray
         | KindArray _ _ \<Rightarrow> Some kindArray
         | KindMap _ _ \<Rightarrow> Some kindObject
         | KindStruct _ \<Rightarrow> Some kindObject
         | _ \<Rightarrow> None))"

definition kindOf :: "program \<Rightarrow> tid \<Rightarrow> string option" where
  "kindOf p t = kind_within (length (types p)) p t"

declare kind_within.simps [simp del]

definition decoding_isQuotable :: "program \<Rightarrow> tid \<Rightarrow> bool" where
  "decoding_isQuotable p t =
     (case type_kind_of p t of KindBasic k \<Rightarrow> k \<in> set [KBool, KString] \<or> is_number_kind k | _ \<Rightarrow> False)"

section \<open>Following a path\<close>

fun quoted_loop :: "program \<Rightarrow> bool \<Rightarrow> tid \<Rightarrow> string list \<Rightarrow> bool" where
  "quoted_loop p quoted t [] = quoted"
| "quoted_loop p quoted t (name # names) =
     (let valueType = deref p t in
      case type_kind_of p valueType of
        KindStruct _ \<Rightarrow>
          (case fieldNamed p valueType name of
             None \<Rightarrow> False
           | Some v \<Rightarrow>
               (let (_, options, _) = strings_Cut (JsonTag (vField v)) CHR '','' in
                quoted_loop p (hasOption options ''string'') (FieldType (vField v)) names))
      | KindSlice elem \<Rightarrow> quoted_loop p False elem names
      | KindArray _ elem \<Rightarrow> quoted_loop p False elem names
      | KindMap _ elem \<Rightarrow> quoted_loop p False elem names
      | _ \<Rightarrow> False)"

definition decoding_isQuoted :: "program \<Rightarrow> tid \<Rightarrow> string list \<Rightarrow> bool" where
  "decoding_isQuoted p t names = quoted_loop p False t names"

fun structAt :: "program \<Rightarrow> tid \<Rightarrow> string list \<Rightarrow> tid option" where
  "structAt p t names =
     (let valueType = deref p t in
      if decodesItself p valueType then None
      else
        (case names of
           [] \<Rightarrow> if is_struct p valueType then Some valueType else None
         | name # later \<Rightarrow>
             (case type_kind_of p valueType of
                KindStruct _ \<Rightarrow>
                  (case fieldNamed p valueType name of None \<Rightarrow> None | Some v \<Rightarrow> structAt p (FieldType (vField v)) later)
              | KindSlice elem \<Rightarrow> structAt p elem later
              | KindArray _ elem \<Rightarrow> structAt p elem later
              | KindMap _ elem \<Rightarrow> structAt p elem later
              | _ \<Rightarrow> None)))"

declare structAt.simps [simp del]

section \<open>Pointers end\<close>

inductive pointer_ends :: "program \<Rightarrow> tid \<Rightarrow> nat \<Rightarrow> bool" for p where
  here: "(\<forall>elem. type_kind_of p t \<noteq> KindPointer elem) \<Longrightarrow> pointer_ends p t 0"
| there: "type_kind_of p t = KindPointer elem \<Longrightarrow> pointer_ends p elem k \<Longrightarrow> pointer_ends p t (Suc k)"

inductive_cases pointer_endsE: "pointer_ends p t k"

lemma pointer_ends_unique: "pointer_ends p t k \<Longrightarrow> pointer_ends p t k' \<Longrightarrow> k = k'"
proof (induction arbitrary: k' rule: pointer_ends.induct)
  case (here t)
  then show ?case by (auto elim: pointer_endsE)
next
  case (there t elem k)
  from there.prems show ?case
  proof (cases rule: pointer_ends.cases)
    case there': (there elem' k'')
    then show ?thesis using there.hyps(1) there.IH by simp
  qed (use there.hyps(1) in simp)
qed

lemma pointer_walk:
  "pointer_ends p t k \<Longrightarrow> \<exists>ts. length ts = k \<and> (\<forall>i < k. ts ! i < length (types p) \<and> pointer_ends p (ts ! i) (k - i))"
proof (induction rule: pointer_ends.induct)
  case (there t elem k)
  then obtain ts where ts: "length ts = k" "\<forall>i < k. ts ! i < length (types p) \<and> pointer_ends p (ts ! i) (k - i)" by blast
  have "t < length (types p)" using there.hyps(1) by (auto simp: type_kind_of_def info_def split: if_splits)
  moreover have "pointer_ends p t (Suc k)" using there.hyps by (rule pointer_ends.there)
  ultimately have "\<forall>i < Suc k. (t # ts) ! i < length (types p) \<and> pointer_ends p ((t # ts) ! i) (Suc k - i)"
    using ts(2) by (simp add: nth_Cons split: nat.split)
  then show ?case using ts(1) by (intro exI [of _ "t # ts"]) simp
qed simp

lemma pointer_ends_short:
  assumes "pointer_ends p t k"
  shows "k \<le> length (types p)"
proof -
  obtain ts where ts: "length ts = k" "\<forall>i < k. ts ! i < length (types p) \<and> pointer_ends p (ts ! i) (k - i)"
    using pointer_walk [OF assms] by blast
  have "i = j" if "i < k" "j < k" "ts ! i = ts ! j" for i j
    using pointer_ends_unique [of p "ts ! i" "k - i" "k - j"] ts(2) that by force
  then have "distinct ts" using ts(1) by (auto simp: distinct_conv_nth)
  then have "length ts = card (set ts)" by (simp add: distinct_card)
  also have "\<dots> \<le> card {..<length (types p)}" using ts by (intro card_mono) (auto simp: in_set_conv_nth)
  finally show ?thesis using ts(1) by simp
qed

lemma deref_within_ends:
  "pointer_ends p t k \<Longrightarrow> k \<le> n \<Longrightarrow> type_kind_of p (deref_within n p t) \<noteq> KindPointer elem"
proof (induction arbitrary: n rule: pointer_ends.induct)
  case (here t)
  then show ?case by (cases n) (simp_all split: type_kind.split)
next
  case (there t e k)
  then obtain m where "n = Suc m" "k \<le> m" by (cases n) auto
  then show ?case using there by simp
qed

lemma deref_not_pointer: "pointer_ends p t k \<Longrightarrow> type_kind_of p (deref p t) \<noteq> KindPointer elem"
  unfolding deref_def using deref_within_ends pointer_ends_short by blast

lemma kind_within_enough:
  "pointer_ends p t k \<Longrightarrow> k \<le> n \<Longrightarrow> kind_within n p t = kind_within k p t"
proof (induction arbitrary: n rule: pointer_ends.induct)
  case (here t)
  then show ?case by (simp add: kind_within.simps [of n] kind_within.simps [of 0] split: type_kind.split)
next
  case (there t e k)
  obtain m where m: "n = Suc m" "k \<le> m" using there.prems by (cases n) auto
  have "kind_within m p e = kind_within k p e" using m(2) by (rule there.IH)
  then show ?case using there.hyps(1) by (simp only: m(1) kind_within.simps [of "Suc m"] kind_within.simps [of "Suc k"] type_kind.case nat.case)
qed

section \<open>Structs without embedded fields\<close>

text \<open>\<open>encoding/json\<close> decodes a member into the field of exactly its name, or else into the first one whose name differs in case only.\<close>

definition member_field :: "jsonField list \<Rightarrow> string \<Rightarrow> jsonField option" where
  "member_field js name =
     (case find (\<lambda>j. fieldName j = name) js of
        Some j \<Rightarrow> Some j
      | None \<Rightarrow> find (\<lambda>j. strings_EqualFold (fieldName j) name) js)"

lemma field_loop_find:
  "field_loop name namesake vs =
     (case find (\<lambda>v. is_decoded (vField v) \<and> decoded_name (vField v) = name) vs of
        Some v \<Rightarrow> Some v
      | None \<Rightarrow>
          (case namesake of
             Some v \<Rightarrow> Some v
           | None \<Rightarrow> find (\<lambda>v. is_decoded (vField v) \<and> strings_EqualFold (decoded_name (vField v)) name) vs))"
  by (induction name namesake vs rule: field_loop.induct) (auto split: option.splits)

text \<open>No field is embedded, and no two have the same name in Go; and no two have the same JSON name.\<close>

definition flat :: "program \<Rightarrow> tid \<Rightarrow> bool" where
  "flat p t \<longleftrightarrow> list_all (\<lambda>f. \<not> Anonymous f) (fields_of p t) \<and> distinct (map FieldName (fields_of p t))"

definition distinct_names :: "program \<Rightarrow> tid \<Rightarrow> bool" where
  "distinct_names p t \<longleftrightarrow> distinct (map decoded_name (filter is_decoded (fields_of p t)))"

lemma flat_repeats: "flat p t \<Longrightarrow> repeats_flat p t"
proof -
  assume flat: "flat p t"
  have "path = []" if "struct_at p t path = Some (u, b)" for path u b
    using that flat by (cases path) (auto simp: flat_def embeds_def list_all_length split: if_splits)
  then show ?thesis unfolding repeats_flat_def by blast
qed

definition flat_visible :: "nat \<Rightarrow> struct_field list \<Rightarrow> visible_field list" where
  "flat_visible i fs = map (\<lambda>(i, f). \<lparr>vField = f, vIndex = [i], vHidden = False\<rparr>) (enumerate i fs)"

lemma visible_walk_flat:
  assumes "list_all (\<lambda>f. \<not> Anonymous f) fs" and "distinct (map FieldName fs)" and "\<forall>f \<in> set fs. byName (FieldName f) = None"
  shows "snd (visible_walk p visiting [] i fs (byName, vs)) = vs @ flat_visible i fs"
  using assms
proof (induction fs arbitrary: i byName vs)
  case (Cons f fs)
  have "embedded_struct p f = None" using Cons.prems(1) by (simp add: embedded_struct_def)
  moreover have "\<forall>g \<in> set fs. (byName(FieldName f \<mapsto> length vs)) (FieldName g) = None"
    using Cons.prems(2,3) by (auto simp: rev_image_eqI)
  ultimately show ?case
    using Cons.IH [of "byName(FieldName f \<mapsto> length vs)" "i + 1" "vs @ [\<lparr>vField = f, vIndex = [i], vHidden = False\<rparr>]"] Cons.prems
    by (simp add: add_visible_def flat_visible_def del: fun_upd_apply)
qed (simp add: flat_visible_def)

lemma VisibleFields_flat:
  assumes "flat p t"
  shows "VisibleFields p t = flat_visible 0 (fields_of p t)"
proof -
  have "filter (\<lambda>v. \<not> vHidden v) (flat_visible i fs) = flat_visible i fs" for i fs
    by (auto simp: flat_visible_def filter_id_conv)
  then show ?thesis
    using assms visible_walk_flat [of "fields_of p t" Map.empty p "[t]" 0 "[]"] by (simp add: VisibleFields_def flat_def)
qed

text \<open>What \<open>jsonFields\<close> finds in a flat struct: a field for each one that is decoded, in order.\<close>

definition flat_field :: "program \<Rightarrow> tid \<Rightarrow> nat \<Rightarrow> struct_field \<Rightarrow> jsonField option" where
  "flat_field p t i f =
     (case step_field p \<lparr>embType = t, embIndex = [], isBehindAPointer = False\<rparr> i f of AddField j \<Rightarrow> Some j | _ \<Rightarrow> None)"

definition flat_fields :: "program \<Rightarrow> tid \<Rightarrow> nat \<Rightarrow> struct_field list \<Rightarrow> jsonField list" where
  "flat_fields p t i fs = List.map_filter (\<lambda>(i, f). flat_field p t i f) (enumerate i fs)"

lemma flat_fields_simps [simp]:
  "flat_fields p t i [] = []"
  "flat_fields p t i (f # fs) =
     (case flat_field p t i f of None \<Rightarrow> flat_fields p t (Suc i) fs | Some j \<Rightarrow> j # flat_fields p t (Suc i) fs)"
  by (simp_all add: flat_fields_def map_filter_simps split: option.split)

lemma step_field_flat:
  assumes "\<not> Anonymous f" and "step_field p emb i f \<noteq> RefuseField err" and "embIndex emb = []"
  shows "case step_field p emb i f of
      SkipField \<Rightarrow> \<not> is_decoded f
    | RefuseField err' \<Rightarrow> err' \<noteq> err
    | EmbedField _ _ \<Rightarrow> False
    | AddField j \<Rightarrow> is_decoded f \<and> fieldName j = decoded_name f \<and> fieldIndex j = [i]"
  using assms by (auto simp: step_field_def is_decoded_def decoded_name_def tag_name_def Let_def split: prod.splits if_splits)

lemma walk_fields_flat:
  assumes "list_all (\<lambda>f. \<not> Anonymous f) fs" and "counts t \<le> 1"
    and "walk_fields p counts \<lparr>embType = t, embIndex = [], isBehindAPointer = False\<rparr> i fs (q, c, cands) = Inr st"
  shows "st = (q, c, cands @ flat_fields p t i fs)
    \<and> list_all (\<lambda>(i, f). case flat_field p t i f of None \<Rightarrow> \<not> is_decoded f
        | Some j \<Rightarrow> is_decoded f \<and> fieldName j = decoded_name f \<and> fieldIndex j = [i]) (enumerate i fs)"
  using assms
proof (induction fs arbitrary: i cands)
  case (Cons f fs)
  let ?emb = "\<lparr>embType = t, embIndex = [], isBehindAPointer = False\<rparr>"
  have f: "\<not> Anonymous f" "list_all (\<lambda>f. \<not> Anonymous f) fs" using Cons.prems(1) by simp_all
  show ?case
  proof (cases "step_field p ?emb i f")
    case SkipField
    then show ?thesis using Cons.IH [OF f(2) Cons.prems(2)] Cons.prems(3) step_field_flat [OF f(1), of p ?emb i "[]"]
      by (simp add: flat_field_def)
  next
    case (RefuseField err)
    then show ?thesis using Cons.prems(3) by simp
  next
    case (EmbedField u b)
    then show ?thesis using step_field_flat [OF f(1), of p ?emb i "[]"] by simp
  next
    case (AddField j)
    then show ?thesis using Cons.IH [OF f(2) Cons.prems(2), of "i + 1" "cands @ [j]"] Cons.prems(2,3) step_field_flat [OF f(1), of p ?emb i "[]"]
      by (simp add: flat_field_def)
  qed
qed simp

lemma flat_field_index: "flat_field p t i f = Some j \<Longrightarrow> fieldIndex j = [i]"
  by (auto simp: flat_field_def split: field_step.splits dest: step_field_Add)

lemma flat_fields_later: "j \<in> set (flat_fields p t i fs) \<Longrightarrow> \<exists>k \<ge> i. fieldIndex j = [k]"
proof (induction fs arbitrary: i)
  case (Cons f fs)
  show ?case
  proof (cases "j \<in> set (flat_fields p t (Suc i) fs)")
    case True
    then show ?thesis using Cons.IH Suc_leD by blast
  next
    case False
    then have "flat_field p t i f = Some j" using Cons.prems by (cases "flat_field p t i f") auto
    then show ?thesis using flat_field_index by blast
  qed
qed simp

lemma sort_fields_sorted: "sorted_wrt (\<lambda>f g. index_le (fieldIndex f) (fieldIndex g)) fs \<Longrightarrow> sort_fields fs = fs"
proof (induction fs)
  case (Cons f fs)
  then have "foldr insert_field fs [] = fs" by (simp add: sort_fields_def)
  then show ?case using Cons.prems by (cases fs) (simp_all add: sort_fields_def)
qed (simp add: sort_fields_def)

lemma flat_fields_sorted: "sorted_wrt (\<lambda>f g. index_le (fieldIndex f) (fieldIndex g)) (flat_fields p t i fs)"
proof (induction fs arbitrary: i)
  case (Cons f fs)
  have "index_le [i] (fieldIndex g)" if g: "g \<in> set (flat_fields p t (Suc i) fs)" for g
    using flat_fields_later [OF g] by auto
  then show ?case using Cons flat_field_index by (cases "flat_field p t i f") simp_all
qed simp

lemma names_in_order_new: "distinct (names @ map fieldName fs) \<Longrightarrow> names_in_order names fs = names @ map fieldName fs"
  by (induction names fs rule: names_in_order.induct) auto

lemma winners_distinct:
  assumes "distinct (map fieldName fs)"
  shows "winners fs = fs"
proof -
  have one: "filter (\<lambda>g. fieldName g = fieldName f) fs = [f]" if "f \<in> set fs" for f
    using assms that by (induction fs) (auto simp: filter_empty_conv rev_image_eqI)
  have "dominantField (filter (\<lambda>g. fieldName g = fieldName f) fs) = Some f" if "f \<in> set fs" for f
    unfolding one [OF that] by (simp add: dominantField_def)
  then have "List.map_filter (\<lambda>name. dominantField (filter (\<lambda>f. fieldName f = name) fs)) (map fieldName gs) = gs"
    if "set gs \<subseteq> set fs" for gs
    using that by (induction gs) (simp_all add: map_filter_simps)
  then show ?thesis using names_in_order_new [of "[]" fs] assms by (simp add: winners_def)
qed

lemma flat_fields_names:
  assumes "list_all (\<lambda>(i, f). case flat_field p t i f of None \<Rightarrow> \<not> is_decoded f
      | Some j \<Rightarrow> is_decoded f \<and> fieldName j = decoded_name f \<and> fieldIndex j = [i]) (enumerate i fs)"
  shows "map fieldName (flat_fields p t i fs) = map decoded_name (filter is_decoded fs)"
    "find (\<lambda>v. is_decoded (vField v) \<and> P (decoded_name (vField v))) (flat_visible i fs) = None
       \<longleftrightarrow> find (\<lambda>j. P (fieldName j)) (flat_fields p t i fs) = None"
    "map_option vIndex (find (\<lambda>v. is_decoded (vField v) \<and> P (decoded_name (vField v))) (flat_visible i fs))
       = map_option fieldIndex (find (\<lambda>j. P (fieldName j)) (flat_fields p t i fs))"
  using assms by (induction fs arbitrary: i) (auto simp: flat_visible_def split: option.splits)

section \<open>An index tells the field\<close>

fun path_type :: "program \<Rightarrow> tid \<Rightarrow> nat list \<Rightarrow> tid option" where
  "path_type p t [] = Some t"
| "path_type p t (i # index) =
     (if i < length (fields_of p t) then Option.bind (embedded_struct p (fields_of p t ! i)) (\<lambda>u. path_type p u index) else None)"

definition path_field :: "program \<Rightarrow> tid \<Rightarrow> nat list \<Rightarrow> struct_field option" where
  "path_field p t index = Option.bind (path_type p t (butlast index)) (\<lambda>u. Some (fields_of p u ! last index))"

lemma path_type_append: "path_type p t (xs @ ys) = Option.bind (path_type p t xs) (\<lambda>u. path_type p u ys)"
  by (induction xs arbitrary: t) (auto split: bind_split)

definition visible_ok :: "program \<Rightarrow> tid \<Rightarrow> visible_state \<Rightarrow> bool" where
  "visible_ok p base st \<longleftrightarrow>
     (\<forall>name n. fst st name = Some n \<longrightarrow> n < length (snd st)) \<and> list_all (\<lambda>v. path_field p base (vIndex v) = Some (vField v)) (snd st)"

lemma add_visible_ok:
  assumes "visible_ok p base st" and "path_field p base index = Some f"
  shows "visible_ok p base (add_visible index f st)"
proof -
  obtain byName fs where st: "st = (byName, fs)" by (cases st)
  show ?thesis
  proof (cases "byName (FieldName f)")
    case None
    then show ?thesis using assms by (auto simp: st add_visible_def visible_ok_def less_Suc_eq)
  next
    case (Some old)
    then have "old < length fs" using assms(1) by (auto simp: st visible_ok_def)
    then have "list_all (\<lambda>v. path_field p base (vIndex v) = Some (vField v)) (fs[old := (fs ! old)\<lparr>vHidden := True\<rparr>])"
      using assms(1) by (auto simp: st visible_ok_def list_all_length nth_list_update)
    then show ?thesis using assms Some by (auto simp: st add_visible_def visible_ok_def Let_def less_Suc_eq)
  qed
qed

lemma visible_walk_ok:
  assumes "visible_ok p base st" and "path_type p base index = Some u" and "fields_of p u = pre @ fs" and "i = length pre"
  shows "visible_ok p base (visible_walk p visiting index i fs st)"
  using assms
proof (induction p visiting index i fs st arbitrary: u pre rule: visible_walk.induct)
  case (2 p visiting index i f fs st)
  have f: "fields_of p u ! i = f" "i < length (fields_of p u)" "fields_of p u = (pre @ [f]) @ fs" "i + 1 = length (pre @ [f])"
    using 2(7,8) by simp_all
  have st1: "visible_ok p base (add_visible (index @ [i]) f st)"
    using 2(5,6) f(1) by (intro add_visible_ok) (simp_all add: path_field_def)
  show ?case
  proof (cases "embedded_struct p f")
    case None
    then show ?thesis using 2(1) [OF refl None st1 2(6) f(3,4)] by simp
  next
    case (Some t)
    show ?thesis
    proof (cases "t \<in> set visiting")
      case True
      then show ?thesis using 2(2) [OF refl Some True st1 2(6) f(3,4)] Some by simp
    next
      case False
      have "path_type p base (index @ [i]) = Some t" using 2(6) f(1,2) Some by (simp add: path_type_append)
      from 2(3) [OF refl Some False st1 this, of "[]"]
      have "visible_ok p base (visible_walk p (t # visiting) (index @ [i]) 0 (fields_of p t) (add_visible (index @ [i]) f st))" by simp
      from 2(4) [OF refl Some False this 2(6) f(3,4)] show ?thesis using Some False by simp
    qed
  qed
qed simp

lemma VisibleFields_index: "v \<in> set (VisibleFields p t) \<Longrightarrow> path_field p t (vIndex v) = Some (vField v)"
  using visible_walk_ok [of p t "(Map.empty, [])" "[]" t "[]" "fields_of p t" 0 "[t]"]
  by (auto simp: VisibleFields_def visible_ok_def list_all_iff)

lemma EqualFold_trans: "strings_EqualFold s t \<Longrightarrow> strings_EqualFold s u \<Longrightarrow> strings_EqualFold t u"
  by (simp add: strings_EqualFold_def)

lemma fieldNamed_visible:
  assumes "fieldNamed p t name = Some v"
  shows "v \<in> set (VisibleFields p t) \<and> strings_EqualFold (decoded_name (vField v)) name"
  using assms unfolding fieldNamed_def field_loop_find
  by (auto simp: find_Some_iff strings_EqualFold_def split: option.splits)

lemma same_field_namesakes:
  assumes "fieldNamed p t name = Some v" and "fieldNamed p t name' = Some v'" and "vIndex v = vIndex v'"
  shows "strings_EqualFold name name'"
proof -
  have "vField v = vField v'"
    using VisibleFields_index [of v p t] VisibleFields_index [of v' p t] fieldNamed_visible [OF assms(1)] fieldNamed_visible [OF assms(2)] assms(3) by simp
  then show ?thesis
    using fieldNamed_visible [OF assms(1)] fieldNamed_visible [OF assms(2)] EqualFold_trans [of "decoded_name (vField v)" name name'] by simp
qed

section \<open>Properties\<close>

definition plain_type :: "string \<Rightarrow> type_kind \<Rightarrow> type_info" where
  "plain_type name kind =
     \<lparr>TypeString = name, TypeName = name, TypeKind = kind, Implements = [], PointerImplements = [], Promoted = False,
      PointerPromoted = False, SchemaResult = None\<rparr>"

definition plain_field :: "string \<Rightarrow> tid \<Rightarrow> bool \<Rightarrow> string \<Rightarrow> struct_field" where
  "plain_field name t embedded tag = \<lparr>FieldName = name, FieldType = t, Anonymous = embedded, IsExported = True, JsonTag = tag\<rparr>"

text \<open>
  A request with two fields, a struct to embed, a request that embeds it next to a field of the same
  JSON name, and one with two fields of one JSON name.
\<close>

definition request_types :: program where
  "request_types =
     \<lparr>types =
        [plain_type ''string'' (KindBasic KString),
         plain_type ''app.Request'' (KindStruct [plain_field ''Name'' 0 False [], plain_field ''Quantity'' 4 False ''quantity,string'']),
         plain_type ''app.Base'' (KindStruct [plain_field ''Other'' 4 False ''id,string'']),
         plain_type ''app.Both'' (KindStruct [plain_field ''Base'' 2 True [], plain_field ''ID'' 4 False ''id'']),
         plain_type ''int'' (KindBasic KInt),
         plain_type ''*app.Request'' (KindPointer 1),
         plain_type ''app.Twice'' (KindStruct [plain_field ''A'' 4 False ''x'', plain_field ''B'' 4 False ''x''])],
      timeID = 98, numberID = 99, rawMessageID = 97, wideLetters = (\<lambda>_. True)\<rparr>"

text \<open>
  C27. For a struct without embedded fields, of which no two have the same JSON name, \<open>fieldNamed\<close> finds the
  field that \<open>encoding/json\<close> decodes a member into: of the fields that \<open>encoding/json\<close> documents, the one of
  exactly that name, or else the first one whose name differs in case only, and none if there is none. With
  two fields of one JSON name it may find one that \<open>encoding/json\<close> ignores (\<open>fieldNamed_repeated\<close>).
\<close>

theorem fieldNamed_decodes_into:
  assumes "flat p t" and "distinct_names p t" and "jsonFields p t = Inr js"
  shows "map_option vIndex (fieldNamed p t name) = map_option fieldIndex (member_field js name)
    \<and> fieldIndex ` set js = {index. visible p t index}"
proof
  let ?fs = "fields_of p t" and ?root = "\<lparr>embType = t, embIndex = [], isBehindAPointer = False\<rparr>"
  obtain st where st: "walk_fields p ((\<lambda>_. 0)(t := 1)) ?root 0 ?fs ([], (\<lambda>_. 0), []) = Inr st"
    using assms(3) by (auto simp: jsonFields_def walk.simps [of p "[]" "[_]"] split: sum.splits)
  have flat: "list_all (\<lambda>f. \<not> Anonymous f) ?fs" "distinct (map decoded_name (filter is_decoded ?fs))"
    using assms(1,2) by (simp_all add: flat_def distinct_names_def)
  note found = walk_fields_flat [OF flat(1) _ st]
  then have st_eq: "st = ([], (\<lambda>_. 0), flat_fields p t 0 ?fs)" by simp
  note names = flat_fields_names [OF found [THEN conjunct2]]
  have "winners (flat_fields p t 0 ?fs) = flat_fields p t 0 ?fs" using names(1) flat(2) by (intro winners_distinct) simp
  then have "js = flat_fields p t 0 ?fs"
    using assms(3) st st_eq flat_fields_sorted sort_fields_sorted
    by (simp add: jsonFields_def walk.simps [of p "[]" "[_]"] walk.simps [of p _ "[]"])
  then show "map_option vIndex (fieldNamed p t name) = map_option fieldIndex (member_field js name)"
    using names(2) [of "\<lambda>n. n = name"] names(3) [of "\<lambda>n. n = name"] names(3) [of "\<lambda>n. strings_EqualFold n name"]
    by (auto simp: fieldNamed_def field_loop_find member_field_def VisibleFields_flat [OF assms(1)] split: option.splits)
  show "fieldIndex ` set js = {index. visible p t index}" by (rule jsonFields_visible(1) [OF assms(3) flat_repeats [OF assms(1)]])
qed

theorem fieldNamed_decodes_into_witness:
  "map_option vIndex (fieldNamed request_types 1 ''QUANTITY'') = Some [1]"
proof -
  have "flat request_types 1" "distinct_names request_types 1" "jsonFields request_types 1 = Inr (projr (jsonFields request_types 1))"
    "map_option fieldIndex (member_field (projr (jsonFields request_types 1)) ''QUANTITY'') = Some [1]" by code_simp+
  then show ?thesis using fieldNamed_decodes_into [of request_types 1 _ "''QUANTITY''"] by metis
qed

text \<open>Of two fields of one JSON name, \<open>fieldNamed\<close> takes the first, while \<open>encoding/json\<close> ignores both.\<close>

theorem fieldNamed_repeated:
  "map_option vIndex (fieldNamed request_types 6 ''x'') = Some [0] \<and> jsonFields request_types 6 = Inr []"
  by code_simp

text \<open>
  With embedded fields it may find another one: \<open>encoding/json\<close> prefers the field that is embedded less
  deeply, while \<open>fieldNamed\<close> takes the first one in the order of the fields. A caller is then told that a
  number has to be written in a string, where it has not.
\<close>

theorem fieldNamed_embedded:
  "map_option vIndex (fieldNamed request_types 3 ''id'') = Some [0, 0]
   \<and> map_option fieldIndex (member_field (projr (jsonFields request_types 3)) ''id'') = Some [1]
   \<and> decoding_isQuoted request_types 3 [''id''] \<and> map_option isQuoted (member_field (projr (jsonFields request_types 3)) ''id'') = Some False"
  by code_simp

end
