(* ===== verification/Json_Text.thy ===== *)
theory Json_Text
  imports Http_Requests
begin

text \<open>
  Reading JSON text without decoding it, as \<open>jsontext.Decoder\<close> does with the rules of \<open>strictJSON\<close>: a token
  at a time, with the names that every open object holds so far, so that one that occurs twice is refused.
  A text is a list of bytes in UTF-8. Pointers are those of RFC 6901, as \<open>jsontext.Pointer\<close> has them.
\<close>

section \<open>Pointers\<close>

fun replace_two :: "char \<Rightarrow> char \<Rightarrow> char \<Rightarrow> string \<Rightarrow> string" where
  "replace_two a b r (c # d # s) = (if c = a \<and> d = b then r # replace_two a b r s else c # replace_two a b r (d # s))"
| "replace_two a b r s = s"

definition pointer_unescape :: "string \<Rightarrow> string" where
  "pointer_unescape s = replace_two CHR 0x7E CHR ''0'' CHR 0x7E (replace_two CHR 0x7E CHR ''1'' CHR ''/'' s)"

definition pointer_escape :: "string \<Rightarrow> string" where
  "pointer_escape s =
     concat (map (\<lambda>c. if c = CHR 0x7E then [CHR 0x7E, CHR ''0''] else if c = CHR ''/'' then [CHR 0x7E, CHR ''1''] else [c]) s)"

definition pointer_Tokens :: "string \<Rightarrow> string list" where
  "pointer_Tokens pointer =
     (if pointer = [] then []
      else
        map pointer_unescape (strings_Split (if hd pointer = CHR ''/'' then tl pointer else pointer) CHR ''/''))"

text \<open>The part before the last slash, and the last token.\<close>

definition pointer_Parent :: "string \<Rightarrow> string" where
  "pointer_Parent pointer = rev (drop 1 (dropWhile (\<lambda>c. c \<noteq> CHR ''/'') (rev pointer)))"

definition pointer_LastToken :: "string \<Rightarrow> string" where
  "pointer_LastToken pointer = pointer_unescape (rev (takeWhile (\<lambda>c. c \<noteq> CHR ''/'') (rev pointer)))"

section \<open>Literals, numbers and strings\<close>

definition is_digit :: "char \<Rightarrow> bool" where
  "is_digit c \<longleftrightarrow> (let n = of_char c :: nat in 48 \<le> n \<and> n \<le> 57)"

text \<open>At least one digit.\<close>

definition consume_digits :: "string \<Rightarrow> string option" where
  "consume_digits s = (case s of c # r \<Rightarrow> if is_digit c then Some (dropWhile is_digit r) else None | [] \<Rightarrow> None)"

definition consume_integer :: "string \<Rightarrow> string option" where
  "consume_integer s = (case s of c # r \<Rightarrow> if c = CHR ''0'' then Some r else consume_digits s | [] \<Rightarrow> None)"

definition consume_fraction :: "string \<Rightarrow> string option" where
  "consume_fraction s = (case s of c # r \<Rightarrow> if c = CHR ''.'' then consume_digits r else Some s | [] \<Rightarrow> Some s)"

definition consume_exponent :: "string \<Rightarrow> string option" where
  "consume_exponent s =
     (case s of
        c # r \<Rightarrow>
          if c = CHR ''e'' \<or> c = CHR ''E'' then
            consume_digits (case r of d # r' \<Rightarrow> if d = CHR ''+'' \<or> d = CHR ''-'' then r' else r | [] \<Rightarrow> r)
          else Some s
      | [] \<Rightarrow> Some s)"

definition consume_number :: "string \<Rightarrow> string option" where
  "consume_number s =
     Option.bind
       (Option.bind (consume_integer (case s of c # r \<Rightarrow> if c = CHR ''-'' then r else s | [] \<Rightarrow> s)) consume_fraction)
       consume_exponent"

definition hex_digit_value :: "char \<Rightarrow> nat option" where
  "hex_digit_value c =
     (let n = of_char c :: nat in
      if 48 \<le> n \<and> n \<le> 57 then Some (n - 48)
      else if 97 \<le> n \<and> n \<le> 102 then Some (n - 87)
      else if 65 \<le> n \<and> n \<le> 70 then Some (n - 55)
      else None)"

fun four_hex :: "string \<Rightarrow> nat option" where
  "four_hex (a # b # c # d # s) =
     (case (hex_digit_value a, hex_digit_value b, hex_digit_value c, hex_digit_value d) of
        (Some w, Some x, Some y, Some z) \<Rightarrow> Some (4096 * w + 256 * x + 16 * y + z)
      | _ \<Rightarrow> None)"
| "four_hex s = None"

text \<open>A character in UTF-8.\<close>

definition utf8_encode :: "nat \<Rightarrow> string" where
  "utf8_encode n =
     (if n < 128 then [char_of n]
      else if n < 2048 then [char_of (192 + n div 64), char_of (128 + n mod 64)]
      else if n < 65536 then [char_of (224 + n div 4096), char_of (128 + n div 64 mod 64), char_of (128 + n mod 64)]
      else [char_of (240 + n div 262144), char_of (128 + n div 4096 mod 64), char_of (128 + n div 64 mod 64), char_of (128 + n mod 64)])"

definition short_escape :: "char \<Rightarrow> char option" where
  "short_escape c =
     map_of [(CHR 0x22, CHR 0x22), (CHR 0x5C, CHR 0x5C), (CHR ''/'', CHR ''/''), (CHR ''b'', CHR 0x08), (CHR ''f'', CHR 0x0C),
       (CHR ''n'', CHR 0x0A), (CHR ''r'', CHR 0x0D), (CHR ''t'', CHR 0x09)] c"

text \<open>
  An escape with four hexadecimal digits: one of a pair of surrogates stands for a character together with
  the other one, and for the replacement character without it.
\<close>

definition unicode_escape :: "string \<Rightarrow> (string \<times> nat) option" where
  "unicode_escape s =
     (case four_hex s of
        None \<Rightarrow> None
      | Some n \<Rightarrow>
          if 55296 \<le> n \<and> n < 56320 then
            (case (if take 2 (drop 4 s) = [CHR 0x5C, CHR ''u''] then four_hex (drop 6 s) else None) of
               Some m \<Rightarrow>
                 if 56320 \<le> m \<and> m < 57344 then Some (utf8_encode (65536 + (n - 55296) * 1024 + (m - 56320)), 10)
                 else Some (utf8_encode 65533, 4)
             | None \<Rightarrow> Some (utf8_encode 65533, 4))
          else if 56320 \<le> n \<and> n < 57344 then Some (utf8_encode 65533, 4)
          else Some (utf8_encode n, 4))"

text \<open>The rest of a string after its opening quote: what it holds, and the text after its closing quote.\<close>

function consume_string :: "string \<Rightarrow> (string \<times> string) option" where
  "consume_string s =
     (case s of
        [] \<Rightarrow> None
      | c # r \<Rightarrow>
          if c = CHR 0x22 then Some ([], r)
          else if (of_char c :: nat) < 32 then None
          else if c \<noteq> CHR 0x5C then map_option (\<lambda>(held, rest). (c # held, rest)) (consume_string r)
          else
            (case r of
               [] \<Rightarrow> None
             | d # r' \<Rightarrow>
                 if d = CHR ''u'' then
                   (case unicode_escape r' of
                      None \<Rightarrow> None
                    | Some (bytes, n) \<Rightarrow> map_option (\<lambda>(held, rest). (bytes @ held, rest)) (consume_string (drop n r')))
                 else
                   (case short_escape d of
                      None \<Rightarrow> None
                    | Some e \<Rightarrow> map_option (\<lambda>(held, rest). (e # held, rest)) (consume_string r'))))"
  by pat_completeness auto
termination by (relation "measure length") auto

declare consume_string.simps [simp del]

section \<open>The reader\<close>

text \<open>
  An object or array that is open: its kind, how many names and values, or values, it holds so far, and the names of
  an object, the last one first.
\<close>

record json_frame =
  frameKind :: char
  frameLength :: nat
  frameNames :: "string list"

record json_reader =
  unread :: string
  InputOffset :: nat
  frames :: "json_frame list"

definition NewDecoder :: "string \<Rightarrow> json_reader" where
  "NewDecoder body = \<lparr>unread = body, InputOffset = 0, frames = []\<rparr>"

record json_token =
  tokenKind :: char
  tokenString :: string

datatype read_failure = ReadEnd | ReadDuplicate nat string | ReadInvalid

definition is_json_space :: "char \<Rightarrow> bool" where
  "is_json_space c \<longleftrightarrow> List.member json_space c"

text \<open>The comma or colon that the next token needs before it.\<close>

definition needDelim :: "json_frame list \<Rightarrow> char \<Rightarrow> char option" where
  "needDelim fs c =
     (case fs of
        [] \<Rightarrow> None
      | f # _ \<Rightarrow>
          if frameKind f = CHR 0x7B \<and> odd (frameLength f) then Some CHR '':''
          else if frameLength f > 0 \<and> c \<noteq> CHR 0x7D \<and> c \<noteq> CHR '']'' then Some CHR '',''
          else None)"

definition needs_name :: "json_frame list \<Rightarrow> bool" where
  "needs_name fs = (case fs of [] \<Rightarrow> False | f # _ \<Rightarrow> frameKind f = CHR 0x7B \<and> even (frameLength f))"

definition count_value :: "json_frame list \<Rightarrow> json_frame list" where
  "count_value fs = (case fs of [] \<Rightarrow> [] | f # gs \<Rightarrow> f\<lparr>frameLength := frameLength f + 1\<rparr> # gs)"

definition frame_pointer :: "json_frame \<Rightarrow> string" where
  "frame_pointer f =
     (if frameLength f = 0 then []
      else CHR ''/'' #
        (if frameKind f = CHR 0x7B then pointer_escape (case frameNames f of [] \<Rightarrow> [] | n # _ \<Rightarrow> n)
         else strconv_Itoa (frameLength f - 1)))"

definition StackPointer :: "json_frame list \<Rightarrow> string" where
  "StackPointer fs = concat (map frame_pointer (rev fs))"

definition maxNestingDepth :: nat where
  "maxNestingDepth = 10000"

text \<open>
  A token that starts at \<open>s\<close>, and what is left: the frames after it, and the text. Where a name starts that occurs
  twice is filled in by \<open>ReadToken\<close>.
\<close>

definition lex_string :: "json_frame list \<Rightarrow> string \<Rightarrow> read_failure + json_token \<times> json_frame list \<times> string" where
  "lex_string fs s =
     (case consume_string s of
        None \<Rightarrow> Inl ReadInvalid
      | Some (held, rest) \<Rightarrow>
          if \<not> needs_name fs then Inr (\<lparr>tokenKind = CHR 0x22, tokenString = held\<rparr>, count_value fs, rest)
          else
            (let f = hd fs; f' = f\<lparr>frameLength := frameLength f + 1, frameNames := held # frameNames f\<rparr> in
             if held \<in> set (frameNames f) then Inl (ReadDuplicate 0 (StackPointer (f' # tl fs)))
             else Inr (\<lparr>tokenKind = CHR 0x22, tokenString = held\<rparr>, f' # tl fs, rest)))"

definition lex_word :: "string \<Rightarrow> char \<Rightarrow> json_frame list \<Rightarrow> string \<Rightarrow> read_failure + json_token \<times> json_frame list \<times> string" where
  "lex_word word letter fs s =
     (if strings_HasPrefix s word then Inr (\<lparr>tokenKind = letter, tokenString = word\<rparr>, count_value fs, drop (length word) s)
      else Inl ReadInvalid)"

definition lex_close :: "char \<Rightarrow> char \<Rightarrow> json_frame list \<Rightarrow> string \<Rightarrow> read_failure + json_token \<times> json_frame list \<times> string" where
  "lex_close opening closing fs rest =
     (case fs of
        [] \<Rightarrow> Inl ReadInvalid
      | f # gs \<Rightarrow>
          if frameKind f = opening \<and> (opening = CHR 0x7B \<longrightarrow> even (frameLength f)) then
            Inr (\<lparr>tokenKind = closing, tokenString = [closing]\<rparr>, gs, rest)
          else Inl ReadInvalid)"

definition lex_token :: "json_frame list \<Rightarrow> string \<Rightarrow> read_failure + json_token \<times> json_frame list \<times> string" where
  "lex_token fs s =
     (case s of
        [] \<Rightarrow> Inl ReadInvalid
      | c # r \<Rightarrow>
          if c = CHR 0x22 then lex_string fs r
          else if c = CHR 0x7D then lex_close CHR 0x7B CHR 0x7D fs r
          else if c = CHR '']'' then lex_close CHR ''['' CHR '']'' fs r
          else if needs_name fs then Inl ReadInvalid
          else if c = CHR 0x7B \<or> c = CHR ''['' then
            if length fs \<ge> maxNestingDepth then Inl ReadInvalid
            else Inr (\<lparr>tokenKind = c, tokenString = [c]\<rparr>, \<lparr>frameKind = c, frameLength = 0, frameNames = []\<rparr> # count_value fs, r)
          else if c = CHR ''n'' then lex_word ''null'' c fs s
          else if c = CHR ''t'' then lex_word ''true'' c fs s
          else if c = CHR ''f'' then lex_word ''false'' c fs s
          else if c = CHR ''-'' \<or> is_digit c then
            (case consume_number s of
               None \<Rightarrow> Inl ReadInvalid
             | Some rest \<Rightarrow>
                 Inr (\<lparr>tokenKind = CHR ''0'', tokenString = take (length s - length rest) s\<rparr>, count_value fs, rest))
          else Inl ReadInvalid)"

text \<open>
  \<open>ReadToken\<close>: spaces, a comma or colon with spaces after it, if there is one, which has to be the one that is
  needed, and the token. The end of the text is the end of the reading only if nothing is open.
\<close>

definition ReadToken :: "json_reader \<Rightarrow> read_failure + json_token \<times> json_reader" where
  "ReadToken r =
     (let s = dropWhile is_json_space (unread r) in
      case s of
        [] \<Rightarrow> Inl (if frames r = [] then ReadEnd else ReadInvalid)
      | c # later \<Rightarrow>
          (let isDelim = (c = CHR '','' \<or> c = CHR '':''); s' = (if isDelim then dropWhile is_json_space later else s) in
           if s' = [] \<or> needDelim (frames r) (hd s') \<noteq> (if isDelim then Some c else None) then Inl ReadInvalid
           else
             (case lex_token (frames r) s' of
                Inl (ReadDuplicate _ pointer) \<Rightarrow> Inl (ReadDuplicate (InputOffset r + (length (unread r) - length s')) pointer)
              | Inl failure \<Rightarrow> Inl failure
              | Inr (token, fs, rest) \<Rightarrow>
                  Inr (token, \<lparr>unread = rest, InputOffset = InputOffset r + (length (unread r) - length rest), frames = fs\<rparr>))))"

section \<open>Reading on\<close>

text \<open>Every token takes at least a byte, so that reading ends.\<close>

lemma consume_digits_shorter: "consume_digits s = Some r \<Longrightarrow> length r < length s"
  by (auto simp: consume_digits_def split: list.splits if_splits intro: le_less_trans [OF length_dropWhile_le])

lemma consume_integer_shorter: "consume_integer s = Some r \<Longrightarrow> length r < length s"
  by (auto simp: consume_integer_def split: list.splits if_splits dest: consume_digits_shorter)

lemma consume_fraction_shorter: "consume_fraction s = Some r \<Longrightarrow> length r \<le> length s"
  by (auto simp: consume_fraction_def split: list.splits if_splits dest!: consume_digits_shorter)

lemma consume_exponent_shorter: "consume_exponent s = Some r \<Longrightarrow> length r \<le> length s"
  by (auto simp: consume_exponent_def split: list.splits if_splits dest!: consume_digits_shorter)

lemma consume_number_shorter:
  assumes "consume_number s = Some r"
  shows "length r < length s"
proof -
  let ?s = "case s of c # r \<Rightarrow> if c = CHR ''-'' then r else s | [] \<Rightarrow> s"
  obtain a b where "consume_integer ?s = Some a" "consume_fraction a = Some b" "consume_exponent b = Some r"
    using assms by (auto simp: consume_number_def bind_eq_Some_conv)
  then have "length r < length ?s"
    using consume_integer_shorter consume_fraction_shorter consume_exponent_shorter by (meson le_trans less_le_trans not_less)
  moreover have "length ?s \<le> length s" by (auto split: list.split)
  ultimately show ?thesis by linarith
qed

lemma consume_string_shorter: "consume_string s = Some (held, rest) \<Longrightarrow> length rest < length s"
proof (induction s arbitrary: held rest rule: consume_string.induct)
  case (1 s)
  show ?case
  proof (cases s)
    case Nil
    then show ?thesis using 1(4) by (simp add: consume_string.simps)
  next
    case (Cons c r)
    note step = 1(4) [unfolded Cons consume_string.simps [of "c # r"], simplified]
    consider "c = CHR 0x22" | "c \<noteq> CHR 0x22" "\<not> (of_char c :: nat) < 32" "c \<noteq> CHR 0x5C" | "c = CHR 0x5C" using step by (auto split: if_splits)
    then show ?thesis
    proof cases
      case 2
      then obtain h where "consume_string r = Some (h, rest)" using step by (auto split: prod.splits)
      then show ?thesis using 1(1) [OF Cons 2] Cons by fastforce
    next
      case 3
      have c: "c \<noteq> CHR 0x22" "\<not> (of_char c :: nat) < 32" "\<not> c \<noteq> CHR 0x5C" using 3 by simp_all
      obtain d r' where r: "r = d # r'" using step 3 by (cases r) simp_all
      show ?thesis
      proof (cases "d = CHR ''u''")
        case True
        then obtain bytes n h where "unicode_escape r' = Some (bytes, n)" "consume_string (drop n r') = Some (h, rest)"
          using step 3 r by (auto split: option.splits prod.splits)
        then have "length rest < length (drop n r')" using 1(2) [OF Cons c r True] by fastforce
        then show ?thesis using Cons r by simp
      next
        case False
        then obtain e h where "short_escape d = Some e" "consume_string r' = Some (h, rest)"
          using step 3 r by (auto split: option.splits prod.splits)
        then have "length rest < length r'" using 1(3) [OF Cons c r False] by fastforce
        then show ?thesis using Cons r by simp
      qed
    qed (use step Cons in simp)
  qed
qed

lemma lex_token_shorter:
  assumes "lex_token fs s = Inr (token, fs', rest)"
  shows "length rest < length s"
proof (cases s)
  case Nil
  then show ?thesis using assms by (simp add: lex_token_def)
next
  case (Cons c r)
  have str: "lex_string fs r = Inr (token, fs', rest) \<Longrightarrow> length rest < length r"
    by (auto simp: lex_string_def Let_def split: option.splits prod.splits if_splits dest: consume_string_shorter)
  have closing: "lex_close a b fs r = Inr (token, fs', rest) \<Longrightarrow> rest = r" for a b
    by (auto simp: lex_close_def split: list.splits if_splits)
  have word: "lex_word w k fs s = Inr (token, fs', rest) \<Longrightarrow> w \<noteq> [] \<Longrightarrow> length rest < length s" for w k
    using Cons by (cases w) (auto simp: lex_word_def split: if_splits)
  show ?thesis
    using assms str closing word consume_number_shorter [of s] unfolding lex_token_def Cons
    by (simp split: if_splits option.splits; fastforce)
qed

lemma ReadToken_shorter:
  assumes "ReadToken r = Inr (token, r')"
  shows "length (unread r') < length (unread r)"
proof -
  obtain c later where s: "dropWhile is_json_space (unread r) = c # later"
    using assms by (cases "dropWhile is_json_space (unread r)") (simp_all add: ReadToken_def)
  let ?s = "if c = CHR '','' \<or> c = CHR '':'' then dropWhile is_json_space later else c # later"
  obtain fs where "lex_token (frames r) ?s = Inr (token, fs, unread r')"
    using assms unfolding ReadToken_def s by (auto simp: Let_def split: if_splits sum.splits read_failure.splits)
  then have "length (unread r') < length ?s" by (rule lex_token_shorter)
  also have "\<dots> \<le> length (c # later)" using length_dropWhile_le [of is_json_space later] by simp
  also have "\<dots> \<le> length (unread r)" using length_dropWhile_le [of is_json_space "unread r"] s by simp
  finally show ?thesis .
qed

text \<open>\<open>ReadValue\<close>, where nothing is open: the tokens up to the end of a value.\<close>

function ReadValue :: "json_reader \<Rightarrow> read_failure + json_reader" where
  "ReadValue r =
     (case ReadToken r of
        Inl failure \<Rightarrow> Inl failure
      | Inr (token, r') \<Rightarrow> if frames r' = [] then Inr r' else ReadValue r')"
  by pat_completeness auto
termination by (relation "measure (\<lambda>r. length (unread r))") (auto dest: ReadToken_shorter)

declare ReadValue.simps [simp del]

end
