(* ===== verification/Decoding.thy ===== *)
theory Decoding
  imports Decoding_Fields Json_Text
begin

text \<open>
  Saying what is wrong with a body that could not be decoded (\<open>httpapi/decoding.go\<close>). The errors of
  \<open>encoding/json\<close> and \<open>encoding/json/v2\<close> are a datatype of their own, with what the code reads of them. Of the
  libraries it takes the text of an error, which is \<open>None\<close> if its \<open>Error\<close> function panics, and
  \<open>strconv.ParseFloat\<close>. Types are those of \<open>Json_Fields\<close>.
\<close>

section \<open>Errors of the decoder\<close>

text \<open>
  In this order: a value that does not fit (\<open>Value\<close>, \<open>Type\<close>, \<open>Field\<close> and what it wraps), a mistake in the JSON (its text
  and \<open>Offset\<close>), a failure of \<open>encoding/json/v2\<close> (\<open>ByteOffset\<close>, \<open>JSONPointer\<close>, \<open>GoType\<close> and \<open>Err\<close>), a mistake that
  \<open>jsontext\<close> reports, errors without content of their own, any other error with what it wraps, and the error
  that this package makes of them. An offset in a text is not negative, but that of a type that decodes
  itself may be.
\<close>

datatype json_error =
    UnmarshalTypeError string "tid option" string "json_error option"
  | SyntaxError string int
  | SemanticError nat string "tid option" "json_error option"
  | SyntacticError int string "json_error option"
  | ErrUnknownName
  | ErrDuplicateName
  | ErrEOF
  | TimeParseError
  | CorruptInputError
  | OtherError nat "json_error list"
  | decodeFailure string "json_error list"

fun json_unwrap :: "json_error \<Rightarrow> json_error list" where
  "json_unwrap (UnmarshalTypeError v t f e) = (case e of None \<Rightarrow> [] | Some x \<Rightarrow> [x])"
| "json_unwrap (SemanticError b q t e) = (case e of None \<Rightarrow> [] | Some x \<Rightarrow> [x])"
| "json_unwrap (SyntacticError b q e) = (case e of None \<Rightarrow> [] | Some x \<Rightarrow> [x])"
| "json_unwrap (OtherError n es) = es"
| "json_unwrap (decodeFailure text es) = es"
| "json_unwrap _ = []"

text \<open>\<open>errors.AsType\<close>: the first error of the tree that is of a type, the outer ones first; and \<open>errors.Is\<close>.\<close>

function json_AsType :: "(json_error \<Rightarrow> 'a option) \<Rightarrow> json_error \<Rightarrow> 'a option" where
  "json_AsType p e = (case p e of Some a \<Rightarrow> Some a | None \<Rightarrow> first_some (json_AsType p) (json_unwrap e))"
  by pat_completeness auto
termination
proof (relation "measure (\<lambda>(p, e). size e)")
  fix p :: "json_error \<Rightarrow> 'a option" and e x
  assume "x \<in> set (json_unwrap e)"
  then have "size x < size e"
    by (cases e) (auto split: option.splits intro: less_SucI simp: less_Suc_eq_le intro!: size_list_estimation')
  then show "((p, x), p, e) \<in> measure (\<lambda>(p, e). size e)" by simp
qed simp

declare json_AsType.simps [simp del]

definition json_Is :: "json_error \<Rightarrow> json_error \<Rightarrow> bool" where
  "json_Is e sought \<longleftrightarrow> json_AsType (\<lambda>x. if x = sought then Some () else None) e \<noteq> None"

fun as_mismatch :: "json_error \<Rightarrow> (string \<times> tid option \<times> string) option" where
  "as_mismatch (UnmarshalTypeError v t f e) = Some (v, t, f)"
| "as_mismatch _ = None"

fun as_syntax :: "json_error \<Rightarrow> (string \<times> int) option" where
  "as_syntax (SyntaxError m offset) = Some (m, offset)"
| "as_syntax _ = None"

record semantic_error =
  ByteOffset :: nat
  JSONPointer :: string
  GoType :: "tid option"
  SemanticErr :: "json_error option"

fun as_semantic :: "json_error \<Rightarrow> semantic_error option" where
  "as_semantic (SemanticError b q t e) = Some \<lparr>ByteOffset = b, JSONPointer = q, GoType = t, SemanticErr = e\<rparr>"
| "as_semantic _ = None"

definition semantic :: "semantic_error \<Rightarrow> json_error" where
  "semantic f = SemanticError (ByteOffset f) (JSONPointer f) (GoType f) (SemanticErr f)"

fun as_syntactic :: "json_error \<Rightarrow> (int \<times> string \<times> json_error option) option" where
  "as_syntactic (SyntacticError b q e) = Some (b, q, e)"
| "as_syntactic _ = None"

text \<open>\<open>detailed\<close> is nil, if decoding once more succeeds; nothing is found in it then.\<close>

definition as_type :: "(json_error \<Rightarrow> 'a option) \<Rightarrow> json_error option \<Rightarrow> 'a option" where
  "as_type p e = Option.bind e (json_AsType p)"

record decoding_lib =
  LibraryText :: "json_error \<Rightarrow> string option"
  ParseFloat :: "string \<Rightarrow> gofloat"

fun json_error_text :: "decoding_lib \<Rightarrow> json_error \<Rightarrow> string option" where
  "json_error_text lib (decodeFailure text es) = Some text"
| "json_error_text lib (UnmarshalTypeError v t f e) = (if t = None then None else LibraryText lib (UnmarshalTypeError v t f e))"
| "json_error_text lib (SyntaxError m offset) = Some m"
| "json_error_text lib e = LibraryText lib e"

section \<open>Who failed\<close>

definition ownFailureOf :: "program \<Rightarrow> json_error option \<Rightarrow> semantic_error option" where
  "ownFailureOf p detailed =
     (case as_type as_semantic detailed of
        None \<Rightarrow> None
      | Some failure \<Rightarrow>
          (case GoType failure of
             None \<Rightarrow> None
           | Some t \<Rightarrow> if t = timeID p \<or> \<not> decodesItself p t then None else Some failure))"

definition ownPointerOf :: "program \<Rightarrow> json_error option \<Rightarrow> string" where
  "ownPointerOf p detailed =
     (case ownFailureOf p detailed of
        Some own \<Rightarrow> JSONPointer own
      | None \<Rightarrow>
          (case as_type as_semantic detailed of
             Some failure \<Rightarrow> if GoType failure = None then JSONPointer failure else []
           | None \<Rightarrow> []))"

fun strings_Contains :: "string \<Rightarrow> string \<Rightarrow> bool" where
  "strings_Contains s sub = (strings_HasPrefix s sub \<or> (case s of [] \<Rightarrow> False | _ # r \<Rightarrow> strings_Contains r sub))"

declare strings_Contains.simps [simp del]

definition hasText :: "decoding_lib \<Rightarrow> json_error \<Rightarrow> bool" where
  "hasText lib err = (case json_error_text lib err of None \<Rightarrow> False | Some s \<Rightarrow> \<not> strings_Contains s ''(PANIC='')"

definition pointsTo :: "json_error option \<Rightarrow> int \<Rightarrow> bool" where
  "pointsTo err offset =
     (case as_type as_syntax err of
        Some (_, place) \<Rightarrow> place = offset
      | None \<Rightarrow> (case as_type as_syntactic err of Some (place, _, _) \<Rightarrow> place = offset | None \<Rightarrow> False))"

section \<open>Naming values\<close>

definition subjectOf :: "string \<Rightarrow> string" where
  "subjectOf pointer = (if pointer = [] then ''the body'' else strconv_Quote (strings_Join (pointer_Tokens pointer) ''.''))"

definition isNumberText :: "string \<Rightarrow> bool" where
  "isNumberText s \<longleftrightarrow> consume_number s = Some []"

definition isNameAt :: "string \<Rightarrow> nat \<Rightarrow> bool" where
  "isNameAt body offset =
     (let rest = drop (min offset (length body)) body in
      case ReadToken (NewDecoder rest) of
        Inl _ \<Rightarrow> False
      | Inr (_, reader) \<Rightarrow> strings_HasPrefix (dropWhile is_json_space (drop (InputOffset reader) rest)) '':'')"

text \<open>
  The loop of \<open>repeatedNameAt\<close>, with the names that the objects around the next token hold so far, those of
  the innermost one first.
\<close>

definition same_field :: "program \<Rightarrow> tid \<Rightarrow> string \<Rightarrow> string list \<Rightarrow> bool" where
  "same_field p structType name earlier =
     (case fieldNamed p structType name of
        None \<Rightarrow> False
      | Some v \<Rightarrow> list_ex (\<lambda>earlierName. map_option vIndex (fieldNamed p structType earlierName) = Some (vIndex v)) earlier)"

definition is_name_token :: "json_token \<Rightarrow> json_reader \<Rightarrow> bool" where
  "is_name_token token reader \<longleftrightarrow>
     tokenKind token = CHR 0x22 \<and>
     (case frames reader of [] \<Rightarrow> False | f # _ \<Rightarrow> frameKind f = CHR 0x7B \<and> frameLength f mod 2 = 1)"

definition token_start :: "string \<Rightarrow> json_reader \<Rightarrow> nat" where
  "token_start body reader =
     (let rest = drop (InputOffset reader) body in
      InputOffset reader + (length rest - length (dropWhile (\<lambda>c. is_json_space c \<or> c = CHR '','' \<or> c = CHR '':'') rest)))"

function repeated_loop :: "program \<Rightarrow> tid \<Rightarrow> string \<Rightarrow> int \<Rightarrow> string list list \<Rightarrow> json_reader \<Rightarrow> string \<times> bool" where
  "repeated_loop p bodyType body offset names reader =
     (case ReadToken reader of
        Inl _ \<Rightarrow> ([], False)
      | Inr (token, reader') \<Rightarrow>
          if tokenKind token = CHR 0x7B then repeated_loop p bodyType body offset ([] # names) reader'
          else if tokenKind token = CHR 0x7D then repeated_loop p bodyType body offset (tl names) reader'
          else if is_name_token token reader' then
            (let name = tokenString token; earlier = hd names in
             if int (token_start body reader) = offset then
               (case structAt p bodyType (pointer_Tokens (pointer_Parent (StackPointer (frames reader')))) of
                  None \<Rightarrow> (name, False)
                | Some structType \<Rightarrow> (name, same_field p structType name earlier))
             else repeated_loop p bodyType body offset ((earlier @ [name]) # tl names) reader')
          else repeated_loop p bodyType body offset names reader')"
  by pat_completeness auto
termination by (relation "measure (\<lambda>(p, t, body, offset, names, reader). length (unread reader))") (auto dest: ReadToken_shorter)

declare repeated_loop.simps [simp del]

definition repeatedNameAt :: "program \<Rightarrow> tid \<Rightarrow> string \<Rightarrow> int \<Rightarrow> string \<times> bool" where
  "repeatedNameAt p bodyType body offset = repeated_loop p bodyType body offset [] (NewDecoder body)"

section \<open>Describing failures\<close>

definition describeUndecodable :: "string \<Rightarrow> json_error \<Rightarrow> json_error" where
  "describeUndecodable pointer err = decodeFailure (subjectOf pointer @ '' can not be decoded'') [err]"

text \<open>An error that does not point to the name is not met with a duplicate of \<open>jsontext\<close>.\<close>

definition describeDuplicate :: "json_error \<Rightarrow> json_error \<Rightarrow> json_error" where
  "describeDuplicate err found =
     (case json_AsType as_syntactic found of
        None \<Rightarrow> err
      | Some (offset, pointer, cause) \<Rightarrow>
          decodeFailure (''duplicate field '' @ strconv_Quote (pointer_LastToken pointer)) [err, SyntacticError offset pointer cause])"

definition describeNamesake ::
  "program \<Rightarrow> tid \<Rightarrow> string \<Rightarrow> string \<times> int \<Rightarrow> json_error \<Rightarrow> json_error option \<Rightarrow> json_error" where
  "describeNamesake p bodyType body mistake err detailed =
     (let own = ownFailureOf p detailed; (message, offset) = mistake in
      if own = None \<and> detailed \<noteq> None \<and> json_Is (the detailed) ErrDuplicateName then describeDuplicate err (the detailed)
      else if message \<noteq> ''duplicate object member name''
        \<or> (case own of None \<Rightarrow> False | Some failure \<Rightarrow> pointsTo (SemanticErr failure) offset) then err
      else
        (case repeatedNameAt p bodyType body offset of
           (name, isRepeated) \<Rightarrow>
             if \<not> isRepeated then err else decodeFailure (''duplicate field '' @ strconv_Quote name) [err]))"

text \<open>The failure of the reader as an error; the rest of the text behind a value may hold spaces only.\<close>

definition describeSyntax ::
  "program \<Rightarrow> tid \<Rightarrow> string \<Rightarrow> string \<times> int \<Rightarrow> json_error \<Rightarrow> json_error option \<Rightarrow> json_error" where
  "describeSyntax p bodyType body mistake err detailed =
     (case ReadValue (NewDecoder body) of
        Inr reader \<Rightarrow>
          if dropWhile is_json_space (drop (InputOffset reader) body) \<noteq> [] then decodeFailure ''data after the JSON value'' [err]
          else describeNamesake p bodyType body mistake err detailed
      | Inl ReadEnd \<Rightarrow> decodeFailure ''empty body'' [err]
      | Inl (ReadDuplicate place pointer) \<Rightarrow> describeDuplicate err (SyntacticError (int place) pointer (Some ErrDuplicateName))
      | Inl ReadInvalid \<Rightarrow> decodeFailure ''invalid JSON'' [err])"

text \<open>The comparison of a float with a bound; the bits of a type of numbers.\<close>

fun float_at_least :: "gofloat \<Rightarrow> rat \<Rightarrow> bool" where
  "float_at_least PosInf r = True"
| "float_at_least NegZero r = (r \<le> 0)"
| "float_at_least (Finite x) r = (r \<le> x)"
| "float_at_least _ r = False"

fun float_below :: "gofloat \<Rightarrow> rat \<Rightarrow> bool" where
  "float_below NegInf r = True"
| "float_below NegZero r = (0 < r)"
| "float_below (Finite x) r = (x < r)"
| "float_below _ r = False"

fun signed_bits :: "basic_kind \<Rightarrow> nat option" where
  "signed_bits KInt = Some 64"
| "signed_bits KInt8 = Some 8"
| "signed_bits KInt16 = Some 16"
| "signed_bits KInt32 = Some 32"
| "signed_bits KInt64 = Some 64"
| "signed_bits _ = None"

fun unsigned_bits :: "basic_kind \<Rightarrow> nat option" where
  "unsigned_bits KUint = Some 64"
| "unsigned_bits KUint8 = Some 8"
| "unsigned_bits KUint16 = Some 16"
| "unsigned_bits KUint32 = Some 32"
| "unsigned_bits KUint64 = Some 64"
| "unsigned_bits KUintptr = Some 64"
| "unsigned_bits _ = None"

definition in_range :: "type_kind \<Rightarrow> gofloat \<Rightarrow> bool" where
  "in_range k x =
     (case k of
        KindBasic b \<Rightarrow>
          (case signed_bits b of
             Some n \<Rightarrow> float_at_least x (- (2 ^ (n - 1))) \<and> float_below x (2 ^ (n - 1))
           | None \<Rightarrow> (case unsigned_bits b of Some n \<Rightarrow> float_at_least x 0 \<and> float_below x (2 ^ n) | None \<Rightarrow> False))
      | _ \<Rightarrow> False)"

definition describeNumber :: "decoding_lib \<Rightarrow> program \<Rightarrow> string \<Rightarrow> tid \<Rightarrow> string \<Rightarrow> json_error \<Rightarrow> json_error" where
  "describeNumber lib p subject numberType written err =
     (let isWrittenAsInteger = \<not> strings_ContainsAny written ''.eE'' in
      if isWrittenAsInteger \<or> \<not> in_range (type_kind_of p numberType) (ParseFloat lib written)
      then decodeFailure (subject @ '' is out of range'') [err]
      else decodeFailure (subject @ '' must be an integer'') [err])"

definition describeLength :: "string \<Rightarrow> nat \<Rightarrow> json_error \<Rightarrow> json_error" where
  "describeLength subject len err =
     decodeFailure
       (subject @ '' must have '' @
          (if len = 0 then ''no elements'' else if len = 1 then ''1 element'' else strconv_Itoa len @ '' elements''))
       [err]"

definition describeKey :: "program \<Rightarrow> string \<Rightarrow> tid \<Rightarrow> json_error \<Rightarrow> json_error" where
  "describeKey p keyPointer typeOfKey err =
     (if kindOf p typeOfKey \<noteq> Some kindNumber then describeUndecodable keyPointer err
      else decodeFailure (''the keys of '' @ subjectOf (pointer_Parent keyPointer) @ '' must be numbers'') [err])"

definition exampleTime :: string where
  "exampleTime = ''2026-10-05T12:00:00Z''"

definition describeTime :: "string \<Rightarrow> semantic_error \<Rightarrow> json_error \<Rightarrow> json_error" where
  "describeTime body failure err =
     decodeFailure
       (if isNameAt body (ByteOffset failure) then
          ''the keys of '' @ subjectOf (pointer_Parent (JSONPointer failure)) @ '' must be times such as '' @ strconv_Quote exampleTime
        else subjectOf (JSONPointer failure) @ '' must be a time such as '' @ strconv_Quote exampleTime)
       [err, semantic failure]"

text \<open>The path of \<open>encoding/json\<close>, with slashes for its dots.\<close>

definition field_pointer :: "string \<Rightarrow> string" where
  "field_pointer field = CHR ''/'' # map (\<lambda>c. if c = CHR ''.'' then CHR ''/'' else c) field"

definition array_length :: "program \<Rightarrow> tid \<Rightarrow> nat option" where
  "array_length p t = (case type_kind_of p t of KindArray n _ \<Rightarrow> Some n | _ \<Rightarrow> None)"

text \<open>The end of \<open>describeMismatch\<close>: the value at the pointer is not what its type takes.\<close>

definition mismatch_at ::
  "decoding_lib \<Rightarrow> program \<Rightarrow> tid \<Rightarrow> string \<Rightarrow> tid \<Rightarrow> string \<Rightarrow> json_error \<Rightarrow> json_error" where
  "mismatch_at lib p bodyType mValue mType pointer err =
     (case kindOf p mType of
        None \<Rightarrow> describeUndecodable pointer err
      | Some expected \<Rightarrow>
          (let (found, written, _) = strings_Cut mValue CHR '' '';
               isNumber = isNumberText written;
               subject = subjectOf pointer in
           if decoding_isQuoted p bodyType (pointer_Tokens pointer) \<and> decoding_isQuotable p mType then
             if isNumber then describeNumber lib p subject mType written err
             else decodeFailure (subject @ '' must be a string that holds '' @ expected) [err]
           else if map_of kindsOfValues found \<noteq> Some expected then decodeFailure (subject @ '' must be '' @ expected) [err]
           else
             (case array_length p mType of
                Some n \<Rightarrow> describeLength subject n err
              | None \<Rightarrow>
                  if isNumber then describeNumber lib p subject mType written err
                  else if json_Is err CorruptInputError then decodeFailure (subject @ '' must be base64'') [err]
                  else describeUndecodable pointer err)))"

definition describeMismatch ::
  "decoding_lib \<Rightarrow> program \<Rightarrow> tid \<Rightarrow> string \<Rightarrow> string \<times> tid option \<times> string \<Rightarrow> json_error \<Rightarrow> json_error option \<Rightarrow> json_error" where
  "describeMismatch lib p bodyType body mismatch err detailed =
     (case mismatch of
        (_, None, _) \<Rightarrow> err
      | (mValue, Some mType, mField) \<Rightarrow>
          if (case ownFailureOf p detailed of None \<Rightarrow> False | Some own \<Rightarrow> GoType own \<noteq> Some mType) then err
          else
            (case as_type as_semantic detailed of
               Some failure \<Rightarrow>
                 if isNameAt body (ByteOffset failure) then describeKey p (JSONPointer failure) mType err
                 else if GoType failure = Some mType then mismatch_at lib p bodyType mValue mType (JSONPointer failure) err
                 else if mField \<noteq> [] then mismatch_at lib p bodyType mValue mType (field_pointer mField) err
                 else describeUndecodable [] err
             | None \<Rightarrow>
                 if mField \<noteq> [] then mismatch_at lib p bodyType mValue mType (field_pointer mField) err
                 else describeUndecodable [] err))"

definition describeFailure ::
  "decoding_lib \<Rightarrow> program \<Rightarrow> tid \<Rightarrow> string \<Rightarrow> json_error \<Rightarrow> json_error option \<Rightarrow> json_error" where
  "describeFailure lib p bodyType body err detailed =
     (case json_AsType as_mismatch err of
        Some mismatch \<Rightarrow> describeMismatch lib p bodyType body mismatch err detailed
      | None \<Rightarrow>
          (case json_AsType as_syntax err of
             Some mistake \<Rightarrow> describeSyntax p bodyType body mistake err detailed
           | None \<Rightarrow>
               (let failure = as_type as_semantic detailed in
                case failure of
                  Some f \<Rightarrow>
                    if SemanticErr f = Some ErrUnknownName then
                      decodeFailure (''unknown field '' @ strconv_Quote (pointer_LastToken (JSONPointer f))) [err, semantic f]
                    else if GoType f = Some (timeID p) \<and> SemanticErr f \<noteq> None \<and> json_Is (the (SemanticErr f)) TimeParseError then
                      describeTime body f err
                    else if ownFailureOf p detailed \<noteq> None then err
                    else describeUndecodable [] err
                | None \<Rightarrow> describeUndecodable [] err)))"

definition describeDecoding ::
  "decoding_lib \<Rightarrow> program \<Rightarrow> tid \<Rightarrow> string \<Rightarrow> json_error \<Rightarrow> json_error option \<Rightarrow> json_error" where
  "describeDecoding lib p bodyType body err detailed =
     (let described = describeFailure lib p bodyType body err detailed in
      if \<not> hasText lib described then describeUndecodable (ownPointerOf p detailed) err else described)"

section \<open>What is told\<close>

text \<open>
  The words for a failure: they name a value by its path, a field by its name and a kind of JSON values, and never a
  type of Go.
\<close>

definition json_kinds :: "string list" where
  "json_kinds = [kindString, kindNumber, kindBoolean, kindArray, kindObject]"

inductive told :: "string \<Rightarrow> bool" where
  told_body: "words \<in> set [''empty body'', ''invalid JSON'', ''data after the JSON value''] \<Longrightarrow> told words"
| told_unknown: "told (''unknown field '' @ strconv_Quote name)"
| told_duplicate: "told (''duplicate field '' @ strconv_Quote name)"
| told_value: "what \<in> set ['' can not be decoded'', '' is out of range'', '' must be an integer'', '' must be base64'',
      '' must be a time such as '' @ strconv_Quote exampleTime] \<Longrightarrow> told (subjectOf pointer @ what)"
| told_kind: "k \<in> set json_kinds \<Longrightarrow> told (subjectOf pointer @ '' must be '' @ k)"
| told_quoted: "k \<in> set json_kinds \<Longrightarrow> told (subjectOf pointer @ '' must be a string that holds '' @ k)"
| told_length: "len \<in> {''no elements'', ''1 element'', strconv_Itoa n @ '' elements''} \<Longrightarrow>
      told (subjectOf pointer @ '' must have '' @ len)"
| told_keys: "what \<in> set ['' must be numbers'', '' must be times such as '' @ strconv_Quote exampleTime] \<Longrightarrow>
      told (''the keys of '' @ subjectOf pointer @ what)"

definition worded :: "json_error \<Rightarrow> json_error \<Rightarrow> bool" where
  "worded err d \<longleftrightarrow> (\<exists>words causes. d = decodeFailure words (err # causes) \<and> told words)"

lemma wordedI: "told words \<Longrightarrow> worded err (decodeFailure words (err # causes))"
  by (auto simp: worded_def)

lemma kind_within_kinds: "kind_within n p t = Some k \<Longrightarrow> k \<in> set json_kinds"
proof (induction n p t rule: kind_within.induct)
  case (1 n p t)
  then show ?case
    unfolding kind_within.simps [of n p t]
    by (auto simp: json_kinds_def split: if_splits type_kind.splits nat.splits)
qed

lemma kindOf_kinds: "kindOf p t = Some k \<Longrightarrow> k \<in> set json_kinds"
  unfolding kindOf_def by (rule kind_within_kinds)

lemma worded_if: "(c \<Longrightarrow> worded err a) \<Longrightarrow> (\<not> c \<Longrightarrow> worded err b) \<Longrightarrow> worded err (if c then a else b)"
  by simp

lemma worded_value:
  "worded err (decodeFailure (subjectOf q @ '' can not be decoded'') (err # causes))"
  "worded err (decodeFailure (subjectOf q @ '' is out of range'') (err # causes))"
  "worded err (decodeFailure (subjectOf q @ '' must be an integer'') (err # causes))"
  "worded err (decodeFailure (subjectOf q @ '' must be base64'') (err # causes))"
  "worded err (decodeFailure (subjectOf q @ '' must be a time such as '' @ strconv_Quote exampleTime) (err # causes))"
  by (rule wordedI, rule told_value, simp)+

lemma worded_keys:
  "worded err (decodeFailure (''the keys of '' @ subjectOf q @ '' must be numbers'') (err # causes))"
  "worded err (decodeFailure (''the keys of '' @ subjectOf q @ '' must be times such as '' @ strconv_Quote exampleTime) (err # causes))"
  by (rule wordedI, rule told_keys, simp)+

lemma worded_kind:
  assumes "k \<in> set json_kinds"
  shows "worded err (decodeFailure (subjectOf q @ '' must be '' @ k) (err # causes))"
    "worded err (decodeFailure (subjectOf q @ '' must be a string that holds '' @ k) (err # causes))"
  using assms by (auto intro: wordedI told_kind told_quoted simp del: append.simps append_Cons)

lemma worded_undecodable: "worded err (describeUndecodable q err)"
  unfolding describeUndecodable_def by (rule worded_value)

lemma worded_number: "worded err (describeNumber lib p (subjectOf q) t written err)"
  unfolding describeNumber_def Let_def by (intro worded_if worded_value)

lemma worded_length: "worded err (describeLength (subjectOf q) n err)"
  unfolding describeLength_def by (rule wordedI, rule told_length [of _ n]) simp

lemma worded_time: "worded err (describeTime body failure err)"
  unfolding describeTime_def if_distrib [of "\<lambda>w. decodeFailure w _"] by (intro worded_if worded_value worded_keys)

lemma worded_key: "worded err (describeKey p q t err)"
  unfolding describeKey_def by (intro worded_if worded_undecodable worded_keys)

lemma worded_mismatch_at: "worded err (mismatch_at lib p t v m q err)"
proof (cases "kindOf p m")
  case None
  then show ?thesis by (simp add: mismatch_at_def worded_undecodable)
next
  case (Some k)
  note k = kindOf_kinds [OF Some]
  have len: "worded err (case x of Some n \<Rightarrow> describeLength (subjectOf q) n err | None \<Rightarrow> b)" if "worded err b" for x b
    using that by (cases x) (simp_all add: worded_length)
  show ?thesis
    unfolding mismatch_at_def Some option.case Let_def case_prod_beta
    by (intro worded_if len worded_number worded_kind [OF k] worded_value worded_undecodable)
qed

text \<open>An error comes back as it is only if it is not the decoder's own, as far as that can be told.\<close>

definition complete_value :: "string \<Rightarrow> bool" where
  "complete_value body =
     (case ReadValue (NewDecoder body) of Inr reader \<Rightarrow> list_all is_json_space (drop (InputOffset reader) body) | Inl _ \<Rightarrow> False)"

definition not_decoders :: "program \<Rightarrow> string \<Rightarrow> json_error \<Rightarrow> json_error option \<Rightarrow> bool" where
  "not_decoders p body err detailed \<longleftrightarrow>
     ownFailureOf p detailed \<noteq> None
     \<or> (\<exists>v f. json_AsType as_mismatch err = Some (v, None, f))
     \<or> json_AsType as_syntax err \<noteq> None \<and> complete_value body"

lemma mismatch_told:
  assumes "json_AsType as_mismatch err = Some mismatch"
  shows "worded err (describeMismatch lib p t body mismatch err detailed)
    \<or> describeMismatch lib p t body mismatch err detailed = err \<and> not_decoders p body err detailed"
proof -
  obtain v m f where m: "mismatch = (v, m, f)" by (metis prod_cases3)
  show ?thesis
  proof (cases m)
    case None
    then show ?thesis using assms by (simp add: describeMismatch_def not_decoders_def m)
  next
    case (Some u)
    show ?thesis
      unfolding describeMismatch_def m Some prod.case option.case
      by (cases "ownFailureOf p detailed"; cases "as_type as_semantic detailed")
         (simp_all add: not_decoders_def worded_mismatch_at worded_undecodable worded_key)
  qed
qed

lemma duplicate_told: "worded err (describeDuplicate err found) \<or> describeDuplicate err found = err"
  unfolding describeDuplicate_def by (cases "json_AsType as_syntactic found") (auto intro: wordedI told_duplicate simp del: append.simps)

lemma namesake_told: "worded err (describeNamesake p t body mistake err detailed) \<or> describeNamesake p t body mistake err detailed = err"
proof -
  obtain m offset where s: "mistake = (m, offset)" by (cases mistake)
  obtain name b where r: "repeatedNameAt p t body offset = (name, b)" by (cases "repeatedNameAt p t body offset")
  have "worded err (decodeFailure (''duplicate field '' @ strconv_Quote name) [err])" by (rule wordedI told_duplicate)+
  then show ?thesis
    unfolding describeNamesake_def Let_def s prod.case r using duplicate_told by (simp del: append.simps)
qed

lemma syntax_told:
  assumes "json_AsType as_syntax err = Some mistake"
  shows "worded err (describeSyntax p t body mistake err detailed)
    \<or> describeSyntax p t body mistake err detailed = err \<and> not_decoders p body err detailed"
proof -
  have body: "worded err (decodeFailure words [err])"
    if "words \<in> set [''empty body'', ''invalid JSON'', ''data after the JSON value'']" for words
    using that by (intro wordedI told_body)
  show ?thesis
  proof (cases "ReadValue (NewDecoder body)")
    case (Inl failure)
    have "worded err (describeDuplicate err (SyntacticError n q (Some ErrDuplicateName)))" for n q
      unfolding describeDuplicate_def by (auto simp: json_AsType.simps intro: wordedI told_duplicate simp del: append.simps)
    then show ?thesis using Inl body by (cases failure) (simp_all add: describeSyntax_def)
  next
    case (Inr reader)
    have "dropWhile is_json_space s = [] \<longleftrightarrow> list_all is_json_space s" for s by (auto simp: list_all_iff)
    then show ?thesis
      using Inr body namesake_told [of err p t body mistake detailed] assms by (auto simp: describeSyntax_def not_decoders_def complete_value_def)
  qed
qed

lemma failure_told:
  "worded err (describeFailure lib p t body err detailed)
   \<or> describeFailure lib p t body err detailed = err \<and> not_decoders p body err detailed"
proof (cases "json_AsType as_mismatch err")
  case (Some mismatch)
  then show ?thesis using mismatch_told by (simp add: describeFailure_def)
next
  case mismatch: None
  show ?thesis
  proof (cases "json_AsType as_syntax err")
    case (Some mistake)
    then show ?thesis using mismatch syntax_told by (simp add: describeFailure_def)
  next
    case None
    have unknown: "worded err (decodeFailure (''unknown field '' @ strconv_Quote name) (err # causes))" for name causes
      by (rule wordedI told_unknown)+
    show ?thesis
      unfolding describeFailure_def mismatch None option.case Let_def
      by (cases "as_type as_semantic detailed")
         (use unknown in \<open>simp_all add: not_decoders_def worded_undecodable worded_time del: append.simps\<close>)
  qed
qed

section \<open>Names that differ in case only\<close>

text \<open>The names that the loop collects are those that the reader has seen in the objects that are open.\<close>

definition open_names :: "json_frame list \<Rightarrow> string list list" where
  "open_names fs = map (\<lambda>f. rev (frameNames f)) (filter (\<lambda>f. frameKind f = CHR 0x7B) fs)"

lemma open_names_Cons [simp]:
  "open_names (f # fs) = (if frameKind f = CHR 0x7B then rev (frameNames f) # open_names fs else open_names fs)"
  by (simp add: open_names_def)

lemma open_names_count [simp]: "open_names (count_value fs) = open_names fs"
  by (cases fs) (simp_all add: count_value_def)

lemma ReadToken_lexed:
  assumes "ReadToken r = Inr (token, r')"
  shows "\<exists>s. lex_token (frames r) s = Inr (token, frames r', unread r')"
proof -
  obtain c later where s: "dropWhile is_json_space (unread r) = c # later"
    using assms by (cases "dropWhile is_json_space (unread r)") (simp_all add: ReadToken_def)
  show ?thesis
    using assms unfolding ReadToken_def s by (auto simp: Let_def split: if_splits sum.splits read_failure.splits)
qed

lemma lex_string_names:
  assumes "lex_string fs s = Inr (token, fs', rest)"
  shows "tokenKind token = CHR 0x22 \<and>
    (if needs_name fs
     then \<exists>f gs. fs = f # gs \<and> tokenString token \<notin> set (frameNames f)
       \<and> fs' = f\<lparr>frameLength := frameLength f + 1, frameNames := tokenString token # frameNames f\<rparr> # gs
     else fs' = count_value fs)"
  using assms
  by (cases fs) (auto simp: lex_string_def needs_name_def Let_def split: option.splits prod.splits if_splits)

text \<open>What a token does to the frames: it opens one, closes one, adds a name, or counts as a value.\<close>

lemma lex_token_frames:
  assumes "lex_token fs s = Inr (token, fs', rest)"
  shows "(tokenKind token = CHR 0x7B \<and> fs' = \<lparr>frameKind = CHR 0x7B, frameLength = 0, frameNames = []\<rparr> # count_value fs)
    \<or> (tokenKind token = CHR ''['' \<and> fs' = \<lparr>frameKind = CHR ''['', frameLength = 0, frameNames = []\<rparr> # count_value fs)
    \<or> (tokenKind token = CHR 0x7D \<and> (\<exists>f. fs = f # fs' \<and> frameKind f = CHR 0x7B))
    \<or> (tokenKind token = CHR '']'' \<and> (\<exists>f. fs = f # fs' \<and> frameKind f = CHR ''[''))
    \<or> (tokenKind token = CHR 0x22 \<and> needs_name fs \<and> (\<exists>f gs. fs = f # gs \<and> tokenString token \<notin> set (frameNames f)
         \<and> fs' = f\<lparr>frameLength := frameLength f + 1, frameNames := tokenString token # frameNames f\<rparr> # gs))
    \<or> (tokenKind token \<notin> {CHR 0x7B, CHR 0x7D, CHR ''['', CHR '']''} \<and> \<not> needs_name fs \<and> fs' = count_value fs)"
proof (cases s)
  case Nil
  then show ?thesis using assms by (simp add: lex_token_def)
next
  case (Cons c r)
  have closing: "tokenKind token = b \<and> (\<exists>f. fs = f # fs' \<and> frameKind f = a)" if "lex_close a b fs r = Inr (token, fs', rest)" for a b
    using that by (auto simp: lex_close_def split: list.splits if_splits)
  consider (quote) "c = CHR 0x22" | (brace) "c = CHR 0x7D" | (bracket) "c = CHR '']''" | (other) "c \<notin> {CHR 0x22, CHR 0x7D, CHR '']''}"
    by blast
  then show ?thesis
  proof cases
    case quote
    then have "lex_string fs r = Inr (token, fs', rest)" using assms Cons by (simp add: lex_token_def)
    from lex_string_names [OF this] show ?thesis by (cases "needs_name fs") simp_all
  next
    case brace
    then show ?thesis using assms Cons closing [of "CHR 0x7B" "CHR 0x7D"] by (simp add: lex_token_def)
  next
    case bracket
    then show ?thesis using assms Cons closing [of "CHR ''[''" "CHR '']''"] by (simp add: lex_token_def)
  next
    case other
    then have no_name: "\<not> needs_name fs" using assms Cons by (auto simp: lex_token_def)
    have word: "tokenKind token = letter \<and> fs' = count_value fs" if "lex_word w letter fs s = Inr (token, fs', rest)" for w letter
      using that by (auto simp: lex_word_def split: if_splits)
    note lexed = assms [unfolded Cons lex_token_def, simplified, folded Cons]
    consider (opens) "c \<in> {CHR 0x7B, CHR ''[''}" | "c = CHR ''n''" | "c = CHR ''t''" | "c = CHR ''f''"
      | (number) "c \<notin> {CHR 0x7B, CHR ''['', CHR ''n'', CHR ''t'', CHR ''f''}" by blast
    then show ?thesis
    proof cases
      case opens
      then have "tokenKind token = c \<and> fs' = \<lparr>frameKind = c, frameLength = 0, frameNames = []\<rparr> # count_value fs"
        using lexed no_name by (auto split: if_splits)
      then show ?thesis using opens by auto
    next
      case number
      then have "(case consume_number s of None \<Rightarrow> Inl ReadInvalid
          | Some later \<Rightarrow> Inr (\<lparr>tokenKind = CHR ''0'', tokenString = take (length s - length later) s\<rparr>, count_value fs, later))
        = Inr (token, fs', rest)"
        using lexed other no_name by (simp split: if_splits)
      then have "tokenKind token = CHR ''0''" "fs' = count_value fs" by (cases "consume_number s"; auto)+
      then show ?thesis using no_name by simp
    qed (use lexed no_name word [of "''null''" "CHR ''n''"] word [of "''true''" "CHR ''t''"] word [of "''false''" "CHR ''f''"] in
      \<open>simp_all add: Cons split: if_splits\<close>)
  qed
qed

inductive reads :: "json_reader \<Rightarrow> json_reader \<Rightarrow> bool" where
  reads_refl: "reads r r"
| reads_step: "reads r r' \<Longrightarrow> ReadToken r' = Inr (token, r'') \<Longrightarrow> reads r r''"

text \<open>What \<open>repeatedNameAt\<close> reports: a name at the offset that falls on the field of an earlier, different name of its object.\<close>

definition namesake_at :: "program \<Rightarrow> tid \<Rightarrow> string \<Rightarrow> int \<Rightarrow> string \<Rightarrow> json_reader \<Rightarrow> bool" where
  "namesake_at p bodyType body offset name r \<longleftrightarrow>
     (\<exists>token r' structType earlier v v'. ReadToken r = Inr (token, r') \<and> tokenString token = name
        \<and> int (token_start body r) = offset
        \<and> structAt p bodyType (pointer_Tokens (pointer_Parent (StackPointer (frames r')))) = Some structType
        \<and> earlier \<in> set (frameNames (hd (frames r))) \<and> earlier \<noteq> name \<and> strings_EqualFold earlier name
        \<and> fieldNamed p structType earlier = Some v' \<and> fieldNamed p structType name = Some v \<and> vIndex v' = vIndex v)"

lemma token_names:
  assumes "ReadToken r = Inr (token, r')"
  shows "(tokenKind token = CHR 0x7B \<longrightarrow> open_names (frames r') = [] # open_names (frames r))
    \<and> (tokenKind token = CHR 0x7D \<longrightarrow> open_names (frames r') = tl (open_names (frames r)))
    \<and> (tokenKind token \<notin> {CHR 0x7B, CHR 0x7D} \<longrightarrow> \<not> is_name_token token r' \<longrightarrow> open_names (frames r') = open_names (frames r))
    \<and> (is_name_token token r' \<longrightarrow> (\<exists>f gs. frames r = f # gs \<and> tokenString token \<notin> set (frameNames f)
         \<and> open_names (frames r) = rev (frameNames f) # open_names gs
         \<and> open_names (frames r') = (rev (frameNames f) @ [tokenString token]) # open_names gs))"
proof -
  obtain s where s: "lex_token (frames r) s = Inr (token, frames r', unread r')" using ReadToken_lexed [OF assms] by blast
  have value_even: "\<not> is_name_token token r'" if "frames r' = count_value (frames r)" "\<not> needs_name (frames r)"
    using that by (cases "frames r") (auto simp: is_name_token_def count_value_def needs_name_def mod2_eq_if)
  show ?thesis
    using lex_token_frames [OF s]
  proof (elim disjE conjE exE)
    assume "tokenKind token = CHR 0x22" "needs_name (frames r)"
    fix f gs assume f: "frames r = f # gs" "tokenString token \<notin> set (frameNames f)"
      "frames r' = f\<lparr>frameLength := frameLength f + 1, frameNames := tokenString token # frameNames f\<rparr> # gs"
    have "is_name_token token r'" "frameKind f = CHR 0x7B"
      using \<open>tokenKind token = CHR 0x22\<close> \<open>needs_name (frames r)\<close> f by (auto simp: is_name_token_def needs_name_def mod2_eq_if)
    then show ?thesis using f \<open>tokenKind token = CHR 0x22\<close> by simp
  next
    assume "tokenKind token \<notin> {CHR 0x7B, CHR 0x7D, CHR ''['', CHR '']''}" "\<not> needs_name (frames r)" "frames r' = count_value (frames r)"
    then show ?thesis using value_even by simp
  qed (simp_all add: is_name_token_def)
qed

lemma same_field_earlier:
  assumes "same_field p structType name earlier"
  obtains other v v' where "other \<in> set earlier" "fieldNamed p structType other = Some v'" "fieldNamed p structType name = Some v"
    "vIndex v' = vIndex v" "strings_EqualFold other name"
proof -
  obtain v where v: "fieldNamed p structType name = Some v" using assms by (cases "fieldNamed p structType name") (simp_all add: same_field_def)
  then obtain other where "other \<in> set earlier" "map_option vIndex (fieldNamed p structType other) = Some (vIndex v)"
    using assms by (auto simp: same_field_def list_ex_iff)
  then show ?thesis using that v same_field_namesakes by (auto simp: map_option_eq_Some)
qed

lemma repeated_loop_sound:
  "repeated_loop p bodyType body offset names r = (name, True) \<Longrightarrow> names = open_names (frames r) \<Longrightarrow> reads r0 r
   \<Longrightarrow> \<exists>r1. reads r0 r1 \<and> namesake_at p bodyType body offset name r1"
proof (induction p bodyType body offset names r rule: repeated_loop.induct)
  case (1 p bodyType body offset names r)
  note unfolded = 1(5) [unfolded repeated_loop.simps [of p bodyType body offset names r]]
  obtain token r' where read: "ReadToken r = Inr (token, r')" using unfolded by (cases "ReadToken r") auto
  note names = token_names [OF read] and step = reads_step [OF 1(7) read]
  have loop: "(if tokenKind token = CHR 0x7B then repeated_loop p bodyType body offset ([] # names) r'
      else if tokenKind token = CHR 0x7D then repeated_loop p bodyType body offset (tl names) r'
      else if is_name_token token r' then
        if int (token_start body r) = offset then
          (case structAt p bodyType (pointer_Tokens (pointer_Parent (StackPointer (frames r')))) of
             None \<Rightarrow> (tokenString token, False)
           | Some structType \<Rightarrow> (tokenString token, same_field p structType (tokenString token) (hd names)))
        else repeated_loop p bodyType body offset ((hd names @ [tokenString token]) # tl names) r'
      else repeated_loop p bodyType body offset names r') = (name, True)"
    using unfolded unfolding read sum.case prod.case Let_def .
  consider (opens) "tokenKind token = CHR 0x7B" | (closes) "tokenKind token \<noteq> CHR 0x7B" "tokenKind token = CHR 0x7D"
    | (is_name) "tokenKind token \<noteq> CHR 0x7B" "tokenKind token \<noteq> CHR 0x7D" "is_name_token token r'"
    | (other) "tokenKind token \<noteq> CHR 0x7B" "tokenKind token \<noteq> CHR 0x7D" "\<not> is_name_token token r'" by blast
  then show ?case
  proof cases
    case opens
    then show ?thesis using 1(1) [OF read refl opens _ _ step] loop names 1(6) by simp
  next
    case closes
    then show ?thesis using 1(2) [OF read refl closes _ _ step] loop names 1(6) by simp
  next
    case other
    then show ?thesis using 1(4) [OF read refl other _ _ step] loop names 1(6) by simp
  next
    case is_name
    from names is_name(3) obtain f gs where f: "frames r = f # gs" "tokenString token \<notin> set (frameNames f)"
      "open_names (frames r) = rev (frameNames f) # open_names gs"
      "open_names (frames r') = (rev (frameNames f) @ [tokenString token]) # open_names gs" by blast
    show ?thesis
    proof (cases "int (token_start body r) = offset")
      case True
      then obtain structType where "structAt p bodyType (pointer_Tokens (pointer_Parent (StackPointer (frames r')))) = Some structType"
        "tokenString token = name" "same_field p structType name (rev (frameNames f))"
        using loop is_name 1(6) f(3) by (auto split: option.splits)
      moreover from this(3) obtain earlier v v' where "earlier \<in> set (rev (frameNames f))" "fieldNamed p structType earlier = Some v'"
        "fieldNamed p structType name = Some v" "vIndex v' = vIndex v" "strings_EqualFold earlier name" by (rule same_field_earlier)
      moreover from calculation f(2) have "earlier \<noteq> name" by auto
      ultimately have "namesake_at p bodyType body offset name r"
        unfolding namesake_at_def using read f(1) True by (intro exI [of _ token] exI [of _ r'] exI [of _ structType] exI [of _ earlier]) simp
      then show ?thesis using 1(7) by blast
    next
      case False
      then show ?thesis using 1(3) [OF read refl is_name refl refl False _ _ step] loop is_name f 1(6) by simp
    qed
  qed
qed

section \<open>Properties\<close>

definition sample_lib :: decoding_lib where
  "sample_lib = \<lparr>LibraryText = (\<lambda>_. Some ''json: cannot unmarshal''), ParseFloat = (\<lambda>_. Finite 1)\<rparr>"

text \<open>
  C16. What a caller is told about a body that could not be decoded. \<open>describeDecoding\<close> always returns an
  error that can tell its text. It is worded in terms of JSON, by the path of a value, the name of a field
  and the kind of value that is expected, and wraps the error of the decoder, or it is that error itself,
  which then has a text without the text of a panic, and is that of a type that decodes itself, one that names no
  type, or a mistake in a body that is complete JSON.
\<close>

theorem describeDecoding_told:
  "(\<exists>words causes. describeDecoding lib p bodyType body err detailed = decodeFailure words (err # causes) \<and> told words)
   \<or> describeDecoding lib p bodyType body err detailed = err \<and> hasText lib err \<and> not_decoders p body err detailed"
proof (cases "hasText lib (describeFailure lib p bodyType body err detailed)")
  case True
  then show ?thesis using failure_told [of err lib p bodyType body detailed] by (auto simp: describeDecoding_def worded_def)
next
  case False
  then show ?thesis using worded_undecodable [of err "ownPointerOf p detailed"] by (simp add: describeDecoding_def worded_def)
qed

text \<open>
  C22. \<open>repeatedNameAt\<close> always ends, and if it reports a name, reading the body comes to that name at the offset, in an
  object that is decoded into a struct, after a different name of the same object that falls on the same
  field, so that the two differ in case only.
\<close>

theorem repeatedNameAt_sound:
  assumes "repeatedNameAt p bodyType body offset = (name, True)"
  shows "\<exists>r. reads (NewDecoder body) r \<and> namesake_at p bodyType body offset name r"
proof (rule repeated_loop_sound)
  show "repeated_loop p bodyType body offset [] (NewDecoder body) = (name, True)" using assms by (simp add: repeatedNameAt_def)
qed (simp_all add: NewDecoder_def open_names_def reads_refl)

definition namesake_body :: string where
  "namesake_body = [CHR 0x7B, CHR 0x22] @ ''name'' @ [CHR 0x22] @ '':1, '' @ [CHR 0x22] @ ''NAME'' @ [CHR 0x22] @ '':2'' @ [CHR 0x7D]"

theorem repeatedNameAt_sound_witness:
  "\<exists>r. reads (NewDecoder namesake_body) r \<and> namesake_at request_types 5 namesake_body 11 ''NAME'' r"
proof -
  have "repeatedNameAt request_types 5 namesake_body 11 = (''NAME'', True)" by code_simp
  then show ?thesis by (rule repeatedNameAt_sound)
qed

end
