(* ===== verification/Test_Database.thy ===== *)
theory Test_Database
  imports Projection
begin

text \<open>
  A database in a container for tests (\<open>architecturekittest/dbtest/database.go\<close>). The containers and the client are not part of
  the repository: their functions are parameters on a world. A run of the tests of a package is a list of
  tests, each of which asks for databases; what a test registers with \<open>Cleanup\<close> runs at its end, the last one first.
  Tests run one after the other.
\<close>

section \<open>Containers\<close>

record 'w container_lib =
  containerNew :: "string \<Rightarrow> 'w \<Rightarrow> nat \<times> 'w"
  containerStart :: "nat \<Rightarrow> 'w \<Rightarrow> goerr option \<times> 'w"
  containerURL :: "nat \<Rightarrow> 'w \<Rightarrow> (goerr + string) \<times> 'w"
  containerToken :: "nat \<Rightarrow> string"
  containerStop :: "nat \<Rightarrow> 'w \<Rightarrow> goerr option \<times> 'w"
  clientNew :: "string \<Rightarrow> string \<Rightarrow> goerr + 'w client"

record 'w test_database =
  dbURL :: string
  dbToken :: string
  dbClient :: "'w client"

definition databaseIn :: "'w container_lib \<Rightarrow> nat \<Rightarrow> 'w \<Rightarrow> (goerr + 'w test_database) \<times> 'w" where
  "databaseIn lib c w =
     (case containerURL lib c w of
        (Inl err, w') \<Rightarrow> (Inl err, w')
      | (Inr url, w') \<Rightarrow>
          (case clientNew lib url (containerToken lib c) of
             Inl err \<Rightarrow> (Inl err, w')
           | Inr client \<Rightarrow> (Inr \<lparr>dbURL = url, dbToken = containerToken lib c, dbClient = client\<rparr>, w')))"

definition startDatabase :: "'w container_lib \<Rightarrow> string \<Rightarrow> 'w \<Rightarrow> (goerr + nat \<times> 'w test_database) \<times> 'w" where
  "startDatabase lib tag w =
     (case containerNew lib tag w of
        (c, w1) \<Rightarrow>
          (case containerStart lib c w1 of
             (Some err, w2) \<Rightarrow> (Inl err, w2)
           | (None, w2) \<Rightarrow>
               (case databaseIn lib c w2 of
                  (Inr db, w3) \<Rightarrow> (Inr (c, db), w3)
                | (Inl err, w3) \<Rightarrow>
                    (case containerStop lib c w3 of (stopErr, w4) \<Rightarrow> (Inl (the (errors_Join [Some err, stopErr])), w4)))))"

section \<open>Databases for tests\<close>

record 'w suite =
  suiteWorld :: 'w
  onceDone :: bool
  sharedContainer :: "nat option"
  sharedDatabase :: "'w test_database option"
  sharedErr :: "goerr option"

text \<open>What a function returns to a test: a database, or the test ends, skipped or failed.\<close>

datatype 'a outcome = Returns 'a | Skips string | Fails string

definition short_mode :: string where
  "short_mode = ''skipping a test that needs a database in short mode''"

definition start_once :: "'w container_lib \<Rightarrow> string \<Rightarrow> 'w suite \<Rightarrow> 'w suite" where
  "start_once lib tag st =
     (if onceDone st then st
      else
        (case startDatabase lib tag (suiteWorld st) of
           (Inr (c, db), w) \<Rightarrow> \<lparr>suiteWorld = w, onceDone = True, sharedContainer = Some c, sharedDatabase = Some db, sharedErr = None\<rparr>
         | (Inl err, w) \<Rightarrow> \<lparr>suiteWorld = w, onceDone = True, sharedContainer = None, sharedDatabase = None, sharedErr = Some err\<rparr>))"

definition SharedDatabase :: "'w container_lib \<Rightarrow> string \<Rightarrow> bool \<Rightarrow> 'w suite \<Rightarrow> 'w test_database option outcome \<times> 'w suite" where
  "SharedDatabase lib tag isShort st =
     (if isShort then (Skips short_mode, st)
      else
        (let st' = start_once lib tag st in
         case sharedErr st' of
           Some err \<Rightarrow> (Fails (''starting the shared database: '' @ error_text err), st')
         | None \<Rightarrow> (Returns (sharedDatabase st'), st')))"

definition IsolatedDatabase ::
  "'w container_lib \<Rightarrow> string \<Rightarrow> bool \<Rightarrow> 'w suite \<Rightarrow> nat list \<Rightarrow> 'w test_database option outcome \<times> 'w suite \<times> nat list" where
  "IsolatedDatabase lib tag isShort st cleanups =
     (if isShort then (Skips short_mode, st, cleanups)
      else
        (case startDatabase lib tag (suiteWorld st) of
           (Inl err, w) \<Rightarrow> (Fails (''starting a database: '' @ error_text err), st\<lparr>suiteWorld := w\<rparr>, cleanups)
         | (Inr (c, db), w) \<Rightarrow> (Returns (Some db), st\<lparr>suiteWorld := w\<rparr>, c # cleanups)))"

section \<open>Stores for tests\<close>

definition requireOptions :: "string \<Rightarrow> 'w StoreOption option list \<Rightarrow> unit go" where
  "requireOptions function options =
     (if None \<in> set options then Panic (''architecturekittest/dbtest: '' @ function @ '' got a nil option'') else Ret ())"

definition Database_Store ::
  "'w test_database option \<Rightarrow> string \<Rightarrow> EventSchema list \<Rightarrow> 'w StoreOption option list \<Rightarrow> 'w
   \<Rightarrow> (('w Store \<times> 's stateCache option) outcome \<times> 'w) go" where
  "Database_Store d eventSource eventSchemas options w =
     go_bind (requireOptions ''Store'' options) (\<lambda>_.
       case d of
         None \<Rightarrow> Panic nil_dereference
       | Some db \<Rightarrow>
           go_bind (NewStore (Some (dbClient db)) eventSource options) (\<lambda>store.
             case RegisterSchemas (fst store) [eventSchemas] w of
               (Some err, w') \<Rightarrow> Ret (Fails (''registering the schemas: '' @ error_text err), w')
             | (None, w') \<Rightarrow> Ret (Returns store, w')))"

text \<open>A store on a database, if the test gets one.\<close>

definition store_on ::
  "'w test_database option outcome \<Rightarrow> string \<Rightarrow> EventSchema list \<Rightarrow> 'w StoreOption option list \<Rightarrow> 'w suite
   \<Rightarrow> (('w Store \<times> 's stateCache option) outcome \<times> 'w suite) go" where
  "store_on asked eventSource eventSchemas options st =
     (case asked of
        Skips why \<Rightarrow> Ret (Skips why, st)
      | Fails why \<Rightarrow> Ret (Fails why, st)
      | Returns d \<Rightarrow>
          go_bind (Database_Store d eventSource eventSchemas options (suiteWorld st)) (\<lambda>(made, w). Ret (made, st\<lparr>suiteWorld := w\<rparr>)))"

definition dbtest_Store ::
  "'w container_lib \<Rightarrow> string \<Rightarrow> bool \<Rightarrow> string \<Rightarrow> EventSchema list \<Rightarrow> 'w StoreOption option list \<Rightarrow> 'w suite
   \<Rightarrow> (('w Store \<times> 's stateCache option) outcome \<times> 'w suite) go" where
  "dbtest_Store lib tag isShort eventSource eventSchemas options st =
     go_bind (requireOptions ''Store'' options) (\<lambda>_.
       case SharedDatabase lib tag isShort st of (asked, st') \<Rightarrow> store_on asked eventSource eventSchemas options st')"

definition IsolatedStore ::
  "'w container_lib \<Rightarrow> string \<Rightarrow> bool \<Rightarrow> string \<Rightarrow> EventSchema list \<Rightarrow> 'w StoreOption option list \<Rightarrow> 'w suite \<Rightarrow> nat list
   \<Rightarrow> (('w Store \<times> 's stateCache option) outcome \<times> 'w suite \<times> nat list) go" where
  "IsolatedStore lib tag isShort eventSource eventSchemas options st cleanups =
     go_bind (requireOptions ''IsolatedStore'' options) (\<lambda>_.
       case IsolatedDatabase lib tag isShort st cleanups of
         (asked, st', cleanups') \<Rightarrow>
           go_bind (store_on asked eventSource eventSchemas options st') (\<lambda>(made, st''). Ret (made, st'', cleanups')))"

section \<open>A run of the tests\<close>

text \<open>
  What a test does with the databases that it gets is up to it, and so is whether it fails; here it asks for
  databases until one of them ends it, or until it is done, failing or not.
\<close>

datatype test_step = AskShared | AskIsolated | FailTest

fun run_steps ::
  "'w container_lib \<Rightarrow> string \<Rightarrow> bool \<Rightarrow> test_step list \<Rightarrow> 'w suite \<Rightarrow> nat list \<Rightarrow> bool \<times> 'w suite \<times> nat list" where
  "run_steps lib tag isShort [] st cleanups = (False, st, cleanups)"
| "run_steps lib tag isShort (FailTest # steps) st cleanups = (True, st, cleanups)"
| "run_steps lib tag isShort (AskShared # steps) st cleanups =
     (case SharedDatabase lib tag isShort st of
        (Returns _, st') \<Rightarrow> run_steps lib tag isShort steps st' cleanups
      | (Skips _, st') \<Rightarrow> (False, st', cleanups)
      | (Fails _, st') \<Rightarrow> (True, st', cleanups))"
| "run_steps lib tag isShort (AskIsolated # steps) st cleanups =
     (case IsolatedDatabase lib tag isShort st cleanups of
        (Returns _, st', cleanups') \<Rightarrow> run_steps lib tag isShort steps st' cleanups'
      | (Skips _, st', cleanups') \<Rightarrow> (False, st', cleanups')
      | (Fails _, st', cleanups') \<Rightarrow> (True, st', cleanups'))"

fun run_cleanups :: "'w container_lib \<Rightarrow> nat list \<Rightarrow> 'w \<Rightarrow> bool \<times> 'w" where
  "run_cleanups lib [] w = (False, w)"
| "run_cleanups lib (c # cs) w =
     (case containerStop lib c w of (err, w') \<Rightarrow> (case run_cleanups lib cs w' of (failed, w'') \<Rightarrow> (err \<noteq> None \<or> failed, w'')))"

definition run_test :: "'w container_lib \<Rightarrow> string \<Rightarrow> bool \<Rightarrow> test_step list \<Rightarrow> 'w suite \<Rightarrow> bool \<times> 'w suite" where
  "run_test lib tag isShort steps st =
     (case run_steps lib tag isShort steps st [] of
        (failed, st', cleanups) \<Rightarrow>
          (case run_cleanups lib cleanups (suiteWorld st') of (failed', w) \<Rightarrow> (failed \<or> failed', st'\<lparr>suiteWorld := w\<rparr>)))"

fun run_tests :: "'w container_lib \<Rightarrow> string \<Rightarrow> bool \<Rightarrow> test_step list list \<Rightarrow> 'w suite \<Rightarrow> bool \<times> 'w suite" where
  "run_tests lib tag isShort [] st = (False, st)"
| "run_tests lib tag isShort (t # ts) st =
     (case run_test lib tag isShort t st of
        (failed, st') \<Rightarrow> (case run_tests lib tag isShort ts st' of (failed', st'') \<Rightarrow> (failed \<or> failed', st'')))"

definition StopSharedDatabase :: "'w container_lib \<Rightarrow> 'w suite \<Rightarrow> goerr option \<times> 'w suite" where
  "StopSharedDatabase lib st =
     (case sharedContainer st of
        None \<Rightarrow> (None, st)
      | Some c \<Rightarrow> (case containerStop lib c (suiteWorld st) of (err, w) \<Rightarrow> (err, st\<lparr>suiteWorld := w\<rparr>)))"

text \<open>The code of the run and what is written to the log.\<close>

definition finish :: "'w container_lib \<Rightarrow> int \<Rightarrow> 'w suite \<Rightarrow> int \<times> string \<times> 'w suite" where
  "finish lib code st =
     (case StopSharedDatabase lib st of
        (Some err, st') \<Rightarrow> (1, ''architecturekittest/dbtest: stopping the shared database: '' @ error_text err @ [CHR 0x0A], st')
      | (None, st') \<Rightarrow> (code, [], st'))"

definition dbtest_Main :: "'w container_lib \<Rightarrow> string \<Rightarrow> bool \<Rightarrow> test_step list list \<Rightarrow> 'w \<Rightarrow> int \<times> 'w suite" where
  "dbtest_Main lib tag isShort ts w =
     (case run_tests lib tag isShort ts
             \<lparr>suiteWorld = w, onceDone = False, sharedContainer = None, sharedDatabase = None, sharedErr = None\<rparr> of
        (failed, st) \<Rightarrow> (case finish lib (if failed then 1 else 0) st of (code, _, st') \<Rightarrow> (code, st')))"

section \<open>Containers that run\<close>

text \<open>
  What the code relies on: a new container is none of those that run; one that was started runs; asking for its address
  changes nothing; one that was stopped does not run. Nothing is known about what runs after a failure.
\<close>

definition container_laws :: "'w container_lib \<Rightarrow> ('w \<Rightarrow> nat set) \<Rightarrow> bool" where
  "container_laws lib running \<longleftrightarrow>
     (\<forall>tag w c w'. containerNew lib tag w = (c, w') \<longrightarrow> running w' = running w \<and> c \<notin> running w)
   \<and> (\<forall>c w w'. containerStart lib c w = (None, w') \<longrightarrow> running w' = insert c (running w))
   \<and> (\<forall>c w r w'. containerURL lib c w = (r, w') \<longrightarrow> running w' = running w)
   \<and> (\<forall>c w w'. containerStop lib c w = (None, w') \<longrightarrow> running w' = running w - {c})"

lemma databaseIn_running:
  assumes "container_laws lib running" and "databaseIn lib c w = (r, w')"
  shows "running w' = running w"
  using assms by (auto simp: databaseIn_def container_laws_def split: prod.splits sum.splits)

lemma startDatabase_running:
  assumes "container_laws lib running" and "startDatabase lib tag w = (Inr (c, db), w')"
  shows "running w' = insert c (running w) \<and> c \<notin> running w"
proof -
  obtain c1 w1 w2 where new: "containerNew lib tag w = (c1, w1)" "containerStart lib c1 w1 = (None, w2)"
    "databaseIn lib c1 w2 = (Inr db, w')" "c1 = c"
    using assms(2) by (auto simp: startDatabase_def split: prod.splits option.splits sum.splits)
  have "running w1 = running w" "c1 \<notin> running w" "running w2 = insert c1 (running w1)"
    using assms(1) new(1,2) unfolding container_laws_def by blast+
  then show ?thesis using databaseIn_running [OF assms(1) new(3)] new(4) by simp
qed

text \<open>Nothing runs but what ran before, what the test cleans up, and the shared container.\<close>

definition suite_ok :: "('w \<Rightarrow> nat set) \<Rightarrow> nat set \<Rightarrow> 'w suite \<Rightarrow> nat list \<Rightarrow> bool" where
  "suite_ok running B st cleanups \<longleftrightarrow>
     running (suiteWorld st) = B \<union> set cleanups \<union> set_option (sharedContainer st)
   \<and> set cleanups \<inter> B = {} \<and> set_option (sharedContainer st) \<inter> (B \<union> set cleanups) = {}
   \<and> (\<not> onceDone st \<longrightarrow> sharedContainer st = None)"

lemma SharedDatabase_ok:
  assumes laws: "container_laws lib running" and ok: "suite_ok running B st cleanups"
    and shared: "SharedDatabase lib tag isShort st = (asked, st')" and "\<forall>why. asked \<noteq> Fails why"
  shows "suite_ok running B st' cleanups"
proof (cases "isShort \<or> onceDone st")
  case True
  then have "st' = st" using shared by (auto simp: SharedDatabase_def start_once_def Let_def split: if_splits option.splits)
  then show ?thesis using ok by simp
next
  case False
  then obtain c db w where started: "startDatabase lib tag (suiteWorld st) = (Inr (c, db), w)"
    "st' = \<lparr>suiteWorld = w, onceDone = True, sharedContainer = Some c, sharedDatabase = Some db, sharedErr = None\<rparr>"
    using shared assms(4) by (auto simp: SharedDatabase_def start_once_def Let_def split: prod.splits sum.splits option.splits)
  show ?thesis using startDatabase_running [OF laws started(1)] ok False by (auto simp: suite_ok_def started(2))
qed

lemma IsolatedDatabase_ok:
  assumes laws: "container_laws lib running" and ok: "suite_ok running B st cleanups"
    and isolated: "IsolatedDatabase lib tag isShort st cleanups = (asked, st', cleanups')" and "\<forall>why. asked \<noteq> Fails why"
  shows "suite_ok running B st' cleanups'"
proof (cases isShort)
  case True
  then show ?thesis using isolated ok by (simp add: IsolatedDatabase_def)
next
  case False
  then obtain c db w where started: "startDatabase lib tag (suiteWorld st) = (Inr (c, db), w)"
    "st' = st\<lparr>suiteWorld := w\<rparr>" "cleanups' = c # cleanups"
    using isolated assms(4) by (auto simp: IsolatedDatabase_def split: prod.splits sum.splits)
  show ?thesis using startDatabase_running [OF laws started(1)] ok by (auto simp: suite_ok_def started(2,3))
qed

lemma run_steps_ok:
  assumes laws: "container_laws lib running"
  shows "run_steps lib tag isShort steps st cleanups = (False, st', cleanups') \<Longrightarrow> suite_ok running B st cleanups
    \<Longrightarrow> suite_ok running B st' cleanups'"
proof (induction steps arbitrary: st cleanups)
  case (Cons step steps)
  show ?case
  proof (cases step)
    case AskShared
    obtain asked st1 where asked: "SharedDatabase lib tag isShort st = (asked, st1)" by (cases "SharedDatabase lib tag isShort st")
    have "\<forall>why. asked \<noteq> Fails why" using Cons.prems(1) by (auto simp: AskShared asked)
    from SharedDatabase_ok [OF laws Cons.prems(2) asked this] show ?thesis
      using Cons.IH Cons.prems(1) by (cases asked) (simp_all add: AskShared asked)
  next
    case AskIsolated
    obtain asked st1 cleanups1 where asked: "IsolatedDatabase lib tag isShort st cleanups = (asked, st1, cleanups1)"
      by (cases "IsolatedDatabase lib tag isShort st cleanups") auto
    have "\<forall>why. asked \<noteq> Fails why" using Cons.prems(1) by (auto simp: AskIsolated asked)
    from IsolatedDatabase_ok [OF laws Cons.prems(2) asked this] show ?thesis
      using Cons.IH Cons.prems(1) by (cases asked) (simp_all add: AskIsolated asked)
  qed (use Cons.prems in simp)
qed simp

lemma run_cleanups_running:
  assumes "container_laws lib running"
  shows "run_cleanups lib cs w = (False, w') \<Longrightarrow> running w' = running w - set cs"
proof (induction cs arbitrary: w)
  case (Cons c cs)
  obtain err w1 where stop: "containerStop lib c w = (err, w1)" by (cases "containerStop lib c w")
  obtain b where rest: "run_cleanups lib cs w1 = (b, w')" using Cons.prems by (auto simp: stop split: prod.splits)
  have "err = None" "b = False" using Cons.prems by (simp_all add: stop rest)
  then have "running w1 = running w - {c}" using assms stop unfolding container_laws_def by blast
  then show ?case using Cons.IH [of w1] rest \<open>b = False\<close> by auto
qed simp

lemma run_test_ok:
  assumes "container_laws lib running" and "suite_ok running B st []" and "run_test lib tag isShort steps st = (False, st')"
  shows "suite_ok running B st' []"
proof -
  obtain failed st1 cleanups where steps: "run_steps lib tag isShort steps st [] = (failed, st1, cleanups)"
    by (cases "run_steps lib tag isShort steps st []") auto
  obtain failed' w where cleanup: "run_cleanups lib cleanups (suiteWorld st1) = (failed', w)" by (cases "run_cleanups lib cleanups (suiteWorld st1)")
  have "\<not> failed" "\<not> failed'" "st' = st1\<lparr>suiteWorld := w\<rparr>" using assms(3) by (auto simp: run_test_def steps cleanup)
  then show ?thesis
    using run_steps_ok [OF assms(1), of tag isShort steps st "[]" st1 cleanups B] run_cleanups_running [OF assms(1), of cleanups "suiteWorld st1" w]
      steps cleanup assms(2) by (auto simp: suite_ok_def)
qed

lemma run_tests_ok:
  assumes "container_laws lib running"
  shows "suite_ok running B st [] \<Longrightarrow> run_tests lib tag isShort ts st = (False, st') \<Longrightarrow> suite_ok running B st' []"
proof (induction ts arbitrary: st)
  case (Cons t ts)
  obtain failed st1 where t: "run_test lib tag isShort t st = (failed, st1)" by (cases "run_test lib tag isShort t st")
  obtain failed' where ts: "run_tests lib tag isShort ts st1 = (failed', st')" using Cons.prems(2) by (auto simp: t split: prod.splits)
  have "failed = False" "failed' = False" using Cons.prems(2) by (simp_all add: t ts)
  then show ?case using Cons.IH [of st1] run_test_ok [OF assms Cons.prems(1)] t ts by simp
qed simp

section \<open>Properties\<close>

text \<open>Containers in memory, which can not fail; the world is the numbers of those that run.\<close>

definition client_in_memory :: "nat list client" where
  "client_in_memory =
     \<lparr>ReadEvents = (\<lambda>w subj opts. ([], w)), WriteEvents = (\<lambda>w cs ps. (Inr [], w)), RegisterEventSchema = (\<lambda>w n s. (None, w)),
      ReadEventTypes = (\<lambda>w. ([], w)), VerifyHash = (\<lambda>_. None), VerifySignature = (\<lambda>_ _. None), ctx_Err = (\<lambda>_. None),
      memory = (\<lambda>_. \<lparr>heapCells = [], heapArrays = [], heapMaps = []\<rparr>)\<rparr>"

definition containers_in_memory :: "nat list container_lib" where
  "containers_in_memory =
     \<lparr>containerNew = (\<lambda>tag w. (Suc (fold max w 0), w)), containerStart = (\<lambda>c w. (None, c # w)), containerURL = (\<lambda>c w. (Inr ''http://localhost'', w)),
      containerToken = (\<lambda>c. ''secret''), containerStop = (\<lambda>c w. (None, filter (\<lambda>d. d \<noteq> c) w)), clientNew = (\<lambda>url token. Inr client_in_memory)\<rparr>"

lemma containers_in_memory_laws: "container_laws containers_in_memory set"
proof -
  have largest: "c \<le> fold max w n" if "c \<in> set w \<or> c \<le> n" for c n :: nat and w
    using that by (induction w arbitrary: n) (fastforce simp: le_max_iff_disj)+
  have "Suc (fold max w 0) \<notin> set w" for w :: "nat list"
    using largest [of "Suc (fold max w 0)" w 0] not_less_eq_eq by blast
  then show ?thesis unfolding container_laws_def containers_in_memory_def by (simp add: set_eq_iff)
qed

text \<open>
  C23. No container is left behind without a word: however many tests of a package ask for the shared
  database or for databases of their own, and however often starting, reaching or stopping a
  container fails, if the run ends with the code 0, then exactly the containers run that ran before.
\<close>

theorem no_container_left:
  assumes "container_laws lib running" and "dbtest_Main lib tag isShort ts w = (0, st)"
  shows "running (suiteWorld st) = running w"
proof -
  let ?st0 = "\<lparr>suiteWorld = w, onceDone = False, sharedContainer = None, sharedDatabase = None, sharedErr = None\<rparr>"
  obtain failed st1 where tests: "run_tests lib tag isShort ts ?st0 = (failed, st1)" by (cases "run_tests lib tag isShort ts ?st0")
  obtain err st2 where stop: "StopSharedDatabase lib st1 = (err, st2)" by (cases "StopSharedDatabase lib st1")
  have "err = None" "\<not> failed" "st = st2"
    using assms(2) by (auto simp: dbtest_Main_def tests finish_def stop split: option.splits if_splits)
  moreover have "suite_ok running (running w) ?st0 []" by (simp add: suite_ok_def)
  ultimately have ok: "suite_ok running (running w) st1 []" using run_tests_ok [OF assms(1)] tests by fastforce
  show ?thesis
  proof (cases "sharedContainer st1")
    case None
    then show ?thesis using ok stop \<open>st = st2\<close> by (auto simp: suite_ok_def StopSharedDatabase_def)
  next
    case (Some c)
    then obtain w' where "containerStop lib c (suiteWorld st1) = (None, w')" "st = st1\<lparr>suiteWorld := w'\<rparr>"
      using stop \<open>err = None\<close> \<open>st = st2\<close> by (auto simp: StopSharedDatabase_def split: prod.splits)
    moreover from this(1) have "running w' = running (suiteWorld st1) - {c}" using assms(1) unfolding container_laws_def by blast
    ultimately show ?thesis using ok Some by (auto simp: suite_ok_def)
  qed
qed

theorem no_container_left_witness:
  "set (suiteWorld (snd (dbtest_Main containers_in_memory [] False [[AskShared, AskIsolated], [AskShared]] [7]))) = {7}"
proof -
  let ?run = "dbtest_Main containers_in_memory [] False [[AskShared, AskIsolated], [AskShared]] [7]"
  have "fst ?run = 0" by code_simp
  then have "?run = (0, snd ?run)" by (metis prod.collapse)
  from no_container_left [OF containers_in_memory_laws this] show ?thesis by simp
qed

end
