(* ===== verification/Spec2Isabelle.thy ===== *)
theory Spec2Isabelle
  imports Subject Typed_Projection Http_Routes Http_Health Test_Preconditions Test_Projection Schema_Totality Spell_Exact
    Decoding Test_Database
begin

text \<open>
  A verification library of architecturekit, a Go library for CQRS and event-sourced applications on top
  of EventSourcingDB. An application executes commands against a store: a decider is given the state of a
  subject, which is replayed from its events, and decides on new events, which are written under
  preconditions. Projections follow the events and keep views, queries read the views, and the package
  \<open>httpapi\<close> offers commands, queries and health checks over HTTP. The package \<open>architecturekittest\<close> tests
  deciders and projections without a database. Paths below are relative to \<open>src/architecturekit/\<close>.

  \<^bold>\<open>Conventions.\<close> A function that may panic returns a value of the type \<open>go\<close> (\<open>Ret\<close> or \<open>Panic\<close>), and an
  error is the left of a sum, or \<open>Some\<close> where the code returns an error alone. Errors are trees
  (\<open>goerr\<close>) over which \<open>errors.Is\<close> and \<open>errors.As\<close> search. Code that is called back or that is not in
  the repository gets and returns a world. A nil interface, pointer or function is \<open>None\<close>. Strings are lists
  of bytes, revisions and hashes are words of 64 bits, and durations wrap around as 64-bit integers do.
  A slice, map or string is a value; where sharing matters (equality of values, spelling out), there
  is a heap. Functions that run under a mutex are atomic, and concurrency is the choice of what happens
  between two of them: in the store and the projections through the world that every call to the database
  returns, in the cache of schemas and in the health checks through an explicit argument.

  \<^bold>\<open>The kit.\<close>
  \<^item> \<open>Prelude\<close> holds panics, results, strings and numbers as Go has them, and the lemmas all share.
  \<^item> \<open>Errors\<close> (\<open>error.go\<close>, \<open>database_failure.go\<close>): categories of errors, and sorting a failure of the
    client by what the caller may do about it. A failed write is sorted completely and without overlap.
  \<^item> \<open>Revision\<close> (\<open>revision.go\<close>): parsing and comparing revisions, the revision of written events.
  \<^item> \<open>Read_Options\<close> (\<open>read_options.go\<close>, \<open>projection_options.go\<close>): options of a read, their conflicts, and the
    check of bounds, which is exact although it computes with 64 bits.
  \<^item> \<open>Preconditions\<close> (\<open>precondition.go\<close>, \<open>write.go\<close>): declaring, checking and resolving preconditions, and
    finding the one that the database names by its index.
  \<^item> \<open>Subject\<close> (\<open>subject.go\<close>): subject schemes; building and matching are inverse to each other.
  \<^item> \<open>Value_Type\<close>, \<open>Same_Value\<close> (\<open>value_type.go\<close>, \<open>state_cache.go\<close>): reflection on types and values, and the
    equality of values with cycles, for which a bound on the fuel is proved to be enough.
  \<^item> \<open>Upcast\<close> (\<open>upcast.go\<close>): chains of upcasters within a budget of steps.
  \<^item> \<open>State\<close>, \<open>State_Cache\<close> (\<open>state.go\<close>, \<open>state_cache.go\<close>): building states from rules, replaying, deciders,
    and the cache of states, which refines a bounded list with the least recently used entry evicted.
  \<^item> \<open>Store\<close>, \<open>Store_Safety\<close> (\<open>store.go\<close>, \<open>write.go\<close>): loading, writing and executing. On a database that behaves
    as documented (\<open>database_laws\<close>; what a read yields is \<open>selected\<close>, with the latest event it starts from, the subject
    where that is looked for, and what is read if it is missing), with any other writers, a loaded state is that of
    all events at one moment, and what a command with \<open>OnStateRead\<close> writes was decided on the latest events of its
    subject.
  \<^item> \<open>In_Memory_View\<close>, \<open>View_Contents\<close> (\<open>in_memory_view.go\<close>): views with an order and indexes, which refine a
    list of items for every sequence of operations.
  \<^item> \<open>Projection\<close>, \<open>Projection_Safety\<close>, \<open>Projection_Runs\<close> (\<open>projection.go\<close>, \<open>projection_run.go\<close>,
    \<open>projection_panic.go\<close>): the three kinds of projections, batches, catching up, following, reconnecting, and
    the status of a run. Events are applied once and in order, exactly once with transactions, through
    failures, panics and reconnects. A run may go on forever, so its loop has a number of rounds as an argument,
    and the theorems hold for every number.
  \<^item> \<open>Typed_Projection\<close> (\<open>typed_projection.go\<close>): handlers by event type and events that upcasters split.
  \<^item> \<open>Query\<close> (\<open>query/query.go\<close>): queries over the items of a view.
  \<^item> \<open>Json_Fields\<close>, \<open>Encoding_Json\<close>, \<open>Derive_Schema\<close>, \<open>Schema_Sound\<close>, \<open>Schema_Totality\<close> (\<open>schema.go\<close>): the JSON schema
    of an event type, derived by reflection on types that may be recursive. \<open>Encoding_Json\<close> states the documented rules
    of \<open>encoding/json\<close> for fields, tags and embedded structs on their own, and the fields that \<open>schema.go\<close> finds are
    proved to be the visible ones. Deriving ends and never panics, refuses recursive types and \<open>Schema\<close> functions
    of embedded fields, and describes what \<open>encoding/json\<close> writes, up to three shapes of types whose null is left out,
    two of which are shown as counterexamples, and for programs in which a struct that is embedded several times at
    one depth embeds no other (\<open>repeats_flat\<close>; without it, the fields found are not those of the rules, which is shown
    as well). The search for a function is given as many depths as there are types, which is proved to be enough.

  \<^bold>\<open>HTTP.\<close>
  \<^item> \<open>Http_Errors\<close> (\<open>httpapi/httpapi.go\<close>): the status of an error and what is told about it.
  \<^item> \<open>Http_Tags\<close> (\<open>httpapi/revision.go\<close>): waiting for a revision, entity tags and \<open>If-None-Match\<close>.
  \<^item> \<open>Spell_Out\<close>, \<open>Spell_Exact\<close> (\<open>httpapi/spell_out.go\<close>): the text of a query in a tag, on values in a heap. Spelling ends
    also for values that contain themselves, which are refused. Two values without interfaces are
    written the same exactly if they are equal in every field, so that they share a tag only then; two values in
    an interface may be written the same although they differ, which is shown as a counterexample.
  \<^item> \<open>Http_Requests\<close>, \<open>Http_Routes\<close> (\<open>httpapi/httpapi.go\<close>, \<open>httpapi/query.go\<close>, \<open>httpapi/revision.go\<close>): reading a
    request, executing a command, answering a query. A request from another site never executes a command;
    a route, with or without \<open>Adding\<close>, answers 200 exactly if its command was executed and what is added was added or
    failed with a logged error; a panic is answered with 500 and logged; and 304 is answered only if the view says
    that its revision is still the one of the tag. Functions of a view that wait and of \<open>Varying\<close> do not panic.
  \<^item> \<open>Decoding_Fields\<close>, \<open>Json_Text\<close>, \<open>Decoding\<close> (\<open>httpapi/decoding.go\<close>): what is told about a body that could not be
    decoded. The kinds, fields and paths of types build on \<open>Json_Fields\<close>; the reader of JSON text is that of
    \<open>encoding/json/jsontext\<close>; the errors of the decoders are a datatype. What is told is worded in terms of
    JSON, the field of a name is the one of the rules in \<open>Encoding_Json\<close> where no field is embedded and no name
    is given twice, and a name is called repeated only if an earlier name of its object falls on the same field. Following
    pointers has as many steps as there are types, which is proved to be enough for types whose pointers end.
  \<^item> \<open>Http_Health\<close> (\<open>httpapi/health.go\<close>): readiness and liveness, which say what the channels of the runs say.

  \<^bold>\<open>The test kit\<close> (\<open>architecturekittest\<close>).
  \<^item> \<open>Test_Kit\<close> (\<open>fixture.go\<close>): a test of a decider decides as an attempt of \<open>Execute\<close> does.
  \<^item> \<open>Test_Preconditions\<close> (\<open>precondition.go\<close>): descriptions tell preconditions apart.
  \<^item> \<open>Test_Projection\<close> (\<open>projection.go\<close>): a test of a projection without a checkpoint, or of a transactional
    one within one batch, has the effects of catching up once with the same events.
  \<^item> \<open>Test_Database\<close> (\<open>dbtest/database.go\<close>): databases in containers, whose functions are parameters; a run that
    succeeds leaves no container behind.

  \<^bold>\<open>Interfaces.\<close> The order of revisions, the cache, the views and their indexes, and the steps of a projection
  are locales, whose laws are discharged by interpretations on the definitions of the code.

  \<^bold>\<open>Parameters.\<close> The client of the database is a record of functions on the world; theorems that need its
  documented behaviour take \<open>database_laws\<close> or the laws of a stream as a hypothesis, and a database in memory
  shows that they can hold. Encoding and decoding JSON of the types of an application, parsing media types
  and URLs, the tables of unicode, formatting and parsing floats, clocks and timers are parameters as well.
  \<open>Http_Tags\<close> and \<open>Http_Routes\<close> hold for every way to spell out a query, and \<open>Http_Requests\<close> for every way to decode a body
  and to describe a failure; \<open>Spell_Exact\<close> and \<open>Decoding\<close> are about the code's own.

  \<^bold>\<open>Not modelled.\<close> Logging, the scraps of text that are written before spelling out a value is refused, and the order of
  goroutines within one function that is not written as an argument. Names and strings are compared and
  quoted as ASCII, and JSON text is taken to be valid UTF-8. The client of the database and
  \<open>encoding/json\<close> itself are not part of the repository.
\<close>

end
